(* ===== verification/Prelude.thy ===== *)
theory Prelude
  imports Main "HOL-Library.Word" "HOL-Library.AList" "HOL-Library.Multiset"
begin

text \<open>
  Shared vocabulary of the development: names for the C++ integer types, the byte layout of
  integers and C strings in memory, \<^verbatim>\<open>std::unordered_map\<close> and \<^verbatim>\<open>std::map\<close> as association
  lists, the locales that state what a fixed-size codec and an ordered map promise, and generic
  lemmas on sums over lists that the component theories share.
\<close>

section \<open>Integer types and bytes\<close>

text \<open>
  Signed and unsigned C++ integers are words of the same width. Arithmetic wraps; \<open>sint\<close> reads
  a value of a signed type and \<open>unat\<close> a value of an unsigned type. Conversions between widths
  are \<open>ucast\<close> (from an unsigned type) and \<open>scast\<close> (from a signed type).
\<close>

type_synonym u8 = "8 word"
type_synonym u16 = "16 word"
type_synonym u32 = "32 word"
type_synonym u64 = "64 word"
type_synonym i32 = "32 word"
type_synonym i64 = "64 word"

lemma ucast_back_32: "(ucast (ucast (i :: u32) :: u64) :: u32) = i"
  by (rule bit_word_eqI) (simp add: bit_simps)

text \<open>A byte is a \<open>char\<close>, so that \<^verbatim>\<open>std::string\<close> is \<open>string\<close> both for names and for buffers.\<close>

type_synonym bytes = "char list"

named_theorems codec_simps \<open>sizes and round trips of the byte layouts\<close>
named_theorems umap_simps \<open>lookups after updates of association lists\<close>
named_theorems weight_simps \<open>sums of per-element weights\<close>

subsection \<open>Integers in memory\<close>

fun le_bytes :: "nat \<Rightarrow> nat \<Rightarrow> bytes" where
  "le_bytes 0 v = []"
| "le_bytes (Suc n) v = char_of v # le_bytes n (v div 256)"

fun le_val :: "bytes \<Rightarrow> nat" where
  "le_val [] = 0"
| "le_val (c # cs) = of_char c + 256 * le_val cs"

lemma length_le_bytes [simp, codec_simps]: "length (le_bytes n v) = n"
  by (induction n arbitrary: v) auto

lemma le_val_le_bytes [codec_simps]: "le_val (le_bytes n v) = v mod 256 ^ n"
proof (induction n arbitrary: v)
  case (Suc n)
  have "v mod (256 * 256 ^ n) = 256 * (v div 256 mod 256 ^ n) + v mod 256"
    by (rule mod_mult2_eq)
  with Suc show ?case by simp
qed simp

lemma of_char_nat_less [simp]: "of_char c < (256 :: nat)"
proof -
  have "of_char c mod 256 = (of_char c :: nat)" by (rule of_char_mod_256)
  then show ?thesis by (metis mod_less_divisor zero_less_numeral)
qed

lemma char_of_le_cons [simp]: "char_of (of_char c + 256 * n) = c"
proof -
  have "char_of ((of_char c + 256 * n) mod 256) = char_of (of_char c mod (256 :: nat))" by simp
  then show ?thesis by (simp only: char_of_mod_256 of_char_mod_256 char_of_char)
qed

lemma le_bytes_le_val [codec_simps]: "le_bytes (length cs) (le_val cs) = cs"
proof (induction cs)
  case (Cons c cs)
  have "(of_char c + 256 * le_val cs) div 256 = le_val cs" by simp
  with Cons show ?case by (simp only: list.size le_bytes.simps le_val.simps add_0_right add_Suc_right char_of_le_cons)
qed simp

lemma le_val_bound: "le_val cs < 256 ^ length cs"
proof (induction cs)
  case (Cons c cs)
  have "of_char c < (256 :: nat)" by (rule of_char_nat_less)
  moreover from Cons have "256 * le_val cs + 256 \<le> 256 * 256 ^ length cs" by simp
  ultimately have "of_char c + 256 * le_val cs < 256 * 256 ^ length cs" by linarith
  then show ?case by simp
qed simp

text \<open>The host is little-endian; the packet header alone is sent in network (big-endian) order.\<close>

definition put_u8 :: "u8 \<Rightarrow> bytes" where "put_u8 w = le_bytes 1 (unat w)"
definition put_u16 :: "u16 \<Rightarrow> bytes" where "put_u16 w = le_bytes 2 (unat w)"
definition put_u32 :: "u32 \<Rightarrow> bytes" where "put_u32 w = le_bytes 4 (unat w)"
definition put_u64 :: "u64 \<Rightarrow> bytes" where "put_u64 w = le_bytes 8 (unat w)"

definition get_u8 :: "bytes \<Rightarrow> u8" where "get_u8 bs = of_nat (le_val (take 1 bs))"
definition get_u16 :: "bytes \<Rightarrow> u16" where "get_u16 bs = of_nat (le_val (take 2 bs))"
definition get_u32 :: "bytes \<Rightarrow> u32" where "get_u32 bs = of_nat (le_val (take 4 bs))"
definition get_u64 :: "bytes \<Rightarrow> u64" where "get_u64 bs = of_nat (le_val (take 8 bs))"

lemma length_put [simp, codec_simps]:
  "length (put_u8 a) = 1" "length (put_u16 b) = 2" "length (put_u32 c) = 4" "length (put_u64 d) = 8"
  by (simp_all add: put_u8_def put_u16_def put_u32_def put_u64_def)

lemma get_put_u8 [simp, codec_simps]: "get_u8 (put_u8 w @ bs) = w"
proof -
  have "unat w < 256" using unsigned_less [of w, where ?'a = nat] by simp
  then show ?thesis by (simp add: get_u8_def put_u8_def le_val_le_bytes del: le_bytes.simps)
qed

lemma get_put_u16 [simp, codec_simps]: "get_u16 (put_u16 w @ bs) = w"
proof -
  have "unat w < 65536" using unsigned_less [of w, where ?'a = nat] by simp
  then show ?thesis by (simp add: get_u16_def put_u16_def le_val_le_bytes)
qed

lemma get_put_u32 [simp, codec_simps]: "get_u32 (put_u32 w @ bs) = w"
proof -
  have "unat w < 4294967296" using unsigned_less [of w, where ?'a = nat] by simp
  then show ?thesis by (simp add: get_u32_def put_u32_def le_val_le_bytes)
qed

lemma get_put_u64 [simp, codec_simps]: "get_u64 (put_u64 w @ bs) = w"
proof -
  have "unat w < 18446744073709551616" using unsigned_less [of w, where ?'a = nat] by simp
  then show ?thesis by (simp add: get_u64_def put_u64_def le_val_le_bytes)
qed

lemma get_put_word [simp, codec_simps]:
  "get_u8 (put_u8 a) = a" "get_u16 (put_u16 b) = b" "get_u32 (put_u32 c) = c" "get_u64 (put_u64 d) = d"
  using get_put_u8 [of a "[]"] get_put_u16 [of b "[]"] get_put_u32 [of c "[]"] get_put_u64 [of d "[]"]
  by simp_all

lemma get_prefix [simp]:
  "1 \<le> length bs \<Longrightarrow> get_u8 (bs @ rest) = get_u8 bs" "2 \<le> length bs \<Longrightarrow> get_u16 (bs @ rest) = get_u16 bs"
  "4 \<le> length bs \<Longrightarrow> get_u32 (bs @ rest) = get_u32 bs" "8 \<le> length bs \<Longrightarrow> get_u64 (bs @ rest) = get_u64 bs"
  by (simp_all add: get_u8_def get_u16_def get_u32_def get_u64_def)

text \<open>\<^verbatim>\<open>htons/htonl\<close> reverse the bytes of a value on a little-endian host; \<^verbatim>\<open>ntohs/ntohl\<close> undo it.\<close>

definition htons :: "u16 \<Rightarrow> u16" where "htons w = get_u16 (rev (put_u16 w))"
definition htonl :: "u32 \<Rightarrow> u32" where "htonl w = get_u32 (rev (put_u32 w))"
definition ntohs :: "u16 \<Rightarrow> u16" where "ntohs w = get_u16 (rev (put_u16 w))"
definition ntohl :: "u32 \<Rightarrow> u32" where "ntohl w = get_u32 (rev (put_u32 w))"

lemma put_get_u16: "length bs = 2 \<Longrightarrow> put_u16 (get_u16 bs) = bs"
  using le_val_bound [of bs] le_bytes_le_val [of bs]
  by (simp add: put_u16_def get_u16_def unat_of_nat)

lemma put_get_u32: "length bs = 4 \<Longrightarrow> put_u32 (get_u32 bs) = bs"
  using le_val_bound [of bs] le_bytes_le_val [of bs]
  by (simp add: put_u32_def get_u32_def unat_of_nat)

lemma ntohs_htons [simp, codec_simps]: "ntohs (htons w) = w"
  by (simp add: ntohs_def htons_def put_get_u16)

lemma ntohl_htonl [simp, codec_simps]: "ntohl (htonl w) = w"
  by (simp add: ntohl_def htonl_def put_get_u32)

subsection \<open>Character arrays and C strings\<close>

text \<open>
  \<^verbatim>\<open>std::string s = p\<close> for a pointer \<^verbatim>\<open>p\<close> copies the bytes up to the first NUL. The memory that
  follows \<^verbatim>\<open>p\<close> is the argument; the NUL that \<^verbatim>\<open>std::string::data\<close> guarantees after the last
  byte of a buffer is the end of the list.
\<close>

definition c_str :: "bytes \<Rightarrow> string" where
  "c_str mem = takeWhile (\<lambda>c. c \<noteq> CHR 0x00) mem"

text \<open>\<^verbatim>\<open>memset(buf, 0, n); strncpy(buf, s, n - 1)\<close>: at most \<open>n - 1\<close> bytes, padded with NUL.\<close>

definition fixed_str :: "nat \<Rightarrow> string \<Rightarrow> bytes" where
  "fixed_str n s = (let t = take (n - 1) (c_str s) in t @ replicate (n - length t) (CHR 0x00))"

lemma length_fixed_str [simp, codec_simps]: "0 < n \<Longrightarrow> length (fixed_str n s) = n"
  by (simp add: fixed_str_def Let_def)

lemma c_str_no_nul: "CHR 0x00 \<notin> set (c_str s)"
  using set_takeWhileD unfolding c_str_def by fastforce

lemma c_str_id [simp]: "CHR 0x00 \<notin> set s \<Longrightarrow> c_str s = s"
  unfolding c_str_def by (rule takeWhile_eq_all_conv [THEN iffD2]) auto

lemma c_str_append_nul: "CHR 0x00 \<notin> set s \<Longrightarrow> c_str (s @ CHR 0x00 # rest) = s"
  unfolding c_str_def by (subst takeWhile_append2) auto

lemma c_str_fixed_str [codec_simps]:
  assumes "CHR 0x00 \<notin> set s" and "length s < n"
  shows "c_str (fixed_str n s @ rest) = s"
proof -
  obtain k where "n - length s = Suc k" using assms(2) by (cases "n - length s") auto
  then have "fixed_str n s @ rest = s @ CHR 0x00 # (replicate k (CHR 0x00) @ rest)"
    using assms by (simp add: fixed_str_def Let_def)
  with c_str_append_nul [OF assms(1)] show ?thesis by simp
qed

lemma sum_single [weight_simps]:
  fixes x :: "'w :: comm_monoid_add"
  assumes "finite U" and "u \<in> U"
  shows "(\<Sum>v \<in> U. if v = u \<and> P then x else 0) = (if P then x else 0)"
  using assms by (cases P) simp_all

text \<open>A \<^verbatim>\<open>char\<close> array member of a struct.\<close>

definition put_chars :: "nat \<Rightarrow> bytes \<Rightarrow> bytes" where
  "put_chars n bs = take n (bs @ replicate n (CHR 0x00))"

definition get_chars :: "nat \<Rightarrow> bytes \<Rightarrow> bytes" where
  "get_chars n bs = take n bs"

lemma length_put_chars [simp, codec_simps]: "length (put_chars n bs) = n"
  by (simp add: put_chars_def)

lemma get_chars_prefix [simp]: "n \<le> length bs \<Longrightarrow> get_chars n (bs @ rest) = get_chars n bs"
  by (simp add: get_chars_def)

lemma get_put_chars [simp, codec_simps]: "length bs = n \<Longrightarrow> get_chars n (put_chars n bs @ rest) = bs"
  by (simp add: put_chars_def get_chars_def)

lemma get_put_chars0 [simp, codec_simps]: "length bs = n \<Longrightarrow> get_chars n (put_chars n bs) = bs"
  by (simp add: put_chars_def get_chars_def)

section \<open>Fixed-size codecs\<close>

text \<open>
  What a packed struct promises to the code that casts a buffer to it: every value takes the
  same number of bytes, reading at the start of a buffer gives back what was written there, and
  it looks at no byte behind the struct.
  The array lemmas serve the replies that are a header followed by \<^verbatim>\<open>count\<close> items.
\<close>

locale fixed_codec =
  fixes enc :: "'a \<Rightarrow> bytes" and dec :: "bytes \<Rightarrow> 'a" and width :: nat and ok :: "'a \<Rightarrow> bool"
  assumes enc_length: "ok x \<Longrightarrow> length (enc x) = width"
    and dec_enc: "ok x \<Longrightarrow> dec (enc x @ rest) = x"
    and dec_prefix: "width \<le> length bs \<Longrightarrow> dec (bs @ rest) = dec bs"
    and width_pos: "0 < width"
begin

lemma dec_enc0: "ok x \<Longrightarrow> dec (enc x) = x"
  using dec_enc [of x "[]"] by simp

lemma enc_append_inj: "ok x \<Longrightarrow> ok y \<Longrightarrow> enc x @ r = enc y @ s \<Longrightarrow> x = y \<and> r = s"
  by (metis dec_enc same_append_eq)

lemma array_length: "list_all ok xs \<Longrightarrow> length (concat (map enc xs)) = length xs * width"
  by (induction xs) (auto simp: enc_length)

lemma array_item:
  "list_all ok xs \<Longrightarrow> i < length xs \<Longrightarrow> dec (drop (i * width) (concat (map enc xs) @ rest)) = xs ! i"
proof (induction xs arbitrary: i)
  case (Cons x xs)
  then show ?case
    by (cases i) (simp_all add: dec_enc enc_length)
qed simp

lemma array_items:
  "list_all ok xs \<Longrightarrow> map (\<lambda>i. dec (drop (i * width) (concat (map enc xs) @ rest))) [0..<length xs] = xs"
  by (rule nth_equalityI) (simp_all add: array_item del: drop_append)

end

interpretation u64_codec: fixed_codec put_u64 get_u64 8 "\<lambda>_. True"
  by unfold_locales simp_all

section \<open>Containers of the C++ standard library\<close>

subsection \<open>\<^verbatim>\<open>std::unordered_map\<close>\<close>

text \<open>
  An association list with distinct keys; its order is the iteration order, which the standard
  leaves unspecified, so no statement depends on it. \<open>AList.update\<close> is \<^verbatim>\<open>m[k] = v\<close>,
  \<open>map_of\<close> is \<^verbatim>\<open>find\<close> and \<open>AList.delete\<close> is \<^verbatim>\<open>erase\<close>. \<open>um_at\<close> is the value that \<^verbatim>\<open>m[k]\<close>
  denotes when the missing entry is created with the default \<open>d\<close>.
\<close>

type_synonym ('k, 'v) umap = "('k \<times> 'v) list"

definition um_at :: "'v \<Rightarrow> ('k, 'v) umap \<Rightarrow> 'k \<Rightarrow> 'v" where
  "um_at d m k = (case map_of m k of None \<Rightarrow> d | Some v \<Rightarrow> v)"

definition um_touch :: "'v \<Rightarrow> 'k \<Rightarrow> ('k, 'v) umap \<Rightarrow> ('k, 'v) umap" where
  "um_touch d k m = (case map_of m k of None \<Rightarrow> AList.update k d m | Some v \<Rightarrow> m)"

definition um_wf :: "('k, 'v) umap \<Rightarrow> bool" where
  "um_wf m = distinct (map fst m)"

lemma map_of_um_update [simp, umap_simps]: "map_of (AList.update k v m) = (map_of m)(k \<mapsto> v)"
  by (rule update_conv')

lemma map_of_um_delete [simp, umap_simps]: "map_of (AList.delete k m) = (map_of m)(k := None)"
  by (rule delete_conv')

lemma um_wf_empty [simp]: "um_wf []"
  by (simp add: um_wf_def)

lemma um_wf_update [simp]: "um_wf m \<Longrightarrow> um_wf (AList.update k v m)"
  unfolding um_wf_def by (rule distinct_update)

lemma um_wf_delete [simp]: "um_wf m \<Longrightarrow> um_wf (AList.delete k m)"
  unfolding um_wf_def by (rule distinct_delete)

lemma um_wf_touch [simp]: "um_wf m \<Longrightarrow> um_wf (um_touch d k m)"
  by (simp add: um_touch_def split: option.split)

lemma um_at_update [simp, umap_simps]: "um_at d (AList.update k v m) j = (if j = k then v else um_at d m j)"
  by (simp add: um_at_def)

lemma um_at_touch [simp, umap_simps]: "um_at d (um_touch d k m) j = um_at d m j"
  by (simp add: um_at_def um_touch_def split: option.split)

lemma um_at_empty [simp, umap_simps]: "um_at d [] k = d"
  by (simp add: um_at_def)

lemma um_wf_mem_iff: "um_wf m \<Longrightarrow> (k, v) \<in> set m \<longleftrightarrow> map_of m k = Some v"
  by (simp add: um_wf_def)

lemma update_empty_alist [simp]: "AList.update k v [] = [(k, v)]"
  by simp

subsection \<open>\<^verbatim>\<open>std::map\<close>\<close>

text \<open>
  An association list sorted strictly by the comparator; iteration runs through it in order.
  \<open>om_at\<close> reads or inserts a default, \<open>om_put\<close> stores at a key, \<open>om_erase\<close> removes a key.
\<close>

fun om_put :: "('k \<Rightarrow> 'k \<Rightarrow> bool) \<Rightarrow> 'k \<Rightarrow> 'v \<Rightarrow> ('k \<times> 'v) list \<Rightarrow> ('k \<times> 'v) list" where
  "om_put lt k v [] = [(k, v)]"
| "om_put lt k v ((a, b) # m) =
     (if k = a then (k, v) # m else if lt k a then (k, v) # (a, b) # m else (a, b) # om_put lt k v m)"

definition om_erase :: "'k \<Rightarrow> ('k \<times> 'v) list \<Rightarrow> ('k \<times> 'v) list" where
  "om_erase k m = filter (\<lambda>e. fst e \<noteq> k) m"

definition om_wf :: "('k \<Rightarrow> 'k \<Rightarrow> bool) \<Rightarrow> ('k \<times> 'v) list \<Rightarrow> bool" where
  "om_wf lt m = sorted_wrt lt (map fst m)"

text \<open>
  The comparator is a strict total order, as \<^verbatim>\<open>std::less\<close> and \<^verbatim>\<open>std::greater\<close> on integers are.
\<close>

locale ordered_map =
  fixes lt :: "'k \<Rightarrow> 'k \<Rightarrow> bool"
  assumes lt_irrefl: "\<not> lt a a"
    and lt_trans: "lt a b \<Longrightarrow> lt b c \<Longrightarrow> lt a c"
    and lt_total: "a \<noteq> b \<Longrightarrow> lt a b \<or> lt b a"
begin

lemma put_keys: "set (map fst (om_put lt k v m)) = insert k (set (map fst m))"
proof (induction m)
  case (Cons e m)
  then show ?case by (cases e) (simp add: insert_commute)
qed simp

lemma put_wf: "om_wf lt m \<Longrightarrow> om_wf lt (om_put lt k v m)"
proof (induction m)
  case (Cons e m)
  obtain a b where e: "e = (a, b)" by fastforce
  have hd: "\<forall>x \<in> set (map fst m). lt a x" and tl: "om_wf lt m"
    using Cons.prems by (auto simp: e om_wf_def)
  show ?case
  proof (cases "k = a \<or> lt k a")
    case True
    with hd tl show ?thesis by (auto simp: e om_wf_def intro: lt_trans)
  next
    case False
    then have "lt a k" using lt_total by blast
    with hd have "\<forall>x \<in> set (map fst (om_put lt k v m)). lt a x" by (simp only: put_keys) auto
    with False Cons.IH [OF tl] show ?thesis by (auto simp: e om_wf_def)
  qed
qed (simp add: om_wf_def)

lemma wf_distinct: "om_wf lt m \<Longrightarrow> distinct (map fst m)"
proof -
  have "sorted_wrt lt xs \<Longrightarrow> distinct xs" for xs
    by (induction xs) (use lt_irrefl in auto)
  then show "om_wf lt m \<Longrightarrow> distinct (map fst m)" unfolding om_wf_def .
qed

lemma erase_wf: "om_wf lt m \<Longrightarrow> om_wf lt (om_erase k m)"
  unfolding om_wf_def om_erase_def by (induction m) auto

lemma put_lookup: "om_wf lt m \<Longrightarrow> map_of (om_put lt k v m) = (map_of m)(k \<mapsto> v)"
proof (induction m)
  case (Cons e m)
  obtain a b where e: "e = (a, b)" by fastforce
  from Cons.prems have "om_wf lt m" by (simp add: om_wf_def)
  then show ?case using Cons.IH by (auto simp: e fun_eq_iff)
qed simp

lemma erase_lookup: "map_of (om_erase k m) = (map_of m)(k := None)"
  unfolding om_erase_def by (induction m) auto

lemma put_split:
  assumes "om_wf lt m" and "map_of m k = None"
  shows "om_put lt k v m = filter (\<lambda>e. lt (fst e) k) m @ (k, v) # filter (\<lambda>e. lt k (fst e)) m"
  using assms
proof (induction m)
  case (Cons e m)
  obtain a b where e: "e = (a, b)" by fastforce
  have hd: "\<forall>x \<in> set (map fst m). lt a x" and tl: "om_wf lt m"
    using Cons.prems by (auto simp: e om_wf_def)
  from Cons.prems have ne: "k \<noteq> a" and none: "map_of m k = None" by (auto simp: e split: if_splits)
  show ?case
  proof (cases "lt k a")
    case True
    then have nle: "\<not> lt a k" using lt_irrefl lt_trans by blast
    from True hd have above: "\<forall>x \<in> set m. lt k (fst x) \<and> \<not> lt (fst x) k"
      using lt_irrefl lt_trans by (metis in_set_zipE list.set_map image_eqI)
    then have "filter (\<lambda>e. lt (fst e) k) m = []" "filter (\<lambda>e. lt k (fst e)) m = m"
      by (auto simp: filter_empty_conv)
    with True ne nle show ?thesis by (simp add: e)
  next
    case False
    then have "lt a k" using ne lt_total by blast
    with False ne Cons.IH [OF tl none] show ?thesis by (simp add: e)
  qed
qed simp

end

end
