(* ===== verification/Common.thy ===== *)
theory Common
  imports Prelude
begin

text \<open>
  The data of \<^verbatim>\<open>Common.hpp\<close> and \<^verbatim>\<open>EngineEvent.hpp\<close>: orders, match and cancel records, engine
  events. Orders are shared objects (\<^verbatim>\<open>std::shared_ptr<Order>\<close> is held by the book and by the
  per-user index at once), so they live in an explicit heap and the containers hold addresses.
\<close>

datatype OrderSide = BUY | SELL

definition PRICE_SCALE :: i64 where "PRICE_SCALE = 10000"

record Order =
  o_order_id :: u64
  o_ticker_id :: u32
  o_user_id :: u64
  o_side :: OrderSide
  o_price :: u64
  o_quantity :: u64
  o_timestamp :: u64

record MatchRecord =
  m_ticker_id :: u32
  m_maker_order_id :: u64
  m_taker_order_id :: u64
  m_buyer_user_id :: u64
  m_sell_user_id :: u64
  m_buyer_expected_price :: u64
  m_match_price :: u64
  m_match_quantity :: u64
  m_timestamp :: u64

record CancelRecord =
  c_ticker_id :: u32
  c_order_id :: u64
  c_user_id :: u64
  c_side :: OrderSide
  c_price :: u64
  c_quantity :: u64
  c_timestamp :: u64

text \<open>Addresses of heap objects; \<open>0\<close> is the null pointer.\<close>

type_synonym ptr = nat
type_synonym heap = "ptr \<Rightarrow> Order"

datatype EventType = NEW_ORDER | CANCEL_ORDER

text \<open>\<open>ev_order\<close> is used by new orders only, the cancel fields by cancellations only.\<close>

record EngineEvent =
  ev_type :: EventType
  ev_order :: ptr
  ev_cancel_order_id :: u64
  ev_cancel_user_id :: u64
  ev_ticker_id :: u32

text \<open>A default-constructed event whose \<^verbatim>\<open>type\<close> has then been assigned.\<close>

definition EngineEvent_of :: "EventType \<Rightarrow> EngineEvent" where
  "EngineEvent_of t = \<lparr>ev_type = t, ev_order = 0, ev_cancel_order_id = 0, ev_cancel_user_id = 0,
     ev_ticker_id = 0\<rparr>"

lemma set_quantity_same [simp]: "(x :: Order)\<lparr>o_quantity := o_quantity x\<rparr> = x"
  by simp

lemma OrderSide_neq [simp]: "s \<noteq> BUY \<longleftrightarrow> s = SELL" "s \<noteq> SELL \<longleftrightarrow> s = BUY"
  by (cases s; simp)+

end
