(* ===== verification/OrderBook.thy ===== *)
theory OrderBook
  imports Common
begin

text \<open>
  \<^verbatim>\<open>OrderBook.hpp\<close>: one ticker's book. The definitions follow the class member by member; the
  order priority, the fills and the per-user index are related to a reference matcher in
  \<open>OrderBook_Spec\<close>.
\<close>

section \<open>State\<close>

text \<open>
  Members keep their names without the trailing underscore. \<open>bids\<close> is sorted by \<^verbatim>\<open>std::greater\<close>,
  \<open>asks\<close> by \<^verbatim>\<open>std::less\<close>; each price level is the list of the addresses of its orders, oldest
  first. \<open>user_active_orders\<close> maps a user to a map from order id to the same addresses.
\<close>

type_synonym levels = "(u64 \<times> ptr list) list"
type_synonym active_index = "(u64, (u64, ptr) umap) umap"

record OrderBook =
  ob_ticker_id :: u32
  bids :: levels
  asks :: levels
  user_active_orders :: active_index

definition OrderBook_new :: "u32 \<Rightarrow> OrderBook" where
  "OrderBook_new tid = \<lparr>ob_ticker_id = tid, bids = [], asks = [], user_active_orders = []\<rparr>"

definition active_put :: "u64 \<Rightarrow> u64 \<Rightarrow> ptr \<Rightarrow> active_index \<Rightarrow> active_index" where
  "active_put uid oid p ix = AList.update uid (AList.update oid p (um_at [] ix uid)) ix"

definition active_erase :: "u64 \<Rightarrow> u64 \<Rightarrow> active_index \<Rightarrow> active_index" where
  "active_erase uid oid ix = AList.update uid (AList.delete oid (um_at [] ix uid)) ix"

definition active_find :: "active_index \<Rightarrow> u64 \<Rightarrow> u64 \<Rightarrow> ptr option" where
  "active_find ix uid oid = (case map_of ix uid of None \<Rightarrow> None | Some m \<Rightarrow> map_of m oid)"

definition active_wf :: "active_index \<Rightarrow> bool" where
  "active_wf ix \<longleftrightarrow> um_wf ix \<and> (\<forall>uid m. map_of ix uid = Some m \<longrightarrow> um_wf m)"

section \<open>Matching\<close>

text \<open>
  What the two loops of \<^verbatim>\<open>matchBuyOrder\<close> and \<^verbatim>\<open>matchSellOrder\<close> change besides the side of the
  book they walk: the orders, the index and the result vector.
\<close>

record match_state =
  ms_heap :: heap
  ms_active :: active_index
  ms_results :: "MatchRecord list"

text \<open>
  The inner loop over one price level: \<open>taker\<close> against the orders of the level. The \<open>n\<close>-th
  record pushed in a call carries the clock reading \<open>now n\<close>; \<open>mk\<close> builds the record from the
  taker, the maker, the level's price, the traded quantity and the time.
\<close>

type_synonym mk_record = "Order \<Rightarrow> Order \<Rightarrow> u64 \<Rightarrow> u64 \<Rightarrow> u64 \<Rightarrow> MatchRecord"

definition trade :: "mk_record \<Rightarrow> (nat \<Rightarrow> u64) \<Rightarrow> u64 \<Rightarrow> ptr \<Rightarrow> ptr \<Rightarrow> match_state \<Rightarrow> match_state" where
  "trade mk now price taker p st =
     (let h = ms_heap st;
          trade_qty = min (o_quantity (h taker)) (o_quantity (h p));
          r = mk (h taker) (h p) price trade_qty (now (length (ms_results st)));
          h1 = h(taker := (h taker)\<lparr>o_quantity := o_quantity (h taker) - trade_qty\<rparr>);
          h2 = h1(p := (h1 p)\<lparr>o_quantity := o_quantity (h1 p) - trade_qty\<rparr>)
      in st\<lparr>ms_heap := h2, ms_results := ms_results st @ [r]\<rparr>)"

fun match_list :: "mk_record \<Rightarrow> (nat \<Rightarrow> u64) \<Rightarrow> u64 \<Rightarrow> ptr \<Rightarrow> ptr list \<Rightarrow> match_state
    \<Rightarrow> ptr list \<times> match_state" where
  "match_list mk now price taker [] st = ([], st)"
| "match_list mk now price taker (p # ps) st =
     (if o_quantity (ms_heap st taker) > 0 then
        let st1 = trade mk now price taker p st;
            maker = ms_heap st1 p
        in if o_quantity maker = 0
           then match_list mk now price taker ps
                  (st1\<lparr>ms_active := active_erase (o_user_id maker) (o_order_id maker) (ms_active st1)\<rparr>)
           else (let (ps', st2) = match_list mk now price taker ps st1 in (p # ps', st2))
      else (p # ps, st))"

text \<open>The outer loop over the price levels; \<open>stop\<close> is the price check that breaks it.\<close>

fun match_levels :: "(Order \<Rightarrow> u64 \<Rightarrow> bool) \<Rightarrow> mk_record \<Rightarrow> (nat \<Rightarrow> u64) \<Rightarrow> ptr \<Rightarrow> levels
    \<Rightarrow> match_state \<Rightarrow> levels \<times> match_state" where
  "match_levels stop mk now taker [] st = ([], st)"
| "match_levels stop mk now taker ((price, l) # lv) st =
     (if o_quantity (ms_heap st taker) > 0 then
        if stop (ms_heap st taker) price then ((price, l) # lv, st)
        else (let (l', st1) = match_list mk now price taker l st;
                  (lv', st2) = match_levels stop mk now taker lv st1
              in (if l' = [] then lv' else (price, l') # lv', st2))
      else ((price, l) # lv, st))"

text \<open>\<^verbatim>\<open>levels[price].push_back(p)\<close>.\<close>

definition level_push :: "(u64 \<Rightarrow> u64 \<Rightarrow> bool) \<Rightarrow> u64 \<Rightarrow> ptr \<Rightarrow> levels \<Rightarrow> levels" where
  "level_push lt price p lv = om_put lt price (um_at [] lv price @ [p]) lv"

text \<open>The buyer is the taker: its limit is the expected price, the ask's level the match price.\<close>

definition buy_record :: "u32 \<Rightarrow> mk_record" where
  "buy_record tid buy_order ask_order ask_price trade_qty t =
     \<lparr>m_ticker_id = tid, m_maker_order_id = o_order_id ask_order,
      m_taker_order_id = o_order_id buy_order, m_buyer_user_id = o_user_id buy_order,
      m_sell_user_id = o_user_id ask_order, m_buyer_expected_price = o_price buy_order,
      m_match_price = ask_price, m_match_quantity = trade_qty, m_timestamp = t\<rparr>"

definition buy_stop :: "Order \<Rightarrow> u64 \<Rightarrow> bool" where
  "buy_stop buy_order ask_price \<longleftrightarrow> ask_price > o_price buy_order"

definition matchBuyOrder :: "(nat \<Rightarrow> u64) \<Rightarrow> ptr \<Rightarrow> heap \<Rightarrow> OrderBook \<Rightarrow> MatchRecord list
    \<Rightarrow> heap \<times> OrderBook \<times> MatchRecord list" where
  "matchBuyOrder now p h b results =
     (let (asks', st) = match_levels buy_stop (buy_record (ob_ticker_id b)) now p (asks b)
            \<lparr>ms_heap = h, ms_active = user_active_orders b, ms_results = results\<rparr>;
          h' = ms_heap st;
          b' = b\<lparr>asks := asks', user_active_orders := ms_active st\<rparr>;
          b'' = (if o_quantity (h' p) > 0
                 then b'\<lparr>bids := level_push (>) (o_price (h' p)) p (bids b')\<rparr> else b')
      in (h', b'', ms_results st))"

text \<open>The buyer is the maker: the expected price and the match price are both the bid's.\<close>

definition sell_record :: "u32 \<Rightarrow> mk_record" where
  "sell_record tid sell_order bid_order bids_price trade_qty t =
     \<lparr>m_ticker_id = tid, m_maker_order_id = o_order_id bid_order,
      m_taker_order_id = o_order_id sell_order, m_buyer_user_id = o_user_id bid_order,
      m_sell_user_id = o_user_id sell_order, m_buyer_expected_price = o_price bid_order,
      m_match_price = bids_price, m_match_quantity = trade_qty, m_timestamp = t\<rparr>"

definition sell_stop :: "Order \<Rightarrow> u64 \<Rightarrow> bool" where
  "sell_stop sell_order bids_price \<longleftrightarrow> bids_price < o_price sell_order"

definition matchSellOrder :: "(nat \<Rightarrow> u64) \<Rightarrow> ptr \<Rightarrow> heap \<Rightarrow> OrderBook \<Rightarrow> MatchRecord list
    \<Rightarrow> heap \<times> OrderBook \<times> MatchRecord list" where
  "matchSellOrder now p h b results =
     (let (bids', st) = match_levels sell_stop (sell_record (ob_ticker_id b)) now p (bids b)
            \<lparr>ms_heap = h, ms_active = user_active_orders b, ms_results = results\<rparr>;
          h' = ms_heap st;
          b' = b\<lparr>bids := bids', user_active_orders := ms_active st\<rparr>;
          b'' = (if o_quantity (h' p) > 0
                 then b'\<lparr>asks := level_push (<) (o_price (h' p)) p (asks b')\<rparr> else b')
      in (h', b'', ms_results st))"

definition processOrder :: "(nat \<Rightarrow> u64) \<Rightarrow> ptr \<Rightarrow> heap \<Rightarrow> OrderBook \<Rightarrow> MatchRecord list
    \<Rightarrow> heap \<times> OrderBook \<times> MatchRecord list" where
  "processOrder now p h b results =
     (let (h', b', results') =
            (if o_side (h p) = BUY then matchBuyOrder now p h b results
             else matchSellOrder now p h b results)
      in if o_quantity (h' p) > 0
         then (h', b'\<lparr>user_active_orders :=
                 active_put (o_user_id (h' p)) (o_order_id (h' p)) p (user_active_orders b')\<rparr>, results')
         else (h', b', results'))"

section \<open>Queries and cancellation\<close>

text \<open>The prices are converted from \<^verbatim>\<open>uint64_t\<close> to the \<^verbatim>\<open>int64_t\<close> out-parameters bit by bit.\<close>

definition getBestBidOffer :: "OrderBook \<Rightarrow> i64 \<times> i64" where
  "getBestBidOffer b =
     (case bids b of [] \<Rightarrow> 0 | (price, _) # _ \<Rightarrow> price,
      case asks b of [] \<Rightarrow> 0 | (price, _) # _ \<Rightarrow> price)"

text \<open>\<^verbatim>\<open>list.remove_if(...)\<close> at one level, which is dropped when it becomes empty.\<close>

definition level_remove :: "(u64 \<Rightarrow> u64 \<Rightarrow> bool) \<Rightarrow> heap \<Rightarrow> u64 \<Rightarrow> u64 \<Rightarrow> levels \<Rightarrow> levels" where
  "level_remove lt h price oid lv =
     (let l = filter (\<lambda>q. o_order_id (h q) \<noteq> oid) (um_at [] lv price)
      in if l = [] then om_erase price lv else om_put lt price l lv)"

text \<open>
  The order id parameter is a \<^verbatim>\<open>uint32_t\<close>, although ids are 64-bit everywhere else: it is widened
  again for the lookup and for the comparison. \<open>None\<close> is the null result.
\<close>

definition cancelOrder :: "u32 \<Rightarrow> u64 \<Rightarrow> heap \<Rightarrow> OrderBook \<Rightarrow> ptr option \<times> OrderBook" where
  "cancelOrder order_id user_id h b =
     (case map_of (user_active_orders b) user_id of
        None \<Rightarrow> (None, b)
      | Some orders \<Rightarrow>
          (case map_of orders (ucast order_id) of
             None \<Rightarrow> (None, b)
           | Some p \<Rightarrow>
               let b' = (if o_side (h p) = BUY
                         then b\<lparr>bids := level_remove (>) h (o_price (h p)) (ucast order_id) (bids b)\<rparr>
                         else b\<lparr>asks := level_remove (<) h (o_price (h p)) (ucast order_id) (asks b)\<rparr>)
               in (Some p, b'\<lparr>user_active_orders :=
                     AList.update user_id (AList.delete (ucast order_id) orders) (user_active_orders b')\<rparr>)))"

definition getUserActiveOrder :: "u64 \<Rightarrow> OrderBook \<Rightarrow> ptr list" where
  "getUserActiveOrder user_id b =
     (case map_of (user_active_orders b) user_id of None \<Rightarrow> [] | Some orders \<Rightarrow> map snd orders)"

end
