(* ===== verification/OrderBook_Spec.thy ===== *)
theory OrderBook_Spec
  imports OrderBook
begin

text \<open>
  What the order book promises. The reference matcher \<open>spec_fill\<close> works on the plain list of
  resting orders in priority order; the lemmas show that the nested loops over price levels,
  shared orders and the per-user index compute exactly its result.
\<close>

section \<open>The reference matcher\<close>

text \<open>
  \<open>spec_fill ok q ms\<close> fills a quantity \<open>q\<close> from the makers \<open>ms\<close>, best first, as long as they are
  acceptable: the makers that remain, the fills made (maker before the fill, quantity) and the
  quantity left over.
\<close>

fun spec_fill :: "(Order \<Rightarrow> bool) \<Rightarrow> u64 \<Rightarrow> Order list \<Rightarrow> Order list \<times> (Order \<times> u64) list \<times> u64" where
  "spec_fill ok q [] = ([], [], q)"
| "spec_fill ok q (m # ms) =
     (if q = 0 \<or> \<not> ok m then (m # ms, [], q)
      else if q < o_quantity m
      then (m\<lparr>o_quantity := o_quantity m - q\<rparr> # ms, [(m, q)], 0)
      else (let (r, f, q') = spec_fill ok (q - o_quantity m) ms
            in (r, (m, o_quantity m) # f, q')))"

definition spec_records :: "mk_record \<Rightarrow> (nat \<Rightarrow> u64) \<Rightarrow> nat \<Rightarrow> Order \<Rightarrow> (Order \<times> u64) list \<Rightarrow> MatchRecord list" where
  "spec_records mk now base taker f =
     map (\<lambda>(i, m, t). mk taker m (o_price m) t (now i)) (enumerate base f)"

lemma spec_fill_zero [simp]: "spec_fill ok 0 ms = (ms, [], 0)"
  by (cases ms) auto

lemma spec_fill_append:
  "spec_fill ok q (xs @ ys) =
     (case spec_fill ok q xs of (r, f, q1) \<Rightarrow>
        if r = [] then (case spec_fill ok q1 ys of (r2, f2, q2) \<Rightarrow> (r2, f @ f2, q2))
        else (r @ ys, f, q1))"
  by (induction xs arbitrary: q) (auto split: prod.splits)

text \<open>Acceptable makers are left over only when the quantity is used up.\<close>

lemma spec_fill_exhausts:
  "spec_fill ok q ms = (r, f, q') \<Longrightarrow> \<forall>m \<in> set ms. ok m \<Longrightarrow> r = [] \<or> q' = 0"
  by (induction ms arbitrary: q r f) (auto split: if_splits prod.splits)

lemma spec_fill_pos:
  "spec_fill ok q ms = (r, f, q') \<Longrightarrow> \<forall>m \<in> set ms. 0 < o_quantity m \<Longrightarrow> \<forall>m \<in> set r. 0 < o_quantity m"
proof (induction ms arbitrary: q r f)
  case (Cons m ms)
  have "q < o_quantity m \<Longrightarrow> 0 < o_quantity m - q"
    by (simp add: word_gt_0)
  then show ?case using Cons by (auto split: if_splits prod.splits)
qed simp

lemma spec_records_append:
  "spec_records mk now b taker (f @ g) =
     spec_records mk now b taker f @ spec_records mk now (b + length f) taker g"
  by (simp add: spec_records_def enumerate_append_eq)

lemma spec_records_Nil [simp]: "spec_records mk now b taker [] = []"
  by (simp add: spec_records_def)

lemma length_spec_records [simp]: "length (spec_records mk now b taker f) = length f"
  by (simp add: spec_records_def)

lemma spec_records_Cons:
  "spec_records mk now b taker ((m, t) # f) =
     mk taker m (o_price m) t (now b) # spec_records mk now (Suc b) taker f"
  by (simp add: spec_records_def)

section \<open>The side of a book as a list of resting orders\<close>

definition lv_ptrs :: "levels \<Rightarrow> ptr list" where
  "lv_ptrs lv = concat (map snd lv)"

definition side_view :: "heap \<Rightarrow> levels \<Rightarrow> Order list" where
  "side_view h lv = map h (lv_ptrs lv)"

text \<open>
  A side is well formed: levels strictly sorted and non-empty, every order on it of that side,
  at its level's price, with something left to trade, and of the book's ticker.
\<close>

definition wf_level :: "OrderSide \<Rightarrow> u32 \<Rightarrow> heap \<Rightarrow> u64 \<times> ptr list \<Rightarrow> bool" where
  "wf_level s tid h e \<longleftrightarrow> snd e \<noteq> [] \<and>
     (\<forall>p \<in> set (snd e). o_side (h p) = s \<and> o_price (h p) = fst e \<and> 0 < o_quantity (h p) \<and> o_ticker_id (h p) = tid)"

definition wf_side :: "(u64 \<Rightarrow> u64 \<Rightarrow> bool) \<Rightarrow> OrderSide \<Rightarrow> u32 \<Rightarrow> heap \<Rightarrow> levels \<Rightarrow> bool" where
  "wf_side lt s tid h lv \<longleftrightarrow> om_wf lt lv \<and> (\<forall>e \<in> set lv. wf_level s tid h e)"

lemma lv_ptrs_Nil [simp]: "lv_ptrs [] = []"
  by (simp add: lv_ptrs_def)

lemma lv_ptrs_Cons [simp]: "lv_ptrs (e # lv) = snd e @ lv_ptrs lv"
  by (simp add: lv_ptrs_def)

lemma lv_ptrs_append [simp]: "lv_ptrs (xs @ ys) = lv_ptrs xs @ lv_ptrs ys"
  by (simp add: lv_ptrs_def)

lemma in_lv_ptrs: "p \<in> set (lv_ptrs lv) \<longleftrightarrow> (\<exists>e \<in> set lv. p \<in> set (snd e))"
  by (auto simp: lv_ptrs_def)

lemma wf_side_Cons:
  "wf_side lt s tid h (e # lv) \<longleftrightarrow>
     wf_level s tid h e \<and> wf_side lt s tid h lv \<and> (\<forall>x \<in> set lv. lt (fst e) (fst x))"
  by (auto simp: wf_side_def om_wf_def)

lemma wf_side_order:
  assumes "wf_side lt s tid h lv" and "p \<in> set (lv_ptrs lv)"
  shows "o_side (h p) = s" "0 < o_quantity (h p)" "o_ticker_id (h p) = tid"
  using assms by (auto simp: wf_side_def wf_level_def in_lv_ptrs)

lemma wf_level_cong:
  assumes "wf_level s tid h e"
    and "\<And>p. p \<in> set (snd e) \<Longrightarrow> h' p = h p"
  shows "wf_level s tid h' e"
  using assms by (auto simp: wf_level_def)

lemma wf_side_cong:
  assumes "wf_side lt s tid h lv"
    and "\<And>p. p \<in> set (lv_ptrs lv) \<Longrightarrow> h' p = h p"
  shows "wf_side lt s tid h' lv"
  using assms by (auto simp: wf_side_def in_lv_ptrs intro: wf_level_cong)

section \<open>The per-user index\<close>

lemma active_find_put [simp]:
  "active_find (active_put u i p ix) u' i' = (if u' = u \<and> i' = i then Some p else active_find ix u' i')"
  by (auto simp: active_find_def active_put_def um_at_def split: option.splits)

lemma active_find_erase [simp]:
  "active_find (active_erase u i ix) u' i' = (if u' = u \<and> i' = i then None else active_find ix u' i')"
  by (auto simp: active_find_def active_erase_def um_at_def split: option.splits)

lemma active_wf_empty [simp]: "active_wf []"
  by (simp add: active_wf_def)

lemma active_wf_at: "active_wf ix \<Longrightarrow> um_wf (um_at [] ix u)"
  by (auto simp: active_wf_def um_at_def split: option.splits)

lemma active_wf_put [simp]: "active_wf ix \<Longrightarrow> active_wf (active_put u i p ix)"
  using active_wf_at [of ix u] by (auto simp: active_wf_def active_put_def)

lemma active_wf_erase [simp]: "active_wf ix \<Longrightarrow> active_wf (active_erase u i ix)"
  using active_wf_at [of ix u] by (auto simp: active_wf_def active_erase_def)

section \<open>The loops compute the reference matcher\<close>

text \<open>
  The contract between the loops and the record constructor they are given: a record depends
  on the identity, the owner and the limit of the two orders, not on what is left of them.
\<close>

locale matching =
  fixes mk :: mk_record
  assumes mk_taker: "mk (x\<lparr>o_quantity := q\<rparr>) m price t now = mk x m price t now"
    and mk_maker: "mk x (m\<lparr>o_quantity := q\<rparr>) price t now = mk x m price t now"
begin

lemma spec_records_taker [simp]:
  "spec_records mk now b (x\<lparr>o_quantity := q\<rparr>) f = spec_records mk now b x f"
  by (simp add: spec_records_def mk_taker)

end

text \<open>
  The state after the loops have walked over the addresses \<open>l\<close> and left \<open>l'\<close> of them: the
  remaining makers are a suffix with the reference's quantities, the removed ones are empty and
  off the index, the taker holds what is left over, nothing else has changed.
\<close>

definition filled_to :: "mk_record \<Rightarrow> (nat \<Rightarrow> u64) \<Rightarrow> (Order \<Rightarrow> bool) \<Rightarrow> ptr \<Rightarrow> ptr list \<Rightarrow> match_state
    \<Rightarrow> ptr list \<Rightarrow> match_state \<Rightarrow> bool" where
  "filled_to mk now ok taker l st l' st' \<longleftrightarrow>
     (\<exists>gone f q'.
        spec_fill ok (o_quantity (ms_heap st taker)) (map (ms_heap st) l) = (map (ms_heap st') l', f, q') \<and>
        l = gone @ l' \<and>
        (\<forall>x \<in> set gone. ms_heap st' x = (ms_heap st x)\<lparr>o_quantity := 0\<rparr>) \<and>
        (\<forall>u i. active_find (ms_active st') u i =
           (if \<exists>x \<in> set gone. o_user_id (ms_heap st x) = u \<and> o_order_id (ms_heap st x) = i
            then None else active_find (ms_active st) u i)) \<and>
        ms_heap st' taker = (ms_heap st taker)\<lparr>o_quantity := q'\<rparr> \<and>
        (\<forall>x. x \<noteq> taker \<and> x \<notin> set l \<longrightarrow> ms_heap st' x = ms_heap st x) \<and>
        (active_wf (ms_active st) \<longrightarrow> active_wf (ms_active st')) \<and>
        ms_results st' = ms_results st @
          spec_records mk now (length (ms_results st)) (ms_heap st taker) f)"

lemma filled_toI:
  assumes "spec_fill ok (o_quantity (ms_heap st taker)) (map (ms_heap st) l) = (map (ms_heap st') l', f, q')"
    and "l = gone @ l'"
    and "\<And>x. x \<in> set gone \<Longrightarrow> ms_heap st' x = (ms_heap st x)\<lparr>o_quantity := 0\<rparr>"
    and "\<And>u i. active_find (ms_active st') u i =
           (if \<exists>x \<in> set gone. o_user_id (ms_heap st x) = u \<and> o_order_id (ms_heap st x) = i
            then None else active_find (ms_active st) u i)"
    and "ms_heap st' taker = (ms_heap st taker)\<lparr>o_quantity := q'\<rparr>"
    and "\<And>x. x \<noteq> taker \<Longrightarrow> x \<notin> set l \<Longrightarrow> ms_heap st' x = ms_heap st x"
    and "active_wf (ms_active st) \<Longrightarrow> active_wf (ms_active st')"
    and "ms_results st' = ms_results st @ spec_records mk now (length (ms_results st)) (ms_heap st taker) f"
  shows "filled_to mk now ok taker l st l' st'"
  unfolding filled_to_def using assms
  by (intro exI [of _ gone] exI [of _ f] exI [of _ q'] conjI) simp_all

lemma filled_toE:
  assumes "filled_to mk now ok taker l st l' st'"
  obtains gone f q' where
    "spec_fill ok (o_quantity (ms_heap st taker)) (map (ms_heap st) l) = (map (ms_heap st') l', f, q')"
    and "l = gone @ l'"
    and "\<And>x. x \<in> set gone \<Longrightarrow> ms_heap st' x = (ms_heap st x)\<lparr>o_quantity := 0\<rparr>"
    and "\<And>u i. active_find (ms_active st') u i =
           (if \<exists>x \<in> set gone. o_user_id (ms_heap st x) = u \<and> o_order_id (ms_heap st x) = i
            then None else active_find (ms_active st) u i)"
    and "ms_heap st' taker = (ms_heap st taker)\<lparr>o_quantity := q'\<rparr>"
    and "\<And>x. x \<noteq> taker \<Longrightarrow> x \<notin> set l \<Longrightarrow> ms_heap st' x = ms_heap st x"
    and "active_wf (ms_active st) \<Longrightarrow> active_wf (ms_active st')"
    and "ms_results st' = ms_results st @ spec_records mk now (length (ms_results st)) (ms_heap st taker) f"
  using assms unfolding filled_to_def by (elim exE conjE) (rule that; blast)

lemma filled_to_refl:
  assumes "o_quantity (ms_heap st taker) = 0 \<or> l = [] \<or> \<not> ok (ms_heap st (hd l))"
  shows "filled_to mk now ok taker l st l st"
proof (rule filled_toI [where gone = "[]" and f = "[]" and q' = "o_quantity (ms_heap st taker)"])
  show "spec_fill ok (o_quantity (ms_heap st taker)) (map (ms_heap st) l) =
      (map (ms_heap st) l, [], o_quantity (ms_heap st taker))"
    using assms by (cases l) auto
qed simp_all

lemma filled_to_stop:
  assumes "filled_to mk now ok taker l st l' st1" and "l' \<noteq> []" and "taker \<notin> set m" and "set l \<inter> set m = {}"
  shows "filled_to mk now ok taker (l @ m) st (l' @ m) st1"
  using assms(1)
proof (rule filled_toE)
  fix gone f q'
  assume *: "spec_fill ok (o_quantity (ms_heap st taker)) (map (ms_heap st) l) = (map (ms_heap st1) l', f, q')"
    and same: "\<And>x. x \<noteq> taker \<Longrightarrow> x \<notin> set l \<Longrightarrow> ms_heap st1 x = ms_heap st x"
    and rest: "l = gone @ l'" "\<And>x. x \<in> set gone \<Longrightarrow> ms_heap st1 x = (ms_heap st x)\<lparr>o_quantity := 0\<rparr>"
      "\<And>u i. active_find (ms_active st1) u i =
           (if \<exists>x \<in> set gone. o_user_id (ms_heap st x) = u \<and> o_order_id (ms_heap st x) = i
            then None else active_find (ms_active st) u i)"
      "ms_heap st1 taker = (ms_heap st taker)\<lparr>o_quantity := q'\<rparr>"
      "active_wf (ms_active st) \<Longrightarrow> active_wf (ms_active st1)"
      "ms_results st1 = ms_results st @ spec_records mk now (length (ms_results st)) (ms_heap st taker) f"
  have "\<And>x. x \<in> set m \<Longrightarrow> ms_heap st1 x = ms_heap st x"
    using same assms(3,4) by (metis disjoint_iff)
  then have m_same: "map (ms_heap st1) m = map (ms_heap st) m" by simp
  show ?thesis
  proof (rule filled_toI [where gone = gone and f = f and q' = q'])
    show "spec_fill ok (o_quantity (ms_heap st taker)) (map (ms_heap st) (l @ m)) =
        (map (ms_heap st1) (l' @ m), f, q')"
      using * assms(2) m_same by (simp add: spec_fill_append)
  qed (use rest same in auto)
qed

context matching
begin

lemma filled_to_append:
  assumes 1: "filled_to mk now ok taker l st [] st1" and 2: "filled_to mk now ok taker m st1 m' st2"
    and dis: "taker \<notin> set l" "taker \<notin> set m" "set l \<inter> set m = {}"
  shows "filled_to mk now ok taker (l @ m) st m' st2"
proof -
  from 1 obtain f1 q1 where s1: "spec_fill ok (o_quantity (ms_heap st taker)) (map (ms_heap st) l) = ([], f1, q1)"
    and g1: "\<And>x. x \<in> set l \<Longrightarrow> ms_heap st1 x = (ms_heap st x)\<lparr>o_quantity := 0\<rparr>"
    and a1: "\<And>u i. active_find (ms_active st1) u i =
           (if \<exists>x \<in> set l. o_user_id (ms_heap st x) = u \<and> o_order_id (ms_heap st x) = i
            then None else active_find (ms_active st) u i)"
    and t1: "ms_heap st1 taker = (ms_heap st taker)\<lparr>o_quantity := q1\<rparr>"
    and same1: "\<And>x. x \<noteq> taker \<Longrightarrow> x \<notin> set l \<Longrightarrow> ms_heap st1 x = ms_heap st x"
    and w1: "active_wf (ms_active st) \<Longrightarrow> active_wf (ms_active st1)"
    and r1: "ms_results st1 = ms_results st @ spec_records mk now (length (ms_results st)) (ms_heap st taker) f1"
    by (rule filled_toE) auto
  have in_m: "\<And>x. x \<in> set m \<Longrightarrow> ms_heap st1 x = ms_heap st x"
    using same1 dis by (metis disjoint_iff)
  then have m_same: "map (ms_heap st1) m = map (ms_heap st) m" by simp
  from 2 obtain gone f2 q2 where
      s2': "spec_fill ok (o_quantity (ms_heap st1 taker)) (map (ms_heap st1) m) = (map (ms_heap st2) m', f2, q2)"
    and m: "m = gone @ m'"
    and g2: "\<And>x. x \<in> set gone \<Longrightarrow> ms_heap st2 x = (ms_heap st1 x)\<lparr>o_quantity := 0\<rparr>"
    and a2: "\<And>u i. active_find (ms_active st2) u i =
           (if \<exists>x \<in> set gone. o_user_id (ms_heap st1 x) = u \<and> o_order_id (ms_heap st1 x) = i
            then None else active_find (ms_active st1) u i)"
    and t2: "ms_heap st2 taker = (ms_heap st1 taker)\<lparr>o_quantity := q2\<rparr>"
    and same2: "\<And>x. x \<noteq> taker \<Longrightarrow> x \<notin> set m \<Longrightarrow> ms_heap st2 x = ms_heap st1 x"
    and w2: "active_wf (ms_active st1) \<Longrightarrow> active_wf (ms_active st2)"
    and r2: "ms_results st2 = ms_results st1 @ spec_records mk now (length (ms_results st1)) (ms_heap st1 taker) f2"
    by (rule filled_toE) blast
  from s2' have s2: "spec_fill ok q1 (map (ms_heap st) m) = (map (ms_heap st2) m', f2, q2)"
    by (simp only: m_same) (simp add: t1)
  show ?thesis
  proof (rule filled_toI [where gone = "l @ gone" and f = "f1 @ f2" and q' = q2])
    show "spec_fill ok (o_quantity (ms_heap st taker)) (map (ms_heap st) (l @ m)) = (map (ms_heap st2) m', f1 @ f2, q2)"
      by (simp add: spec_fill_append s1 s2)
    show "ms_heap st2 x = (ms_heap st x)\<lparr>o_quantity := 0\<rparr>" if "x \<in> set (l @ gone)" for x
    proof (cases "x \<in> set l")
      case True
      with dis have "x \<noteq> taker" "x \<notin> set m" by auto
      with True show ?thesis by (simp add: same2 g1)
    next
      case False
      with that have "x \<in> set gone" by simp
      with m show ?thesis by (simp add: g2 in_m)
    qed
    show "active_find (ms_active st2) u i =
           (if \<exists>x \<in> set (l @ gone). o_user_id (ms_heap st x) = u \<and> o_order_id (ms_heap st x) = i
            then None else active_find (ms_active st) u i)" for u i
      using m in_m by (auto simp: a1 a2)
    show "ms_results st2 = ms_results st @
        spec_records mk now (length (ms_results st)) (ms_heap st taker) (f1 @ f2)"
      by (simp add: r1 r2 t1 spec_records_append)
  qed (use m t1 t2 same1 same2 w1 w2 in auto)
qed

lemma match_list_zero: "o_quantity (ms_heap st taker) = 0 \<Longrightarrow> match_list mk now price taker l st = (l, st)"
  by (cases l) auto

lemma filled_to_partial:
  fixes now price taker p st
  defines "st1 \<equiv> trade mk now price taker p st"
  assumes "taker \<noteq> p" and "0 < o_quantity (ms_heap st taker)" and "ok (ms_heap st p)"
    and "o_quantity (ms_heap st taker) < o_quantity (ms_heap st p)" and "price = o_price (ms_heap st p)"
  shows "filled_to mk now ok taker [p] st [p] st1"
  by (rule filled_toI [where gone = "[]" and f = "[(ms_heap st p, o_quantity (ms_heap st taker))]" and q' = 0])
    (use assms in \<open>auto simp: trade_def Let_def spec_records_def\<close>)

lemma filled_to_complete:
  fixes now price taker p st
  defines "st1 \<equiv> trade mk now price taker p st"
  assumes "taker \<noteq> p" and "0 < o_quantity (ms_heap st taker)" and "ok (ms_heap st p)"
    and "o_quantity (ms_heap st p) \<le> o_quantity (ms_heap st taker)" and "price = o_price (ms_heap st p)"
  shows "filled_to mk now ok taker [p] st []
    (st1\<lparr>ms_active := active_erase (o_user_id (ms_heap st1 p)) (o_order_id (ms_heap st1 p)) (ms_active st1)\<rparr>)"
  by (rule filled_toI [where gone = "[p]" and f = "[(ms_heap st p, o_quantity (ms_heap st p))]"
        and q' = "o_quantity (ms_heap st taker) - o_quantity (ms_heap st p)"])
    (use assms in \<open>auto simp: trade_def Let_def spec_records_def min_def\<close>)

lemma trade_rest:
  assumes "taker \<noteq> p"
  shows "o_quantity (ms_heap (trade mk now price taker p st) p) = 0 \<longleftrightarrow>
     o_quantity (ms_heap st p) \<le> o_quantity (ms_heap st taker)"
    and "o_quantity (ms_heap st taker) < o_quantity (ms_heap st p) \<Longrightarrow>
     o_quantity (ms_heap (trade mk now price taker p st) taker) = 0"
  using assms by (auto simp: trade_def Let_def min_def)

lemma match_list_filled:
  assumes "taker \<notin> set l" and "distinct l"
    and "\<forall>p \<in> set l. o_price (ms_heap st p) = price \<and> ok (ms_heap st p)"
  shows "filled_to mk now ok taker l st (fst (match_list mk now price taker l st)) (snd (match_list mk now price taker l st))"
  using assms
proof (induction l arbitrary: st)
  case Nil
  then show ?case by (simp add: filled_to_refl)
next
  case (Cons p ps)
  let ?st1 = "trade mk now price taker p st"
  let ?st2 = "?st1\<lparr>ms_active := active_erase (o_user_id (ms_heap ?st1 p)) (o_order_id (ms_heap ?st1 p)) (ms_active ?st1)\<rparr>"
  have tp: "taker \<noteq> p" and dis: "set [p] \<inter> set ps = {}" "taker \<notin> set [p]" "taker \<notin> set ps"
    using Cons.prems by auto
  consider "o_quantity (ms_heap st taker) = 0"
    | "0 < o_quantity (ms_heap st taker)" "o_quantity (ms_heap st taker) < o_quantity (ms_heap st p)"
    | "0 < o_quantity (ms_heap st taker)" "o_quantity (ms_heap st p) \<le> o_quantity (ms_heap st taker)"
    using word_gt_0 by (metis not_le)
  then show ?case
  proof cases
    case 1
    then show ?thesis by (simp add: filled_to_refl)
  next
    case 2
    then have eq: "match_list mk now price taker (p # ps) st = ([p] @ ps, ?st1)"
      using tp by (simp add: trade_rest match_list_zero Let_def)
    have "filled_to mk now ok taker [p] st [p] ?st1"
      by (rule filled_to_partial) (use Cons.prems tp 2 in auto)
    then have "filled_to mk now ok taker ([p] @ ps) st ([p] @ ps) ?st1"
      by (rule filled_to_stop) (use dis in auto)
    then show ?thesis unfolding eq by simp
  next
    case 3
    then have eq: "match_list mk now price taker (p # ps) st = match_list mk now price taker ps ?st2"
      using tp by (simp add: trade_rest Let_def)
    have first: "filled_to mk now ok taker [p] st [] ?st2"
      by (rule filled_to_complete) (use Cons.prems tp 3 in auto)
    have same: "ms_heap ?st2 x = ms_heap st x" if "x \<in> set ps" for x
      using that dis Cons.prems(1) by (auto simp: trade_def Let_def)
    have "filled_to mk now ok taker ps ?st2 (fst (match_list mk now price taker ps ?st2))
        (snd (match_list mk now price taker ps ?st2))"
      by (rule Cons.IH) (use Cons.prems same in auto)
    from filled_to_append [OF first this] dis show ?thesis unfolding eq by simp
  qed
qed

end

subsection \<open>All levels\<close>

text \<open>
  The price check that breaks the outer loop looks at the taker's limit only, and it stops at a
  level exactly when the taker would not accept an order of that level.
\<close>

locale level_matching = matching +
  fixes stop :: "Order \<Rightarrow> u64 \<Rightarrow> bool"
  assumes stop_taker: "stop (x\<lparr>o_quantity := q\<rparr>) price = stop x price"
begin

lemma match_levels_zero:
  "o_quantity (ms_heap st taker) = 0 \<Longrightarrow> match_levels stop mk now taker lv st = (lv, st)"
  by (cases lv) auto

lemma match_levels_go:
  fixes now price taker l st lv
  defines "a \<equiv> match_list mk now price taker l st"
  defines "b \<equiv> match_levels stop mk now taker lv (snd a)"
  assumes "\<not> (o_quantity (ms_heap st taker) = 0 \<or> stop (ms_heap st taker) price)"
  shows "fst (match_levels stop mk now taker ((price, l) # lv) st) = (if fst a = [] then fst b else (price, fst a) # fst b)"
    and "snd (match_levels stop mk now taker ((price, l) # lv) st) = snd b"
  using assms by (auto simp: word_gt_0 split: prod.splits)

lemma match_levels_filled:
  assumes "taker \<notin> set (lv_ptrs lv)" and "distinct (lv_ptrs lv)"
    and "\<forall>e \<in> set lv. snd e \<noteq> [] \<and> (\<forall>p \<in> set (snd e). o_price (ms_heap st p) = fst e)"
    and "ok = (\<lambda>m. \<not> stop (ms_heap st taker) (o_price m))"
  shows "filled_to mk now ok taker (lv_ptrs lv) st (lv_ptrs (fst (match_levels stop mk now taker lv st)))
    (snd (match_levels stop mk now taker lv st))"
  using assms
proof (induction lv arbitrary: st)
  case Nil
  then show ?case by (simp add: filled_to_refl)
next
  case (Cons e lv)
  obtain price l where e: "e = (price, l)" by fastforce
  let ?l' = "fst (match_list mk now price taker l st)" and ?st1 = "snd (match_list mk now price taker l st)"
  have dis: "taker \<notin> set l" "taker \<notin> set (lv_ptrs lv)" "set l \<inter> set (lv_ptrs lv) = {}"
    and l: "l \<noteq> []" "\<forall>p \<in> set l. o_price (ms_heap st p) = price"
    using Cons.prems by (auto simp: e)
  show ?case
  proof (cases "o_quantity (ms_heap st taker) = 0 \<or> stop (ms_heap st taker) price")
    case True
    then have eq: "match_levels stop mk now taker (e # lv) st = (e # lv, st)" by (auto simp: e)
    have "filled_to mk now ok taker (lv_ptrs (e # lv)) st (lv_ptrs (e # lv)) st"
      by (rule filled_to_refl) (use True l Cons.prems(4) in \<open>auto simp: e\<close>)
    then show ?thesis by (simp only: eq fst_conv snd_conv)
  next
    case False
    note go = match_levels_go [OF False]
    have first: "filled_to mk now ok taker l st ?l' ?st1"
      by (rule match_list_filled) (use Cons.prems l False in \<open>auto simp: e\<close>)
    show ?thesis
    proof (cases "?l' = []")
      case True
      from first obtain q1 where t1: "ms_heap ?st1 taker = (ms_heap st taker)\<lparr>o_quantity := q1\<rparr>"
        and same: "\<And>x. x \<noteq> taker \<Longrightarrow> x \<notin> set l \<Longrightarrow> ms_heap ?st1 x = ms_heap st x"
        by (rule filled_toE) blast
      have "\<And>p. p \<in> set (lv_ptrs lv) \<Longrightarrow> ms_heap ?st1 p = ms_heap st p"
        using same dis by (metis disjoint_iff)
      then have "\<forall>e \<in> set lv. snd e \<noteq> [] \<and> (\<forall>p \<in> set (snd e). o_price (ms_heap ?st1 p) = fst e)"
        using Cons.prems(3) by (metis in_lv_ptrs list.set_intros(2))
      then have "filled_to mk now ok taker (lv_ptrs lv) ?st1
          (lv_ptrs (fst (match_levels stop mk now taker lv ?st1))) (snd (match_levels stop mk now taker lv ?st1))"
        using Cons.prems dis by (intro Cons.IH) (auto simp: e t1 stop_taker)
      from filled_to_append [OF first [unfolded True] this] dis True show ?thesis
        by (simp add: go e del: match_levels.simps)
    next
      case False
      from first obtain f q' where
        sf: "spec_fill ok (o_quantity (ms_heap st taker)) (map (ms_heap st) l) = (map (ms_heap ?st1) ?l', f, q')"
        and t1: "ms_heap ?st1 taker = (ms_heap st taker)\<lparr>o_quantity := q'\<rparr>"
        by (rule filled_toE) blast
      have "\<forall>m \<in> set (map (ms_heap st) l). ok m" using l \<open>\<not> (_ \<or> _)\<close> Cons.prems(4) by auto
      from spec_fill_exhausts [OF sf this] False have "q' = 0" by simp
      then have "match_levels stop mk now taker lv ?st1 = (lv, ?st1)"
        by (intro match_levels_zero) (simp add: t1)
      with filled_to_stop [OF first False dis(2,3)] False show ?thesis
        by (simp add: go e del: match_levels.simps)
    qed
  qed
qed

end

subsection \<open>Price levels as priority lists\<close>

locale price_levels = ordered_map lt for lt :: "u64 \<Rightarrow> u64 \<Rightarrow> bool"
begin

lemma level_push_keys: "set (map fst (level_push lt k p lv)) = insert k (set (map fst lv))"
  unfolding level_push_def by (rule put_keys)

text \<open>A new order goes behind every order that is not worse: price priority, then time.\<close>

lemma level_push_ptrs:
  "om_wf lt lv \<Longrightarrow> lv_ptrs (level_push lt k p lv) =
     lv_ptrs (filter (\<lambda>e. \<not> lt k (fst e)) lv) @ p # lv_ptrs (filter (\<lambda>e. lt k (fst e)) lv)"
proof (induction lv)
  case Nil
  then show ?case by (simp add: level_push_def)
next
  case (Cons e lv)
  obtain a l where e: "e = (a, l)" by fastforce
  have hd: "\<forall>x \<in> set lv. lt a (fst x)" and tl: "om_wf lt lv"
    using Cons.prems by (auto simp: e om_wf_def)
  consider "k = a" | "k \<noteq> a" "lt k a" | "k \<noteq> a" "lt a k" "\<not> lt k a"
    using lt_total lt_trans lt_irrefl by metis
  then show ?case
  proof cases
    case 1
    with hd have "filter (\<lambda>e. \<not> lt k (fst e)) lv = []" "filter (\<lambda>e. lt k (fst e)) lv = lv"
      by (auto simp: filter_empty_conv)
    with 1 show ?thesis by (simp add: e level_push_def um_at_def lt_irrefl)
  next
    case 2
    then have "\<forall>x \<in> set lv. lt k (fst x)" using hd lt_trans by blast
    then have "filter (\<lambda>e. \<not> lt k (fst e)) lv = []" "filter (\<lambda>e. lt k (fst e)) lv = lv"
      "map_of lv k = None" using lt_irrefl by (auto simp: filter_empty_conv map_of_eq_None_iff)
    with 2 show ?thesis by (simp add: e level_push_def um_at_def)
  next
    case 3
    with Cons.IH [OF tl] show ?thesis by (simp add: e level_push_def um_at_def)
  qed
qed

lemma level_push_entry:
  assumes "om_wf lt lv" and "e \<in> set (level_push lt k p lv)"
  shows "e \<in> set lv \<or> e = (k, um_at [] lv k @ [p])"
proof -
  have "map_of (level_push lt k p lv) (fst e) = Some (snd e)"
    using assms by (simp add: level_push_def wf_distinct put_wf)
  then show ?thesis using assms(1)
    by (cases e) (auto simp: level_push_def put_lookup dest: map_of_SomeD split: if_splits)
qed

lemma level_push_wf:
  assumes wf: "wf_side lt s tid h lv"
    and p: "o_side (h p) = s" "o_ticker_id (h p) = tid" "0 < o_quantity (h p)" "k = o_price (h p)"
  shows "wf_side lt s tid h (level_push lt k p lv)"
  unfolding wf_side_def
proof
  from wf have om: "om_wf lt lv" by (simp add: wf_side_def)
  then show "om_wf lt (level_push lt k p lv)" unfolding level_push_def by (rule put_wf)
  show "\<forall>e \<in> set (level_push lt k p lv). wf_level s tid h e"
  proof
    fix e assume "e \<in> set (level_push lt k p lv)"
    with level_push_entry [OF om] consider "e \<in> set lv" | "e = (k, um_at [] lv k @ [p])" by blast
    then show "wf_level s tid h e"
    proof cases
      case 1
      with wf show ?thesis by (simp add: wf_side_def)
    next
      case 2
      have "\<forall>q \<in> set (um_at [] lv k). o_side (h q) = s \<and> o_price (h q) = k \<and> 0 < o_quantity (h q) \<and> o_ticker_id (h q) = tid"
      proof (cases "map_of lv k")
        case (Some l)
        then have "wf_level s tid h (k, l)" using wf by (auto simp: wf_side_def dest: map_of_SomeD)
        with Some show ?thesis by (simp add: um_at_def wf_level_def)
      qed (simp add: um_at_def)
      with 2 p show ?thesis by (auto simp: wf_level_def)
    qed
  qed
qed

text \<open>The filter by level price is a filter by order price.\<close>

lemma side_view_filter:
  assumes "\<forall>e \<in> set lv. wf_level s tid h e"
  shows "side_view h (filter (\<lambda>e. P (fst e)) lv) = filter (\<lambda>x. P (o_price x)) (side_view h lv)"
  using assms
proof (induction lv)
  case (Cons e lv)
  have "filter (\<lambda>x. P (o_price x)) (map h (snd e)) = (if P (fst e) then map h (snd e) else [])"
    using Cons.prems by (auto simp: wf_level_def filter_empty_conv intro!: filter_True)
  with Cons show ?case by (simp add: side_view_def)
qed (simp add: side_view_def)

lemma level_push_view:
  assumes "wf_side lt s tid h lv"
  shows "side_view h (level_push lt k p lv) =
    filter (\<lambda>x. \<not> lt k (o_price x)) (side_view h lv) @ h p # filter (\<lambda>x. lt k (o_price x)) (side_view h lv)"
proof -
  have om: "om_wf lt lv" and lvl: "\<forall>e \<in> set lv. wf_level s tid h e"
    using assms by (auto simp: wf_side_def)
  show ?thesis
    using side_view_filter [OF lvl, of "\<lambda>a. \<not> lt k a"] side_view_filter [OF lvl, of "lt k"]
    by (simp add: side_view_def level_push_ptrs [OF om])
qed

lemma level_push_mset: "om_wf lt lv \<Longrightarrow> mset (lv_ptrs (level_push lt k p lv)) = add_mset p (mset (lv_ptrs lv))"
proof -
  assume "om_wf lt lv"
  moreover have "mset (lv_ptrs (filter P lv)) + mset (lv_ptrs (filter (\<lambda>e. \<not> P e) lv)) = mset (lv_ptrs lv)" for P
    by (induction lv) auto
  from this [of "\<lambda>e. lt k (fst e)"] show ?thesis
    by (simp add: level_push_ptrs [OF calculation] union_commute)
qed

lemma level_push_set: "om_wf lt lv \<Longrightarrow> set (lv_ptrs (level_push lt k p lv)) = insert p (set (lv_ptrs lv))"
  by (metis level_push_mset set_mset_add_mset_insert set_mset_mset)

end

text \<open>The two takers: a buy order walks the asks, a sell order the bids.\<close>

locale taker_side = level_matching mk stop + price_levels lt
  for mk :: mk_record and stop :: "Order \<Rightarrow> u64 \<Rightarrow> bool" and lt :: "u64 \<Rightarrow> u64 \<Rightarrow> bool" +
  assumes stop_mono: "stop x a \<Longrightarrow> lt a b \<Longrightarrow> stop x b"

interpretation buying: taker_side "buy_record tk" buy_stop "(<)" for tk
  by unfold_locales (auto simp: buy_stop_def buy_record_def)

interpretation selling: taker_side "sell_record tk" sell_stop "(>)" for tk
  by unfold_locales (auto simp: sell_stop_def sell_record_def)

end
