(* ===== verification/OrderBook_Inv.thy ===== *)
theory OrderBook_Inv
  imports OrderBook_Spec
begin

text \<open>
  The invariant of a book and its preservation: price levels sorted and non-empty, every resting
  order listed once, the per-user index in agreement with the levels, best bid below best ask.
\<close>

section \<open>Orders up to their quantity\<close>

definition same_order :: "Order \<Rightarrow> Order \<Rightarrow> bool" where
  "same_order x y \<longleftrightarrow> x\<lparr>o_quantity := 0\<rparr> = y\<lparr>o_quantity := 0\<rparr>"

lemma same_order_refl [simp]: "same_order x x"
  by (simp add: same_order_def)

lemma same_order_trans: "same_order x y \<Longrightarrow> same_order y z \<Longrightarrow> same_order x z"
  by (simp add: same_order_def)

lemma same_order_set [simp]: "same_order (x\<lparr>o_quantity := q\<rparr>) y \<longleftrightarrow> same_order x y"
  by (simp add: same_order_def)

lemma same_order_fields:
  assumes "same_order x y"
  shows "o_order_id x = o_order_id y" "o_ticker_id x = o_ticker_id y" "o_user_id x = o_user_id y"
    "o_side x = o_side y" "o_price x = o_price y" "o_timestamp x = o_timestamp y"
proof -
  let ?z = "\<lambda>x :: Order. x\<lparr>o_quantity := 0\<rparr>"
  have "?z x = ?z y" using assms by (simp add: same_order_def)
  then have "o_order_id (?z x) = o_order_id (?z y)" "o_ticker_id (?z x) = o_ticker_id (?z y)"
    "o_user_id (?z x) = o_user_id (?z y)" "o_side (?z x) = o_side (?z y)"
    "o_price (?z x) = o_price (?z y)" "o_timestamp (?z x) = o_timestamp (?z y)"
    by (simp_all only:)
  then show "o_order_id x = o_order_id y" "o_ticker_id x = o_ticker_id y" "o_user_id x = o_user_id y"
    "o_side x = o_side y" "o_price x = o_price y" "o_timestamp x = o_timestamp y"
    by simp_all
qed

lemma trade_same: "same_order (ms_heap (trade mk now price taker p st) x) (ms_heap st x)"
  by (simp add: trade_def Let_def)

lemma match_list_same: "same_order (ms_heap (snd (match_list mk now price taker l st)) x) (ms_heap st x)"
proof (induction l arbitrary: st)
  case (Cons p ps)
  let ?st1 = "trade mk now price taker p st"
  let ?st2 = "?st1\<lparr>ms_active := active_erase (o_user_id (ms_heap ?st1 p)) (o_order_id (ms_heap ?st1 p)) (ms_active ?st1)\<rparr>"
  have "same_order (ms_heap (snd (match_list mk now price taker ps ?st1)) x) (ms_heap st x)"
    "same_order (ms_heap (snd (match_list mk now price taker ps ?st2)) x) (ms_heap st x)"
    using Cons [of ?st1] Cons [of ?st2] by (auto intro: same_order_trans trade_same)
  then show ?case by (auto simp: Let_def split: prod.splits)
qed simp

lemma match_levels_same: "same_order (ms_heap (snd (match_levels stop mk now taker lv st)) x) (ms_heap st x)"
proof (induction lv arbitrary: st)
  case (Cons e lv)
  obtain price l where e: "e = (price, l)" by fastforce
  have "same_order (ms_heap (snd (match_levels stop mk now taker lv (snd (match_list mk now price taker l st)))) x) (ms_heap st x)"
    by (rule same_order_trans [OF Cons match_list_same])
  then show ?case by (auto simp: e split: prod.splits)
qed simp

section \<open>The shape of the levels after matching\<close>

lemma match_list_subset: "set (fst (match_list mk now price taker l st)) \<subseteq> set l"
proof (induction l arbitrary: st)
  case (Cons p ps)
  then have "set (fst (match_list mk now price taker ps st')) \<subseteq> set (p # ps)" for st'
    by (meson set_subset_Cons subset_trans)
  then show ?case by (simp add: Let_def case_prod_beta)
qed simp

lemma match_levels_entry:
  "e' \<in> set (fst (match_levels stop mk now taker lv st)) \<Longrightarrow> \<forall>e \<in> set lv. snd e \<noteq> [] \<Longrightarrow>
     snd e' \<noteq> [] \<and> (\<exists>e \<in> set lv. fst e' = fst e \<and> set (snd e') \<subseteq> set (snd e))"
proof (induction lv arbitrary: st)
  case (Cons e lv)
  obtain price l where e: "e = (price, l)" by fastforce
  obtain l' st1 where m: "match_list mk now price taker l st = (l', st1)" by fastforce
  have l': "set l' \<subseteq> set l" using match_list_subset [of mk now price taker l st] by (simp add: m)
  from Cons.prems(1) consider "e' \<in> set (e # lv)" | "l' \<noteq> []" "e' = (price, l')"
    | "e' \<in> set (fst (match_levels stop mk now taker lv st1))"
    by (auto simp: e m split: if_splits prod.splits)
  then show ?case
  proof cases
    case 1
    with Cons.prems(2) show ?thesis by auto
  next
    case 2
    with l' show ?thesis by (auto simp: e)
  next
    case 3
    with Cons show ?thesis by auto
  qed
qed simp

lemma match_levels_om_wf:
  "om_wf lt lv \<Longrightarrow> \<forall>e \<in> set lv. snd e \<noteq> [] \<Longrightarrow> om_wf lt (fst (match_levels stop mk now taker lv st))"
proof (induction lv arbitrary: st)
  case (Cons e lv)
  obtain price l where e: "e = (price, l)" by fastforce
  obtain l' st1 where m: "match_list mk now price taker l st = (l', st1)" by fastforce
  obtain lv' st2 where n: "match_levels stop mk now taker lv st1 = (lv', st2)" by fastforce
  have "om_wf lt lv'" using Cons.IH [of st1] Cons.prems by (simp add: n om_wf_def)
  moreover have "lt price (fst e')" if "e' \<in> set lv'" for e'
    using match_levels_entry [of e' stop mk now taker lv st1] that Cons.prems by (auto simp: n e om_wf_def)
  ultimately have "om_wf lt ((price, l') # lv')" "om_wf lt lv'" by (simp_all add: om_wf_def)
  with Cons.prems(1) show ?case by (simp add: e m n)
qed simp

section \<open>One side after matching\<close>

lemma spec_fill_stuck:
  "spec_fill ok q ms = (r, f, q') \<Longrightarrow> q' \<noteq> 0 \<Longrightarrow> r \<noteq> [] \<Longrightarrow> \<not> ok (hd r)"
  by (induction ms arbitrary: q r f) (auto split: if_splits prod.splits)

context taker_side
begin

lemma match_side_filled:
  assumes "wf_side lt s tid (ms_heap st) lv" and "taker \<notin> set (lv_ptrs lv)" and "distinct (lv_ptrs lv)"
  shows "filled_to mk now (\<lambda>m. \<not> stop (ms_heap st taker) (o_price m)) taker (lv_ptrs lv) st
    (lv_ptrs (fst (match_levels stop mk now taker lv st))) (snd (match_levels stop mk now taker lv st))"
  by (rule match_levels_filled) (use assms in \<open>auto simp: wf_side_def wf_level_def\<close>)

lemma match_side_pos:
  assumes "wf_side lt s tid (ms_heap st) lv" and "taker \<notin> set (lv_ptrs lv)" and "distinct (lv_ptrs lv)"
    and "p \<in> set (lv_ptrs (fst (match_levels stop mk now taker lv st)))"
  shows "0 < o_quantity (ms_heap (snd (match_levels stop mk now taker lv st)) p)"
proof -
  let ?m = "match_levels stop mk now taker lv st"
  from match_side_filled [OF assms(1-3), of now] obtain f q' where
    "spec_fill (\<lambda>m. \<not> stop (ms_heap st taker) (o_price m)) (o_quantity (ms_heap st taker)) (map (ms_heap st) (lv_ptrs lv))
      = (map (ms_heap (snd ?m)) (lv_ptrs (fst ?m)), f, q')"
    by (rule filled_toE) blast
  from spec_fill_pos [OF this] wf_side_order(2) [OF assms(1)] assms(4) show ?thesis by auto
qed

lemma match_side_wf:
  assumes wf: "wf_side lt s tid (ms_heap st) lv" and "taker \<notin> set (lv_ptrs lv)" and "distinct (lv_ptrs lv)"
  shows "wf_side lt s tid (ms_heap (snd (match_levels stop mk now taker lv st))) (fst (match_levels stop mk now taker lv st))"
  unfolding wf_side_def
proof
  let ?m = "match_levels stop mk now taker lv st"
  have ne: "\<forall>e \<in> set lv. snd e \<noteq> []" using wf by (simp add: wf_side_def wf_level_def)
  with wf show "om_wf lt (fst ?m)" by (simp add: wf_side_def match_levels_om_wf)
  show "\<forall>e \<in> set (fst ?m). wf_level s tid (ms_heap (snd ?m)) e"
  proof
    fix e' assume e': "e' \<in> set (fst ?m)"
    from match_levels_entry [OF this ne] obtain e where e: "e \<in> set lv" "fst e' = fst e" "set (snd e') \<subseteq> set (snd e)" "snd e' \<noteq> []"
      by blast
    have "o_side (ms_heap (snd ?m) p) = s \<and> o_price (ms_heap (snd ?m) p) = fst e' \<and>
        0 < o_quantity (ms_heap (snd ?m) p) \<and> o_ticker_id (ms_heap (snd ?m) p) = tid" if "p \<in> set (snd e')" for p
    proof -
      have "p \<in> set (lv_ptrs (fst ?m))" using that e' by (auto simp: in_lv_ptrs)
      then have "0 < o_quantity (ms_heap (snd ?m) p)" using assms by (rule match_side_pos [rotated 3])
      moreover have "wf_level s tid (ms_heap st) e" "p \<in> set (snd e)"
        using wf e that by (auto simp: wf_side_def)
      ultimately show ?thesis
        using same_order_fields [OF match_levels_same [of stop mk now taker lv st p]] e(2)
        by (auto simp: wf_level_def)
    qed
    with e(4) show "wf_level s tid (ms_heap (snd ?m)) e'" by (simp add: wf_level_def)
  qed
qed

text \<open>If the taker is not filled, nothing it would accept is left.\<close>

lemma match_side_stop:
  assumes wf: "wf_side lt s tid (ms_heap st) lv" and "taker \<notin> set (lv_ptrs lv)" and "distinct (lv_ptrs lv)"
    and rest: "o_quantity (ms_heap (snd (match_levels stop mk now taker lv st)) taker) \<noteq> 0"
    and p: "p \<in> set (lv_ptrs (fst (match_levels stop mk now taker lv st)))"
  shows "stop (ms_heap st taker) (o_price (ms_heap (snd (match_levels stop mk now taker lv st)) p))"
proof -
  let ?m = "match_levels stop mk now taker lv st" let ?h = "ms_heap (snd ?m)"
  from match_side_filled [OF assms(1-3), of now] obtain f q' where
    sf: "spec_fill (\<lambda>m. \<not> stop (ms_heap st taker) (o_price m)) (o_quantity (ms_heap st taker)) (map (ms_heap st) (lv_ptrs lv))
      = (map ?h (lv_ptrs (fst ?m)), f, q')" and t: "?h taker = (ms_heap st taker)\<lparr>o_quantity := q'\<rparr>"
    by (rule filled_toE) blast
  have wf': "wf_side lt s tid ?h (fst ?m)" by (rule match_side_wf [OF assms(1-3)])
  obtain e lv' where m: "fst ?m = e # lv'" using p by (cases "fst ?m") auto
  then have e: "wf_level s tid ?h e" using wf' by (simp add: wf_side_def)
  then obtain x where x: "hd (map ?h (lv_ptrs (fst ?m))) = ?h x" "o_price (?h x) = fst e"
    by (cases "snd e") (auto simp: m wf_level_def)
  have "stop (ms_heap st taker) (fst e)"
  proof -
    have "map ?h (lv_ptrs (fst ?m)) \<noteq> []" using p by auto
    from spec_fill_stuck [OF sf _ this] rest show ?thesis by (simp add: t x)
  qed
  moreover obtain e' where e': "e' \<in> set (fst ?m)" "p \<in> set (snd e')" using p by (auto simp: in_lv_ptrs)
  then have "o_price (?h p) = fst e'" using wf' by (auto simp: wf_side_def wf_level_def)
  ultimately show ?thesis
    using e' wf' stop_mono by (auto simp: m wf_side_Cons)
qed

end

section \<open>The invariant of the book\<close>

definition book_ptrs :: "OrderBook \<Rightarrow> ptr list" where
  "book_ptrs b = lv_ptrs (bids b) @ lv_ptrs (asks b)"

text \<open>The index holds exactly the orders at the addresses \<open>P\<close>, under their owner and id.\<close>

definition index_ok :: "heap \<Rightarrow> ptr set \<Rightarrow> active_index \<Rightarrow> bool" where
  "index_ok h P ix \<longleftrightarrow> active_wf ix \<and>
     (\<forall>u i p. active_find ix u i = Some p \<longleftrightarrow> p \<in> P \<and> o_user_id (h p) = u \<and> o_order_id (h p) = i)"

definition uncrossed :: "heap \<Rightarrow> OrderBook \<Rightarrow> bool" where
  "uncrossed h b \<longleftrightarrow> (\<forall>p \<in> set (lv_ptrs (bids b)). \<forall>q \<in> set (lv_ptrs (asks b)). o_price (h p) < o_price (h q))"

definition wf_book :: "heap \<Rightarrow> OrderBook \<Rightarrow> bool" where
  "wf_book h b \<longleftrightarrow>
     wf_side (>) BUY (ob_ticker_id b) h (bids b) \<and> wf_side (<) SELL (ob_ticker_id b) h (asks b) \<and>
     distinct (book_ptrs b) \<and> inj_on (\<lambda>p. o_order_id (h p)) (set (book_ptrs b)) \<and>
     index_ok h (set (book_ptrs b)) (user_active_orders b) \<and> uncrossed h b"

text \<open>What a caller owes for a new order: a fresh object of this book's ticker with an unused id.\<close>

definition fresh_order :: "heap \<Rightarrow> OrderBook \<Rightarrow> ptr \<Rightarrow> bool" where
  "fresh_order h b p \<longleftrightarrow> p \<notin> set (book_ptrs b) \<and> o_ticker_id (h p) = ob_ticker_id b \<and>
     (\<forall>q \<in> set (book_ptrs b). o_order_id (h q) \<noteq> o_order_id (h p))"

lemma index_ok_cong:
  "index_ok h P ix \<Longrightarrow> (\<And>p. p \<in> P \<Longrightarrow> same_order (h' p) (h p)) \<Longrightarrow> index_ok h' P ix"
  unfolding index_ok_def using same_order_fields by (metis (no_types, lifting))

lemma index_ok_put:
  assumes "index_ok h P ix" and "\<And>q. q \<in> P \<Longrightarrow> o_order_id (h q) \<noteq> o_order_id (h p)"
  shows "index_ok h (insert p P) (active_put (o_user_id (h p)) (o_order_id (h p)) p ix)"
  using assms by (auto simp: index_ok_def split: if_splits)

lemma index_ok_filled:
  assumes f: "filled_to mk now ok taker l st l' st'"
    and ix: "index_ok (ms_heap st) (set l \<union> X) (ms_active st)"
    and d: "distinct l" "set l \<inter> X = {}" "inj_on (\<lambda>p. o_order_id (ms_heap st p)) (set l \<union> X)"
  shows "index_ok (ms_heap st) (set l' \<union> X) (ms_active st')"
  using f
proof (rule filled_toE)
  fix gone
  assume l: "l = gone @ l'" and w: "active_wf (ms_active st) \<Longrightarrow> active_wf (ms_active st')"
    and a: "\<And>u i. active_find (ms_active st') u i =
           (if \<exists>x \<in> set gone. o_user_id (ms_heap st x) = u \<and> o_order_id (ms_heap st x) = i
            then None else active_find (ms_active st) u i)"
  have "active_find (ms_active st') u i = Some p \<longleftrightarrow>
      p \<in> set l' \<union> X \<and> o_user_id (ms_heap st p) = u \<and> o_order_id (ms_heap st p) = i" for u i p
  proof -
    have "x = p" if "x \<in> set gone" "p \<in> set l \<union> X" "o_order_id (ms_heap st x) = o_order_id (ms_heap st p)" for x
      using d(3) that l by (auto dest!: inj_onD)
    moreover have "set gone \<inter> (set l' \<union> X) = {}" using d l by auto
    ultimately show ?thesis using ix l unfolding a index_ok_def by auto
  qed
  with ix w show ?thesis by (simp add: index_ok_def)
qed

text \<open>What \<^verbatim>\<open>filled_to\<close> leaves alone, as used by the book: everything but the taker and its makers.\<close>

lemma filled_to_frame:
  assumes "filled_to mk now ok taker l st l' st'"
  shows "\<And>x. x \<noteq> taker \<Longrightarrow> x \<notin> set l \<Longrightarrow> ms_heap st' x = ms_heap st x"
    and "\<exists>gone. l = gone @ l'"
  by (rule filled_toE [OF assms]; blast)+

text \<open>
  Both sides of a book together, with the index: \<open>lv\<close> is the side the taker walks, \<open>lv2\<close> the side
  it rests on when something is left.
\<close>

definition sides_ok :: "(u64 \<Rightarrow> u64 \<Rightarrow> bool) \<Rightarrow> OrderSide \<Rightarrow> (u64 \<Rightarrow> u64 \<Rightarrow> bool) \<Rightarrow> OrderSide \<Rightarrow> u32 \<Rightarrow> heap
    \<Rightarrow> levels \<Rightarrow> levels \<Rightarrow> active_index \<Rightarrow> bool" where
  "sides_ok lt s lt2 s2 tid h lv lv2 ix \<longleftrightarrow>
     wf_side lt s tid h lv \<and> wf_side lt2 s2 tid h lv2 \<and>
     distinct (lv_ptrs lv) \<and> distinct (lv_ptrs lv2) \<and> set (lv_ptrs lv) \<inter> set (lv_ptrs lv2) = {} \<and>
     inj_on (\<lambda>p. o_order_id (h p)) (set (lv_ptrs lv) \<union> set (lv_ptrs lv2)) \<and>
     index_ok h (set (lv_ptrs lv) \<union> set (lv_ptrs lv2)) ix"

lemma wf_book_sides_buy:
  "wf_book h b \<longleftrightarrow> sides_ok (<) SELL (>) BUY (ob_ticker_id b) h (asks b) (bids b) (user_active_orders b) \<and> uncrossed h b"
  by (auto simp: wf_book_def sides_ok_def book_ptrs_def Un_commute Int_commute)

lemma wf_book_sides_sell:
  "wf_book h b \<longleftrightarrow> sides_ok (>) BUY (<) SELL (ob_ticker_id b) h (bids b) (asks b) (user_active_orders b) \<and> uncrossed h b"
  by (auto simp: wf_book_def sides_ok_def book_ptrs_def)

context taker_side
begin

lemma match_sides_ok:
  fixes now p lv h ix rs
  defines "m \<equiv> match_levels stop mk now p lv \<lparr>ms_heap = h, ms_active = ix, ms_results = rs\<rparr>"
  assumes ok: "sides_ok lt s lt2 s2 tid h lv lv2 ix" and p: "p \<notin> set (lv_ptrs lv) \<union> set (lv_ptrs lv2)"
  shows "sides_ok lt s lt2 s2 tid (ms_heap (snd m)) (fst m) lv2 (ms_active (snd m))"
    and "set (lv_ptrs (fst m)) \<subseteq> set (lv_ptrs lv)"
    and "\<And>x. x \<noteq> p \<Longrightarrow> x \<notin> set (lv_ptrs lv) \<Longrightarrow> ms_heap (snd m) x = h x"
    and "same_order (ms_heap (snd m) x) (h x)"
proof -
  let ?st = "\<lparr>ms_heap = h, ms_active = ix, ms_results = rs\<rparr>"
  from ok p have wf: "wf_side lt s tid (ms_heap ?st) lv" and d: "p \<notin> set (lv_ptrs lv)" "distinct (lv_ptrs lv)"
    by (auto simp: sides_ok_def)
  note f = match_side_filled [OF wf d, of now, folded m_def]
  from filled_to_frame(2) [OF f] obtain gone where l: "lv_ptrs lv = gone @ lv_ptrs (fst m)" by blast
  then show sub: "set (lv_ptrs (fst m)) \<subseteq> set (lv_ptrs lv)" by simp
  show frame: "\<And>x. x \<noteq> p \<Longrightarrow> x \<notin> set (lv_ptrs lv) \<Longrightarrow> ms_heap (snd m) x = h x"
    using filled_to_frame(1) [OF f] by simp
  have same: "same_order (ms_heap (snd m) x) (h x)" for x
    using match_levels_same [of stop mk now p lv ?st x] by (simp add: m_def)
  then show "same_order (ms_heap (snd m) x) (h x)" .
  have "index_ok h (set (lv_ptrs (fst m)) \<union> set (lv_ptrs lv2)) (ms_active (snd m))"
    using index_ok_filled [OF f] ok by (simp add: sides_ok_def)
  then have "index_ok (ms_heap (snd m)) (set (lv_ptrs (fst m)) \<union> set (lv_ptrs lv2)) (ms_active (snd m))"
    using same by (rule index_ok_cong)
  moreover have "wf_side lt s tid (ms_heap (snd m)) (fst m)"
    using match_side_wf [OF wf d] by (simp add: m_def)
  moreover have "wf_side lt2 s2 tid (ms_heap (snd m)) lv2"
  proof (rule wf_side_cong)
    show "wf_side lt2 s2 tid h lv2" using ok by (simp add: sides_ok_def)
    show "ms_heap (snd m) x = h x" if "x \<in> set (lv_ptrs lv2)" for x
      using frame [of x] that p ok by (auto simp: sides_ok_def)
  qed
  moreover have "inj_on (\<lambda>p. o_order_id (ms_heap (snd m) p)) (set (lv_ptrs (fst m)) \<union> set (lv_ptrs lv2))"
  proof -
    have "inj_on (\<lambda>p. o_order_id (h p)) (set (lv_ptrs (fst m)) \<union> set (lv_ptrs lv2))"
      by (rule inj_on_subset [where A = "set (lv_ptrs lv) \<union> set (lv_ptrs lv2)"]) (use ok sub in \<open>auto simp: sides_ok_def\<close>)
    then show ?thesis using same_order_fields(1) [OF same] by simp
  qed
  ultimately show "sides_ok lt s lt2 s2 tid (ms_heap (snd m)) (fst m) lv2 (ms_active (snd m))"
    using ok l by (auto simp: sides_ok_def)
qed

end

context price_levels
begin

lemma push_sides_ok:
  assumes ok: "sides_ok lt1 s1 lt s tid h lv1 lv ix" and p: "p \<notin> set (lv_ptrs lv1) \<union> set (lv_ptrs lv)"
    and o: "o_side (h p) = s" "o_ticker_id (h p) = tid" "0 < o_quantity (h p)"
    and fresh: "\<And>q. q \<in> set (lv_ptrs lv1) \<union> set (lv_ptrs lv) \<Longrightarrow> o_order_id (h q) \<noteq> o_order_id (h p)"
  shows "sides_ok lt1 s1 lt s tid h lv1 (level_push lt (o_price (h p)) p lv)
    (active_put (o_user_id (h p)) (o_order_id (h p)) p ix)"
proof -
  let ?lv' = "level_push lt (o_price (h p)) p lv"
  from ok have om: "om_wf lt lv" by (simp add: sides_ok_def wf_side_def)
  have set': "set (lv_ptrs lv1) \<union> set (lv_ptrs ?lv') = insert p (set (lv_ptrs lv1) \<union> set (lv_ptrs lv))"
    by (simp add: level_push_set [OF om])
  have "distinct (lv_ptrs ?lv')"
    using ok p level_push_mset [OF om, of "o_price (h p)" p]
    by (metis UnCI distinct.simps(2) mset.simps(2) mset_eq_imp_distinct_iff sides_ok_def)
  moreover have "inj_on (\<lambda>p. o_order_id (h p)) (insert p (set (lv_ptrs lv1) \<union> set (lv_ptrs lv)))"
    using ok fresh p unfolding sides_ok_def by (intro inj_on_insert [THEN iffD2]) force
  moreover have "index_ok h (insert p (set (lv_ptrs lv1) \<union> set (lv_ptrs lv)))
      (active_put (o_user_id (h p)) (o_order_id (h p)) p ix)"
    by (rule index_ok_put) (use ok fresh in \<open>auto simp: sides_ok_def\<close>)
  moreover have "wf_side lt s tid h ?lv'"
    by (rule level_push_wf) (use ok o in \<open>auto simp: sides_ok_def\<close>)
  ultimately show ?thesis using ok p by (simp add: sides_ok_def set' level_push_set [OF om])
qed

end

section \<open>Processing an order keeps the invariant\<close>

lemma processOrder_buy:
  fixes now p h b rs
  defines "m \<equiv> match_levels buy_stop (buy_record (ob_ticker_id b)) now p (asks b)
    \<lparr>ms_heap = h, ms_active = user_active_orders b, ms_results = rs\<rparr>"
  defines "x \<equiv> ms_heap (snd m) p"
  assumes "o_side (h p) = BUY"
  shows "processOrder now p h b rs = (ms_heap (snd m),
    (if 0 < o_quantity x
     then b\<lparr>asks := fst m, bids := level_push (>) (o_price x) p (bids b),
            user_active_orders := active_put (o_user_id x) (o_order_id x) p (ms_active (snd m))\<rparr>
     else b\<lparr>asks := fst m, user_active_orders := ms_active (snd m)\<rparr>), ms_results (snd m))"
  using assms by (simp add: processOrder_def matchBuyOrder_def Let_def case_prod_beta)

lemma processOrder_sell:
  fixes now p h b rs
  defines "m \<equiv> match_levels sell_stop (sell_record (ob_ticker_id b)) now p (bids b)
    \<lparr>ms_heap = h, ms_active = user_active_orders b, ms_results = rs\<rparr>"
  defines "x \<equiv> ms_heap (snd m) p"
  assumes "o_side (h p) = SELL"
  shows "processOrder now p h b rs = (ms_heap (snd m),
    (if 0 < o_quantity x
     then b\<lparr>bids := fst m, asks := level_push (<) (o_price x) p (asks b),
            user_active_orders := active_put (o_user_id x) (o_order_id x) p (ms_active (snd m))\<rparr>
     else b\<lparr>bids := fst m, user_active_orders := ms_active (snd m)\<rparr>), ms_results (snd m))"
  using assms by (simp add: processOrder_def matchSellOrder_def Let_def case_prod_beta)

lemma processOrder_wf_buy:
  assumes wf: "wf_book h b" and fr: "fresh_order h b p" and s: "o_side (h p) = BUY"
    and r: "processOrder now p h b rs = (h', b', rs')"
  shows "wf_book h' b'"
proof -
  let ?st = "\<lparr>ms_heap = h, ms_active = user_active_orders b, ms_results = rs\<rparr>"
  let ?m = "match_levels buy_stop (buy_record (ob_ticker_id b)) now p (asks b) ?st"
  let ?h = "ms_heap (snd ?m)"
  have r': "h' = ?h" "b' = (if 0 < o_quantity (?h p)
     then b\<lparr>asks := fst ?m, bids := level_push (>) (o_price (?h p)) p (bids b),
            user_active_orders := active_put (o_user_id (?h p)) (o_order_id (?h p)) p (ms_active (snd ?m))\<rparr>
     else b\<lparr>asks := fst ?m, user_active_orders := ms_active (snd ?m)\<rparr>)"
    using r s by (auto simp only: processOrder_buy prod.inject)
  have p: "p \<notin> set (lv_ptrs (asks b)) \<union> set (lv_ptrs (bids b))"
    and sid: "sides_ok (<) SELL (>) BUY (ob_ticker_id b) h (asks b) (bids b) (user_active_orders b)"
    and unc: "uncrossed h b" and om: "om_wf (>) (bids b)"
    using fr wf by (auto simp: fresh_order_def book_ptrs_def wf_book_sides_buy sides_ok_def wf_side_def)
  note m = buying.match_sides_ok [OF sid p, where tk = "ob_ticker_id b" and now = now and rs = rs]
  note same = same_order_fields [OF m(4)]
  have "p \<notin> set (lv_ptrs (fst ?m)) \<union> set (lv_ptrs (bids b))" using p m(2) by blast
  then have push: "sides_ok (<) SELL (>) BUY (ob_ticker_id b) ?h (fst ?m) (level_push (>) (o_price (?h p)) p (bids b))
      (active_put (o_user_id (?h p)) (o_order_id (?h p)) p (ms_active (snd ?m)))" if "0 < o_quantity (?h p)"
    using s fr that m(2) same
    by (intro selling.push_sides_ok [OF m(1)]) (auto simp: fresh_order_def book_ptrs_def)
  have bid_ask: "o_price (?h x) < o_price (?h y)" if "x \<in> set (lv_ptrs (bids b))" "y \<in> set (lv_ptrs (fst ?m))" for x y
    using unc that m(2) same(5) by (auto simp: uncrossed_def)
  have taker_ask: "o_price (?h p) < o_price (?h y)" if "0 < o_quantity (?h p)" "y \<in> set (lv_ptrs (fst ?m))" for y
    using buying.match_side_stop [where s = SELL and tid = "ob_ticker_id b" and st = ?st and lv = "asks b"
        and taker = p and tk = "ob_ticker_id b" and now = now and p = y] that p sid same(5) [of p]
    by (simp add: sides_ok_def buy_stop_def word_gt_0)
  have "uncrossed ?h b'"
    using bid_ask taker_ask by (auto simp: uncrossed_def r' selling.level_push_set [OF om])
  with push m(1) show ?thesis
    by (auto simp: r' wf_book_sides_buy)
qed

lemma processOrder_wf_sell:
  assumes wf: "wf_book h b" and fr: "fresh_order h b p" and s: "o_side (h p) = SELL"
    and r: "processOrder now p h b rs = (h', b', rs')"
  shows "wf_book h' b'"
proof -
  let ?st = "\<lparr>ms_heap = h, ms_active = user_active_orders b, ms_results = rs\<rparr>"
  let ?m = "match_levels sell_stop (sell_record (ob_ticker_id b)) now p (bids b) ?st"
  let ?h = "ms_heap (snd ?m)"
  have r': "h' = ?h" "b' = (if 0 < o_quantity (?h p)
     then b\<lparr>bids := fst ?m, asks := level_push (<) (o_price (?h p)) p (asks b),
            user_active_orders := active_put (o_user_id (?h p)) (o_order_id (?h p)) p (ms_active (snd ?m))\<rparr>
     else b\<lparr>bids := fst ?m, user_active_orders := ms_active (snd ?m)\<rparr>)"
    using r s by (auto simp only: processOrder_sell prod.inject)
  have p: "p \<notin> set (lv_ptrs (bids b)) \<union> set (lv_ptrs (asks b))"
    and sid: "sides_ok (>) BUY (<) SELL (ob_ticker_id b) h (bids b) (asks b) (user_active_orders b)"
    and unc: "uncrossed h b" and om: "om_wf (<) (asks b)"
    using fr wf by (auto simp: fresh_order_def book_ptrs_def wf_book_sides_sell sides_ok_def wf_side_def)
  note m = selling.match_sides_ok [OF sid p, where tk = "ob_ticker_id b" and now = now and rs = rs]
  note same = same_order_fields [OF m(4)]
  have "p \<notin> set (lv_ptrs (fst ?m)) \<union> set (lv_ptrs (asks b))" using p m(2) by blast
  then have push: "sides_ok (>) BUY (<) SELL (ob_ticker_id b) ?h (fst ?m) (level_push (<) (o_price (?h p)) p (asks b))
      (active_put (o_user_id (?h p)) (o_order_id (?h p)) p (ms_active (snd ?m)))" if "0 < o_quantity (?h p)"
    using s fr that m(2) same
    by (intro buying.push_sides_ok [OF m(1)]) (auto simp: fresh_order_def book_ptrs_def)
  have bid_ask: "o_price (?h y) < o_price (?h x)" if "x \<in> set (lv_ptrs (asks b))" "y \<in> set (lv_ptrs (fst ?m))" for x y
    using unc that m(2) same(5) by (auto simp: uncrossed_def)
  have taker_bid: "o_price (?h y) < o_price (?h p)" if "0 < o_quantity (?h p)" "y \<in> set (lv_ptrs (fst ?m))" for y
    using selling.match_side_stop [where s = BUY and tid = "ob_ticker_id b" and st = ?st and lv = "bids b"
        and taker = p and tk = "ob_ticker_id b" and now = now and p = y] that p sid same(5) [of p]
    by (simp add: sides_ok_def sell_stop_def word_gt_0)
  have "uncrossed ?h b'"
    using bid_ask taker_bid by (auto simp: uncrossed_def r' buying.level_push_set [OF om])
  with push m(1) show ?thesis
    by (auto simp: r' wf_book_sides_sell)
qed

end
