(* ===== verification/OrderBook_Props.thy ===== *)
theory OrderBook_Props
  imports OrderBook_Inv
begin

text \<open>
  Cancellation, the two queries of the book, and the properties of the book as a whole: the
  invariant, the refinement of the reference matcher, quantity conservation and priority.
\<close>

section \<open>Cancellation\<close>

context price_levels
begin

lemma put_existing:
  "om_wf lt lv \<Longrightarrow> k \<in> fst ` set lv \<Longrightarrow> om_put lt k l lv = map (\<lambda>e. if fst e = k then (k, l) else e) lv"
proof (induction lv)
  case (Cons e lv)
  obtain a b where e: "e = (a, b)" by fastforce
  have hd: "\<forall>x \<in> set lv. lt a (fst x)" and tl: "om_wf lt lv"
    using Cons.prems by (auto simp: e om_wf_def)
  show ?case
  proof (cases "k = a")
    case True
    then have "\<forall>x \<in> set lv. fst x \<noteq> k" using hd lt_irrefl by metis
    then have "map (\<lambda>e. if fst e = k then (k, l) else e) lv = lv" by (simp add: map_idI)
    with True show ?thesis by (simp add: e)
  next
    case False
    then have "k \<in> fst ` set lv" using Cons.prems by (simp add: e)
    moreover from this hd have "lt a k" by auto
    then have "\<not> lt k a" using lt_trans lt_irrefl by blast
    ultimately show ?thesis using False Cons.IH [OF tl] by (simp add: e)
  qed
qed simp

lemma level_remove_eq:
  assumes om: "om_wf lt lv" and ne: "\<forall>e \<in> set lv. snd e \<noteq> []"
  shows "level_remove lt h k oid lv = filter (\<lambda>e. snd e \<noteq> [])
    (map (\<lambda>e. if fst e = k then (k, filter (\<lambda>q. o_order_id (h q) \<noteq> oid) (snd e)) else e) lv)"
proof (cases "map_of lv k")
  case None
  then have nk: "\<forall>e \<in> set lv. fst e \<noteq> k" by (auto simp: map_of_eq_None_iff)
  then have "map (\<lambda>e. if fst e = k then (k, filter (\<lambda>q. o_order_id (h q) \<noteq> oid) (snd e)) else e) lv = lv"
    by (simp add: map_idI)
  with None nk ne show ?thesis by (simp add: level_remove_def um_at_def om_erase_def Let_def)
next
  case (Some l)
  let ?l = "filter (\<lambda>q. o_order_id (h q) \<noteq> oid) l"
  have key: "snd e = l" if "e \<in> set lv" "fst e = k" for e
    using that Some wf_distinct [OF om] by (metis map_of_is_SomeI option.inject prod.collapse)
  then have map_eq: "map (\<lambda>e. if fst e = k then (k, filter (\<lambda>q. o_order_id (h q) \<noteq> oid) (snd e)) else e) lv =
      map (\<lambda>e. if fst e = k then (k, ?l) else e) lv" by (intro map_cong) auto
  have "k \<in> fst ` set lv" using Some by (metis domI dom_map_of_conv_image_fst)
  then have put: "om_put lt k ?l lv = map (\<lambda>e. if fst e = k then (k, ?l) else e) lv" by (rule put_existing [OF om])
  show ?thesis
  proof (cases "?l = []")
    case True
    have "filter (\<lambda>e. snd e \<noteq> []) (map (\<lambda>e. if fst e = k then (k, []) else e) lv) = om_erase k lv"
      using ne unfolding om_erase_def by (induction lv) auto
    then have "filter (\<lambda>e. snd e \<noteq> []) (map (\<lambda>e. if fst e = k then (k, ?l) else e) lv) = om_erase k lv"
      by (simp only: True)
    with True Some show ?thesis unfolding map_eq by (simp add: level_remove_def um_at_def Let_def)
  next
    case False
    have "filter (\<lambda>e. snd e \<noteq> []) (map (\<lambda>e. if fst e = k then (k, ?l) else e) lv) =
        map (\<lambda>e. if fst e = k then (k, ?l) else e) lv"
      using ne False by (intro filter_True) auto
    with False Some put show ?thesis unfolding map_eq by (simp add: level_remove_def um_at_def Let_def)
  qed
qed

lemma level_remove_ptrs:
  assumes om: "om_wf lt lv" and ne: "\<forall>e \<in> set lv. snd e \<noteq> []"
    and only: "\<forall>e \<in> set lv. \<forall>q \<in> set (snd e). o_order_id (h q) = oid \<longrightarrow> fst e = k"
  shows "lv_ptrs (level_remove lt h k oid lv) = filter (\<lambda>q. o_order_id (h q) \<noteq> oid) (lv_ptrs lv)"
proof -
  have drop_empty: "lv_ptrs (filter (\<lambda>e. snd e \<noteq> []) xs) = lv_ptrs xs" for xs by (induction xs) auto
  have "lv_ptrs (map (\<lambda>e. if fst e = k then (k, filter (\<lambda>q. o_order_id (h q) \<noteq> oid) (snd e)) else e) lv) =
      filter (\<lambda>q. o_order_id (h q) \<noteq> oid) (lv_ptrs lv)"
    using only
  proof (induction lv)
    case (Cons e lv)
    have "fst e \<noteq> k \<Longrightarrow> filter (\<lambda>q. o_order_id (h q) \<noteq> oid) (snd e) = snd e"
      using Cons.prems by (intro filter_True) auto
    with Cons show ?case by auto
  qed simp
  then show ?thesis by (simp add: level_remove_eq [OF om ne] drop_empty)
qed

lemma cancel_level_ptrs:
  assumes wf: "wf_side lt s tid h lv" and only: "\<And>q. q \<in> set (lv_ptrs lv) \<Longrightarrow> o_order_id (h q) = oid \<Longrightarrow> q = p"
  shows "lv_ptrs (if o_side (h p) = s then level_remove lt h (o_price (h p)) oid lv else lv) =
    filter (\<lambda>q. o_order_id (h q) \<noteq> oid) (lv_ptrs lv)"
proof (cases "o_side (h p) = s")
  case True
  have "lv_ptrs (level_remove lt h (o_price (h p)) oid lv) = filter (\<lambda>q. o_order_id (h q) \<noteq> oid) (lv_ptrs lv)"
  proof (rule level_remove_ptrs)
    show "\<forall>e \<in> set lv. \<forall>q \<in> set (snd e). o_order_id (h q) = oid \<longrightarrow> fst e = o_price (h p)"
      using wf only by (fastforce simp: wf_side_def wf_level_def in_lv_ptrs)
  qed (use wf in \<open>auto simp: wf_side_def wf_level_def\<close>)
  with True show ?thesis by simp
next
  case False
  then have "p \<notin> set (lv_ptrs lv)" using wf_side_order(1) [OF wf] by auto
  then have "filter (\<lambda>q. o_order_id (h q) \<noteq> oid) (lv_ptrs lv) = lv_ptrs lv" using only by (intro filter_True) auto
  with False show ?thesis by simp
qed

lemma level_remove_wf:
  assumes wf: "wf_side lt s tid h lv"
  shows "wf_side lt s tid h (level_remove lt h k oid lv)"
proof -
  have om: "om_wf lt lv" and ne: "\<forall>e \<in> set lv. snd e \<noteq> []"
    using wf by (auto simp: wf_side_def wf_level_def)
  have "om_wf lt (level_remove lt h k oid lv)"
    by (simp add: level_remove_def Let_def om put_wf erase_wf)
  moreover have "wf_level s tid h e" if "e \<in> set (level_remove lt h k oid lv)" for e
    using that wf by (auto simp: level_remove_eq [OF om ne] wf_side_def wf_level_def split: if_splits)
  ultimately show ?thesis by (simp add: wf_side_def)
qed

end

lemma index_ok_erase:
  assumes ix: "index_ok h P ix" and p: "p \<in> P" "o_user_id (h p) = u" "o_order_id (h p) = i"
    and inj: "inj_on (\<lambda>q. o_order_id (h q)) P" and m: "map_of ix u = Some m"
  shows "index_ok h {q \<in> P. o_order_id (h q) \<noteq> i} (AList.update u (AList.delete i m) ix)"
proof -
  have eq: "AList.update u (AList.delete i m) ix = active_erase u i ix"
    using m by (simp add: active_erase_def um_at_def)
  have "o_user_id (h q) = u" if "q \<in> P" "o_order_id (h q) = i" for q
    using inj_onD [OF inj, of q p] that p by simp
  with ix show ?thesis by (auto simp: index_ok_def eq split: if_splits)
qed

lemma index_ok_map: "active_find ix u i = Some p \<Longrightarrow> \<exists>m. map_of ix u = Some m \<and> map_of m i = Some p"
  by (simp add: active_find_def split: option.splits)

lemma cancelOrder_None: "active_find (user_active_orders b) u (ucast oid) = None \<Longrightarrow> cancelOrder oid u h b = (None, b)"
  by (cases "map_of (user_active_orders b) u") (simp_all add: active_find_def cancelOrder_def)

lemma cancelOrder_Some:
  assumes wf: "wf_book h b" and f: "active_find (user_active_orders b) u (ucast oid) = Some p"
  obtains b' where "cancelOrder oid u h b = (Some p, b')"
    and "lv_ptrs (bids b') = filter (\<lambda>q. o_order_id (h q) \<noteq> ucast oid) (lv_ptrs (bids b))"
    and "lv_ptrs (asks b') = filter (\<lambda>q. o_order_id (h q) \<noteq> ucast oid) (lv_ptrs (asks b))"
    and "wf_book h b'" and "ob_ticker_id b' = ob_ticker_id b"
proof -
  obtain m where m: "map_of (user_active_orders b) u = Some m" "map_of m (ucast oid) = Some p"
    using index_ok_map [OF f] by blast
  have p: "p \<in> set (book_ptrs b)" "o_user_id (h p) = u" "o_order_id (h p) = ucast oid"
    and inj: "inj_on (\<lambda>q. o_order_id (h q)) (set (book_ptrs b))"
    using wf f by (auto simp: wf_book_def index_ok_def)
  have only: "q = p" if "q \<in> set (book_ptrs b)" "o_order_id (h q) = ucast oid" for q
    using inj_onD [OF inj, of q p] that p by simp
  let ?nb = "if o_side (h p) = BUY then level_remove (>) h (o_price (h p)) (ucast oid) (bids b) else bids b"
  let ?na = "if o_side (h p) = SELL then level_remove (<) h (o_price (h p)) (ucast oid) (asks b) else asks b"
  let ?b' = "b\<lparr>bids := ?nb, asks := ?na,
      user_active_orders := AList.update u (AList.delete (ucast oid) m) (user_active_orders b)\<rparr>"
  have eq: "cancelOrder oid u h b = (Some p, ?b')"
    using m by (auto simp: cancelOrder_def Let_def)
  have wb: "wf_side (>) BUY (ob_ticker_id b) h (bids b)" and wa: "wf_side (<) SELL (ob_ticker_id b) h (asks b)"
    using wf by (auto simp: wf_book_def)
  have lb: "lv_ptrs ?nb = filter (\<lambda>q. o_order_id (h q) \<noteq> ucast oid) (lv_ptrs (bids b))"
    using only by (intro selling.cancel_level_ptrs [OF wb]) (auto simp: book_ptrs_def)
  have la: "lv_ptrs ?na = filter (\<lambda>q. o_order_id (h q) \<noteq> ucast oid) (lv_ptrs (asks b))"
    using only by (intro buying.cancel_level_ptrs [OF wa]) (auto simp: book_ptrs_def)
  have ptrs: "set (book_ptrs ?b') = {q \<in> set (book_ptrs b). o_order_id (h q) \<noteq> ucast oid}"
    by (auto simp: book_ptrs_def lb la)
  have "index_ok h {q \<in> set (book_ptrs b). o_order_id (h q) \<noteq> ucast oid} (user_active_orders ?b')"
    using wf p inj m(1) by (simp add: wf_book_def index_ok_erase)
  moreover have "uncrossed h ?b'" using wf by (auto simp: wf_book_def uncrossed_def lb la)
  moreover have "distinct (book_ptrs ?b')" using wf by (auto simp: wf_book_def book_ptrs_def lb la)
  moreover have "wf_side (>) BUY (ob_ticker_id b) h ?nb" "wf_side (<) SELL (ob_ticker_id b) h ?na"
    using wb wa by (simp_all add: selling.level_remove_wf buying.level_remove_wf)
  moreover have "inj_on (\<lambda>q. o_order_id (h q)) {q \<in> set (book_ptrs b). o_order_id (h q) \<noteq> ucast oid}"
    using inj by (rule inj_on_subset) auto
  ultimately have "wf_book h ?b'" unfolding wf_book_def ptrs by simp
  then show ?thesis using eq lb la by (intro that [of ?b']) simp_all
qed

section \<open>The book refines the reference matcher\<close>

text \<open>
  The abstract book is the pair of priority lists (bids, asks) of resting orders. The reference
  operation fills the new order from the opposite list and, if something is left, inserts it
  behind every order of its own side that is not worse.
\<close>

definition abs_book :: "heap \<Rightarrow> OrderBook \<Rightarrow> Order list \<times> Order list" where
  "abs_book h b = (side_view h (bids b), side_view h (asks b))"

definition spec_rest :: "(u64 \<Rightarrow> u64 \<Rightarrow> bool) \<Rightarrow> Order \<Rightarrow> u64 \<Rightarrow> Order list \<Rightarrow> Order list" where
  "spec_rest lt x q xs =
     (if q = 0 then xs
      else filter (\<lambda>y. \<not> lt (o_price x) (o_price y)) xs @ x\<lparr>o_quantity := q\<rparr> # filter (\<lambda>y. lt (o_price x) (o_price y)) xs)"

definition spec_process :: "(nat \<Rightarrow> u64) \<Rightarrow> u32 \<Rightarrow> nat \<Rightarrow> Order \<Rightarrow> Order list \<times> Order list
    \<Rightarrow> (Order list \<times> Order list) \<times> MatchRecord list \<times> u64" where
  "spec_process now tid base x book =
     (if o_side x = BUY
      then (case spec_fill (\<lambda>m. o_price m \<le> o_price x) (o_quantity x) (snd book) of
              (r, f, q) \<Rightarrow> ((spec_rest (>) x q (fst book), r), spec_records (buy_record tid) now base x f, q))
      else (case spec_fill (\<lambda>m. o_price x \<le> o_price m) (o_quantity x) (fst book) of
              (r, f, q) \<Rightarrow> ((r, spec_rest (<) x q (snd book)), spec_records (sell_record tid) now base x f, q)))"

lemma side_view_cong: "(\<And>x. x \<in> set (lv_ptrs lv) \<Longrightarrow> h' x = h x) \<Longrightarrow> side_view h' lv = side_view h lv"
  by (simp add: side_view_def)

context taker_side
begin

lemma match_side_spec:
  assumes wf: "wf_side lt s tid h lv" and p: "p \<notin> set (lv_ptrs lv)" "distinct (lv_ptrs lv)"
    and m: "match_levels stop mk now p lv \<lparr>ms_heap = h, ms_active = ix, ms_results = rs\<rparr> = (lv', st')"
  obtains f q where "spec_fill (\<lambda>m. \<not> stop (h p) (o_price m)) (o_quantity (h p)) (side_view h lv) = (side_view (ms_heap st') lv', f, q)"
    and "ms_results st' = rs @ spec_records mk now (length rs) (h p) f"
    and "ms_heap st' p = (h p)\<lparr>o_quantity := q\<rparr>"
proof -
  let ?st = "\<lparr>ms_heap = h, ms_active = ix, ms_results = rs\<rparr>"
  have "filled_to mk now (\<lambda>m. \<not> stop (ms_heap ?st p) (o_price m)) p (lv_ptrs lv) ?st (lv_ptrs lv') st'"
    using match_side_filled [of s tid ?st lv p now] wf p by (simp add: m)
  then show ?thesis by (rule filled_toE) (auto simp: side_view_def intro: that)
qed

end

lemma processOrder_buy_spec:
  assumes wf: "wf_book h b" and fr: "fresh_order h b p" and s: "o_side (h p) = BUY"
    and r: "processOrder now p h b rs = (h', b', rs')"
  shows "\<exists>recs q. spec_process now (ob_ticker_id b) (length rs) (h p) (abs_book h b) = (abs_book h' b', recs, q) \<and>
     rs' = rs @ recs \<and> h' p = (h p)\<lparr>o_quantity := q\<rparr>"
proof -
  let ?st = "\<lparr>ms_heap = h, ms_active = user_active_orders b, ms_results = rs\<rparr>"
  obtain lv' st' where m: "match_levels buy_stop (buy_record (ob_ticker_id b)) now p (asks b) ?st = (lv', st')"
    by fastforce
  have p: "p \<notin> set (lv_ptrs (asks b))" "p \<notin> set (lv_ptrs (bids b))" "distinct (lv_ptrs (asks b))"
    and wa: "wf_side (<) SELL (ob_ticker_id b) h (asks b)" and wb: "wf_side (>) BUY (ob_ticker_id b) h (bids b)"
    and sid: "sides_ok (<) SELL (>) BUY (ob_ticker_id b) h (asks b) (bids b) (user_active_orders b)"
    using fr wf by (auto simp: fresh_order_def book_ptrs_def wf_book_sides_buy sides_ok_def)
  obtain f q where sf: "spec_fill (\<lambda>m. \<not> buy_stop (h p) (o_price m)) (o_quantity (h p)) (side_view h (asks b)) = (side_view (ms_heap st') lv', f, q)"
    and rs: "ms_results st' = rs @ spec_records (buy_record (ob_ticker_id b)) now (length rs) (h p) f"
    and hp: "ms_heap st' p = (h p)\<lparr>o_quantity := q\<rparr>"
    by (rule buying.match_side_spec [OF wa p(1,3) m])
  have "ms_heap st' x = h x" if "x \<in> set (lv_ptrs (bids b))" for x
    using buying.match_sides_ok(3) [OF sid, of p x "ob_ticker_id b" now rs] p that sid by (auto simp: m sides_ok_def)
  then have same: "side_view (ms_heap st') (bids b) = side_view h (bids b)" and "wf_side (>) BUY (ob_ticker_id b) (ms_heap st') (bids b)"
    by (auto intro: side_view_cong wf_side_cong [OF wb])
  note view = selling.level_push_view [OF this(2)]
  have "abs_book h' b' = (spec_rest (>) (h p) q (side_view h (bids b)), side_view (ms_heap st') lv')"
    using r s by (auto simp: processOrder_buy m abs_book_def spec_rest_def hp view same word_gt_0)
  with r s sf rs hp show ?thesis
    by (auto simp: spec_process_def abs_book_def processOrder_buy m buy_stop_def not_less)
qed

lemma processOrder_sell_spec:
  assumes wf: "wf_book h b" and fr: "fresh_order h b p" and s: "o_side (h p) = SELL"
    and r: "processOrder now p h b rs = (h', b', rs')"
  shows "\<exists>recs q. spec_process now (ob_ticker_id b) (length rs) (h p) (abs_book h b) = (abs_book h' b', recs, q) \<and>
     rs' = rs @ recs \<and> h' p = (h p)\<lparr>o_quantity := q\<rparr>"
proof -
  let ?st = "\<lparr>ms_heap = h, ms_active = user_active_orders b, ms_results = rs\<rparr>"
  obtain lv' st' where m: "match_levels sell_stop (sell_record (ob_ticker_id b)) now p (bids b) ?st = (lv', st')"
    by fastforce
  have p: "p \<notin> set (lv_ptrs (bids b))" "p \<notin> set (lv_ptrs (asks b))" "distinct (lv_ptrs (bids b))"
    and wb: "wf_side (>) BUY (ob_ticker_id b) h (bids b)" and wa: "wf_side (<) SELL (ob_ticker_id b) h (asks b)"
    and sid: "sides_ok (>) BUY (<) SELL (ob_ticker_id b) h (bids b) (asks b) (user_active_orders b)"
    using fr wf by (auto simp: fresh_order_def book_ptrs_def wf_book_sides_sell sides_ok_def)
  obtain f q where sf: "spec_fill (\<lambda>m. \<not> sell_stop (h p) (o_price m)) (o_quantity (h p)) (side_view h (bids b)) = (side_view (ms_heap st') lv', f, q)"
    and rs: "ms_results st' = rs @ spec_records (sell_record (ob_ticker_id b)) now (length rs) (h p) f"
    and hp: "ms_heap st' p = (h p)\<lparr>o_quantity := q\<rparr>"
    by (rule selling.match_side_spec [OF wb p(1,3) m])
  have "ms_heap st' x = h x" if "x \<in> set (lv_ptrs (asks b))" for x
    using selling.match_sides_ok(3) [OF sid, of p x "ob_ticker_id b" now rs] p that sid by (auto simp: m sides_ok_def)
  then have same: "side_view (ms_heap st') (asks b) = side_view h (asks b)" and "wf_side (<) SELL (ob_ticker_id b) (ms_heap st') (asks b)"
    by (auto intro: side_view_cong wf_side_cong [OF wa])
  note view = buying.level_push_view [OF this(2)]
  have "abs_book h' b' = (side_view (ms_heap st') lv', spec_rest (<) (h p) q (side_view h (asks b)))"
    using r s by (auto simp: processOrder_sell m abs_book_def spec_rest_def hp view same word_gt_0)
  with r s sf rs hp show ?thesis
    by (auto simp: spec_process_def abs_book_def processOrder_sell m sell_stop_def not_less)
qed

lemma processOrder_spec:
  assumes "wf_book h b" and "fresh_order h b p" and "processOrder now p h b rs = (h', b', rs')"
  obtains recs q where "spec_process now (ob_ticker_id b) (length rs) (h p) (abs_book h b) = (abs_book h' b', recs, q)"
    and "rs' = rs @ recs" and "h' p = (h p)\<lparr>o_quantity := q\<rparr>"
  using assms processOrder_buy_spec [OF assms(1,2) _ assms(3)] processOrder_sell_spec [OF assms(1,2) _ assms(3)]
  by (cases "o_side (h p)") blast+

section \<open>Facts of the reference matcher\<close>

lemma spec_fill_Cons_cases:
  assumes "spec_fill ok q (m # ms) = (r, f, q')"
  obtains (stop) "q = 0 \<or> \<not> ok m" "r = m # ms" "f = []" "q' = q"
    | (partial) "q \<noteq> 0" "ok m" "q < o_quantity m" "r = m\<lparr>o_quantity := o_quantity m - q\<rparr> # ms" "f = [(m, q)]" "q' = 0"
    | (full) f' where "q \<noteq> 0" "ok m" "o_quantity m \<le> q" "f = (m, o_quantity m) # f'"
        "spec_fill ok (q - o_quantity m) ms = (r, f', q')"
  using assms by (auto simp: not_less split: if_splits prod.splits)

lemma spec_fill_makers: "spec_fill ok q ms = (r, f, q') \<Longrightarrow> map fst f = take (length f) ms"
proof (induction ms arbitrary: q r f)
  case (Cons m ms)
  from Cons.prems show ?case by (cases rule: spec_fill_Cons_cases) (auto dest: Cons.IH)
qed simp

lemma spec_fill_ok: "spec_fill ok q ms = (r, f, q') \<Longrightarrow> (m, t) \<in> set f \<Longrightarrow> ok m \<and> t \<le> o_quantity m"
proof (induction ms arbitrary: q r f)
  case (Cons x ms)
  from Cons.prems(1) show ?case by (cases rule: spec_fill_Cons_cases) (use Cons in auto)
qed simp

lemma spec_fill_pos_qty:
  "spec_fill ok q ms = (r, f, q') \<Longrightarrow> \<forall>m \<in> set ms. 0 < o_quantity m \<Longrightarrow> (m, t) \<in> set f \<Longrightarrow> 0 < t"
proof (induction ms arbitrary: q r f)
  case (Cons x ms)
  from Cons.prems(1) show ?case by (cases rule: spec_fill_Cons_cases) (use Cons in \<open>auto simp: word_gt_0\<close>)
qed simp

text \<open>What the taker loses is what the fills carry; no sum overflows.\<close>

lemma spec_fill_taker: "spec_fill ok q ms = (r, f, q') \<Longrightarrow> sum_list (map (unat \<circ> snd) f) + unat q' = unat q"
proof (induction ms arbitrary: q r f)
  case (Cons m ms)
  from Cons.prems show ?case
  proof (cases rule: spec_fill_Cons_cases)
    case (full f')
    then have "unat (q - o_quantity m) = unat q - unat (o_quantity m)" by (simp add: unat_sub)
    with Cons.IH [OF full(5)] full show ?thesis by (simp add: word_le_nat_alt)
  qed auto
qed simp

text \<open>
  Weights linear in the quantity: \<open>g\<close> is additive on words, \<open>c\<close> does not look at the quantity.
  The makers' total weight splits into what rests and what the fills took.
\<close>

lemma spec_fill_weight:
  fixes g :: "u64 \<Rightarrow> 'a :: comm_ring_1"
  assumes g: "\<And>x y. g (x - y) = g x - g y" and c: "\<And>x q. c (x\<lparr>o_quantity := q\<rparr>) = c x"
  shows "spec_fill ok q ms = (r, f, q') \<Longrightarrow>
    (\<Sum>m\<leftarrow>ms. c m * g (o_quantity m)) = (\<Sum>m\<leftarrow>r. c m * g (o_quantity m)) + (\<Sum>(m, t)\<leftarrow>f. c m * g t)"
proof (induction ms arbitrary: q r f)
  case (Cons m ms)
  from Cons.prems show ?case
    by (cases rule: spec_fill_Cons_cases) (auto simp: g c algebra_simps dest: Cons.IH)
qed simp

lemma spec_fill_left:
  fixes g :: "u64 \<Rightarrow> 'a :: comm_ring_1"
  assumes g: "\<And>x y. g (x - y) = g x - g y"
  shows "spec_fill ok q ms = (r, f, q') \<Longrightarrow> g q = g q' + (\<Sum>(m, t)\<leftarrow>f. g t)"
proof (induction ms arbitrary: q r f)
  case (Cons m ms)
  have "g 0 = 0" using g [of 0 0] by simp
  from Cons.prems show ?case
  proof (cases rule: spec_fill_Cons_cases)
    case (full f')
    with Cons.IH [OF full(5)] show ?thesis by (simp add: g algebra_simps)
  qed (use \<open>g 0 = 0\<close> in auto)
qed simp

context price_levels
begin

text \<open>The view of a side is sorted by priority.\<close>

lemma side_view_sorted:
  assumes "wf_side lt s tid h lv"
  shows "sorted_wrt (\<lambda>x y. o_price x = o_price y \<or> lt (o_price x) (o_price y)) (side_view h lv)"
  using assms
proof (induction lv)
  case (Cons e lv)
  have lvl: "\<forall>q \<in> set (snd e). o_price (h q) = fst e" and tl: "wf_side lt s tid h lv"
    and hd: "\<forall>x \<in> set lv. lt (fst e) (fst x)"
    using Cons.prems by (auto simp: wf_side_Cons wf_level_def)
  have "sorted_wrt (\<lambda>x y. o_price x = o_price y \<or> lt (o_price x) (o_price y)) (map h (snd e))"
    using lvl by (auto simp: sorted_wrt_map intro: sorted_wrt_mono_rel [of _ "\<lambda>_ _. True"])
  moreover have "lt (fst e) (o_price (h q))" if "q \<in> set (lv_ptrs lv)" for q
    using that tl hd by (auto simp: in_lv_ptrs wf_side_def wf_level_def)
  ultimately show ?case
    using lvl Cons.IH [OF tl] by (auto simp: side_view_def sorted_wrt_append)
qed (simp add: side_view_def)

end

lemma spec_fill_rest:
  "spec_fill ok q ms = (r, f, q') \<Longrightarrow>
     sum_list (map (unat \<circ> o_quantity) ms) = sum_list (map (unat \<circ> o_quantity) r) + sum_list (map (unat \<circ> snd) f)"
proof (induction ms arbitrary: q r f)
  case (Cons m ms)
  from Cons.prems show ?case
  proof (cases rule: spec_fill_Cons_cases)
    case partial
    then have "unat (o_quantity m - q) = unat (o_quantity m) - unat q" by (simp add: unat_sub)
    with partial show ?thesis by (simp add: word_less_nat_alt)
  next
    case (full f')
    with Cons.IH [OF full(5)] show ?thesis by simp
  qed simp
qed simp

lemma sum_spec_rest:
  "sum_list (map (unat \<circ> o_quantity) (spec_rest lt x q xs)) = sum_list (map (unat \<circ> o_quantity) xs) + unat q"
proof -
  have "sum_list (map g (filter (\<lambda>y. \<not> P y) xs)) + sum_list (map g (filter P xs)) = sum_list (map g xs)"
    for g :: "Order \<Rightarrow> nat" and P by (induction xs) auto
  from this [of "unat \<circ> o_quantity" "\<lambda>y. lt (o_price x) (o_price y)"] show ?thesis
    by (simp add: spec_rest_def)
qed

lemma spec_records_quantity: 
  "sum_list (map (unat \<circ> m_match_quantity) (spec_records (buy_record tid) now base x f)) = sum_list (map (unat \<circ> snd) f)"
  "sum_list (map (unat \<circ> m_match_quantity) (spec_records (sell_record tid) now base x f)) = sum_list (map (unat \<circ> snd) f)"
  by (induction f arbitrary: base) (auto simp: spec_records_Cons buy_record_def sell_record_def)

lemma spec_records_makers:
  "map m_maker_order_id (spec_records (buy_record tid) now base x f) = map (o_order_id \<circ> fst) f"
  "map m_maker_order_id (spec_records (sell_record tid) now base x f) = map (o_order_id \<circ> fst) f"
  "map m_match_price (spec_records (buy_record tid) now base x f) = map (o_price \<circ> fst) f"
  "map m_match_price (spec_records (sell_record tid) now base x f) = map (o_price \<circ> fst) f"
  by (induction f arbitrary: base) (auto simp: spec_records_Cons buy_record_def sell_record_def)

lemma in_spec_records:
  assumes "r \<in> set (spec_records mk now base x f)"
  obtains m t n where "(m, t) \<in> set f" and "r = mk x m (o_price m) t n"
proof -
  from assms obtain i m t where "(i, m, t) \<in> set (enumerate base f)" "r = mk x m (o_price m) t (now i)"
    by (auto simp: spec_records_def)
  then have "(m, t) \<in> set f" by (simp add: enumerate_eq_zip set_zip_rightD)
  with \<open>r = _\<close> show ?thesis by (intro that)
qed

lemma spec_process_cases:
  assumes "spec_process now tid base x book = (book', recs, q)"
  obtains (buy) f where "o_side x = BUY"
      "spec_fill (\<lambda>m. o_price m \<le> o_price x) (o_quantity x) (snd book) = (snd book', f, q)"
      "fst book' = spec_rest (>) x q (fst book)" "recs = spec_records (buy_record tid) now base x f"
    | (sell) f where "o_side x = SELL"
      "spec_fill (\<lambda>m. o_price x \<le> o_price m) (o_quantity x) (fst book) = (fst book', f, q)"
      "snd book' = spec_rest (<) x q (snd book)" "recs = spec_records (sell_record tid) now base x f"
  using assms by (cases "o_side x") (auto simp: spec_process_def split: prod.splits)

section \<open>Total resting quantity and the two queries\<close>

definition book_qty :: "heap \<Rightarrow> OrderBook \<Rightarrow> nat" where
  "book_qty h b = sum_list (map (\<lambda>q. unat (o_quantity (h q))) (book_ptrs b))"

lemma book_qty_abs:
  "book_qty h b = sum_list (map (unat \<circ> o_quantity) (fst (abs_book h b))) + sum_list (map (unat \<circ> o_quantity) (snd (abs_book h b)))"
  by (simp add: book_qty_def abs_book_def side_view_def book_ptrs_def comp_def)

lemma spec_process_qty:
  assumes "spec_process now tid base x book = (book', recs, q)"
  shows "sum_list (map (unat \<circ> m_match_quantity) recs) + unat q = unat (o_quantity x)"
    and "sum_list (map (unat \<circ> o_quantity) (fst book')) + sum_list (map (unat \<circ> o_quantity) (snd book')) +
       sum_list (map (unat \<circ> m_match_quantity) recs) =
       sum_list (map (unat \<circ> o_quantity) (fst book)) + sum_list (map (unat \<circ> o_quantity) (snd book)) + unat q"
proof -
  have "sum_list (map (unat \<circ> m_match_quantity) recs) + unat q = unat (o_quantity x) \<and>
      sum_list (map (unat \<circ> o_quantity) (fst book')) + sum_list (map (unat \<circ> o_quantity) (snd book')) +
      sum_list (map (unat \<circ> m_match_quantity) recs) =
      sum_list (map (unat \<circ> o_quantity) (fst book)) + sum_list (map (unat \<circ> o_quantity) (snd book)) + unat q"
    using assms
  proof (cases rule: spec_process_cases)
    case (buy f)
    with spec_fill_taker [OF buy(2)] spec_fill_rest [OF buy(2)] show ?thesis
      by (simp add: spec_records_quantity sum_spec_rest)
  next
    case (sell f)
    with spec_fill_taker [OF sell(2)] spec_fill_rest [OF sell(2)] show ?thesis
      by (simp add: spec_records_quantity sum_spec_rest)
  qed
  then show "sum_list (map (unat \<circ> m_match_quantity) recs) + unat q = unat (o_quantity x)"
    and "sum_list (map (unat \<circ> o_quantity) (fst book')) + sum_list (map (unat \<circ> o_quantity) (snd book')) +
      sum_list (map (unat \<circ> m_match_quantity) recs) =
      sum_list (map (unat \<circ> o_quantity) (fst book)) + sum_list (map (unat \<circ> o_quantity) (snd book)) + unat q"
    by simp_all
qed

lemma getBestBidOffer_levels:
  "fst (getBestBidOffer b) = (if bids b = [] then 0 else fst (hd (bids b)))"
  "snd (getBestBidOffer b) = (if asks b = [] then 0 else fst (hd (asks b)))"
  by (auto simp: getBestBidOffer_def split: list.splits)

context price_levels
begin

lemma best_level:
  assumes wf: "wf_side lt s tid h lv" and q: "q \<in> set (lv_ptrs lv)"
  shows "\<exists>p \<in> set (lv_ptrs lv). o_price (h p) = fst (hd lv)"
    and "o_price (h q) = fst (hd lv) \<or> lt (fst (hd lv)) (o_price (h q))"
proof -
  obtain e lv' where lv: "lv = e # lv'" using q by (cases lv) auto
  have e: "snd e \<noteq> []" "\<forall>x \<in> set (snd e). o_price (h x) = fst e"
    using wf by (auto simp: lv wf_side_def wf_level_def)
  then show "\<exists>p \<in> set (lv_ptrs lv). o_price (h p) = fst (hd lv)"
    by (cases "snd e") (auto simp: lv)
  obtain e' where "e' \<in> set lv" "o_price (h q) = fst e'"
    using q wf by (auto simp: in_lv_ptrs wf_side_def wf_level_def)
  then show "o_price (h q) = fst (hd lv) \<or> lt (fst (hd lv)) (o_price (h q))"
    using wf by (auto simp: lv wf_side_Cons)
qed

end

lemma getUserActiveOrder_set:
  assumes "wf_book h b"
  shows "set (getUserActiveOrder u b) = {p \<in> set (book_ptrs b). o_user_id (h p) = u}"
    and "distinct (getUserActiveOrder u b)"
proof -
  let ?ix = "user_active_orders b"
  have ok: "index_ok h (set (book_ptrs b)) ?ix" using assms by (simp add: wf_book_def)
  then have find: "active_find ?ix v i = Some p \<longleftrightarrow> p \<in> set (book_ptrs b) \<and> o_user_id (h p) = v \<and> o_order_id (h p) = i" for v i p
    by (simp add: index_ok_def)
  show "set (getUserActiveOrder u b) = {p \<in> set (book_ptrs b). o_user_id (h p) = u}"
  proof (cases "map_of ?ix u")
    case None
    then show ?thesis using find [of u] by (auto simp: getUserActiveOrder_def active_find_def)
  next
    case (Some m)
    then have wf: "um_wf m" using ok by (auto simp: index_ok_def active_wf_def)
    have "p \<in> snd ` set m \<longleftrightarrow> (\<exists>i. map_of m i = Some p)" for p
      using um_wf_mem_iff [OF wf] by force
    with Some find [of u] show ?thesis by (auto simp: getUserActiveOrder_def active_find_def)
  qed
  show "distinct (getUserActiveOrder u b)"
  proof (cases "map_of ?ix u")
    case (Some m)
    then have wf: "um_wf m" using ok by (auto simp: index_ok_def active_wf_def)
    have "i = j" if "(i, p) \<in> set m" "(j, p) \<in> set m" for i j p
      using that find [of u] Some um_wf_mem_iff [OF wf] by (auto simp: active_find_def)
    then have "inj_on snd (set m)" by (auto intro!: inj_onI)
    moreover have "distinct m" using wf by (simp add: um_wf_def distinct_map)
    ultimately show ?thesis using Some by (simp add: getUserActiveOrder_def distinct_map)
  qed (simp add: getUserActiveOrder_def)
qed

end
