(* ===== verification/OrderBook_Claims.thy ===== *)
theory OrderBook_Claims
  imports OrderBook_Props
begin

text \<open>
  The properties of one order book, stated over \<^verbatim>\<open>processOrder\<close>, \<^verbatim>\<open>cancelOrder\<close> and the queries,
  with a small book that shows their hypotheses can hold.
\<close>

section \<open>An example book\<close>

text \<open>Two resting sell orders of user 7 at 100 and 105 and a buy order of user 8 that arrives.\<close>

definition ex_ask1 :: Order where
  "ex_ask1 = \<lparr>o_order_id = 11, o_ticker_id = 1, o_user_id = 7, o_side = SELL, o_price = 100,
     o_quantity = 5, o_timestamp = 0\<rparr>"

definition ex_ask2 :: Order where
  "ex_ask2 = \<lparr>o_order_id = 12, o_ticker_id = 1, o_user_id = 7, o_side = SELL, o_price = 105,
     o_quantity = 5, o_timestamp = 1\<rparr>"

definition ex_buy :: Order where
  "ex_buy = \<lparr>o_order_id = 13, o_ticker_id = 1, o_user_id = 8, o_side = BUY, o_price = 103,
     o_quantity = 8, o_timestamp = 2\<rparr>"

definition ex_heap :: heap where
  "ex_heap p = (if p = 1 then ex_ask1 else if p = 2 then ex_ask2 else ex_buy)"

definition ex_book :: OrderBook where
  "ex_book = \<lparr>ob_ticker_id = 1, bids = [], asks = [(100, [1]), (105, [2])],
     user_active_orders = [(7, [(11, 1), (12, 2)])]\<rparr>"

lemmas ex_defs = ex_ask1_def ex_ask2_def ex_buy_def ex_heap_def ex_book_def

lemma ex_book_wf: "wf_book ex_heap ex_book"
proof -
  have "wf_side (<) SELL 1 ex_heap [(100, [1]), (105, [2])]"
    by (auto simp: wf_side_def om_wf_def wf_level_def ex_defs)
  moreover have "index_ok ex_heap {1, 2} [(7, [(11, 1), (12, 2)])]"
    by (auto simp: index_ok_def active_wf_def um_wf_def active_find_def ex_defs split: if_splits)
  ultimately show ?thesis
    by (simp add: wf_book_def ex_book_def book_ptrs_def uncrossed_def wf_side_def om_wf_def)
      (simp add: ex_defs)
qed

lemma ex_fresh: "fresh_order ex_heap ex_book 3"
  by (simp add: fresh_order_def book_ptrs_def ex_defs)

lemma prod3: "x = (fst x, fst (snd x), snd (snd x))"
  by simp

section \<open>Matching\<close>

text \<open>
  C4. Processing an order keeps the book well formed: the price levels stay sorted and
  non-empty, every resting order is listed once and indexed under its owner, and the best bid
  stays below the best ask.
\<close>

theorem processOrder_keeps_book:
  assumes "wf_book h b" and "fresh_order h b p" and "processOrder now p h b rs = (h', b', rs')"
  shows "wf_book h' b'"
  using assms processOrder_wf_buy processOrder_wf_sell by (cases "o_side (h p)") blast+

theorem processOrder_keeps_book_witness:
  "let r = processOrder of_nat 3 ex_heap ex_book [] in
   wf_book ex_heap ex_book \<and> fresh_order ex_heap ex_book 3 \<and> wf_book (fst r) (fst (snd r))"
  using processOrder_keeps_book [OF ex_book_wf ex_fresh prod3] by (simp add: Let_def ex_book_wf ex_fresh)

text \<open>
  C5. Processing an order computes the reference matcher: it appends exactly the reference's
  match records, leaves the reference's book and leaves the reference's rest in the order.
\<close>

theorem processOrder_refines_reference:
  assumes "wf_book h b" and "fresh_order h b p" and "processOrder now p h b rs = (h', b', rs')"
  shows "\<exists>recs q. spec_process now (ob_ticker_id b) (length rs) (h p) (abs_book h b) = (abs_book h' b', recs, q) \<and>
    rs' = rs @ recs \<and> h' p = (h p)\<lparr>o_quantity := q\<rparr>"
  by (rule processOrder_spec [OF assms]) blast

theorem processOrder_refines_reference_witness:
  "let r = processOrder of_nat 3 ex_heap ex_book [] in
   wf_book ex_heap ex_book \<and> fresh_order ex_heap ex_book 3 \<and>
   (\<exists>recs q. spec_process of_nat 1 0 ex_buy (abs_book ex_heap ex_book) = (abs_book (fst r) (fst (snd r)), recs, q) \<and>
      snd (snd r) = recs \<and> fst r 3 = ex_buy\<lparr>o_quantity := q\<rparr>)"
  using processOrder_refines_reference [OF ex_book_wf ex_fresh prod3, of of_nat "[]"]
  by (simp add: Let_def ex_book_wf ex_fresh) (simp add: ex_book_def ex_heap_def)

text \<open>
  C6. Quantity is conserved: what the new order loses is what the new match records carry, and
  each traded unit leaves one resting order and the new order, with nothing lost to overflow.
\<close>

theorem processOrder_conserves_quantity:
  assumes "wf_book h b" and "fresh_order h b p" and "processOrder now p h b rs = (h', b', rs')"
  shows "\<exists>recs. rs' = rs @ recs \<and>
    sum_list (map (unat \<circ> m_match_quantity) recs) + unat (o_quantity (h' p)) = unat (o_quantity (h p)) \<and>
    book_qty h' b' + 2 * sum_list (map (unat \<circ> m_match_quantity) recs) = book_qty h b + unat (o_quantity (h p))"
proof (rule processOrder_spec [OF assms])
  fix recs q
  assume sp: "spec_process now (ob_ticker_id b) (length rs) (h p) (abs_book h b) = (abs_book h' b', recs, q)"
    and "rs' = rs @ recs" and "h' p = (h p)\<lparr>o_quantity := q\<rparr>"
  with spec_process_qty [OF sp] show ?thesis by (intro exI [of _ recs]) (simp add: book_qty_abs)
qed

theorem processOrder_conserves_quantity_witness:
  "let r = processOrder of_nat 3 ex_heap ex_book [] in
   sum_list (map (unat \<circ> m_match_quantity) (snd (snd r))) + unat (o_quantity (fst r 3)) = 8 \<and>
   book_qty (fst r) (fst (snd r)) + 2 * sum_list (map (unat \<circ> m_match_quantity) (snd (snd r))) = book_qty ex_heap ex_book + 8"
  using processOrder_conserves_quantity [OF ex_book_wf ex_fresh prod3, of of_nat "[]"]
  by (auto simp: Let_def ex_heap_def ex_buy_def)


lemma ex_process:
  "processOrder of_nat 3 ex_heap ex_book [] = (fst (processOrder of_nat 3 ex_heap ex_book []),
     fst (snd (processOrder of_nat 3 ex_heap ex_book [])), [] @ [buy_record 1 ex_buy ex_ask1 100 5 0])"
  by (simp add: processOrder_def matchBuyOrder_def ex_defs trade_def Let_def buy_stop_def buy_record_def)


text \<open>
  C8. Price-time priority: the orders a new order trades with are exactly the first ones of the
  opposite priority list, one record each, and the match prices only get worse for the taker.
\<close>

theorem processOrder_price_time_priority:
  assumes "wf_book h b" and "fresh_order h b p" and "processOrder now p h b rs = (h', b', rs @ recs)"
  shows "map m_maker_order_id recs =
      take (length recs) (map o_order_id (if o_side (h p) = BUY then snd (abs_book h b) else fst (abs_book h b))) \<and>
    sorted_wrt (if o_side (h p) = BUY then (\<le>) else (\<ge>)) (map m_match_price recs)"
proof (rule processOrder_spec [OF assms])
  fix recs' q
  assume sp: "spec_process now (ob_ticker_id b) (length rs) (h p) (abs_book h b) = (abs_book h' b', recs', q)"
    and "rs @ recs = rs @ recs'"
  then have eq: "recs = recs'" by simp
  have sorted: "sorted_wrt (\<lambda>x y. o_price x = o_price y \<or> o_price x > o_price y) (fst (abs_book h b))"
    "sorted_wrt (\<lambda>x y. o_price x = o_price y \<or> o_price x < o_price y) (snd (abs_book h b))"
    using assms(1) selling.side_view_sorted buying.side_view_sorted by (auto simp: wf_book_def abs_book_def)
  from sp show ?thesis
  proof (cases rule: spec_process_cases)
    case (buy f)
    note mk = spec_fill_makers [OF buy(2)]
    have "sorted_wrt (\<le>) (map o_price (map fst f))"
      unfolding mk sorted_wrt_map by (rule sorted_wrt_mono_rel [OF _ sorted_wrt_take [OF sorted(2)]]) auto
    with buy mk show ?thesis by (simp add: eq spec_records_makers flip: take_map map_map)
  next
    case (sell f)
    note mk = spec_fill_makers [OF sell(2)]
    have "sorted_wrt (\<ge>) (map o_price (map fst f))"
      unfolding mk sorted_wrt_map by (rule sorted_wrt_mono_rel [OF _ sorted_wrt_take [OF sorted(1)]]) auto
    with sell mk show ?thesis by (simp add: eq spec_records_makers flip: take_map map_map)
  qed
qed

theorem processOrder_price_time_priority_witness:
  "map m_maker_order_id [buy_record 1 ex_buy ex_ask1 100 5 0] = take 1 (map o_order_id (snd (abs_book ex_heap ex_book)))"
  using processOrder_price_time_priority [OF ex_book_wf ex_fresh ex_process]
  by (simp add: ex_heap_def ex_buy_def)

section \<open>Cancellation\<close>

text \<open>
  C9. Cancelling a resting order of the user takes exactly that order off the book and off the
  index and returns it; the book stays well formed and every other order keeps its place.
\<close>

theorem cancelOrder_removes_order:
  assumes "wf_book h b" and "p \<in> set (book_ptrs b)" and "o_user_id (h p) = u" and "o_order_id (h p) = ucast oid"
  shows "\<exists>b'. cancelOrder oid u h b = (Some p, b') \<and> wf_book h b' \<and>
    book_ptrs b' = filter (\<lambda>q. q \<noteq> p) (book_ptrs b) \<and> p \<notin> set (getUserActiveOrder u b')"
proof -
  have ix: "index_ok h (set (book_ptrs b)) (user_active_orders b)" and inj: "inj_on (\<lambda>q. o_order_id (h q)) (set (book_ptrs b))"
    using assms(1) by (auto simp: wf_book_def)
  then have "active_find (user_active_orders b) u (ucast oid) = Some p" using assms by (simp add: index_ok_def)
  then obtain b' where b': "cancelOrder oid u h b = (Some p, b')" "wf_book h b'"
    "lv_ptrs (bids b') = filter (\<lambda>q. o_order_id (h q) \<noteq> ucast oid) (lv_ptrs (bids b))"
    "lv_ptrs (asks b') = filter (\<lambda>q. o_order_id (h q) \<noteq> ucast oid) (lv_ptrs (asks b))"
    using cancelOrder_Some [OF assms(1)] by metis
  have "o_order_id (h q) \<noteq> ucast oid \<longleftrightarrow> q \<noteq> p" if "q \<in> set (book_ptrs b)" for q
    using inj_onD [OF inj, of q p] that assms by auto
  then have "book_ptrs b' = filter (\<lambda>q. q \<noteq> p) (book_ptrs b)"
    by (simp add: b' book_ptrs_def cong: filter_cong)
  with b' show ?thesis by (auto simp: getUserActiveOrder_set [OF b'(2)])
qed

theorem cancelOrder_removes_order_witness:
  "\<exists>b'. cancelOrder 11 7 ex_heap ex_book = (Some 1, b') \<and> wf_book ex_heap b' \<and>
    book_ptrs b' = [2] \<and> 1 \<notin> set (getUserActiveOrder 7 b')"
  using cancelOrder_removes_order [OF ex_book_wf, of 1 7 11] by (simp add: book_ptrs_def ex_defs)

text \<open>
  A request that does not name a resting order of the requesting user changes nothing: in
  particular nobody can cancel another user's order.
\<close>

theorem cancelOrder_other_user:
  assumes "wf_book h b" and "\<And>p. p \<in> set (book_ptrs b) \<Longrightarrow> o_order_id (h p) = ucast oid \<Longrightarrow> o_user_id (h p) \<noteq> u"
  shows "cancelOrder oid u h b = (None, b)"
proof -
  have "index_ok h (set (book_ptrs b)) (user_active_orders b)" using assms(1) by (simp add: wf_book_def)
  then have "active_find (user_active_orders b) u (ucast oid) \<noteq> Some p" for p
    using assms(2) [of p] by (auto simp: index_ok_def)
  then show ?thesis by (intro cancelOrder_None) (metis option.exhaust)
qed

theorem cancelOrder_other_user_witness: "cancelOrder 11 8 ex_heap ex_book = (None, ex_book)"
  by (rule cancelOrder_other_user [OF ex_book_wf]) (auto simp: book_ptrs_def ex_defs split: if_splits)

text \<open>
  C10. The 32-bit order id parameter loses orders: an order whose 64-bit id does not fit in 32
  bits is never returned by a cancellation, whatever id and user are given, so it stays on the book.
\<close>

theorem cancelOrder_never_finds_wide_ids:
  assumes "wf_book h b" and "p \<in> set (book_ptrs b)" and "2 ^ 32 \<le> unat (o_order_id (h p))"
  shows "fst (cancelOrder oid u h b) \<noteq> Some p \<and> p \<in> set (book_ptrs (snd (cancelOrder oid u h b)))"
proof -
  have lt: "unat (ucast oid :: u64) < 2 ^ 32"
    using unsigned_less [of oid, where ?'a = nat] by (simp add: unsigned_ucast_eq take_bit_nat_eq_self)
  then have ne: "o_order_id (h p) \<noteq> ucast oid" using assms(3) by auto
  show ?thesis
  proof (cases "active_find (user_active_orders b) u (ucast oid)")
    case None
    then show ?thesis using assms(2) by (simp add: cancelOrder_None)
  next
    case (Some q)
    then have "o_order_id (h q) = ucast oid" using assms(1) by (auto simp: wf_book_def index_ok_def)
    with ne have "q \<noteq> p" by auto
    with Some assms ne show ?thesis
      by (auto elim!: cancelOrder_Some [OF assms(1)] simp: book_ptrs_def)
  qed
qed

text \<open>The same book with an id as the generator makes them: far beyond 32 bits.\<close>

definition ex_wide_heap :: heap where
  "ex_wide_heap p = (if p = 1 then ex_ask1\<lparr>o_order_id := 1099511627776\<rparr> else ex_buy)"

definition ex_wide_book :: OrderBook where
  "ex_wide_book = \<lparr>ob_ticker_id = 1, bids = [], asks = [(100, [1])], user_active_orders = [(7, [(1099511627776, 1)])]\<rparr>"

lemma ex_wide_wf: "wf_book ex_wide_heap ex_wide_book"
proof -
  have "index_ok ex_wide_heap {1} [(7, [(1099511627776, 1)])]"
    by (auto simp: index_ok_def active_wf_def um_wf_def active_find_def ex_wide_heap_def ex_ask1_def split: if_splits)
  then show ?thesis
    by (simp add: wf_book_def ex_wide_book_def book_ptrs_def uncrossed_def wf_side_def om_wf_def wf_level_def)
      (simp add: ex_wide_heap_def ex_ask1_def)
qed

theorem cancelOrder_never_finds_wide_ids_witness:
  "2 ^ 32 \<le> unat (o_order_id (ex_wide_heap 1)) \<and>
   1 \<in> set (book_ptrs (snd (cancelOrder (ucast (o_order_id (ex_wide_heap 1))) 7 ex_wide_heap ex_wide_book)))"
  using cancelOrder_never_finds_wide_ids [OF ex_wide_wf, of 1 "ucast (o_order_id (ex_wide_heap 1))" 7]
  by (simp add: ex_wide_book_def book_ptrs_def) (simp add: ex_wide_heap_def)

section \<open>Queries\<close>

text \<open>
  The best prices: the bid is the highest price of any resting buy order and the ask the
  lowest of any resting sell order, 0 where a side is empty, and the bid is below the ask.
\<close>

theorem getBestBidOffer_best:
  assumes "wf_book h b"
  shows "(if lv_ptrs (bids b) = [] then fst (getBestBidOffer b) = 0
      else fst (getBestBidOffer b) = Max ((\<lambda>p. o_price (h p)) ` set (lv_ptrs (bids b)))) \<and>
    (if lv_ptrs (asks b) = [] then snd (getBestBidOffer b) = 0
      else snd (getBestBidOffer b) = Min ((\<lambda>p. o_price (h p)) ` set (lv_ptrs (asks b))))"
proof -
  have wb: "wf_side (>) BUY (ob_ticker_id b) h (bids b)" and wa: "wf_side (<) SELL (ob_ticker_id b) h (asks b)"
    using assms by (auto simp: wf_book_def)
  have nb: "lv_ptrs (bids b) = [] \<longleftrightarrow> bids b = []" and na: "lv_ptrs (asks b) = [] \<longleftrightarrow> asks b = []"
    using wb wa by (cases "bids b"; cases "asks b"; auto simp: wf_side_def wf_level_def)+
  have "fst (hd (bids b)) = Max ((\<lambda>p. o_price (h p)) ` set (lv_ptrs (bids b)))" if ne: "bids b \<noteq> []"
  proof (rule Max_eqI [symmetric])
    obtain q where q: "q \<in> set (lv_ptrs (bids b))" using nb ne by (metis last_in_set)
    show "fst (hd (bids b)) \<in> (\<lambda>p. o_price (h p)) ` set (lv_ptrs (bids b))"
      using selling.best_level(1) [OF wb q] by force
    show "y \<le> fst (hd (bids b))" if "y \<in> (\<lambda>p. o_price (h p)) ` set (lv_ptrs (bids b))" for y
      using that selling.best_level(2) [OF wb] by fastforce
  qed simp
  moreover have "fst (hd (asks b)) = Min ((\<lambda>p. o_price (h p)) ` set (lv_ptrs (asks b)))" if ne: "asks b \<noteq> []"
  proof (rule Min_eqI [symmetric])
    obtain q where q: "q \<in> set (lv_ptrs (asks b))" using na ne by (metis last_in_set)
    show "fst (hd (asks b)) \<in> (\<lambda>p. o_price (h p)) ` set (lv_ptrs (asks b))"
      using buying.best_level(1) [OF wa q] by force
    show "fst (hd (asks b)) \<le> y" if "y \<in> (\<lambda>p. o_price (h p)) ` set (lv_ptrs (asks b))" for y
      using that buying.best_level(2) [OF wa] by fastforce
  qed simp
  ultimately show ?thesis by (simp add: getBestBidOffer_levels nb na)
qed

theorem getBestBidOffer_best_witness: "snd (getBestBidOffer ex_book) = Min {100, 105 :: u64} \<and> fst (getBestBidOffer ex_book) = 0"
  using getBestBidOffer_best [OF ex_book_wf] by (simp add: ex_book_def) (simp add: ex_defs)

text \<open>
  The active orders reported for a user are exactly the user's orders that rest on the book,
  each once; they are the shared objects, so their quantities are what is left to trade.
\<close>

theorem getUserActiveOrder_complete:
  assumes "wf_book h b"
  shows "distinct (getUserActiveOrder u b) \<and>
    set (getUserActiveOrder u b) = {p \<in> set (book_ptrs b). o_user_id (h p) = u} \<and>
    (\<forall>p \<in> set (getUserActiveOrder u b). 0 < o_quantity (h p))"
proof -
  have "0 < o_quantity (h p)" if "p \<in> set (book_ptrs b)" for p
    using that assms wf_side_order(2) by (auto simp: wf_book_def book_ptrs_def)
  then show ?thesis using getUserActiveOrder_set [OF assms] by auto
qed

theorem getUserActiveOrder_complete_witness: "set (getUserActiveOrder 7 ex_book) = {1, 2}"
  using getUserActiveOrder_complete [OF ex_book_wf, of 7] by (auto simp: book_ptrs_def ex_defs)

end
