(* ===== verification/Text.thy ===== *)
theory Text
  imports Prelude
begin

text \<open>
  Numbers as text: \<^verbatim>\<open>std::to_string\<close> on unsigned values and the \<^verbatim>\<open>std::sto*\<close> conversions that
  read the columns of a query result. A conversion skips leading white space, takes an optional
  sign and then digits as far as they go; it throws when there is no digit or the value does not
  fit the result type.
\<close>

datatype conv_error = InvalidArgument | OutOfRange

section \<open>Printing\<close>

fun show_nat :: "nat \<Rightarrow> string" where
  "show_nat n = (if n < 10 then [char_of (48 + n)] else show_nat (n div 10) @ [char_of (48 + n mod 10)])"

declare show_nat.simps [simp del]

definition to_string :: "'a :: len word \<Rightarrow> string" where
  "to_string w = show_nat (unat w)"

section \<open>Reading\<close>

definition is_space :: "char \<Rightarrow> bool" where
  "is_space c \<longleftrightarrow> of_char c \<in> {9 .. 13 :: nat} \<or> c = CHR '' ''"

definition is_digit :: "char \<Rightarrow> bool" where
  "is_digit c \<longleftrightarrow> of_char c \<in> {48 .. 57 :: nat}"

fun digits_value :: "nat \<Rightarrow> string \<Rightarrow> nat" where
  "digits_value acc [] = acc"
| "digits_value acc (c # cs) = digits_value (10 * acc + (of_char c - 48)) cs"

text \<open>Sign (true for minus) and magnitude of the number at the start of a string.\<close>

definition scan_number :: "string \<Rightarrow> conv_error + bool \<times> nat" where
  "scan_number s =
     (let s1 = dropWhile is_space s;
          neg = (s1 \<noteq> [] \<and> hd s1 = CHR ''-'');
          s2 = (if s1 \<noteq> [] \<and> (hd s1 = CHR ''-'' \<or> hd s1 = CHR ''+'') then tl s1 else s1);
          ds = takeWhile is_digit s2
      in if ds = [] then Inl InvalidArgument else Inr (neg, digits_value 0 ds))"

text \<open>\<^verbatim>\<open>std::stoull\<close> and, on the 64-bit platform, \<^verbatim>\<open>std::stoul\<close>: a minus sign negates modulo \<open>2 ^ 64\<close>.\<close>

definition stoull :: "string \<Rightarrow> conv_error + u64" where
  "stoull s = (case scan_number s of Inl e \<Rightarrow> Inl e
     | Inr (neg, n) \<Rightarrow> if n < 2 ^ 64 then Inr (if neg then - of_nat n else of_nat n) else Inl OutOfRange)"

definition stoul :: "string \<Rightarrow> conv_error + u64" where
  "stoul s = stoull s"

definition scan_signed :: "nat \<Rightarrow> string \<Rightarrow> conv_error + int" where
  "scan_signed w s = (case scan_number s of Inl e \<Rightarrow> Inl e
     | Inr (neg, n) \<Rightarrow>
         let v = (if neg then - int n else int n)
         in if - (2 ^ (w - 1)) \<le> v \<and> v < 2 ^ (w - 1) then Inr v else Inl OutOfRange)"

definition stoll :: "string \<Rightarrow> conv_error + i64" where
  "stoll s = map_sum id of_int (scan_signed 64 s)"

definition stoi :: "string \<Rightarrow> conv_error + i32" where
  "stoi s = map_sum id of_int (scan_signed 32 s)"

section \<open>Printing and reading\<close>

lemma of_char_digit: "d < 10 \<Longrightarrow> of_char (char_of (48 + d)) = (48 + d :: nat)"
  by simp

lemma is_digit_char: "(d :: nat) < 10 \<Longrightarrow> is_digit (char_of (48 + d))"
  by (simp add: is_digit_def)

lemma show_nat_digits: "\<forall>c \<in> set (show_nat n). is_digit c"
proof (induction n rule: show_nat.induct)
  case (1 n)
  then show ?case by (subst show_nat.simps) (auto simp: is_digit_char)
qed

lemma show_nat_nonempty: "show_nat n \<noteq> []"
  by (subst show_nat.simps) simp

lemma digits_value_append: "digits_value acc (xs @ ys) = digits_value (digits_value acc xs) ys"
  by (induction xs arbitrary: acc) auto

lemma digits_value_show: "digits_value 0 (show_nat n) = n"
proof (induction n rule: show_nat.induct)
  case (1 n)
  show ?case
  proof (cases "n < 10")
    case True
    then show ?thesis by (simp add: show_nat.simps [of n])
  next
    case False
    then have "digits_value 0 (show_nat (n div 10)) = n div 10" using 1 by simp
    with False show ?thesis by (simp add: show_nat.simps [of n] digits_value_append)
  qed
qed

lemma digit_char_distinct:
  assumes "is_digit c"
  shows "\<not> is_space c" "c \<noteq> CHR ''-''" "c \<noteq> CHR ''+''" "c \<noteq> CHR 0x00" "c \<noteq> CHR 0x27" "c \<noteq> CHR ''}''" "c \<noteq> CHR '',''"
  using assms by (auto simp: is_digit_def is_space_def)

lemma scan_number_show: "scan_number (show_nat n) = Inr (False, n)"
proof -
  obtain c cs where s: "show_nat n = c # cs" using show_nat_nonempty by (cases "show_nat n") auto
  have d: "\<forall>x \<in> set (c # cs). is_digit x" using show_nat_digits [of n] by (simp add: s)
  then have "takeWhile is_digit (c # cs) = c # cs" by (simp add: takeWhile_eq_all_conv)
  moreover have "dropWhile is_space (c # cs) = c # cs" "c \<noteq> CHR ''-''" "c \<noteq> CHR ''+''"
    using d digit_char_distinct by auto
  ultimately show ?thesis
    using digits_value_show [of n] by (simp add: scan_number_def Let_def s)
qed

lemma stoull_to_string: "stoull (to_string (w :: u64)) = Inr w"
  using unsigned_less [of w, where ?'a = nat] by (simp add: stoull_def to_string_def scan_number_show)

lemma to_string_inj: "to_string (a :: 'a :: len word) = to_string b \<Longrightarrow> a = b"
  by (metis digits_value_show to_string_def word_unat_eq_iff)

lemma stoll_show:
  assumes "n < 2 ^ 63"
  shows "stoll (show_nat n) = Inr (of_nat n)"
  using assms by (simp add: stoll_def scan_signed_def scan_number_show)

lemma stoi_show:
  assumes "n < 2 ^ 31"
  shows "stoi (show_nat n) = Inr (of_nat n)"
  using assms by (simp add: stoi_def scan_signed_def scan_number_show)

end
