(* ===== verification/Prog.thy ===== *)
theory Prog
  imports Text
begin

text \<open>
  Stateful code that can fail: a computation maps a state to a result and a new state. The result
  is either a value or the way the call ended instead of returning; the state changes made before
  an exception is thrown are kept, as they are in the program.
\<close>

datatype fault =
    Threw conv_error    \<comment> \<open>\<^verbatim>\<open>std::invalid_argument\<close> or \<^verbatim>\<open>std::out_of_range\<close> of a conversion\<close>
  | NullString          \<comment> \<open>a \<^verbatim>\<open>std::string\<close> built from a null column\<close>
  | Overrun             \<comment> \<open>a write past the end of a stack buffer\<close>
  | Blocked             \<comment> \<open>waits on a condition variable and never returns\<close>

type_synonym ('s, 'a) prog = "'s \<Rightarrow> (fault + 'a) \<times> 's"

definition ret :: "'a \<Rightarrow> ('s, 'a) prog" where
  "ret x s = (Inr x, s)"

definition fail :: "fault \<Rightarrow> ('s, 'a) prog" where
  "fail e s = (Inl e, s)"

definition bnd :: "('s, 'a) prog \<Rightarrow> ('a \<Rightarrow> ('s, 'b) prog) \<Rightarrow> ('s, 'b) prog" where
  "bnd m k s = (case m s of (Inl e, s') \<Rightarrow> (Inl e, s') | (Inr x, s') \<Rightarrow> k x s')"

definition gets :: "('s \<Rightarrow> 'a) \<Rightarrow> ('s, 'a) prog" where
  "gets f s = (Inr (f s), s)"

definition modify :: "('s \<Rightarrow> 's) \<Rightarrow> ('s, unit) prog" where
  "modify f s = (Inr (), f s)"

definition conv :: "conv_error + 'a \<Rightarrow> ('s, 'a) prog" where
  "conv r = (case r of Inl e \<Rightarrow> fail (Threw e) | Inr x \<Rightarrow> ret x)"

text \<open>A computation on a part of the state.\<close>

definition zoom :: "('s \<Rightarrow> 't) \<Rightarrow> ('t \<Rightarrow> 's \<Rightarrow> 's) \<Rightarrow> ('t, 'a) prog \<Rightarrow> ('s, 'a) prog" where
  "zoom get put m s = (let (r, t) = m (get s) in (r, put t s))"

fun for_each :: "('x \<Rightarrow> ('s, unit) prog) \<Rightarrow> 'x list \<Rightarrow> ('s, unit) prog" where
  "for_each f [] = ret ()"
| "for_each f (x # xs) = bnd (f x) (\<lambda>_. for_each f xs)"

named_theorems prog_simps \<open>execution of the combinators\<close>

lemma prog_run [simp, prog_simps]:
  "ret x s = (Inr x, s)" "fail e s = (Inl e, s)" "gets f s = (Inr (f s), s)" "modify g s = (Inr (), g s)"
  by (simp_all add: ret_def fail_def gets_def modify_def)

lemma bnd_ret [simp, prog_simps]: "bnd (ret x) k = k x"
  by (simp add: bnd_def fun_eq_iff)

lemma bnd_fail [simp, prog_simps]: "bnd (fail e) k = fail e"
  by (simp add: bnd_def fun_eq_iff)

lemma bnd_gets [simp, prog_simps]: "bnd (gets f) k s = k (f s) s"
  by (simp add: bnd_def)

lemma bnd_modify [simp, prog_simps]: "bnd (modify f) k s = k () (f s)"
  by (simp add: bnd_def)

lemma bnd_run: "m s = (Inr x, s') \<Longrightarrow> bnd m k s = k x s'"
  by (simp add: bnd_def)

lemma bnd_run_fault: "m s = (Inl e, s') \<Longrightarrow> bnd m k s = (Inl e, s')"
  by (simp add: bnd_def)

lemma conv_run [simp, prog_simps]: "conv (Inr x) = ret x" "conv (Inl e) = fail (Threw e)"
  by (simp_all add: conv_def)

lemma zoom_run: "m (get s) = (r, t) \<Longrightarrow> zoom get put m s = (r, put t s)"
  by (simp add: zoom_def)

lemma bnd_result:
  assumes "bnd m k s = (Inr y, s')"
  obtains x t where "m s = (Inr x, t)" and "k x t = (Inr y, s')"
  using assms by (auto simp: bnd_def split: prod.splits sum.splits)

text \<open>An invariant that a computation keeps whether it returns or not.\<close>

definition keeps :: "('s \<Rightarrow> bool) \<Rightarrow> ('s, 'a) prog \<Rightarrow> bool" where
  "keeps I m \<longleftrightarrow> (\<forall>s. I s \<longrightarrow> I (snd (m s)))"

named_theorems keeps_intros \<open>invariants kept by composed computations\<close>

lemma keeps_ret [keeps_intros]: "keeps I (ret x)"
  by (simp add: keeps_def)

lemma keeps_fail [keeps_intros]: "keeps I (fail e)"
  by (simp add: keeps_def)

lemma keeps_gets [keeps_intros]: "keeps I (gets f)"
  by (simp add: keeps_def)

lemma keeps_conv [keeps_intros]: "keeps I (conv r)"
  by (cases r) (simp_all add: keeps_def)

lemma keeps_bnd [keeps_intros]: "keeps I m \<Longrightarrow> (\<And>x. keeps I (k x)) \<Longrightarrow> keeps I (bnd m k)"
  unfolding keeps_def bnd_def by (fastforce split: prod.splits sum.splits)

lemma keeps_modify [keeps_intros]: "(\<And>s. I s \<Longrightarrow> I (f s)) \<Longrightarrow> keeps I (modify f)"
  by (simp add: keeps_def)

lemma keeps_for_each [keeps_intros]: "(\<And>x. keeps I (f x)) \<Longrightarrow> keeps I (for_each f xs)"
  by (induction xs) (auto intro: keeps_intros)

lemma keepsD: "keeps I m \<Longrightarrow> I s \<Longrightarrow> I (snd (m s))"
  by (simp add: keeps_def)

end
