(* ===== verification/Pools.thy ===== *)
theory Pools
  imports Prog Common
begin

text \<open>
  \<^verbatim>\<open>DBPool\<close> and \<^verbatim>\<open>RedisPool\<close>: queues of open connections. A connection handle is an address; what
  the client libraries answer while a pool is filled is a parameter. \<open>connection_pool\<close> states what
  both pools promise to the code that borrows connections.
\<close>

section \<open>\<^verbatim>\<open>DBPool\<close>\<close>

record DBPool =
  db_host :: string
  db_user :: string
  db_pwd :: string
  db_name :: string
  db_connQueue :: "ptr list"

definition DBPool_new :: DBPool where
  "DBPool_new = \<lparr>db_host = [], db_user = [], db_pwd = [], db_name = [], db_connQueue = []\<rparr>"

text \<open>
  \<open>connect i\<close> is the handle that the \<open>i\<close>-th \<^verbatim>\<open>mysql_init\<close> returns and whether
  \<^verbatim>\<open>mysql_real_connect\<close> succeeds on it. A negative \<^verbatim>\<open>maxSize\<close> makes no connection.
\<close>

definition DBPool_init :: "(nat \<Rightarrow> ptr \<times> bool) \<Rightarrow> string \<Rightarrow> string \<Rightarrow> string \<Rightarrow> string \<Rightarrow> i32 \<Rightarrow> DBPool \<Rightarrow> DBPool" where
  "DBPool_init connect host user password db maxSize pool =
     fold (\<lambda>i pl. let (conn, ok) = connect i
                  in if ok then pl\<lparr>db_connQueue := db_connQueue pl @ [conn]\<rparr> else pl)
       [0 ..< nat (sint maxSize)]
       (pool\<lparr>db_host := host, db_user := user, db_pwd := password, db_name := db\<rparr>)"

text \<open>\<open>None\<close>: the caller waits until another thread returns a connection.\<close>

definition DBPool_getConnection :: "DBPool \<Rightarrow> (ptr \<times> DBPool) option" where
  "DBPool_getConnection pool =
     (case db_connQueue pool of [] \<Rightarrow> None | conn # q \<Rightarrow> Some (conn, pool\<lparr>db_connQueue := q\<rparr>))"

definition DBPool_deleter :: "ptr \<Rightarrow> DBPool \<Rightarrow> DBPool" where
  "DBPool_deleter c pool = (if c \<noteq> 0 then pool\<lparr>db_connQueue := db_connQueue pool @ [c]\<rparr> else pool)"

text \<open>The destructor closes the queued connections, front first.\<close>

definition DBPool_destroy :: "DBPool \<Rightarrow> ptr list \<times> DBPool" where
  "DBPool_destroy pool = (db_connQueue pool, pool\<lparr>db_connQueue := []\<rparr>)"

section \<open>\<^verbatim>\<open>RedisPool\<close>\<close>

record RedisPool =
  rd_host :: string
  rd_port :: i32
  rd_password :: string
  rd_connQueue :: "ptr list"

definition RedisPool_new :: RedisPool where
  "RedisPool_new = \<lparr>rd_host = [], rd_port = 0, rd_password = [], rd_connQueue = []\<rparr>"

text \<open>
  One round of the loop of \<^verbatim>\<open>init\<close>: the context and its error flag from \<^verbatim>\<open>redisConnect\<close>, and whether
  the \<^verbatim>\<open>AUTH\<close> command got a reply that is not an error. The second component lists the contexts
  that have been freed.
\<close>

definition redis_open :: "ptr \<times> bool \<Rightarrow> bool \<Rightarrow> RedisPool \<times> ptr list \<Rightarrow> RedisPool \<times> ptr list" where
  "redis_open c auth st =
     (let (conn, err) = c; (pool, freed) = st
      in if conn = 0 \<or> err then (if conn \<noteq> 0 then (pool, freed @ [conn]) else (pool, freed))
         else if rd_password pool \<noteq> [] \<and> \<not> auth then (pool, freed @ [conn])
         else (pool\<lparr>rd_connQueue := rd_connQueue pool @ [conn]\<rparr>, freed))"

definition RedisPool_init :: "(nat \<Rightarrow> ptr \<times> bool) \<Rightarrow> (nat \<Rightarrow> bool) \<Rightarrow> string \<Rightarrow> i32 \<Rightarrow> string \<Rightarrow> i32
    \<Rightarrow> RedisPool \<Rightarrow> RedisPool \<times> ptr list" where
  "RedisPool_init connect auth host port password maxSize pool =
     fold (\<lambda>i. redis_open (connect i) (auth i)) [0 ..< nat (sint maxSize)]
       (pool\<lparr>rd_host := host, rd_port := port, rd_password := password\<rparr>, [])"

definition RedisPool_getConnection :: "RedisPool \<Rightarrow> (ptr \<times> RedisPool) option" where
  "RedisPool_getConnection pool =
     (case rd_connQueue pool of [] \<Rightarrow> None | conn # q \<Rightarrow> Some (conn, pool\<lparr>rd_connQueue := q\<rparr>))"

definition RedisPool_deleter :: "ptr \<Rightarrow> RedisPool \<Rightarrow> RedisPool" where
  "RedisPool_deleter c pool = (if c \<noteq> 0 then pool\<lparr>rd_connQueue := rd_connQueue pool @ [c]\<rparr> else pool)"

definition RedisPool_destroy :: "RedisPool \<Rightarrow> ptr list \<times> RedisPool" where
  "RedisPool_destroy pool = (filter (\<lambda>c. c \<noteq> 0) (rd_connQueue pool), pool\<lparr>rd_connQueue := []\<rparr>)"

section \<open>What a pool promises\<close>

text \<open>
  \<open>idle\<close> lists the connections in the queue. Borrowing takes the oldest one, returning appends;
  nothing else changes the queue. The lemmas run a whole history of the borrowing threads.
\<close>

locale connection_pool =
  fixes idle :: "'p \<Rightarrow> ptr list"
    and borrow :: "'p \<Rightarrow> (ptr \<times> 'p) option"
    and give_back :: "ptr \<Rightarrow> 'p \<Rightarrow> 'p"
  assumes borrow_empty: "idle p = [] \<Longrightarrow> borrow p = None"
    and borrow_some: "idle p = c # q \<Longrightarrow> \<exists>p'. borrow p = Some (c, p') \<and> idle p' = q"
    and give_back_idle: "c \<noteq> 0 \<Longrightarrow> idle (give_back c p) = idle p @ [c]"
begin

lemma borrow_SomeD: "borrow p = Some (c, p') \<Longrightarrow> idle p = c # idle p'"
  using borrow_empty [of p] borrow_some [of p] by (cases "idle p") auto

lemma borrow_iff: "(\<exists>c p'. borrow p = Some (c, p')) \<longleftrightarrow> idle p \<noteq> []"
  using borrow_empty [of p] borrow_some [of p] by (cases "idle p") auto

lemma round_trip:
  assumes "borrow p = Some (c, p')" and "0 \<notin> set (idle p)"
  shows "mset (idle (give_back c p')) = mset (idle p)" and "idle (give_back c p') = rotate1 (idle p)"
  using borrow_SomeD [OF assms(1)] assms(2) by (auto simp: give_back_idle)

end

interpretation db_pool: connection_pool db_connQueue DBPool_getConnection DBPool_deleter
  by unfold_locales (simp_all add: DBPool_getConnection_def DBPool_deleter_def)

interpretation redis_pool: connection_pool rd_connQueue RedisPool_getConnection RedisPool_deleter
  by unfold_locales (simp_all add: RedisPool_getConnection_def RedisPool_deleter_def)

section \<open>A run of the borrowing threads\<close>

text \<open>
  The pool with the multiset of connections that are out. A thread that finds the queue empty
  stays where it is, so there is no step for it.
\<close>

inductive db_step :: "DBPool \<times> ptr multiset \<Rightarrow> DBPool \<times> ptr multiset \<Rightarrow> bool" where
  db_borrow: "DBPool_getConnection p = Some (c, p') \<Longrightarrow> db_step (p, out) (p', add_mset c out)"
| db_return: "c \<in># out \<Longrightarrow> db_step (p, out) (DBPool_deleter c p, out - {#c#})"

inductive db_run :: "DBPool \<times> ptr multiset \<Rightarrow> DBPool \<times> ptr multiset \<Rightarrow> bool" where
  db_run_refl: "db_run s s"
| db_run_step: "db_run s t \<Longrightarrow> db_step t u \<Longrightarrow> db_run s u"

lemma db_step_conserves:
  assumes "db_step s t" and "0 \<notin># mset (db_connQueue (fst s)) + snd s"
  shows "mset (db_connQueue (fst t)) + snd t = mset (db_connQueue (fst s)) + snd s"
  using assms
proof (cases rule: db_step.cases)
  case (db_borrow p c p' out)
  then show ?thesis using db_pool.borrow_SomeD [of p c p'] by simp
next
  case (db_return c out p)
  with assms(2) have "c \<noteq> 0" by (metis fst_conv snd_conv union_iff)
  with db_return show ?thesis by (simp add: db_pool.give_back_idle)
qed

lemma db_run_conserves:
  assumes "db_run s t" and "0 \<notin># mset (db_connQueue (fst s)) + snd s"
  shows "mset (db_connQueue (fst t)) + snd t = mset (db_connQueue (fst s)) + snd s"
  using assms
proof (induction rule: db_run.induct)
  case (db_run_step s t u)
  then have "mset (db_connQueue (fst t)) + snd t = mset (db_connQueue (fst s)) + snd s" by blast
  moreover have "mset (db_connQueue (fst u)) + snd u = mset (db_connQueue (fst t)) + snd t"
    using db_step_conserves [OF db_run_step.hyps(2)] db_run_step.prems calculation by simp
  ultimately show ?case by simp
qed simp

lemma DBPool_init_fold:
  "db_connQueue (fold (\<lambda>i pl. let (conn, ok) = connect i
      in if ok then pl\<lparr>db_connQueue := db_connQueue pl @ [conn]\<rparr> else pl) is pool) =
   db_connQueue pool @ map (\<lambda>i. fst (connect i)) (filter (\<lambda>i. snd (connect i)) is)"
  by (induction "is" arbitrary: pool) (auto simp: Let_def case_prod_beta)

lemma DBPool_init_queue:
  "db_connQueue (DBPool_init connect host user password db maxSize pool) =
   db_connQueue pool @ map (\<lambda>i. fst (connect i)) (filter (\<lambda>i. snd (connect i)) [0 ..< nat (sint maxSize)])"
  unfolding DBPool_init_def DBPool_init_fold by simp

text \<open>
  Starting from the pool that \<^verbatim>\<open>init\<close> filled, the connections in the queue together with
  the borrowed ones are at every moment exactly those that were opened: none is lost, duplicated
  or handed to two threads at once. A request finds a connection unless all of them are out.
\<close>

theorem DBPool_conserves_connections:
  assumes "p0 = DBPool_init connect host user password db maxSize DBPool_new"
    and "\<forall>i. snd (connect i) \<longrightarrow> fst (connect i) \<noteq> 0"
    and "inj (\<lambda>i. fst (connect i))"
    and "db_run (p0, {#}) (p, out)"
  shows "mset (db_connQueue p) + out = mset (db_connQueue p0) \<and>
    distinct (db_connQueue p) \<and> (\<forall>c. count out c \<le> 1) \<and> set (db_connQueue p) \<inter> set_mset out = {} \<and>
    (DBPool_getConnection p = None \<longleftrightarrow> out = mset (db_connQueue p0))"
proof -
  have q0: "db_connQueue p0 = map (\<lambda>i. fst (connect i)) (filter (\<lambda>i. snd (connect i)) [0 ..< nat (sint maxSize)])"
    by (simp add: assms(1) DBPool_init_queue DBPool_new_def)
  have d0: "distinct (db_connQueue p0)" unfolding q0
    using assms(3) by (auto simp: distinct_map inj_on_def)
  have z: "0 \<notin># mset (db_connQueue p0) + {#}" using assms(2) by (auto simp: q0)
  have eq: "mset (db_connQueue p) + out = mset (db_connQueue p0)"
    using db_run_conserves [OF assms(4)] z by simp
  have cnt: "count (mset (db_connQueue p) + out) c \<le> 1" for c
    using d0 by (simp add: eq distinct_count_atmost_1)
  have d: "distinct (db_connQueue p)"
    using eq d0 by (metis distinct_append ex_mset mset_append mset_eq_imp_distinct_iff)
  have "set (db_connQueue p) \<inter> set_mset out = {}"
  proof (rule ccontr)
    assume "set (db_connQueue p) \<inter> set_mset out \<noteq> {}"
    then obtain c where "0 < count (mset (db_connQueue p)) c" "0 < count out c" by fastforce
    with cnt [of c] show False by simp
  qed
  moreover have "count out c \<le> 1" for c using cnt [of c] by simp
  moreover have "DBPool_getConnection p = None \<longleftrightarrow> out = mset (db_connQueue p0)"
  proof
    assume "DBPool_getConnection p = None"
    then have "db_connQueue p = []" using db_pool.borrow_iff [of p] by fastforce
    with eq show "out = mset (db_connQueue p0)" by simp
  next
    assume "out = mset (db_connQueue p0)"
    with eq have "db_connQueue p = []" by simp
    then show "DBPool_getConnection p = None" by (rule db_pool.borrow_empty)
  qed
  ultimately show ?thesis using eq d by blast
qed

definition ex_pool :: DBPool where
  "ex_pool = DBPool_init (\<lambda>i. (Suc i, i \<noteq> 1)) ''127.0.0.1'' ''root'' ''root'' ''test_db'' 3 DBPool_new"

theorem DBPool_conserves_connections_witness:
  "\<exists>p. db_run (ex_pool, {#}) (p, {#1#}) \<and> mset (db_connQueue p) + {#1#} = mset (db_connQueue ex_pool) \<and>
    db_connQueue p = [3]"
proof -
  have q: "ex_pool = \<lparr>db_host = ''127.0.0.1'', db_user = ''root'', db_pwd = ''root'', db_name = ''test_db'', db_connQueue = [1, 3]\<rparr>"
    by (simp add: ex_pool_def DBPool_init_def DBPool_new_def Let_def upt_rec)
  have "db_run (ex_pool, {#}) (ex_pool\<lparr>db_connQueue := [3]\<rparr>, {#1#})"
    by (rule db_run_step [OF db_run_refl db_borrow]) (simp add: q DBPool_getConnection_def)
  moreover from this have "mset (db_connQueue (ex_pool\<lparr>db_connQueue := [3]\<rparr>)) + {#1#} = mset (db_connQueue ex_pool)"
    using DBPool_conserves_connections [of ex_pool "\<lambda>i. (Suc i, i \<noteq> 1)" "''127.0.0.1''" "''root''" "''root''" "''test_db''" 3
        "ex_pool\<lparr>db_connQueue := [3]\<rparr>" "{#1#}"]
    by (auto simp: ex_pool_def inj_on_def)
  ultimately show ?thesis by (intro exI [of _ "ex_pool\<lparr>db_connQueue := [3]\<rparr>"]) simp
qed

end
