(* ===== verification/Database.thy ===== *)
theory Database
  imports Pools
begin

text \<open>
  The MySQL client library as the sources call it. It is not part of the repository, so each
  function is a field of a record that the repositories take as an argument; \<open>'d\<close> is the state of
  the database behind the connections. \<open>DbServer\<close> pairs it with the connection pool.
\<close>

text \<open>A query result is a list of rows of nullable text columns.\<close>

type_synonym sql_row = "string option list"

datatype sql_param = PString string | PLongLong i64 | PLong i32

text \<open>What \<^verbatim>\<open>mysql_stmt_execute\<close> leaves in the statement: success, affected rows, result rows.\<close>

record stmt_result =
  sr_ok :: bool
  sr_affected_rows :: u64
  sr_rows :: "sql_row list"

text \<open>
  Success of \<^verbatim>\<open>mysql_stmt_init/prepare/bind_param/bind_result\<close>, execution of a prepared statement
  with its parameters, the value that \<^verbatim>\<open>mysql_stmt_fetch\<close> stores from the first row when it
  returns 0, a plain query with its stored result, and \<^verbatim>\<open>mysql_real_escape_string\<close>.
\<close>

record 'd mysql =
  stmt_init :: "'d \<Rightarrow> bool"
  stmt_prepare :: "string \<Rightarrow> 'd \<Rightarrow> bool"
  stmt_bind_param :: "string \<Rightarrow> sql_param list \<Rightarrow> 'd \<Rightarrow> bool"
  stmt_execute :: "string \<Rightarrow> sql_param list \<Rightarrow> 'd \<Rightarrow> stmt_result \<times> 'd"
  stmt_bind_result :: "string \<Rightarrow> 'd \<Rightarrow> bool"
  stmt_fetch_longlong :: "sql_row list \<Rightarrow> i64 option"
  stmt_fetch_long :: "sql_row list \<Rightarrow> i32 option"
  my_query :: "string \<Rightarrow> 'd \<Rightarrow> bool \<times> sql_row list option \<times> 'd"
  real_escape_string :: "string \<Rightarrow> string"

record 'd DbServer =
  dbs_pool :: DBPool
  dbs_data :: 'd

text \<open>
  A scope that holds a connection: \<^verbatim>\<open>getConnection()\<close> at its start, the deleter of the
  \<^verbatim>\<open>unique_ptr\<close> at its end, also when an exception leaves it. The library calls do not depend on
  which connection is used.
\<close>

definition with_connection :: "('d, 'a) prog \<Rightarrow> ('d DbServer, 'a) prog" where
  "with_connection body s =
     (case DBPool_getConnection (dbs_pool s) of
        None \<Rightarrow> (Inl Blocked, s)
      | Some (conn, pool) \<Rightarrow>
          let (r, d) = body (dbs_data s)
          in (r, \<lparr>dbs_pool = DBPool_deleter conn pool, dbs_data = d\<rparr>))"

definition db_ready :: "'d DbServer \<Rightarrow> bool" where
  "db_ready s \<longleftrightarrow> db_connQueue (dbs_pool s) \<noteq> [] \<and> 0 \<notin> set (db_connQueue (dbs_pool s))"

lemma with_connection_run:
  assumes "db_ready s"
  obtains s' where "with_connection body s = (fst (body (dbs_data s)), s')"
    and "dbs_data s' = snd (body (dbs_data s))" and "db_ready s'"
proof -
  obtain c p' where b: "DBPool_getConnection (dbs_pool s) = Some (c, p')"
    using assms db_pool.borrow_iff [of "dbs_pool s"] by (auto simp: db_ready_def)
  have rot: "db_connQueue (DBPool_deleter c p') = rotate1 (db_connQueue (dbs_pool s))"
    using db_pool.round_trip(2) [OF b] assms by (simp add: db_ready_def)
  have ready: "db_ready \<lparr>dbs_pool = DBPool_deleter c p', dbs_data = d\<rparr>" for d :: 'a
    using assms by (simp add: db_ready_def rot)
  show thesis
    by (rule that [of "\<lparr>dbs_pool = DBPool_deleter c p', dbs_data = snd (body (dbs_data s))\<rparr>"])
      (simp_all add: with_connection_def b ready case_prod_beta)
qed

lemma with_connection_result:
  assumes "db_ready s"
  shows "fst (with_connection body s) = fst (body (dbs_data s))"
    and "dbs_data (snd (with_connection body s)) = snd (body (dbs_data s))"
    and "db_ready (snd (with_connection body s))"
  using with_connection_run [OF assms, of body] by (metis fst_conv snd_conv)+

end
