(* ===== verification/TickerManager.thy ===== *)
theory TickerManager
  imports Database
begin

text \<open>
  \<^verbatim>\<open>TickerManager.hpp\<close>: the two in-memory maps between symbols and ticker ids and their loading
  from the \<^verbatim>\<open>stocks\<close> table.
\<close>

record TickerManager =
  symbol_to_id :: "(string, u32) umap"
  id_to_symbol :: "(u32, string) umap"

definition TickerManager_new :: TickerManager where
  "TickerManager_new = \<lparr>symbol_to_id = [], id_to_symbol = []\<rparr>"

text \<open>A column that is read into a \<^verbatim>\<open>std::string\<close>, by construction or as an argument of a conversion.\<close>

definition column :: "nat \<Rightarrow> sql_row \<Rightarrow> ('s, string) prog" where
  "column i row = (if i < length row then (case row ! i of Some s \<Rightarrow> ret s | None \<Rightarrow> fail NullString) else fail NullString)"

definition load_ticker_row :: "sql_row \<Rightarrow> (TickerManager, unit) prog" where
  "load_ticker_row row =
     bnd (column 0 row) (\<lambda>c0. bnd (conv (stoul c0)) (\<lambda>n.
     bnd (column 1 row) (\<lambda>symbol.
       modify (\<lambda>tm. let tk = ucast n :: u32
         in \<lparr>symbol_to_id = AList.update symbol tk (symbol_to_id tm),
             id_to_symbol = AList.update tk symbol (id_to_symbol tm)\<rparr>))))"

text \<open>The rows are loaded until the end of the result or the first row that throws.\<close>

definition loadAllTickersFromDB :: "'d mysql \<Rightarrow> ('d DbServer \<times> TickerManager, unit) prog" where
  "loadAllTickersFromDB my st =
     (let (db, tm) = st;
          (q, db') = with_connection (\<lambda>d. let (ok, rows, d') = my_query my ''SELECT id, symbol FROM stocks'' d
                                          in (Inr (ok, rows), d')) db
      in case q of
           Inl e \<Rightarrow> (Inl e, (db', tm))
         | Inr (ok, rows) \<Rightarrow>
             if \<not> ok then (Inr (), (db', tm))
             else (case rows of None \<Rightarrow> (Inr (), (db', tm))
                   | Some rs \<Rightarrow> let (r, tm') = for_each load_ticker_row rs tm in (r, (db', tm'))))"

definition getTickerId :: "TickerManager \<Rightarrow> string \<Rightarrow> u32" where
  "getTickerId tm symbol = (case map_of (symbol_to_id tm) symbol of Some i \<Rightarrow> i | None \<Rightarrow> 0)"

definition getSymbol :: "TickerManager \<Rightarrow> u32 \<Rightarrow> string" where
  "getSymbol tm ticker_id = (case map_of (id_to_symbol tm) ticker_id of Some s \<Rightarrow> s | None \<Rightarrow> ''UNKNOWN'')"

definition getAllTickerIds :: "TickerManager \<Rightarrow> u32 list" where
  "getAllTickerIds tm = map fst (id_to_symbol tm)"

section \<open>The two maps are inverse to each other\<close>

definition ticker_row :: "u32 \<times> string \<Rightarrow> sql_row" where
  "ticker_row e = [Some (to_string (fst e)), Some (snd e)]"

lemma stoul_to_string32: "stoul (to_string (i :: u32)) = Inr (ucast i)"
proof -
  have "unat i < 2 ^ 64" using unsigned_less [of i, where ?'a = nat] by simp
  then show ?thesis by (simp add: stoul_def stoull_def to_string_def scan_number_show)
qed

lemma load_ticker_row_ok:
  "load_ticker_row (ticker_row (i, s)) tm =
     (Inr (), \<lparr>symbol_to_id = AList.update s i (symbol_to_id tm), id_to_symbol = AList.update i s (id_to_symbol tm)\<rparr>)"
  by (simp add: load_ticker_row_def ticker_row_def column_def stoul_to_string32 Let_def ucast_back_32)

lemma load_ticker_rows_ok:
  "for_each load_ticker_row (map ticker_row es) tm =
     (Inr (), \<lparr>symbol_to_id = fold (\<lambda>(i, s). AList.update s i) es (symbol_to_id tm),
               id_to_symbol = fold (\<lambda>(i, s). AList.update i s) es (id_to_symbol tm)\<rparr>)"
proof (induction es arbitrary: tm)
  case (Cons e es)
  obtain i s where e: "e = (i, s)" by fastforce
  show ?case by (simp add: e bnd_run [OF load_ticker_row_ok] Cons.IH)
qed simp

lemma map_of_fold_update:
  "distinct (map fst es) \<Longrightarrow> map_of (fold (\<lambda>(k, v). AList.update k v) es m) x =
     (case map_of es x of Some v \<Rightarrow> Some v | None \<Rightarrow> map_of m x)"
proof (induction es arbitrary: m)
  case (Cons e es)
  obtain k v where e: "e = (k, v)" by fastforce
  have "map_of es k = None" using Cons.prems by (simp add: e map_of_eq_None_iff)
  moreover have "map_of (fold (\<lambda>(k, v). AList.update k v) es m') x =
     (case map_of es x of Some v \<Rightarrow> Some v | None \<Rightarrow> map_of m' x)" for m'
    using Cons by simp
  ultimately show ?case by (simp add: e split: option.split)
qed simp

text \<open>
  C19. Loading a table with unique ids and unique symbols gives two maps that are inverse to each
  other: a listed symbol is translated to its id and back, an unlisted symbol gives 0, the listed
  ids are those of the table, and the database is left as the query left it.
\<close>

theorem tickers_round_trip:
  assumes "db_ready db"
    and "my_query my ''SELECT id, symbol FROM stocks'' (dbs_data db) = (True, Some (map ticker_row es), d')"
    and "distinct (map fst es)" and "distinct (map snd es)" and "(i, s) \<in> set es"
  shows "\<exists>db' tm. loadAllTickersFromDB my (db, TickerManager_new) = (Inr (), (db', tm)) \<and> dbs_data db' = d' \<and>
    getTickerId tm s = i \<and> getSymbol tm i = s \<and> set (getAllTickerIds tm) = set (map fst es) \<and>
    (\<forall>x. x \<notin> set (map snd es) \<longrightarrow> getTickerId tm x = 0)"
proof -
  let ?flip = "map (\<lambda>(i, s). (s, i)) es"
  let ?s2i = "fold (\<lambda>(i, s). AList.update s i) es []" and ?i2s = "fold (\<lambda>(i, s). AList.update i s) es []"
  have "?s2i = fold (\<lambda>(k, v). AList.update k v) ?flip []" by (simp add: fold_map comp_def case_prod_beta')
  moreover have "distinct (map fst ?flip)" using assms(4) by (simp add: comp_def case_prod_beta)
  ultimately have s2i: "map_of ?s2i x = map_of ?flip x" for x
    by (simp add: map_of_fold_update split: option.splits)
  have i2s: "map_of ?i2s x = map_of es x" for x
    using assms(3) by (simp add: map_of_fold_update split: option.splits)
  have "map_of ?flip s = Some i" using assms(4,5) by (force intro!: map_of_is_SomeI simp: comp_def case_prod_beta)
  moreover have "map_of es i = Some s" using assms(3,5) by (auto intro!: map_of_is_SomeI)
  moreover have "fst ` set ?i2s = fst ` set es"
    using i2s by (metis dom_map_of_conv_image_fst ext)
  moreover have "map_of ?flip x = None" if "x \<notin> set (map snd es)" for x
    using that by (force simp: map_of_eq_None_iff)
  moreover obtain db' where "with_connection (\<lambda>d. let (ok, rows, d') = my_query my ''SELECT id, symbol FROM stocks'' d
      in (Inr (ok, rows), d')) db = (Inr (True, Some (map ticker_row es)), db')" and "dbs_data db' = d'"
    by (rule with_connection_run [OF assms(1), of "\<lambda>d. let (ok, rows, d') = my_query my ''SELECT id, symbol FROM stocks'' d
      in (Inr (ok, rows), d')"]) (simp add: assms(2))
  ultimately show ?thesis
    by (simp add: loadAllTickersFromDB_def load_ticker_rows_ok TickerManager_new_def getTickerId_def
        getSymbol_def getAllTickerIds_def s2i i2s)
qed

text \<open>A server that answers the one query of the loader with two stocks.\<close>

definition ex_stocks :: "(u32 \<times> string) list" where
  "ex_stocks = [(1, ''AAPL''), (2, ''NVDA'')]"

definition ex_stock_server :: "unit mysql" where
  "ex_stock_server = \<lparr>stmt_init = \<lambda>_. False, stmt_prepare = \<lambda>_ _. False, stmt_bind_param = \<lambda>_ _ _. False,
     stmt_execute = \<lambda>_ _ d. (\<lparr>sr_ok = False, sr_affected_rows = 0, sr_rows = []\<rparr>, d), stmt_bind_result = \<lambda>_ _. False,
     stmt_fetch_longlong = \<lambda>_. None, stmt_fetch_long = \<lambda>_. None,
     my_query = \<lambda>sql d. if sql = ''SELECT id, symbol FROM stocks'' then (True, Some (map ticker_row ex_stocks), d) else (False, None, d),
     real_escape_string = \<lambda>s. s\<rparr>"

theorem tickers_round_trip_witness:
  "\<exists>db' tm. loadAllTickersFromDB ex_stock_server
       (\<lparr>dbs_pool = DBPool_new\<lparr>db_connQueue := [1]\<rparr>, dbs_data = ()\<rparr>, TickerManager_new) = (Inr (), (db', tm)) \<and>
     getTickerId tm ''NVDA'' = 2 \<and> getSymbol tm 2 = ''NVDA'' \<and> getTickerId tm ''TSLA'' = 0"
proof -
  have "db_ready \<lparr>dbs_pool = DBPool_new\<lparr>db_connQueue := [1]\<rparr>, dbs_data = ()\<rparr>"
    by (simp add: db_ready_def)
  from tickers_round_trip [OF this, of ex_stock_server ex_stocks "()" 2 "''NVDA''"]
  have "\<exists>db' tm. loadAllTickersFromDB ex_stock_server
       (\<lparr>dbs_pool = DBPool_new\<lparr>db_connQueue := [1]\<rparr>, dbs_data = ()\<rparr>, TickerManager_new) = (Inr (), (db', tm)) \<and>
     getTickerId tm ''NVDA'' = 2 \<and> getSymbol tm 2 = ''NVDA'' \<and> (\<forall>x. x \<notin> set (map snd ex_stocks) \<longrightarrow> getTickerId tm x = 0)"
    by (auto simp: ex_stock_server_def ex_stocks_def)
  moreover have "''TSLA'' \<notin> set (map snd ex_stocks)" by (simp add: ex_stocks_def)
  ultimately show ?thesis by blast
qed

end
