(* ===== verification/UserManager.thy ===== *)
theory UserManager
  imports TickerManager
begin

text \<open>
  \<^verbatim>\<open>UserManager.hpp\<close>: the accounts in memory, in 256 buckets, with the freeze, commit and unfreeze
  operations of the clearing. \<open>account_store\<close> states what the operations rely on: an update of one
  account is seen by lookups of that account and by no other lookup.
\<close>

section \<open>State\<close>

record UserAccount =
  ua_user_id :: u64
  ua_username :: string
  available_balance :: i64
  frozen_balance :: i64
  available_stock :: "(u32, i32) umap"
  frozen_stock :: "(u32, i32) umap"

definition UserAccount_of :: "u64 \<Rightarrow> string \<Rightarrow> UserAccount" where
  "UserAccount_of uid username = \<lparr>ua_user_id = uid, ua_username = username, available_balance = 0,
     frozen_balance = 0, available_stock = [], frozen_stock = []\<rparr>"

text \<open>
  \<^verbatim>\<open>account_\<close> owns the accounts. A \<^verbatim>\<open>UserAccount*\<close> in \<^verbatim>\<open>find_account_\<close> points to the account
  that the same bucket owns under the recorded id.
\<close>

record AccountBucket =
  account :: "(u64, UserAccount) umap"
  find_account :: "(string, u64) umap"

definition mtx_count :: nat where "mtx_count = 256"

type_synonym UserManager = "nat \<Rightarrow> AccountBucket"

definition UserManager_new :: UserManager where
  "UserManager_new i = \<lparr>account = [], find_account = []\<rparr>"

definition IdToMtx :: "u64 \<Rightarrow> nat" where
  "IdToMtx uid = unat uid mod mtx_count"

text \<open>\<open>hash\<close> is \<^verbatim>\<open>std::hash<std::string>\<close>; the function has no caller.\<close>

definition nameToMtx :: "(string \<Rightarrow> u64) \<Rightarrow> string \<Rightarrow> nat" where
  "nameToMtx hash username = unat (hash username) mod mtx_count"

definition getAccount :: "UserManager \<Rightarrow> u64 \<Rightarrow> UserAccount option" where
  "getAccount um uid = map_of (account (um (IdToMtx uid))) uid"

text \<open>A mutation through the pointer that \<^verbatim>\<open>getAccount\<close> returned; nothing happens when it is null.\<close>

definition on_account :: "u64 \<Rightarrow> (UserAccount \<Rightarrow> UserAccount) \<Rightarrow> UserManager \<Rightarrow> UserManager" where
  "on_account uid f um =
     (case getAccount um uid of None \<Rightarrow> um
      | Some a \<Rightarrow> um(IdToMtx uid := (um (IdToMtx uid))\<lparr>account := AList.update uid (f a) (account (um (IdToMtx uid)))\<rparr>))"

definition put_account :: "UserAccount \<Rightarrow> UserManager \<Rightarrow> UserManager" where
  "put_account a um =
     (let idx = IdToMtx (ua_user_id a); b = um idx
      in um(idx := \<lparr>account = AList.update (ua_user_id a) a (account b),
                   find_account = AList.update (ua_username a) (ua_user_id a) (find_account b)\<rparr>))"

section \<open>Loading\<close>

definition load_account_row :: "sql_row \<Rightarrow> (UserManager, unit) prog" where
  "load_account_row row =
     bnd (column 0 row) (\<lambda>c0. bnd (conv (stoull c0)) (\<lambda>uid.
     bnd (column 1 row) (\<lambda>username.
     bnd (column 2 row) (\<lambda>c2. bnd (conv (stoll c2)) (\<lambda>balance.
       modify (put_account ((UserAccount_of uid username)\<lparr>available_balance := balance\<rparr>)))))))"

definition load_holding_row :: "TickerManager \<Rightarrow> sql_row \<Rightarrow> (UserManager, unit) prog" where
  "load_holding_row tm row =
     bnd (column 0 row) (\<lambda>c0. bnd (conv (stoull c0)) (\<lambda>uid.
     bnd (column 1 row) (\<lambda>symbol.
     bnd (column 2 row) (\<lambda>c2. bnd (conv (stoi c2)) (\<lambda>quantity.
       let ticker_id = getTickerId tm symbol
       in if ticker_id \<noteq> 0
          then modify (on_account uid (\<lambda>a. a\<lparr>available_stock := AList.update ticker_id quantity (available_stock a)\<rparr>))
          else ret ())))))"

definition accounts_sql :: string where
  "accounts_sql = ''SELECT id, username, balance FROM accounts''"

definition holdings_sql :: string where
  "holdings_sql = ''SELECT a.id, h.symbol, h.quantity FROM holdings h JOIN accounts a ON h.username = a.username''"

text \<open>One of the two queries and the rows it is followed by; a failed query is skipped.\<close>

definition load_rows :: "'d mysql \<Rightarrow> string \<Rightarrow> (sql_row \<Rightarrow> (UserManager, unit) prog) \<Rightarrow> ('d \<times> UserManager, unit) prog" where
  "load_rows my sql f st =
     (let (d, um) = st; (ok, res, d') = my_query my sql d
      in if ok then (case res of None \<Rightarrow> (Inr (), (d', um))
                     | Some rows \<Rightarrow> let (r, um') = for_each f rows um in (r, (d', um')))
         else (Inr (), (d', um)))"

text \<open>The connection is held over both queries, and given back also when a row throws.\<close>

definition loadAllFromDB :: "'d mysql \<Rightarrow> TickerManager \<Rightarrow> ('d DbServer \<times> UserManager, unit) prog" where
  "loadAllFromDB my tm st =
     (let (db, um) = st;
          (q, db') = with_connection (\<lambda>d.
             let (r, (d', um')) = bnd (load_rows my accounts_sql load_account_row)
                   (\<lambda>_. load_rows my holdings_sql (load_holding_row tm)) (d, um)
             in (Inr (r, um'), d')) db
      in case q of Inl e \<Rightarrow> (Inl e, (db', um)) | Inr (r, um') \<Rightarrow> (r, (db', um')))"

section \<open>Accounts and names\<close>

definition createUserAccount :: "u64 \<Rightarrow> string \<Rightarrow> UserManager \<Rightarrow> UserManager" where
  "createUserAccount uid username um =
     (if map_of (account (um (IdToMtx uid))) uid = None then put_account (UserAccount_of uid username) um else um)"

fun getId_loop :: "nat list \<Rightarrow> UserManager \<Rightarrow> string \<Rightarrow> u64" where
  "getId_loop [] um username = 0"
| "getId_loop (i # is) um username =
     (case map_of (find_account (um i)) username of
        Some uid \<Rightarrow> (case map_of (account (um i)) uid of Some a \<Rightarrow> ua_user_id a | None \<Rightarrow> uid)
      | None \<Rightarrow> getId_loop is um username)"

definition getId :: "UserManager \<Rightarrow> string \<Rightarrow> u64" where
  "getId um username = getId_loop [0 ..< mtx_count] um username"

definition getName :: "UserManager \<Rightarrow> u64 \<Rightarrow> string" where
  "getName um uid = (case getAccount um uid of Some a \<Rightarrow> ua_username a | None \<Rightarrow> ''UNKNOWN'')"

section \<open>Freeze, commit, unfreeze\<close>

definition tryFreezeBalance :: "u64 \<Rightarrow> i64 \<Rightarrow> UserManager \<Rightarrow> bool \<times> UserManager" where
  "tryFreezeBalance uid amount um =
     (case getAccount um uid of None \<Rightarrow> (False, um)
      | Some a \<Rightarrow>
          if sint (available_balance a) \<ge> sint amount
          then (True, on_account uid (\<lambda>a. a\<lparr>available_balance := available_balance a - amount,
                                           frozen_balance := frozen_balance a + amount\<rparr>) um)
          else (False, um))"

text \<open>\<^verbatim>\<open>m[k] += q\<close> on a map of \<^verbatim>\<open>int\<close>.\<close>

definition stock_add :: "u32 \<Rightarrow> i32 \<Rightarrow> (u32, i32) umap \<Rightarrow> (u32, i32) umap" where
  "stock_add k q m = AList.update k (um_at 0 m k + q) m"

text \<open>The comparison already creates the entry for the ticker.\<close>

definition tryFreezeStock :: "u64 \<Rightarrow> u32 \<Rightarrow> i32 \<Rightarrow> UserManager \<Rightarrow> bool \<times> UserManager" where
  "tryFreezeStock uid ticker_id qty um =
     (case getAccount um uid of None \<Rightarrow> (False, um)
      | Some a \<Rightarrow>
          if sint (um_at 0 (available_stock a) ticker_id) \<ge> sint qty
          then (True, on_account uid (\<lambda>a. a\<lparr>available_stock := stock_add ticker_id (- qty) (available_stock a),
                                           frozen_stock := stock_add ticker_id qty (frozen_stock a)\<rparr>) um)
          else (False, on_account uid (\<lambda>a. a\<lparr>available_stock := um_touch 0 ticker_id (available_stock a)\<rparr>) um))"

definition commitBuy :: "u64 \<Rightarrow> u32 \<Rightarrow> i64 \<Rightarrow> i32 \<Rightarrow> i64 \<Rightarrow> UserManager \<Rightarrow> UserManager" where
  "commitBuy uid ticker_id cost qty refund_diff =
     on_account uid (\<lambda>a. a\<lparr>frozen_balance := frozen_balance a - (cost + refund_diff),
                          available_balance := available_balance a + refund_diff,
                          available_stock := stock_add ticker_id qty (available_stock a)\<rparr>)"

definition commitSell :: "u64 \<Rightarrow> u32 \<Rightarrow> i64 \<Rightarrow> i32 \<Rightarrow> UserManager \<Rightarrow> UserManager" where
  "commitSell uid ticker_id revenue qty =
     on_account uid (\<lambda>a. a\<lparr>frozen_stock := stock_add ticker_id (- qty) (frozen_stock a),
                          available_balance := available_balance a + revenue\<rparr>)"

definition unfreezeBalance :: "u64 \<Rightarrow> i64 \<Rightarrow> UserManager \<Rightarrow> UserManager" where
  "unfreezeBalance uid amount =
     on_account uid (\<lambda>a. a\<lparr>frozen_balance := frozen_balance a - amount,
                          available_balance := available_balance a + amount\<rparr>)"

definition unfreezeStock :: "u64 \<Rightarrow> u32 \<Rightarrow> i32 \<Rightarrow> UserManager \<Rightarrow> UserManager" where
  "unfreezeStock uid ticker_id qty =
     on_account uid (\<lambda>a. a\<lparr>frozen_stock := stock_add ticker_id (- qty) (frozen_stock a),
                          available_stock := stock_add ticker_id qty (available_stock a)\<rparr>)"

definition addBalance :: "u64 \<Rightarrow> i64 \<Rightarrow> UserManager \<Rightarrow> UserManager" where
  "addBalance uid amount = on_account uid (\<lambda>a. a\<lparr>available_balance := available_balance a + amount\<rparr>)"

definition getBalance :: "UserManager \<Rightarrow> u64 \<Rightarrow> i64" where
  "getBalance um uid = (case getAccount um uid of None \<Rightarrow> 0 | Some a \<Rightarrow> available_balance a)"

definition getHoldings :: "UserManager \<Rightarrow> u64 \<Rightarrow> (u32, i32) umap" where
  "getHoldings um uid = (case getAccount um uid of None \<Rightarrow> [] | Some a \<Rightarrow> available_stock a)"

section \<open>The store of accounts\<close>

text \<open>
  \<open>upd\<close> changes the account of one user and nothing else. The sum over a set of users of any weight
  of the accounts then changes by the weight of that one account.
\<close>

locale account_store =
  fixes lookup :: "'s \<Rightarrow> u64 \<Rightarrow> 'a option" and upd :: "u64 \<Rightarrow> ('a \<Rightarrow> 'a) \<Rightarrow> 's \<Rightarrow> 's"
  assumes lookup_upd: "lookup (upd u f s) v = (if v = u then map_option f (lookup s v) else lookup s v)"
begin

lemma lookup_upd_same: "lookup s u = Some a \<Longrightarrow> lookup (upd u f s) u = Some (f a)"
  by (simp add: lookup_upd)

lemma lookup_upd_other: "v \<noteq> u \<Longrightarrow> lookup (upd u f s) v = lookup s v"
  by (simp add: lookup_upd)

lemma lookup_upd_None: "lookup (upd u f s) v = None \<longleftrightarrow> lookup s v = None"
  by (simp add: lookup_upd)

lemma weight_upd:
  fixes w :: "'a option \<Rightarrow> 'w :: ab_group_add"
  assumes "finite U" and "u \<in> U"
  shows "(\<Sum>v \<in> U. w (lookup (upd u f s) v)) = (\<Sum>v \<in> U. w (lookup s v)) + (w (map_option f (lookup s u)) - w (lookup s u))"
proof -
  have "(\<Sum>v \<in> U - {u}. w (lookup (upd u f s) v)) = (\<Sum>v \<in> U - {u}. w (lookup s v))"
    by (rule sum.cong) (simp_all add: lookup_upd)
  then show ?thesis using assms by (simp add: sum.remove lookup_upd)
qed

end

lemma getAccount_on_account:
  "getAccount (on_account u f um) v = (if v = u then map_option f (getAccount um v) else getAccount um v)"
  by (auto simp: on_account_def getAccount_def split: option.split)

interpretation accounts: account_store getAccount on_account
  by unfold_locales (rule getAccount_on_account)

lemma getAccount_put_account:
  "getAccount (put_account a um) v = (if v = ua_user_id a then Some a else getAccount um v)"
  by (auto simp: put_account_def getAccount_def Let_def)

end
