(* ===== verification/UserManager_Props.thy ===== *)
theory UserManager_Props
  imports UserManager
begin

text \<open>
  Properties of the in-memory accounts: names and ids are translated consistently, freezing never
  overdraws, a freeze is undone by the unfreeze, and committing a trade moves money and shares
  between the two parties without creating or losing any.
\<close>

section \<open>Reading an account\<close>

definition balance_of :: "UserManager \<Rightarrow> u64 \<Rightarrow> i64" where
  "balance_of um u = (case getAccount um u of None \<Rightarrow> 0 | Some a \<Rightarrow> available_balance a)"

definition frozen_of :: "UserManager \<Rightarrow> u64 \<Rightarrow> i64" where
  "frozen_of um u = (case getAccount um u of None \<Rightarrow> 0 | Some a \<Rightarrow> frozen_balance a)"

definition stock_of :: "UserManager \<Rightarrow> u64 \<Rightarrow> u32 \<Rightarrow> i32" where
  "stock_of um u t = (case getAccount um u of None \<Rightarrow> 0 | Some a \<Rightarrow> um_at 0 (available_stock a) t)"

definition frozen_stock_of :: "UserManager \<Rightarrow> u64 \<Rightarrow> u32 \<Rightarrow> i32" where
  "frozen_stock_of um u t = (case getAccount um u of None \<Rightarrow> 0 | Some a \<Rightarrow> um_at 0 (frozen_stock a) t)"

lemmas account_reads = balance_of_def frozen_of_def stock_of_def frozen_stock_of_def

named_theorems account_simps \<open>what each operation does to balances and holdings\<close>

lemma um_at_stock_add [simp]: "um_at 0 (stock_add k q m) j = um_at 0 m j + (if j = k then q else 0)"
  by (simp add: stock_add_def)

definition exists_user :: "UserManager \<Rightarrow> u64 \<Rightarrow> bool" where
  "exists_user um u \<longleftrightarrow> getAccount um u \<noteq> None"

lemma exists_on_account [simp]: "exists_user (on_account u f um) v = exists_user um v"
  by (simp add: exists_user_def accounts.lookup_upd)

lemma exists_ops [simp]:
  "exists_user (snd (tryFreezeBalance u x um)) v = exists_user um v"
  "exists_user (snd (tryFreezeStock u t q um)) v = exists_user um v"
  "exists_user (commitBuy u t x q r um) v = exists_user um v"
  "exists_user (commitSell u t x q um) v = exists_user um v"
  "exists_user (unfreezeBalance u x um) v = exists_user um v"
  "exists_user (unfreezeStock u t q um) v = exists_user um v"
  "exists_user (addBalance u x um) v = exists_user um v"
  by (simp_all add: tryFreezeBalance_def tryFreezeStock_def commitBuy_def commitSell_def
      unfreezeBalance_def unfreezeStock_def addBalance_def split: option.split)

lemma commitBuy_effect [account_simps]:
  assumes "exists_user um u"
  shows "balance_of (commitBuy u t c q r um) v = balance_of um v + (if v = u then r else 0)"
    and "frozen_of (commitBuy u t c q r um) v = frozen_of um v - (if v = u then c + r else 0)"
    and "stock_of (commitBuy u t c q r um) v k = stock_of um v k + (if v = u \<and> k = t then q else 0)"
    and "frozen_stock_of (commitBuy u t c q r um) v k = frozen_stock_of um v k"
  using assms by (auto simp: account_reads commitBuy_def accounts.lookup_upd exists_user_def split: option.split)

lemma commitSell_effect [account_simps]:
  assumes "exists_user um u"
  shows "balance_of (commitSell u t c q um) v = balance_of um v + (if v = u then c else 0)"
    and "frozen_of (commitSell u t c q um) v = frozen_of um v"
    and "stock_of (commitSell u t c q um) v k = stock_of um v k"
    and "frozen_stock_of (commitSell u t c q um) v k = frozen_stock_of um v k - (if v = u \<and> k = t then q else 0)"
  using assms by (auto simp: account_reads commitSell_def accounts.lookup_upd exists_user_def split: option.split)

lemma unfreezeBalance_effect [account_simps]:
  assumes "exists_user um u"
  shows "balance_of (unfreezeBalance u c um) v = balance_of um v + (if v = u then c else 0)"
    and "frozen_of (unfreezeBalance u c um) v = frozen_of um v - (if v = u then c else 0)"
    and "stock_of (unfreezeBalance u c um) v k = stock_of um v k"
    and "frozen_stock_of (unfreezeBalance u c um) v k = frozen_stock_of um v k"
  using assms by (auto simp: account_reads unfreezeBalance_def accounts.lookup_upd exists_user_def split: option.split)

lemma unfreezeStock_effect [account_simps]:
  assumes "exists_user um u"
  shows "balance_of (unfreezeStock u t q um) v = balance_of um v"
    and "frozen_of (unfreezeStock u t q um) v = frozen_of um v"
    and "stock_of (unfreezeStock u t q um) v k = stock_of um v k + (if v = u \<and> k = t then q else 0)"
    and "frozen_stock_of (unfreezeStock u t q um) v k = frozen_stock_of um v k - (if v = u \<and> k = t then q else 0)"
  using assms by (auto simp: account_reads unfreezeStock_def accounts.lookup_upd exists_user_def split: option.split)

lemma addBalance_effect [account_simps]:
  assumes "exists_user um u"
  shows "balance_of (addBalance u c um) v = balance_of um v + (if v = u then c else 0)"
    and "frozen_of (addBalance u c um) v = frozen_of um v"
    and "stock_of (addBalance u c um) v k = stock_of um v k"
    and "frozen_stock_of (addBalance u c um) v k = frozen_stock_of um v k"
  using assms by (auto simp: account_reads addBalance_def accounts.lookup_upd exists_user_def split: option.split)

lemma no_account_no_effect:
  assumes "\<not> exists_user um u"
  shows "on_account u f um = um"
  using assms by (simp add: exists_user_def on_account_def)

lemma tryFreezeBalance_result:
  "fst (tryFreezeBalance u c um) \<longleftrightarrow> exists_user um u \<and> sint c \<le> sint (balance_of um u)"
  by (auto simp: tryFreezeBalance_def exists_user_def balance_of_def split: option.split)

lemma tryFreezeStock_result:
  "fst (tryFreezeStock u t q um) \<longleftrightarrow> exists_user um u \<and> sint q \<le> sint (stock_of um u t)"
  by (auto simp: tryFreezeStock_def exists_user_def stock_of_def split: option.split)

lemma tryFreezeBalance_fail: "\<not> fst (tryFreezeBalance u c um) \<Longrightarrow> snd (tryFreezeBalance u c um) = um"
  by (auto simp: tryFreezeBalance_def split: option.splits if_splits)

lemma tryFreezeBalance_effect [account_simps]:
  assumes "fst (tryFreezeBalance u c um)"
  shows "balance_of (snd (tryFreezeBalance u c um)) v = balance_of um v - (if v = u then c else 0)"
    and "frozen_of (snd (tryFreezeBalance u c um)) v = frozen_of um v + (if v = u then c else 0)"
    and "stock_of (snd (tryFreezeBalance u c um)) v k = stock_of um v k"
    and "frozen_stock_of (snd (tryFreezeBalance u c um)) v k = frozen_stock_of um v k"
  using assms by (auto simp: account_reads tryFreezeBalance_def accounts.lookup_upd split: option.splits if_splits)

lemma tryFreezeStock_effect [account_simps]:
  assumes "fst (tryFreezeStock u t q um)"
  shows "balance_of (snd (tryFreezeStock u t q um)) v = balance_of um v"
    and "frozen_of (snd (tryFreezeStock u t q um)) v = frozen_of um v"
    and "stock_of (snd (tryFreezeStock u t q um)) v k = stock_of um v k - (if v = u \<and> k = t then q else 0)"
    and "frozen_stock_of (snd (tryFreezeStock u t q um)) v k = frozen_stock_of um v k + (if v = u \<and> k = t then q else 0)"
  using assms by (auto simp: account_reads tryFreezeStock_def accounts.lookup_upd split: option.splits if_splits)

lemma tryFreezeStock_fail:
  assumes "\<not> fst (tryFreezeStock u t q um)"
  shows "balance_of (snd (tryFreezeStock u t q um)) v = balance_of um v"
    and "frozen_of (snd (tryFreezeStock u t q um)) v = frozen_of um v"
    and "stock_of (snd (tryFreezeStock u t q um)) v k = stock_of um v k"
    and "frozen_stock_of (snd (tryFreezeStock u t q um)) v k = frozen_stock_of um v k"
  using assms by (auto simp: account_reads tryFreezeStock_def accounts.lookup_upd split: option.splits if_splits)

section \<open>Names and ids\<close>

definition names_ok :: "UserManager \<Rightarrow> bool" where
  "names_ok um \<longleftrightarrow>
     (\<forall>u a. getAccount um u = Some a \<longrightarrow>
        ua_user_id a = u \<and> map_of (find_account (um (IdToMtx u))) (ua_username a) = Some u) \<and>
     (\<forall>i n u. map_of (find_account (um i)) n = Some u \<longrightarrow>
        IdToMtx u = i \<and> (\<exists>a. getAccount um u = Some a \<and> ua_username a = n)) \<and>
     (\<forall>u v a b. getAccount um u = Some a \<longrightarrow> getAccount um v = Some b \<longrightarrow> ua_username a = ua_username b \<longrightarrow> u = v)"

lemma names_okD:
  assumes "names_ok um"
  shows "getAccount um u = Some a \<Longrightarrow> ua_user_id a = u"
    and "getAccount um u = Some a \<Longrightarrow> map_of (find_account (um (IdToMtx u))) (ua_username a) = Some u"
    and "map_of (find_account (um i)) n = Some u \<Longrightarrow> IdToMtx u = i \<and> (\<exists>a. getAccount um u = Some a \<and> ua_username a = n)"
    and "getAccount um u = Some a \<Longrightarrow> getAccount um v = Some b \<Longrightarrow> ua_username a = ua_username b \<Longrightarrow> u = v"
  using assms unfolding names_ok_def by blast+

lemma names_ok_new: "names_ok UserManager_new"
  by (simp add: names_ok_def UserManager_new_def getAccount_def)

lemma find_account_on_account [simp]: "find_account (on_account u f um i) = find_account (um i)"
  by (simp add: on_account_def split: option.split)

lemma names_ok_on_account:
  assumes "names_ok um" and "\<And>a. ua_user_id (f a) = ua_user_id a" "\<And>a. ua_username (f a) = ua_username a"
  shows "names_ok (on_account u f um)"
proof -
  have "\<exists>b. getAccount um v = Some b \<and> ua_user_id a = ua_user_id b \<and> ua_username a = ua_username b"
    if "getAccount (on_account u f um) v = Some a" for v a
    using that assms(2,3) by (auto simp: accounts.lookup_upd split: if_splits)
  note keep1 = this
  have "\<exists>a. getAccount (on_account u f um) v = Some a \<and> ua_username a = ua_username b"
    if "getAccount um v = Some b" for v b
    using that assms(3) by (auto simp: accounts.lookup_upd)
  note keep2 = this
  show ?thesis unfolding names_ok_def find_account_on_account
  proof (intro conjI allI impI)
    fix v a assume "getAccount (on_account u f um) v = Some a"
    from keep1 [OF this] show "ua_user_id a = v" "map_of (find_account (um (IdToMtx v))) (ua_username a) = Some v"
      using names_okD(1,2) [OF assms(1), of v] by fastforce+
  next
    fix i n v assume "map_of (find_account (um i)) n = Some v"
    from names_okD(3) [OF assms(1) this]
    show "IdToMtx v = i" "\<exists>a. getAccount (on_account u f um) v = Some a \<and> ua_username a = n"
      using keep2 [of v] by blast+
  next
    fix v w a b
    assume "getAccount (on_account u f um) v = Some a" "getAccount (on_account u f um) w = Some b" "ua_username a = ua_username b"
    then show "v = w" using keep1 [of v a] keep1 [of w b] names_okD(4) [OF assms(1)] by metis
  qed
qed

lemma getId_loop_none:
  "\<forall>i \<in> set is. map_of (find_account (um i)) n = None \<Longrightarrow> getId_loop is um n = 0"
  by (induction "is") auto

lemma getId_loop_some:
  assumes "j \<in> set is" and "map_of (find_account (um j)) n = Some u" "map_of (account (um j)) u = Some a"
    and "\<forall>i \<in> set is. i \<noteq> j \<longrightarrow> map_of (find_account (um i)) n = None"
  shows "getId_loop is um n = ua_user_id a"
  using assms
proof (induction "is")
  case (Cons i "is")
  then show ?case by (cases "i = j") (auto simp del: fun_upd_apply)
qed simp

lemma getId_found:
  assumes "names_ok um" and "getAccount um u = Some a"
  shows "getId um (ua_username a) = u"
proof -
  have "map_of (find_account (um i)) (ua_username a) = None" if "i \<noteq> IdToMtx u" for i
  proof (rule ccontr)
    assume "map_of (find_account (um i)) (ua_username a) \<noteq> None"
    then obtain v where v: "map_of (find_account (um i)) (ua_username a) = Some v" by blast
    from names_okD(3) [OF assms(1) v] obtain b where b: "getAccount um v = Some b" "ua_username b = ua_username a"
      and "IdToMtx v = i" by blast
    moreover have "v = u" using names_okD(4) [OF assms(1) b(1) assms(2)] b(2) by simp
    ultimately show False using that by simp
  qed
  moreover have "IdToMtx u \<in> set [0 ..< mtx_count]" by (simp add: IdToMtx_def mtx_count_def)
  ultimately have "getId um (ua_username a) = ua_user_id a"
    unfolding getId_def using names_okD(2) [OF assms] assms(2)
    by (intro getId_loop_some [of "IdToMtx u"]) (auto simp: getAccount_def)
  then show ?thesis using names_okD(1) [OF assms] by simp
qed

lemma getId_unknown:
  assumes "names_ok um" and "\<And>u a. getAccount um u = Some a \<Longrightarrow> ua_username a \<noteq> n"
  shows "getId um n = 0"
proof -
  have "map_of (find_account (um i)) n = None" for i
    using names_okD(3) [OF assms(1), of i n] assms(2) by (metis option.exhaust)
  then show ?thesis unfolding getId_def by (intro getId_loop_none) simp
qed

lemma names_ok_create:
  assumes "names_ok um" and "getAccount um u = None"
    and new: "\<And>v a. getAccount um v = Some a \<Longrightarrow> ua_username a \<noteq> n"
    and a: "ua_user_id a = u" "ua_username a = n"
  shows "names_ok (put_account a um)"
proof -
  have get: "getAccount (put_account a um) v = (if v = u then Some a else getAccount um v)" for v
    by (simp add: getAccount_put_account a)
  have find: "map_of (find_account (put_account a um i)) m =
      (if i = IdToMtx u \<and> m = n then Some u else map_of (find_account (um i)) m)" for i m
    by (simp add: put_account_def Let_def a)
  show ?thesis unfolding names_ok_def get find
  proof (intro conjI allI impI)
    fix v b assume "(if v = u then Some a else getAccount um v) = Some b"
    then show "ua_user_id b = v"
      and "(if IdToMtx v = IdToMtx u \<and> ua_username b = n then Some u
         else map_of (find_account (um (IdToMtx v))) (ua_username b)) = Some v"
      using names_okD(1,2) [OF assms(1), of v b] new [of v b] a by (auto split: if_splits)
  next
    fix i m v assume "(if i = IdToMtx u \<and> m = n then Some u else map_of (find_account (um i)) m) = Some v"
    then show "IdToMtx v = i" and "\<exists>b. (if v = u then Some a else getAccount um v) = Some b \<and> ua_username b = m"
      using names_okD(3) [OF assms(1), of i m v] assms(2) a by (auto split: if_splits)
  next
    fix v w b c
    assume "(if v = u then Some a else getAccount um v) = Some b" "(if w = u then Some a else getAccount um w) = Some c"
      and "ua_username b = ua_username c"
    then show "v = w"
      using names_okD(4) [OF assms(1), of v b w c] new [of v b] new [of w c] a by (auto split: if_splits)
  qed
qed

lemma createUserAccount_put:
  "getAccount um u = None \<Longrightarrow> createUserAccount u n um = put_account (UserAccount_of u n) um"
  by (simp add: createUserAccount_def getAccount_def)

lemma getAccount_create:
  "getAccount um u = None \<Longrightarrow>
   getAccount (createUserAccount u n um) v = (if v = u then Some (UserAccount_of u n) else getAccount um v)"
  by (simp add: createUserAccount_put getAccount_put_account UserAccount_of_def)

lemma names_ok_createUserAccount:
  assumes "names_ok um" and "getAccount um u = None"
    and "\<And>v a. getAccount um v = Some a \<Longrightarrow> ua_username a \<noteq> n"
  shows "names_ok (createUserAccount u n um)"
  unfolding createUserAccount_put [OF assms(2)]
  using assms by (intro names_ok_create [where u = u and n = n]) (auto simp: UserAccount_of_def)

lemma getAccount_new: "getAccount UserManager_new u = None"
  by (simp add: getAccount_def UserManager_new_def)

end
