(* ===== verification/UserManager_Claims.thy ===== *)
theory UserManager_Claims
  imports UserManager_Props
begin

text \<open>The properties of the in-memory accounts, each with an instance on concrete accounts.\<close>

definition ex_users :: UserManager where
  "ex_users = addBalance 1 500 (createUserAccount 257 ''bob'' (createUserAccount 1 ''alice'' UserManager_new))"

lemma ex_users_get:
  "getAccount ex_users u =
     (if u = 1 then Some ((UserAccount_of 1 ''alice'')\<lparr>available_balance := 500\<rparr>)
      else if u = 257 then Some (UserAccount_of 257 ''bob'') else None)"
  by (simp add: ex_users_def addBalance_def accounts.lookup_upd getAccount_create getAccount_new UserAccount_of_def)

lemma ex_users_names: "names_ok ex_users"
proof -
  have "names_ok (createUserAccount 1 ''alice'' UserManager_new)"
    by (rule names_ok_createUserAccount [OF names_ok_new]) (simp_all add: getAccount_new)
  then have "names_ok (createUserAccount 257 ''bob'' (createUserAccount 1 ''alice'' UserManager_new))"
    by (rule names_ok_createUserAccount)
      (auto simp: getAccount_create getAccount_new UserAccount_of_def split: if_splits)
  then show ?thesis
    unfolding ex_users_def addBalance_def by (rule names_ok_on_account) simp_all
qed

text \<open>
  C12. Creating an account with a new id and a new name keeps the translation between names and
  ids consistent: the name leads to the id and back, every other user's name and id are translated
  as before, and the new account is empty.
\<close>

theorem createUserAccount_names:
  assumes "names_ok um" and "getAccount um uid = None"
    and "\<forall>u a. getAccount um u = Some a \<longrightarrow> ua_username a \<noteq> username"
  shows "names_ok (createUserAccount uid username um) \<and>
    getId (createUserAccount uid username um) username = uid \<and>
    getName (createUserAccount uid username um) uid = username \<and>
    getBalance (createUserAccount uid username um) uid = 0 \<and> getHoldings (createUserAccount uid username um) uid = [] \<and>
    (\<forall>u a. getAccount um u = Some a \<longrightarrow>
       getName (createUserAccount uid username um) u = ua_username a \<and>
       getId (createUserAccount uid username um) (ua_username a) = u)"
proof -
  let ?um = "createUserAccount uid username um"
  have ok: "names_ok ?um" using assms by (auto intro: names_ok_createUserAccount)
  have new: "getAccount ?um uid = Some (UserAccount_of uid username)"
    using assms(2) by (simp add: getAccount_create)
  have old: "getAccount ?um u = Some a" if "getAccount um u = Some a" for u a
    using that assms(2) by (auto simp: getAccount_create)
  show ?thesis
    using ok new getId_found [OF ok new] getId_found [OF ok old] old
    by (auto simp: getName_def getBalance_def getHoldings_def UserAccount_of_def)
qed

theorem createUserAccount_names_witness:
  "getId (createUserAccount 2 ''carol'' ex_users) ''carol'' = 2 \<and>
   getId (createUserAccount 2 ''carol'' ex_users) ''alice'' = 1"
proof -
  have "\<forall>u a. getAccount ex_users u = Some a \<longrightarrow> ua_username a \<noteq> ''carol''"
    by (auto simp: ex_users_get UserAccount_of_def split: if_splits)
  moreover have "getAccount ex_users 2 = None" and alice: "getAccount ex_users 1 = Some ((UserAccount_of 1 ''alice'')\<lparr>available_balance := 500\<rparr>)"
    by (simp_all add: ex_users_get)
  ultimately have "getId (createUserAccount 2 ''carol'' ex_users) ''carol'' = 2"
      "getId (createUserAccount 2 ''carol'' ex_users) (ua_username ((UserAccount_of 1 ''alice'')\<lparr>available_balance := 500\<rparr>)) = 1"
    using createUserAccount_names [OF ex_users_names, of 2 "''carol''"] alice by blast+
  then show ?thesis by (simp add: UserAccount_of_def)
qed

text \<open>
  C11. Freezing a non-negative amount succeeds exactly when the user exists and has that much
  available. It then moves the amount from the available to the frozen balance, leaves a
  non-negative available balance, touches no other user, and the unfreeze of the same amount
  restores both balances. When it is refused nothing changes.
\<close>

theorem tryFreezeBalance_sound:
  assumes "0 \<le> sint amount"
  shows "(fst (tryFreezeBalance uid amount um) \<longleftrightarrow> exists_user um uid \<and> sint amount \<le> sint (balance_of um uid)) \<and>
    (\<not> fst (tryFreezeBalance uid amount um) \<longrightarrow> snd (tryFreezeBalance uid amount um) = um) \<and>
    (fst (tryFreezeBalance uid amount um) \<longrightarrow>
      0 \<le> sint (balance_of (snd (tryFreezeBalance uid amount um)) uid) \<and>
      sint (balance_of (snd (tryFreezeBalance uid amount um)) uid) = sint (balance_of um uid) - sint amount \<and>
      frozen_of (snd (tryFreezeBalance uid amount um)) uid = frozen_of um uid + amount \<and>
      (\<forall>v. v \<noteq> uid \<longrightarrow> balance_of (snd (tryFreezeBalance uid amount um)) v = balance_of um v \<and>
                      frozen_of (snd (tryFreezeBalance uid amount um)) v = frozen_of um v) \<and>
      (\<forall>v. balance_of (unfreezeBalance uid amount (snd (tryFreezeBalance uid amount um))) v = balance_of um v \<and>
           frozen_of (unfreezeBalance uid amount (snd (tryFreezeBalance uid amount um))) v = frozen_of um v))"
proof -
  let ?r = "tryFreezeBalance uid amount um"
  have sub: "sint (balance_of um uid - amount) = sint (balance_of um uid) - sint amount"
    if "sint amount \<le> sint (balance_of um uid)"
  proof -
    have "sint (balance_of um uid) < 2 ^ 63" using sint_less [of "balance_of um uid"] by simp
    then have "sint (balance_of um uid) - sint amount < 2 ^ 63" "- (2 ^ 63) \<le> sint (balance_of um uid) - sint amount"
      using assms that by linarith+
    then show ?thesis by (simp add: sint_word_ariths signed_take_bit_int_eq_self_iff)
  qed
  have ex: "exists_user (snd ?r) uid" if "fst ?r" using that by (simp add: tryFreezeBalance_result)
  show ?thesis
    using sub ex tryFreezeBalance_fail [of uid amount um]
    by (auto simp: tryFreezeBalance_result tryFreezeBalance_effect unfreezeBalance_effect)
qed

theorem tryFreezeBalance_sound_witness:
  "sint (balance_of (snd (tryFreezeBalance 1 300 ex_users)) 1) = 200 \<and>
   balance_of (unfreezeBalance 1 300 (snd (tryFreezeBalance 1 300 ex_users))) 1 = 500"
proof -
  have "balance_of ex_users 1 = 500" "exists_user ex_users 1"
    by (simp_all add: balance_of_def exists_user_def ex_users_get)
  with tryFreezeBalance_sound [of 300 1 ex_users] show ?thesis by simp
qed

text \<open>
  Committing a trade conserves money and shares: over any set of users that contains the buyer
  and the seller, the sum of all available and frozen balances is unchanged, and so is, for every
  ticker, the sum of all available and frozen shares. The buyer pays \<^verbatim>\<open>cost\<close> out of the frozen
  balance and gets the refund back, the seller gets \<^verbatim>\<open>cost\<close>. The sums are those of the machine
  words, so the statement covers every wrap-around.
\<close>

theorem commit_conserves:
  assumes "finite U" and "buyer \<in> U" "seller \<in> U" and "exists_user um buyer" "exists_user um seller"
  shows "(\<Sum>v \<in> U. balance_of (commitSell seller t cost qty (commitBuy buyer t cost qty refund um)) v +
                    frozen_of (commitSell seller t cost qty (commitBuy buyer t cost qty refund um)) v) =
         (\<Sum>v \<in> U. balance_of um v + frozen_of um v) \<and>
    (\<Sum>v \<in> U. stock_of (commitSell seller t cost qty (commitBuy buyer t cost qty refund um)) v k +
               frozen_stock_of (commitSell seller t cost qty (commitBuy buyer t cost qty refund um)) v k) =
    (\<Sum>v \<in> U. stock_of um v k + frozen_stock_of um v k)"
proof -
  have "(\<Sum>v \<in> U. if v = buyer then x else 0) = (\<Sum>v \<in> U. if v = seller then x else 0)" for x :: i64
    using assms(1-3) by simp
  moreover have "(\<Sum>v \<in> U. if v = buyer \<and> k = t then x else 0) = (\<Sum>v \<in> U. if v = seller \<and> k = t then x else 0)" for x :: i32
    using assms(1-3) by (simp add: sum_single)
  ultimately show ?thesis
    using assms(4,5) by (simp add: account_simps sum.distrib sum_subtractf)
qed

theorem commit_conserves_witness:
  "(\<Sum>v \<in> {1, 257}. balance_of (commitSell 257 7 300 3 (commitBuy 1 7 300 3 20 ex_users)) v +
      frozen_of (commitSell 257 7 300 3 (commitBuy 1 7 300 3 20 ex_users)) v) = 500"
proof -
  have "exists_user ex_users 1" "exists_user ex_users 257"
    by (simp_all add: exists_user_def ex_users_get)
  moreover have "(\<Sum>v \<in> {1, 257}. balance_of ex_users v + frozen_of ex_users v) = 500"
    by (simp add: balance_of_def frozen_of_def ex_users_get UserAccount_of_def)
  ultimately show ?thesis
    using commit_conserves [of "{1, 257}" 1 257 ex_users 7 300 3 20] by simp
qed

section \<open>Loading from the database\<close>

lemma keeps_column: "keeps I (column i row)"
  by (auto simp: column_def keeps_def split: option.split)

definition no_holdings :: "UserManager \<Rightarrow> bool" where
  "no_holdings um \<longleftrightarrow> (\<forall>u a. getAccount um u = Some a \<longrightarrow> available_stock a = [])"

lemma getTickerId_new: "getTickerId TickerManager_new s = 0"
  by (simp add: getTickerId_def TickerManager_new_def)

lemma load_account_row_no_holdings: "keeps no_holdings (load_account_row row)"
  unfolding load_account_row_def
  by (intro keeps_intros keeps_column)
    (auto simp: no_holdings_def getAccount_put_account UserAccount_of_def split: if_splits)

lemma load_holding_row_no_holdings: "keeps no_holdings (load_holding_row TickerManager_new row)"
  unfolding load_holding_row_def getTickerId_new by (simp, intro keeps_intros keeps_column)

lemma load_rows_keeps:
  assumes "\<And>row. keeps I (f row)"
  shows "keeps (\<lambda>st. I (snd st)) (load_rows my sql f)"
  unfolding keeps_def load_rows_def
  using keepsD [OF keeps_for_each [of I f, OF assms]]
  by (fastforce simp: case_prod_beta split: option.split)

text \<open>
  C13. Loading the accounts while no tickers are known, as the server does at start-up, never loads
  a holding, whatever the database contains: every symbol is translated to 0 and skipped.
\<close>

theorem load_before_tickers_has_no_holdings:
  "getHoldings (snd (snd (loadAllFromDB my TickerManager_new (db, UserManager_new)))) u = []"
proof -
  let ?body = "bnd (load_rows my accounts_sql load_account_row)
      (\<lambda>_. load_rows my holdings_sql (load_holding_row TickerManager_new))"
  have "keeps (\<lambda>st. no_holdings (snd st)) ?body"
    by (intro keeps_bnd load_rows_keeps load_account_row_no_holdings load_holding_row_no_holdings)
  moreover have "no_holdings UserManager_new" by (simp add: no_holdings_def getAccount_new)
  ultimately have "no_holdings (snd (snd (?body (d, UserManager_new))))" for d
    using keepsD [of "\<lambda>st. no_holdings (snd st)" ?body "(d, UserManager_new)"] by simp
  then have "no_holdings (snd (snd (loadAllFromDB my TickerManager_new (db, UserManager_new))))"
    using \<open>no_holdings UserManager_new\<close>
    by (simp add: loadAllFromDB_def with_connection_def Let_def case_prod_beta split: option.split sum.split)
  then show ?thesis by (simp add: getHoldings_def no_holdings_def split: option.split)
qed

text \<open>Rows as the server sends them: decimal text of the columns.\<close>

definition account_row :: "u64 \<times> string \<times> nat \<Rightarrow> sql_row" where
  "account_row e = (case e of (u, n, b) \<Rightarrow> [Some (to_string u), Some n, Some (show_nat b)])"

definition holding_row :: "u64 \<times> string \<times> nat \<Rightarrow> sql_row" where
  "holding_row e = (case e of (u, s, q) \<Rightarrow> [Some (to_string u), Some s, Some (show_nat q)])"

definition loaded_account :: "u64 \<times> string \<times> nat \<Rightarrow> UserAccount" where
  "loaded_account e = (case e of (u, n, b) \<Rightarrow> (UserAccount_of u n)\<lparr>available_balance := of_nat b\<rparr>)"

lemma load_account_row_ok:
  "snd (snd e) < 2 ^ 63 \<Longrightarrow> load_account_row (account_row e) um = (Inr (), put_account (loaded_account e) um)"
  by (cases e) (simp add: load_account_row_def account_row_def column_def stoull_to_string stoll_show loaded_account_def)

lemma load_account_rows_ok:
  "\<forall>e \<in> set es. snd (snd e) < 2 ^ 63 \<Longrightarrow>
   for_each load_account_row (map account_row es) um = (Inr (), fold (\<lambda>e. put_account (loaded_account e)) es um)"
  by (induction es arbitrary: um) (simp_all add: bnd_run [OF load_account_row_ok])

definition add_holding :: "TickerManager \<Rightarrow> u64 \<times> string \<times> nat \<Rightarrow> UserManager \<Rightarrow> UserManager" where
  "add_holding tm e um = (case e of (u, s, q) \<Rightarrow>
     if getTickerId tm s \<noteq> 0
     then on_account u (\<lambda>a. a\<lparr>available_stock := AList.update (getTickerId tm s) (of_nat q) (available_stock a)\<rparr>) um
     else um)"

lemma load_holding_row_ok:
  "snd (snd e) < 2 ^ 31 \<Longrightarrow> load_holding_row tm (holding_row e) um = (Inr (), add_holding tm e um)"
  by (cases e) (simp add: load_holding_row_def holding_row_def column_def stoull_to_string stoi_show add_holding_def Let_def)

lemma load_holding_rows_ok:
  "\<forall>e \<in> set hs. snd (snd e) < 2 ^ 31 \<Longrightarrow>
   for_each (load_holding_row tm) (map holding_row hs) um = (Inr (), fold (add_holding tm) hs um)"
  by (induction hs arbitrary: um) (simp_all add: bnd_run [OF load_holding_row_ok])

lemma fold_accounts:
  assumes "distinct (map fst es)" "distinct (map (fst \<circ> snd) es)" "names_ok um"
    and "\<forall>e \<in> set es. getAccount um (fst e) = None"
    and "\<forall>u a. getAccount um u = Some a \<longrightarrow> ua_username a \<notin> set (map (fst \<circ> snd) es)"
  shows "names_ok (fold (\<lambda>e. put_account (loaded_account e)) es um) \<and>
    (\<forall>u. getAccount (fold (\<lambda>e. put_account (loaded_account e)) es um) u =
       (case map_of es u of Some nb \<Rightarrow> Some (loaded_account (u, nb)) | None \<Rightarrow> getAccount um u))"
  using assms
proof (induction es arbitrary: um)
  case (Cons e es)
  obtain u n b where e: "e = (u, n, b)" by (cases e) auto
  let ?um = "put_account (loaded_account (u, n, b)) um"
  have get: "getAccount ?um v = (if v = u then Some (loaded_account (u, n, b)) else getAccount um v)" for v
    by (simp add: getAccount_put_account e loaded_account_def UserAccount_of_def)
  have ok: "names_ok ?um"
    using Cons.prems by (intro names_ok_create [where u = u and n = n]) (auto simp: e loaded_account_def UserAccount_of_def)
  have "\<forall>e \<in> set es. getAccount ?um (fst e) = None"
    using Cons.prems(1,4) by (auto simp: get e rev_image_eqI)
  moreover have "\<forall>v a. getAccount ?um v = Some a \<longrightarrow> ua_username a \<notin> set (map (fst \<circ> snd) es)"
  proof (intro allI impI)
    fix v a assume "getAccount ?um v = Some a"
    then have "ua_username a = n \<or> getAccount um v = Some a"
      unfolding get by (auto simp: loaded_account_def UserAccount_of_def split: if_splits)
    then show "ua_username a \<notin> set (map (fst \<circ> snd) es)" using Cons.prems(2,5) by (auto simp: e)
  qed
  moreover have "map_of es u = None" using Cons.prems(1) by (simp add: e map_of_eq_None_iff)
  ultimately show ?case
    using Cons.IH [OF _ _ ok] Cons.prems(1,2) by (simp add: get e split: option.split)
qed simp

lemma fold_holdings:
  "getAccount (fold (add_holding tm) hs um) u = None \<longleftrightarrow> getAccount um u = None"
  "balance_of (fold (add_holding tm) hs um) u = balance_of um u"
  "frozen_of (fold (add_holding tm) hs um) u = frozen_of um u"
  "getName (fold (add_holding tm) hs um) u = getName um u"
  "names_ok um \<Longrightarrow> names_ok (fold (add_holding tm) hs um)"
proof -
  have "(getAccount (add_holding tm e um) u = None \<longleftrightarrow> getAccount um u = None) \<and>
      balance_of (add_holding tm e um) u = balance_of um u \<and> frozen_of (add_holding tm e um) u = frozen_of um u \<and>
      getName (add_holding tm e um) u = getName um u \<and> (names_ok um \<longrightarrow> names_ok (add_holding tm e um))" for e um
    by (cases e) (auto simp: add_holding_def accounts.lookup_upd balance_of_def frozen_of_def getName_def
        intro: names_ok_on_account split: option.split)
  note step = this
  show "getAccount (fold (add_holding tm) hs um) u = None \<longleftrightarrow> getAccount um u = None"
    "balance_of (fold (add_holding tm) hs um) u = balance_of um u"
    "frozen_of (fold (add_holding tm) hs um) u = frozen_of um u"
    "getName (fold (add_holding tm) hs um) u = getName um u"
    "names_ok um \<Longrightarrow> names_ok (fold (add_holding tm) hs um)"
    by (induction hs arbitrary: um) (simp_all add: step)
qed

text \<open>The last row of a user and ticker decides.\<close>

definition last_quantity :: "TickerManager \<Rightarrow> (u64 \<times> string \<times> nat) list \<Rightarrow> u64 \<Rightarrow> u32 \<Rightarrow> i32 \<Rightarrow> i32" where
  "last_quantity tm hs u t q0 = fold (\<lambda>(v, s, q) acc. if v = u \<and> getTickerId tm s = t then of_nat q else acc) hs q0"

lemma fold_holdings_stock:
  assumes "exists_user um u" and "t \<noteq> 0"
  shows "stock_of (fold (add_holding tm) hs um) u t = last_quantity tm hs u t (stock_of um u t)"
  using assms(1)
proof (induction hs arbitrary: um)
  case (Cons e hs)
  obtain v s q where e: "e = (v, s, q)" by (cases e) auto
  have ex: "exists_user (add_holding tm e um) u"
    using Cons.prems by (simp add: e add_holding_def)
  have "stock_of (add_holding tm e um) u t = (if v = u \<and> getTickerId tm s = t then of_nat q else stock_of um u t)"
    using Cons.prems assms(2) by (auto simp: e add_holding_def stock_of_def accounts.lookup_upd exists_user_def split: option.split)
  then show ?case using Cons.IH [OF ex] by (simp add: e last_quantity_def)
qed (simp add: last_quantity_def)

text \<open>
  With the tickers known, loading builds exactly the accounts of the database: every row of
  \<^verbatim>\<open>accounts\<close> becomes an account with that name and balance and nothing frozen, there are no other
  accounts, names and ids are translated consistently, and the shares a user holds of a ticker are
  those of the \<^verbatim>\<open>holdings\<close> rows.
\<close>

theorem loadAllFromDB_loads:
  assumes "db_ready db"
    and "my_query my accounts_sql (dbs_data db) = (True, Some (map account_row es), d1)"
    and "my_query my holdings_sql d1 = (True, Some (map holding_row hs), d2)"
    and "distinct (map fst es)" "distinct (map (fst \<circ> snd) es)"
    and "\<forall>e \<in> set es. snd (snd e) < 2 ^ 63" "\<forall>h \<in> set hs. snd (snd h) < 2 ^ 31"
  shows "\<exists>db' um. loadAllFromDB my tm (db, UserManager_new) = (Inr (), (db', um)) \<and> names_ok um \<and>
    (\<forall>u. exists_user um u \<longleftrightarrow> u \<in> set (map fst es)) \<and>
    (\<forall>u n b. (u, n, b) \<in> set es \<longrightarrow> getName um u = n \<and> balance_of um u = of_nat b \<and> frozen_of um u = 0 \<and>
       (\<forall>t. t \<noteq> 0 \<longrightarrow> stock_of um u t = last_quantity tm hs u t 0))"
proof -
  let ?um1 = "fold (\<lambda>e. put_account (loaded_account e)) es UserManager_new"
  let ?um2 = "fold (add_holding tm) hs ?um1"
  let ?body = "\<lambda>d. let (r, (d', um')) = bnd (load_rows my accounts_sql load_account_row)
      (\<lambda>_. load_rows my holdings_sql (load_holding_row tm)) (d, UserManager_new) in (Inr (r, um'), d')"
  have um1: "names_ok ?um1 \<and> (\<forall>u. getAccount ?um1 u = (case map_of es u of Some nb \<Rightarrow> Some (loaded_account (u, nb)) | None \<Rightarrow> None))"
    using fold_accounts [OF assms(4,5) names_ok_new] by (auto simp: getAccount_new split: option.split)
  have "load_rows my accounts_sql load_account_row (dbs_data db, UserManager_new) = (Inr (), (d1, ?um1))"
    by (simp add: load_rows_def assms(2) load_account_rows_ok [OF assms(6)])
  moreover have "load_rows my holdings_sql (load_holding_row tm) (d1, ?um1) = (Inr (), (d2, ?um2))"
    by (simp add: load_rows_def assms(3) load_holding_rows_ok [OF assms(7)])
  ultimately have "?body (dbs_data db) = (Inr (Inr (), ?um2), d2)"
    by (simp add: bnd_run [where s' = "(d1, ?um1)"])
  then obtain db' where "with_connection ?body db = (Inr (Inr (), ?um2), db')"
    using with_connection_run [OF assms(1), of ?body] by (metis fst_conv)
  then have run: "loadAllFromDB my tm (db, UserManager_new) = (Inr (), (db', ?um2))"
    by (simp add: loadAllFromDB_def)
  have acc: "getAccount ?um1 u = Some (loaded_account (u, n, b))" if "(u, n, b) \<in> set es" for u n b
    using um1 map_of_is_SomeI [OF assms(4) that] by simp
  have "exists_user ?um2 u \<longleftrightarrow> u \<in> set (map fst es)" for u
    using um1 by (auto simp: exists_user_def fold_holdings map_of_eq_None_iff rev_image_eqI dest: map_of_SomeD split: option.splits)
  moreover have "getName ?um2 u = n \<and> balance_of ?um2 u = of_nat b \<and> frozen_of ?um2 u = 0 \<and>
      (\<forall>t. t \<noteq> 0 \<longrightarrow> stock_of ?um2 u t = last_quantity tm hs u t 0)" if e: "(u, n, b) \<in> set es" for u n b
  proof -
    have "getName ?um1 u = n" "balance_of ?um1 u = of_nat b" "frozen_of ?um1 u = 0" "\<forall>t. stock_of ?um1 u t = 0" "exists_user ?um1 u"
      unfolding getName_def balance_of_def frozen_of_def stock_of_def exists_user_def acc [OF e]
      by (simp_all add: loaded_account_def UserAccount_of_def)
    then show ?thesis using fold_holdings_stock [of ?um1 u _ tm hs] by (simp add: fold_holdings)
  qed
  ultimately show ?thesis using run um1 fold_holdings(5) by blast
qed

text \<open>A server with two accounts, one of them with a holding.\<close>

definition ex_account_server :: "unit mysql" where
  "ex_account_server = ex_stock_server\<lparr>my_query := \<lambda>sql d.
     if sql = accounts_sql then (True, Some (map account_row [(1, ''alice'', 500), (2, ''bob'', 70)]), d)
     else if sql = holdings_sql then (True, Some (map holding_row [(2, ''NVDA'', 30)]), d) else (False, None, d)\<rparr>"

theorem loadAllFromDB_loads_witness:
  "\<exists>db' um. loadAllFromDB ex_account_server \<lparr>symbol_to_id = [(''NVDA'', 2)], id_to_symbol = [(2, ''NVDA'')]\<rparr>
       (\<lparr>dbs_pool = DBPool_new\<lparr>db_connQueue := [1]\<rparr>, dbs_data = ()\<rparr>, UserManager_new) = (Inr (), (db', um)) \<and>
     balance_of um 1 = 500 \<and> stock_of um 2 2 = 30"
proof -
  have "accounts_sql \<noteq> holdings_sql" by (simp add: accounts_sql_def holdings_sql_def)
  then have q: "my_query ex_account_server accounts_sql () = (True, Some (map account_row [(1, ''alice'', 500), (2, ''bob'', 70)]), ())"
    "my_query ex_account_server holdings_sql () = (True, Some (map holding_row [(2, ''NVDA'', 30)]), ())"
    by (simp_all add: ex_account_server_def)
  have "db_ready \<lparr>dbs_pool = DBPool_new\<lparr>db_connQueue := [1]\<rparr>, dbs_data = ()\<rparr>" by (simp add: db_ready_def)
  from loadAllFromDB_loads [OF this, of ex_account_server "[(1, ''alice'', 500), (2, ''bob'', 70)]" "()" "[(2, ''NVDA'', 30)]" "()"
      "\<lparr>symbol_to_id = [(''NVDA'', 2)], id_to_symbol = [(2, ''NVDA'')]\<rparr>"]
  show ?thesis by (auto simp: q last_quantity_def getTickerId_def)
qed

end
