(* ===== verification/Repositories.thy ===== *)
theory Repositories
  imports Database TickerManager
begin

text \<open>
  \<^verbatim>\<open>Repositories.h\<close>, \<^verbatim>\<open>UserRepositoryImpl.cpp\<close> and \<^verbatim>\<open>StockRepositoryImpl.cpp\<close>: the interfaces to the
  \<^verbatim>\<open>accounts\<close> and \<^verbatim>\<open>holdings\<close> tables as records of operations, and their implementation with
  prepared statements and plain queries.
\<close>

section \<open>Interfaces\<close>

record 's IUserRepository =
  registerUser :: "string \<Rightarrow> string \<Rightarrow> ('s, bool) prog"
  checkLogin :: "string \<Rightarrow> string \<Rightarrow> ('s, bool) prog"
  repo_getBalance :: "string \<Rightarrow> ('s, i64) prog"
  updateBalance :: "string \<Rightarrow> i64 \<Rightarrow> ('s, bool) prog"
  deductBalance :: "string \<Rightarrow> i64 \<Rightarrow> ('s, bool) prog"
  getUserId :: "string \<Rightarrow> ('s, u64) prog"

text \<open>A JSON object is the dictionary of its members.\<close>

record 's IStockRepository =
  getStockHolding :: "string \<Rightarrow> string \<Rightarrow> ('s, i32) prog"
  updateStockHolding :: "string \<Rightarrow> string \<Rightarrow> i32 \<Rightarrow> ('s, bool) prog"
  getAllHoldings :: "string \<Rightarrow> ('s, (string, i32) umap) prog"
  getAllStocks :: "('s, string list) prog"
  deductStockHolding :: "string \<Rightarrow> string \<Rightarrow> i32 \<Rightarrow> ('s, bool) prog"

section \<open>Prepared statements\<close>

text \<open>
  \<^verbatim>\<open>mysql_stmt_init\<close> and \<^verbatim>\<open>mysql_stmt_prepare\<close>, with the value that the callers return when one of
  them fails. Closing the statement has no effect that the callers see.
\<close>

definition prepared :: "'d mysql \<Rightarrow> string \<Rightarrow> 'a \<Rightarrow> ('d, 'a) prog \<Rightarrow> ('d, 'a) prog" where
  "prepared my sql bad body d =
     (if \<not> stmt_init my d then (Inr bad, d)
      else if \<not> stmt_prepare my sql d then (Inr bad, d)
      else body d)"

text \<open>
  \<^verbatim>\<open>mysql_stmt_bind_param\<close> without a check, then \<^verbatim>\<open>mysql_stmt_execute\<close>. Executing a statement whose
  parameters are not bound is an error; after an error the number of affected rows is \<open>-1\<close> and
  there are no result rows.
\<close>

definition stmt_error :: stmt_result where
  "stmt_error = \<lparr>sr_ok = False, sr_affected_rows = - 1, sr_rows = []\<rparr>"

definition bind_execute :: "'d mysql \<Rightarrow> string \<Rightarrow> sql_param list \<Rightarrow> ('d, stmt_result) prog" where
  "bind_execute my sql ps d =
     (if stmt_bind_param my sql ps d then (let (r, d') = stmt_execute my sql ps d in (Inr r, d'))
      else (Inr stmt_error, d))"

section \<open>\<^verbatim>\<open>UserRepositoryImpl\<close>\<close>

definition register_sql :: string where
  "register_sql = ''INSERT INTO accounts (username, password, balance) VALUES (?, ?, 0.00)''"

definition UserRepositoryImpl_registerUser :: "'d mysql \<Rightarrow> string \<Rightarrow> string \<Rightarrow> ('d DbServer, bool) prog" where
  "UserRepositoryImpl_registerUser my username password =
     with_connection (prepared my register_sql False (\<lambda>d.
       if \<not> stmt_bind_param my register_sql [PString username, PString password] d then (Inr False, d)
       else (let (r, d') = stmt_execute my register_sql [PString username, PString password] d
             in (Inr (sr_ok r), d'))))"

definition login_sql :: string where
  "login_sql = ''SELECT * FROM accounts WHERE username=? AND password=?''"

definition UserRepositoryImpl_checkLogin :: "'d mysql \<Rightarrow> string \<Rightarrow> string \<Rightarrow> ('d DbServer, bool) prog" where
  "UserRepositoryImpl_checkLogin my username password =
     with_connection (prepared my login_sql False
       (bnd (bind_execute my login_sql [PString username, PString password]) (\<lambda>r.
          ret (length (sr_rows r) > 0))))"

text \<open>
  The balance passes through a \<^verbatim>\<open>double\<close> before it is returned: beyond \<open>2 ^ 53\<close> it is rounded to 53
  significant bits, to the nearest even on a tie. A rounded value of \<open>2 ^ 63\<close> is converted back to
  the smallest \<^verbatim>\<open>int64_t\<close>, as x86-64 does.
\<close>

fun excess_bits :: "nat \<Rightarrow> nat" where
  "excess_bits n = (if n < 2 ^ 53 then 0 else Suc (excess_bits (n div 2)))"

declare excess_bits.simps [simp del]

definition round_half_even :: "nat \<Rightarrow> nat \<Rightarrow> nat" where
  "round_half_even e n =
     (let q = n div 2 ^ e; r = n mod 2 ^ e
      in if e = 0 then n
         else if r > 2 ^ (e - 1) \<or> r = 2 ^ (e - 1) \<and> odd q then (q + 1) * 2 ^ e else q * 2 ^ e)"

definition through_double :: "i64 \<Rightarrow> i64" where
  "through_double v =
     (let n = nat \<bar>sint v\<bar>; m = round_half_even (excess_bits n) n
      in if sint v < 0 then of_int (- int m) else of_int (int m))"

definition balance_sql :: string where
  "balance_sql = ''SELECT balance FROM accounts WHERE username=?''"

definition UserRepositoryImpl_getBalance :: "'d mysql \<Rightarrow> string \<Rightarrow> ('d DbServer, i64) prog" where
  "UserRepositoryImpl_getBalance my username =
     with_connection (prepared my balance_sql (- 1)
       (bnd (bind_execute my balance_sql [PString username]) (\<lambda>r.
          ret (case stmt_fetch_longlong my (sr_rows r) of
                 Some balance \<Rightarrow> through_double balance | None \<Rightarrow> - 1))))"

definition update_sql :: string where
  "update_sql = ''UPDATE accounts SET balance = balance + ? WHERE username = ?''"

definition UserRepositoryImpl_updateBalance :: "'d mysql \<Rightarrow> string \<Rightarrow> i64 \<Rightarrow> ('d DbServer, bool) prog" where
  "UserRepositoryImpl_updateBalance my username amount =
     with_connection (prepared my update_sql False
       (bnd (bind_execute my update_sql [PLongLong amount, PString username]) (\<lambda>r. ret (sr_ok r))))"

definition deduct_sql :: string where
  "deduct_sql = ''UPDATE accounts SET balance = balance - ? WHERE username = ? AND balance >= ?''"

definition UserRepositoryImpl_deductBalance :: "'d mysql \<Rightarrow> string \<Rightarrow> i64 \<Rightarrow> ('d DbServer, bool) prog" where
  "UserRepositoryImpl_deductBalance my username amount =
     with_connection (prepared my deduct_sql False
       (bnd (bind_execute my deduct_sql [PLongLong amount, PString username, PLongLong amount]) (\<lambda>r.
          ret (sr_affected_rows r > 0))))"

text \<open>
  The escaped name goes into a stack buffer of 256 bytes with a terminating NUL and is read back
  as a C string.
\<close>

definition user_id_sql :: "string \<Rightarrow> string" where
  "user_id_sql escaped = ''SELECT id FROM accounts WHERE username='' @ [CHR 0x27] @ escaped @ [CHR 0x27]"

definition UserRepositoryImpl_getUserId :: "'d mysql \<Rightarrow> string \<Rightarrow> ('d DbServer, u64) prog" where
  "UserRepositoryImpl_getUserId my username =
     with_connection (\<lambda>d.
       let escaped = real_escape_string my username
       in if length escaped \<ge> 256 then (Inl Overrun, d)
          else let (ok, res, d') = my_query my (user_id_sql (c_str escaped)) d
               in if \<not> ok then (Inr 0, d')
                  else (case res of
                          Some ((Some c # _) # _) \<Rightarrow> conv (stoull c) d'
                        | _ \<Rightarrow> (Inr 0, d')))"

definition UserRepositoryImpl :: "'d mysql \<Rightarrow> ('d DbServer) IUserRepository" where
  "UserRepositoryImpl my =
     \<lparr>registerUser = UserRepositoryImpl_registerUser my, checkLogin = UserRepositoryImpl_checkLogin my,
      repo_getBalance = UserRepositoryImpl_getBalance my, updateBalance = UserRepositoryImpl_updateBalance my,
      deductBalance = UserRepositoryImpl_deductBalance my, getUserId = UserRepositoryImpl_getUserId my\<rparr>"

section \<open>\<^verbatim>\<open>StockRepositoryImpl\<close>\<close>

definition holding_sql :: string where
  "holding_sql = ''SELECT quantity FROM holdings WHERE username=? AND symbol=?''"

definition StockRepositoryImpl_getStockHolding :: "'d mysql \<Rightarrow> string \<Rightarrow> string \<Rightarrow> ('d DbServer, i32) prog" where
  "StockRepositoryImpl_getStockHolding my username symbol =
     with_connection (prepared my holding_sql 0 (\<lambda>d.
       let ps = [PString username, PString symbol]
       in if \<not> stmt_bind_param my holding_sql ps d then (Inr 0, d)
          else let (r, d') = stmt_execute my holding_sql ps d
               in if \<not> sr_ok r then (Inr 0, d')
                  else if \<not> stmt_bind_result my holding_sql d' then (Inr 0, d')
                  else (Inr (case stmt_fetch_long my (sr_rows r) of Some quantity \<Rightarrow> quantity | None \<Rightarrow> 0), d')))"

definition add_holding_sql :: string where
  "add_holding_sql = ''INSERT INTO holdings (username, symbol, quantity) VALUES (?, ?, ?) '' @
     ''ON DUPLICATE KEY UPDATE quantity = quantity + ?''"

definition StockRepositoryImpl_updateStockHolding :: "'d mysql \<Rightarrow> string \<Rightarrow> string \<Rightarrow> i32 \<Rightarrow> ('d DbServer, bool) prog" where
  "StockRepositoryImpl_updateStockHolding my username symbol delta =
     with_connection (prepared my add_holding_sql False
       (bnd (bind_execute my add_holding_sql [PString username, PString symbol, PLong delta, PLong delta]) (\<lambda>r.
          ret (sr_ok r))))"

text \<open>The name is pasted into the query as it is; a failed query has no result to store.\<close>

definition all_holdings_sql :: "string \<Rightarrow> string" where
  "all_holdings_sql username = ''SELECT symbol, quantity FROM holdings WHERE username = '' @ [CHR 0x27] @ username @ [CHR 0x27]"

fun collect_holdings :: "sql_row list \<Rightarrow> (string, i32) umap \<Rightarrow> ('s, (string, i32) umap) prog" where
  "collect_holdings [] h_json = ret h_json"
| "collect_holdings ((Some c0 # Some c1 # _) # rows) h_json =
     bnd (conv (stoi c1)) (\<lambda>q. collect_holdings rows (AList.update (c_str c0) q h_json))"
| "collect_holdings (_ # rows) h_json = collect_holdings rows h_json"

definition StockRepositoryImpl_getAllHoldings :: "'d mysql \<Rightarrow> string \<Rightarrow> ('d DbServer, (string, i32) umap) prog" where
  "StockRepositoryImpl_getAllHoldings my username =
     with_connection (\<lambda>d.
       let (ok, res, d') = my_query my (c_str (all_holdings_sql username)) d
       in case (if ok then res else None) of
            None \<Rightarrow> (Inr [], d') | Some rows \<Rightarrow> collect_holdings rows [] d')"

definition all_stocks_sql :: string where
  "all_stocks_sql = ''SELECT DISTINCT symbol FROM holdings''"

fun collect_symbols :: "sql_row list \<Rightarrow> string list" where
  "collect_symbols [] = []"
| "collect_symbols ((Some c # _) # rows) = c_str c # collect_symbols rows"
| "collect_symbols (_ # rows) = collect_symbols rows"

definition StockRepositoryImpl_getAllStocks :: "'d mysql \<Rightarrow> ('d DbServer, string list) prog" where
  "StockRepositoryImpl_getAllStocks my =
     with_connection (\<lambda>d.
       let (ok, res, d') = my_query my all_stocks_sql d
       in if ok then (Inr (case res of None \<Rightarrow> [] | Some rows \<Rightarrow> collect_symbols rows), d') else (Inr [], d'))"

definition deduct_holding_sql :: string where
  "deduct_holding_sql = ''UPDATE holdings SET quantity = quantity - ? '' @
     ''WHERE username = ? AND symbol = ? AND quantity >= ?''"

definition StockRepositoryImpl_deductStockHolding :: "'d mysql \<Rightarrow> string \<Rightarrow> string \<Rightarrow> i32 \<Rightarrow> ('d DbServer, bool) prog" where
  "StockRepositoryImpl_deductStockHolding my username symbol amount =
     with_connection (prepared my deduct_holding_sql False
       (bnd (bind_execute my deduct_holding_sql [PLong amount, PString username, PString symbol, PLong amount]) (\<lambda>r.
          ret (sr_affected_rows r > 0))))"

definition StockRepositoryImpl :: "'d mysql \<Rightarrow> ('d DbServer) IStockRepository" where
  "StockRepositoryImpl my =
     \<lparr>getStockHolding = StockRepositoryImpl_getStockHolding my,
      updateStockHolding = StockRepositoryImpl_updateStockHolding my,
      getAllHoldings = StockRepositoryImpl_getAllHoldings my, getAllStocks = StockRepositoryImpl_getAllStocks my,
      deductStockHolding = StockRepositoryImpl_deductStockHolding my\<rparr>"

section \<open>Balances that survive the conversion\<close>

lemma through_double_exact:
  assumes "\<bar>sint v\<bar> < 2 ^ 53"
  shows "through_double v = v"
proof -
  have "excess_bits (nat \<bar>sint v\<bar>) = 0" using assms by (simp add: excess_bits.simps nat_less_iff)
  then have "through_double v = (if sint v < 0 then of_int (- int (nat \<bar>sint v\<bar>)) else of_int (int (nat \<bar>sint v\<bar>)))"
    unfolding through_double_def Let_def by (simp only: round_half_even_def Let_def simp_thms if_True)
  then show ?thesis by (simp split: if_splits)
qed

end
