(* ===== verification/Repositories_Props.thy ===== *)
theory Repositories_Props
  imports Repositories
begin

text \<open>
  What the repositories do on a database that follows the documentation of MySQL. \<open>Tables\<close> is the
  content of the two tables with the keys of the schema in \<^verbatim>\<open>README.md\<close>; \<open>sql_run\<close> says what each of
  the prepared statements does to it. \<open>documented_mysql\<close> is the contract between the client library
  and the repositories: a view of the database content on which every statement acts like that.
\<close>

section \<open>Tables\<close>

record account =
  acc_id :: nat
  acc_password :: string
  acc_balance :: int

record Tables =
  t_accounts :: "(string, account) umap"
  t_holdings :: "(string \<times> string, int) umap"
  t_next_id :: nat

definition in_bigint :: "int \<Rightarrow> bool" where
  "in_bigint x \<longleftrightarrow> - (2 ^ 63) \<le> x \<and> x < 2 ^ 63"

definition in_int :: "int \<Rightarrow> bool" where
  "in_int x \<longleftrightarrow> - (2 ^ 31) \<le> x \<and> x < 2 ^ 31"

definition show_int :: "int \<Rightarrow> string" where
  "show_int x = (if x < 0 then CHR ''-'' # show_nat (nat (- x)) else show_nat (nat x))"

definition stmt_ok :: "nat \<Rightarrow> sql_row list \<Rightarrow> stmt_result" where
  "stmt_ok n rows = \<lparr>sr_ok = True, sr_affected_rows = of_nat n, sr_rows = rows\<rparr>"

text \<open>
  An update counts the rows it changes, so adding zero affects none. A result that does not fit
  the column is an error that leaves the row as it was.
\<close>

definition set_balance :: "string \<Rightarrow> account \<Rightarrow> int \<Rightarrow> Tables \<Rightarrow> stmt_result \<times> Tables" where
  "set_balance n a b t =
     (if \<not> in_bigint b then (stmt_error, t)
      else (stmt_ok (if b = acc_balance a then 0 else 1) [],
            t\<lparr>t_accounts := AList.update n (a\<lparr>acc_balance := b\<rparr>) (t_accounts t)\<rparr>))"

definition set_quantity :: "string \<times> string \<Rightarrow> int \<Rightarrow> int \<Rightarrow> Tables \<Rightarrow> stmt_result \<times> Tables" where
  "set_quantity k q0 q t =
     (if \<not> in_int q then (stmt_error, t)
      else (stmt_ok (if q = q0 then 0 else 1) [], t\<lparr>t_holdings := AList.update k q (t_holdings t)\<rparr>))"

fun sql_run :: "string \<Rightarrow> sql_param list \<Rightarrow> Tables \<Rightarrow> stmt_result \<times> Tables" where
  "sql_run sql [PString n, PString p] t =
     (if sql = register_sql then
        (case map_of (t_accounts t) n of Some _ \<Rightarrow> (stmt_error, t)
         | None \<Rightarrow> (stmt_ok 1 [],
             t\<lparr>t_accounts := AList.update n \<lparr>acc_id = t_next_id t, acc_password = p, acc_balance = 0\<rparr> (t_accounts t),
               t_next_id := Suc (t_next_id t)\<rparr>))
      else if sql = login_sql then
        (case map_of (t_accounts t) n of
           Some a \<Rightarrow> (stmt_ok 0 (if acc_password a = p
             then [[Some (show_nat (acc_id a)), Some n, Some p, Some (show_int (acc_balance a))]] else []), t)
         | None \<Rightarrow> (stmt_ok 0 [], t))
      else if sql = holding_sql then
        (case map_of (t_holdings t) (n, p) of
           Some q \<Rightarrow> (stmt_ok 0 [[Some (show_int q)]], t) | None \<Rightarrow> (stmt_ok 0 [], t))
      else (stmt_error, t))"
| "sql_run sql [PString n] t =
     (if sql = balance_sql then
        (case map_of (t_accounts t) n of
           Some a \<Rightarrow> (stmt_ok 0 [[Some (show_int (acc_balance a))]], t) | None \<Rightarrow> (stmt_ok 0 [], t))
      else (stmt_error, t))"
| "sql_run sql [PLongLong x, PString n] t =
     (if sql = update_sql then
        (case map_of (t_accounts t) n of
           Some a \<Rightarrow> set_balance n a (acc_balance a + sint x) t | None \<Rightarrow> (stmt_ok 0 [], t))
      else (stmt_error, t))"
| "sql_run sql [PLongLong x, PString n, PLongLong y] t =
     (if sql = deduct_sql then
        (case map_of (t_accounts t) n of
           Some a \<Rightarrow> if acc_balance a \<ge> sint y then set_balance n a (acc_balance a - sint x) t else (stmt_ok 0 [], t)
         | None \<Rightarrow> (stmt_ok 0 [], t))
      else (stmt_error, t))"
| "sql_run sql [PString n, PString s, PLong x, PLong y] t =
     (if sql = add_holding_sql then
        (case map_of (t_holdings t) (n, s) of
           Some q \<Rightarrow> set_quantity (n, s) q (q + sint y) t
         | None \<Rightarrow> (stmt_ok 1 [], t\<lparr>t_holdings := AList.update (n, s) (sint x) (t_holdings t)\<rparr>))
      else (stmt_error, t))"
| "sql_run sql [PLong x, PString n, PString s, PLong y] t =
     (if sql = deduct_holding_sql then
        (case map_of (t_holdings t) (n, s) of
           Some q \<Rightarrow> if q \<ge> sint y then set_quantity (n, s) q (q - sint x) t else (stmt_ok 0 [], t)
         | None \<Rightarrow> (stmt_ok 0 [], t))
      else (stmt_error, t))"
| "sql_run sql ps t = (stmt_error, t)"

section \<open>The contract with the client library\<close>

definition repo_statements :: "string set" where
  "repo_statements = {register_sql, login_sql, balance_sql, update_sql, deduct_sql, holding_sql,
     add_holding_sql, deduct_holding_sql}"

text \<open>The characters that \<^verbatim>\<open>mysql_real_escape_string\<close> encodes.\<close>

definition plain_name :: "string \<Rightarrow> bool" where
  "plain_name n \<longleftrightarrow> set n \<inter> {CHR 0x00, CHR 0x0A, CHR 0x0D, CHR 0x1A, CHR 0x22, CHR 0x27, CHR 0x5C} = {}"

definition id_rows :: "string \<Rightarrow> Tables \<Rightarrow> sql_row list" where
  "id_rows n t = (case map_of (t_accounts t) n of Some a \<Rightarrow> [[Some (show_nat (acc_id a))]] | None \<Rightarrow> [])"

locale documented_mysql =
  fixes my :: "'d mysql" and view :: "'d \<Rightarrow> Tables"
  assumes statements_prepare: "sql \<in> repo_statements \<Longrightarrow>
      stmt_init my d \<and> stmt_prepare my sql d \<and> stmt_bind_param my sql ps d \<and> stmt_bind_result my sql d"
    and execute_view: "sql \<in> repo_statements \<Longrightarrow> stmt_execute my sql ps d = (r, d') \<Longrightarrow>
      sql_run sql ps (view d) = (r, view d')"
    and fetch_longlong: "in_bigint x \<Longrightarrow> stmt_fetch_longlong my [[Some (show_int x)]] = Some (of_int x)"
    and fetch_no_data: "stmt_fetch_longlong my [] = None"
    and escape_plain: "plain_name n \<Longrightarrow> real_escape_string my n = n"
    and query_user_id: "plain_name n \<Longrightarrow> \<exists>d'. my_query my (user_id_sql n) d = (True, Some (id_rows n (view d)), d') \<and> view d' = view d"
begin

lemma run_prepared:
  assumes "sql \<in> repo_statements" and "db_ready s"
  obtains s' where "with_connection (prepared my sql bad (bnd (bind_execute my sql ps) (\<lambda>r. ret (f r)))) s =
      (Inr (f (fst (sql_run sql ps (view (dbs_data s))))), s')"
    and "view (dbs_data s') = snd (sql_run sql ps (view (dbs_data s)))" and "db_ready s'"
proof -
  let ?body = "prepared my sql bad (bnd (bind_execute my sql ps) (\<lambda>r. ret (f r)))"
  obtain r d' where ex: "stmt_execute my sql ps (dbs_data s) = (r, d')" by fastforce
  from execute_view [OF assms(1) ex] have run: "sql_run sql ps (view (dbs_data s)) = (r, view d')" .
  have "?body (dbs_data s) = (Inr (f r), d')"
    using statements_prepare [OF assms(1)] by (simp add: prepared_def bind_execute_def bnd_def ex)
  then obtain s' where "with_connection ?body s = (Inr (f r), s')" "dbs_data s' = d'" "db_ready s'"
    by (metis with_connection_run [OF assms(2), of ?body] fst_conv snd_conv)
  with run show thesis by (intro that [of s']) simp_all
qed

lemma run_register:
  assumes "db_ready s"
  obtains s' where "UserRepositoryImpl_registerUser my n p s =
      (Inr (sr_ok (fst (sql_run register_sql [PString n, PString p] (view (dbs_data s))))), s')"
    and "view (dbs_data s') = snd (sql_run register_sql [PString n, PString p] (view (dbs_data s)))" and "db_ready s'"
proof -
  have reg: "register_sql \<in> repo_statements" by (simp add: repo_statements_def)
  have "UserRepositoryImpl_registerUser my n p = with_connection
      (prepared my register_sql False (bnd (bind_execute my register_sql [PString n, PString p]) (\<lambda>r. ret (sr_ok r))))"
    unfolding UserRepositoryImpl_registerUser_def
    by (rule arg_cong [where f = with_connection], rule ext)
      (use statements_prepare [OF reg] in \<open>simp add: bind_execute_def bnd_def prepared_def case_prod_beta\<close>)
  with run_prepared [OF reg assms] that show thesis by metis
qed

lemma run_getUserId:
  assumes "db_ready s" and "plain_name n" "length n < 256"
    and "\<And>a. map_of (t_accounts (view (dbs_data s))) n = Some a \<Longrightarrow> acc_id a < 2 ^ 64"
  obtains s' where "UserRepositoryImpl_getUserId my n s =
      (Inr (case map_of (t_accounts (view (dbs_data s))) n of Some a \<Rightarrow> of_nat (acc_id a) | None \<Rightarrow> 0), s')"
    and "view (dbs_data s') = view (dbs_data s)" and "db_ready s'"
proof -
  let ?t = "view (dbs_data s)"
  let ?body = "\<lambda>d. let escaped = real_escape_string my n
       in if length escaped \<ge> 256 then (Inl Overrun, d)
          else let (ok, res, d') = my_query my (user_id_sql (c_str escaped)) d
               in if \<not> ok then (Inr 0, d')
                  else (case res of Some ((Some c # _) # _) \<Rightarrow> conv (stoull c) d' | _ \<Rightarrow> (Inr 0, d'))"
  obtain d' where q: "my_query my (user_id_sql n) (dbs_data s) = (True, Some (id_rows n ?t), d')" and v: "view d' = ?t"
    using query_user_id [OF assms(2)] by blast
  have "CHR 0x00 \<notin> set n" using assms(2) by (auto simp: plain_name_def)
  then have "?body (dbs_data s) = (Inr (case map_of (t_accounts ?t) n of Some a \<Rightarrow> of_nat (acc_id a) | None \<Rightarrow> 0), d')"
    using assms(3,4) by (simp add: escape_plain [OF assms(2)] q id_rows_def stoull_def scan_number_show split: option.split)
  then obtain s' where "with_connection ?body s =
        (Inr (case map_of (t_accounts ?t) n of Some a \<Rightarrow> of_nat (acc_id a) | None \<Rightarrow> 0), s')" "dbs_data s' = d'" "db_ready s'"
    by (metis with_connection_run [OF assms(1), of ?body] fst_conv snd_conv)
  with v show thesis by (intro that [of s']) (simp_all add: UserRepositoryImpl_getUserId_def)
qed

end

section \<open>A database that meets the contract\<close>

text \<open>The tables themselves, with the statements executed by their reference meaning.\<close>

definition fetch_int :: "(string \<Rightarrow> conv_error + 'a) \<Rightarrow> sql_row list \<Rightarrow> 'a option" where
  "fetch_int f rows =
     (case rows of (Some c # _) # _ \<Rightarrow> (case f c of Inr x \<Rightarrow> Some x | Inl _ \<Rightarrow> None) | _ \<Rightarrow> None)"

definition select_id_sql :: string where
  "select_id_sql = ''SELECT id FROM accounts WHERE username='' @ [CHR 0x27]"

definition tables_query :: "string \<Rightarrow> Tables \<Rightarrow> bool \<times> sql_row list option \<times> Tables" where
  "tables_query sql t =
     (if take (length select_id_sql) sql = select_id_sql then
        (case map_of (t_accounts t) (butlast (drop (length select_id_sql) sql)) of
           Some a \<Rightarrow> (True, Some [[Some (show_nat (acc_id a))]], t) | None \<Rightarrow> (True, Some [], t))
      else if sql = all_stocks_sql then (True, Some (map (\<lambda>s. [Some s]) (remdups (map (snd \<circ> fst) (t_holdings t)))), t)
      else (False, None, t))"

definition tables_mysql :: "Tables mysql" where
  "tables_mysql =
     \<lparr>stmt_init = \<lambda>_. True, stmt_prepare = \<lambda>sql _. sql \<in> repo_statements, stmt_bind_param = \<lambda>_ _ _. True,
      stmt_execute = sql_run, stmt_bind_result = \<lambda>_ _. True, stmt_fetch_longlong = fetch_int stoll,
      stmt_fetch_long = fetch_int stoi, my_query = tables_query, real_escape_string = \<lambda>s. s\<rparr>"

lemma scan_number_minus: "scan_number (CHR ''-'' # show_nat n) = Inr (True, n)"
proof -
  have "\<not> is_space (CHR ''-'')" by (simp add: is_space_def)
  moreover have t: "takeWhile is_digit (show_nat n) = show_nat n"
    using show_nat_digits [of n] by (simp add: takeWhile_eq_all_conv)
  ultimately show ?thesis
    using digits_value_show [of n] show_nat_nonempty [of n] unfolding scan_number_def Let_def
    by (simp only: dropWhile.simps if_False list.sel t) (simp add: t)
qed

lemma stoll_show_int: "in_bigint x \<Longrightarrow> stoll (show_int x) = Inr (of_int x)"
  by (auto simp: stoll_def scan_signed_def show_int_def scan_number_minus scan_number_show in_bigint_def Let_def)

interpretation tables: documented_mysql tables_mysql "\<lambda>t. t"
proof unfold_locales
  fix n d
  have "user_id_sql n = select_id_sql @ (n @ [CHR 0x27])" by (simp add: user_id_sql_def select_id_sql_def)
  then have "tables_query (user_id_sql n) d = (True, Some (id_rows n d), d)"
    unfolding tables_query_def id_rows_def
    by (simp only: append_eq_conv_conj take_append diff_self_eq_0 take0 append_Nil2 take_all drop_append drop_all
        le_refl drop_0 append_Nil butlast_snoc if_True simp_thms) (simp split: option.split)
  then show "\<exists>d'. my_query tables_mysql (user_id_sql n) d = (True, Some (id_rows n d), d') \<and> d' = d"
    by (simp add: tables_mysql_def)
qed (auto simp: tables_mysql_def fetch_int_def stoll_show_int)

end
