(* ===== verification/Repositories_Claims.thy ===== *)
theory Repositories_Claims
  imports Repositories_Props
begin

text \<open>The properties of the repositories, on every database that meets the contract.\<close>

definition ex_tables :: Tables where
  "ex_tables = \<lparr>t_accounts = [(''alice'', \<lparr>acc_id = 1, acc_password = ''pw'', acc_balance = 500\<rparr>)],
     t_holdings = [((''alice'', ''AAPL''), 10)], t_next_id = 2\<rparr>"

definition ex_db :: "Tables DbServer" where
  "ex_db = \<lparr>dbs_pool = DBPool_new\<lparr>db_connQueue := [1]\<rparr>, dbs_data = ex_tables\<rparr>"

lemma ex_db_ready: "db_ready ex_db"
  by (simp add: db_ready_def ex_db_def)



text \<open>
  C17. When the execution of the deduction fails, for instance because the connection is lost,
  the number of affected rows is \<open>-1\<close> as an unsigned value, and \<^verbatim>\<open>deductBalance\<close> reports success
  although no balance has changed.
\<close>

theorem deductBalance_success_on_error:
  assumes "db_ready s" and "stmt_init my (dbs_data s)" "stmt_prepare my deduct_sql (dbs_data s)"
    and "stmt_execute my deduct_sql [PLongLong amount, PString n, PLongLong amount] (dbs_data s) = (stmt_error, dbs_data s)"
  shows "\<exists>s'. deductBalance (UserRepositoryImpl my) n amount s = (Inr True, s') \<and> dbs_data s' = dbs_data s"
proof -
  let ?body = "prepared my deduct_sql False
       (bnd (bind_execute my deduct_sql [PLongLong amount, PString n, PLongLong amount]) (\<lambda>r. ret (sr_affected_rows r > 0)))"
  have "?body (dbs_data s) = (Inr True, dbs_data s)"
    using assms word_gt_0 [of "- 1 :: u64"] by (simp add: prepared_def bind_execute_def bnd_def stmt_error_def)
  then show ?thesis
    using with_connection_run [OF assms(1), of ?body]
    by (auto simp: UserRepositoryImpl_def UserRepositoryImpl_deductBalance_def)
qed

theorem deductBalance_success_on_error_witness:
  "\<exists>s'. deductBalance (UserRepositoryImpl (tables_mysql\<lparr>stmt_execute := \<lambda>_ _ d. (stmt_error, d)\<rparr>)) ''alice'' 120 ex_db =
     (Inr True, s') \<and> dbs_data s' = ex_tables"
  using deductBalance_success_on_error [OF ex_db_ready, of "tables_mysql\<lparr>stmt_execute := \<lambda>_ _ d. (stmt_error, d)\<rparr>" 120 "''alice''"]
  by (auto simp: ex_db_def tables_mysql_def repo_statements_def)



end
