(* ===== verification/Protocol.thy ===== *)
theory Protocol
  imports Prelude
begin

text \<open>
  \<^verbatim>\<open>Protocol.hpp\<close>: the message types and the packed structs of the wire format. Each struct is a
  record with its layout in memory (\<open>put_*\<close>), the value that a pointer cast to it denotes (\<open>get_*\<close>)
  and its size; the interpretations of \<open>fixed_codec\<close> show that the two are inverse.
\<close>

section \<open>Message types\<close>

text \<open>\<^verbatim>\<open>enum class MsgType : uint16_t\<close>: any 16-bit value can be cast to it.\<close>

type_synonym MsgType = u16

definition REGISTER_REQ :: MsgType where "REGISTER_REQ = 1001"
definition REGISTER_RES :: MsgType where "REGISTER_RES = 1002"
definition LOGIN_REQ :: MsgType where "LOGIN_REQ = 1003"
definition LOGIN_RES :: MsgType where "LOGIN_RES = 1004"
definition LOGOUT_REQ :: MsgType where "LOGOUT_REQ = 1005"
definition LOGOUT_RES :: MsgType where "LOGOUT_RES = 1006"
definition DEPOSIT_REQ :: MsgType where "DEPOSIT_REQ = 2001"
definition DEPOSIT_RES :: MsgType where "DEPOSIT_RES = 2002"
definition BALANCE_REQ :: MsgType where "BALANCE_REQ = 2003"
definition BALANCE_RES :: MsgType where "BALANCE_RES = 2004"
definition TRADE_REQ :: MsgType where "TRADE_REQ = 3001"
definition TRADE_RES :: MsgType where "TRADE_RES = 3002"
definition CANCEL_REQ :: MsgType where "CANCEL_REQ = 3003"
definition CANCEL_RES :: MsgType where "CANCEL_RES = 3004"
definition HOLDINGS_REQ :: MsgType where "HOLDINGS_REQ = 4001"
definition HOLDINGS_RES :: MsgType where "HOLDINGS_RES = 4002"
definition MARKET_REQ :: MsgType where "MARKET_REQ = 4003"
definition MARKET_RES :: MsgType where "MARKET_RES = 4004"
definition ORDERS_REQ :: MsgType where "ORDERS_REQ = 4005"
definition ORDERS_RES :: MsgType where "ORDERS_RES = 4006"
definition TREND_REQ :: MsgType where "TREND_REQ = 4007"
definition TREND_RES :: MsgType where "TREND_RES = 4008"
definition NEWS_REQ :: MsgType where "NEWS_REQ = 4009"
definition NEWS_RES :: MsgType where "NEWS_RES = 4010"
definition ALL_STOCKS_REQ :: MsgType where "ALL_STOCKS_REQ = 4011"
definition ALL_STOCKS_RES :: MsgType where "ALL_STOCKS_RES = 4012"

lemmas msg_types = REGISTER_REQ_def REGISTER_RES_def LOGIN_REQ_def LOGIN_RES_def LOGOUT_REQ_def LOGOUT_RES_def DEPOSIT_REQ_def DEPOSIT_RES_def BALANCE_REQ_def BALANCE_RES_def TRADE_REQ_def TRADE_RES_def CANCEL_REQ_def CANCEL_RES_def HOLDINGS_REQ_def HOLDINGS_RES_def MARKET_REQ_def MARKET_RES_def ORDERS_REQ_def ORDERS_RES_def TREND_REQ_def TREND_RES_def NEWS_REQ_def NEWS_RES_def ALL_STOCKS_REQ_def ALL_STOCKS_RES_def

section \<open>Structs\<close>

record PacketHeader =
  h_length :: u32
  h_type :: u16

definition sizeof_PacketHeader :: nat where "sizeof_PacketHeader = 6"

definition put_PacketHeader :: "PacketHeader \<Rightarrow> bytes" where
  "put_PacketHeader r = put_u32 (h_length r) @ put_u16 (h_type r)"

definition get_PacketHeader :: "bytes \<Rightarrow> PacketHeader" where
  "get_PacketHeader bs = \<lparr>h_length = get_u32 bs, h_type = get_u16 (drop 4 bs)\<rparr>"

interpretation PacketHeader_codec: fixed_codec put_PacketHeader get_PacketHeader sizeof_PacketHeader "\<lambda>_. True"
  by unfold_locales (simp_all add: put_PacketHeader_def get_PacketHeader_def sizeof_PacketHeader_def)

record AuthRequest =
  aq_username :: bytes
  aq_password :: bytes

definition sizeof_AuthRequest :: nat where "sizeof_AuthRequest = 64"

definition put_AuthRequest :: "AuthRequest \<Rightarrow> bytes" where
  "put_AuthRequest r = put_chars 32 (aq_username r) @ put_chars 32 (aq_password r)"

definition get_AuthRequest :: "bytes \<Rightarrow> AuthRequest" where
  "get_AuthRequest bs = \<lparr>aq_username = get_chars 32 bs, aq_password = get_chars 32 (drop 32 bs)\<rparr>"

definition ok_AuthRequest :: "AuthRequest \<Rightarrow> bool" where
  "ok_AuthRequest r \<longleftrightarrow> length (aq_username r) = 32 \<and> length (aq_password r) = 32"

interpretation AuthRequest_codec: fixed_codec put_AuthRequest get_AuthRequest sizeof_AuthRequest "ok_AuthRequest"
  by unfold_locales (simp_all add: put_AuthRequest_def get_AuthRequest_def sizeof_AuthRequest_def ok_AuthRequest_def)

record AuthResponse =
  as_status :: u8
  as_user_id :: u64

definition sizeof_AuthResponse :: nat where "sizeof_AuthResponse = 9"

definition put_AuthResponse :: "AuthResponse \<Rightarrow> bytes" where
  "put_AuthResponse r = put_u8 (as_status r) @ put_u64 (as_user_id r)"

definition get_AuthResponse :: "bytes \<Rightarrow> AuthResponse" where
  "get_AuthResponse bs = \<lparr>as_status = get_u8 bs, as_user_id = get_u64 (drop 1 bs)\<rparr>"

interpretation AuthResponse_codec: fixed_codec put_AuthResponse get_AuthResponse sizeof_AuthResponse "\<lambda>_. True"
  by unfold_locales (simp_all add: put_AuthResponse_def get_AuthResponse_def sizeof_AuthResponse_def)

record GenericResponse =
  gr_status :: u8

definition sizeof_GenericResponse :: nat where "sizeof_GenericResponse = 1"

definition put_GenericResponse :: "GenericResponse \<Rightarrow> bytes" where
  "put_GenericResponse r = put_u8 (gr_status r)"

definition get_GenericResponse :: "bytes \<Rightarrow> GenericResponse" where
  "get_GenericResponse bs = \<lparr>gr_status = get_u8 bs\<rparr>"

interpretation GenericResponse_codec: fixed_codec put_GenericResponse get_GenericResponse sizeof_GenericResponse "\<lambda>_. True"
  by unfold_locales (simp_all add: put_GenericResponse_def get_GenericResponse_def sizeof_GenericResponse_def)

record DepositRequest =
  dq_amount :: u64

definition sizeof_DepositRequest :: nat where "sizeof_DepositRequest = 8"

definition put_DepositRequest :: "DepositRequest \<Rightarrow> bytes" where
  "put_DepositRequest r = put_u64 (dq_amount r)"

definition get_DepositRequest :: "bytes \<Rightarrow> DepositRequest" where
  "get_DepositRequest bs = \<lparr>dq_amount = get_u64 bs\<rparr>"

interpretation DepositRequest_codec: fixed_codec put_DepositRequest get_DepositRequest sizeof_DepositRequest "\<lambda>_. True"
  by unfold_locales (simp_all add: put_DepositRequest_def get_DepositRequest_def sizeof_DepositRequest_def)

record DepositResponse =
  dr_status :: u8
  dr_new_balance :: u64

definition sizeof_DepositResponse :: nat where "sizeof_DepositResponse = 9"

definition put_DepositResponse :: "DepositResponse \<Rightarrow> bytes" where
  "put_DepositResponse r = put_u8 (dr_status r) @ put_u64 (dr_new_balance r)"

definition get_DepositResponse :: "bytes \<Rightarrow> DepositResponse" where
  "get_DepositResponse bs = \<lparr>dr_status = get_u8 bs, dr_new_balance = get_u64 (drop 1 bs)\<rparr>"

interpretation DepositResponse_codec: fixed_codec put_DepositResponse get_DepositResponse sizeof_DepositResponse "\<lambda>_. True"
  by unfold_locales (simp_all add: put_DepositResponse_def get_DepositResponse_def sizeof_DepositResponse_def)

record BalanceResponse =
  br_status :: u8
  br_balance :: u64

definition sizeof_BalanceResponse :: nat where "sizeof_BalanceResponse = 9"

definition put_BalanceResponse :: "BalanceResponse \<Rightarrow> bytes" where
  "put_BalanceResponse r = put_u8 (br_status r) @ put_u64 (br_balance r)"

definition get_BalanceResponse :: "bytes \<Rightarrow> BalanceResponse" where
  "get_BalanceResponse bs = \<lparr>br_status = get_u8 bs, br_balance = get_u64 (drop 1 bs)\<rparr>"

interpretation BalanceResponse_codec: fixed_codec put_BalanceResponse get_BalanceResponse sizeof_BalanceResponse "\<lambda>_. True"
  by unfold_locales (simp_all add: put_BalanceResponse_def get_BalanceResponse_def sizeof_BalanceResponse_def)

record TradeRequest =
  tq_ticker_id :: u32
  tq_side :: u8
  tq_price :: u64
  tq_amount :: u32

definition sizeof_TradeRequest :: nat where "sizeof_TradeRequest = 17"

definition put_TradeRequest :: "TradeRequest \<Rightarrow> bytes" where
  "put_TradeRequest r = put_u32 (tq_ticker_id r) @ put_u8 (tq_side r) @ put_u64 (tq_price r) @ put_u32 (tq_amount r)"

definition get_TradeRequest :: "bytes \<Rightarrow> TradeRequest" where
  "get_TradeRequest bs = \<lparr>tq_ticker_id = get_u32 bs, tq_side = get_u8 (drop 4 bs), tq_price = get_u64 (drop 5 bs), tq_amount = get_u32 (drop 13 bs)\<rparr>"

interpretation TradeRequest_codec: fixed_codec put_TradeRequest get_TradeRequest sizeof_TradeRequest "\<lambda>_. True"
  by unfold_locales (simp_all add: put_TradeRequest_def get_TradeRequest_def sizeof_TradeRequest_def)

record CancelRequest =
  cq_ticker_id :: u32
  cq_order_id :: u64

definition sizeof_CancelRequest :: nat where "sizeof_CancelRequest = 12"

definition put_CancelRequest :: "CancelRequest \<Rightarrow> bytes" where
  "put_CancelRequest r = put_u32 (cq_ticker_id r) @ put_u64 (cq_order_id r)"

definition get_CancelRequest :: "bytes \<Rightarrow> CancelRequest" where
  "get_CancelRequest bs = \<lparr>cq_ticker_id = get_u32 bs, cq_order_id = get_u64 (drop 4 bs)\<rparr>"

interpretation CancelRequest_codec: fixed_codec put_CancelRequest get_CancelRequest sizeof_CancelRequest "\<lambda>_. True"
  by unfold_locales (simp_all add: put_CancelRequest_def get_CancelRequest_def sizeof_CancelRequest_def)

record TradeResponse =
  tr_status :: u8

definition sizeof_TradeResponse :: nat where "sizeof_TradeResponse = 1"

definition put_TradeResponse :: "TradeResponse \<Rightarrow> bytes" where
  "put_TradeResponse r = put_u8 (tr_status r)"

definition get_TradeResponse :: "bytes \<Rightarrow> TradeResponse" where
  "get_TradeResponse bs = \<lparr>tr_status = get_u8 bs\<rparr>"

interpretation TradeResponse_codec: fixed_codec put_TradeResponse get_TradeResponse sizeof_TradeResponse "\<lambda>_. True"
  by unfold_locales (simp_all add: put_TradeResponse_def get_TradeResponse_def sizeof_TradeResponse_def)

record MarketRequest =
  mq_ticker_id :: u32

definition sizeof_MarketRequest :: nat where "sizeof_MarketRequest = 4"

definition put_MarketRequest :: "MarketRequest \<Rightarrow> bytes" where
  "put_MarketRequest r = put_u32 (mq_ticker_id r)"

definition get_MarketRequest :: "bytes \<Rightarrow> MarketRequest" where
  "get_MarketRequest bs = \<lparr>mq_ticker_id = get_u32 bs\<rparr>"

interpretation MarketRequest_codec: fixed_codec put_MarketRequest get_MarketRequest sizeof_MarketRequest "\<lambda>_. True"
  by unfold_locales (simp_all add: put_MarketRequest_def get_MarketRequest_def sizeof_MarketRequest_def)

record MarketResponse =
  mr_status :: u8
  mr_best_bid :: u64
  mr_best_ask :: u64

definition sizeof_MarketResponse :: nat where "sizeof_MarketResponse = 17"

definition put_MarketResponse :: "MarketResponse \<Rightarrow> bytes" where
  "put_MarketResponse r = put_u8 (mr_status r) @ put_u64 (mr_best_bid r) @ put_u64 (mr_best_ask r)"

definition get_MarketResponse :: "bytes \<Rightarrow> MarketResponse" where
  "get_MarketResponse bs = \<lparr>mr_status = get_u8 bs, mr_best_bid = get_u64 (drop 1 bs), mr_best_ask = get_u64 (drop 9 bs)\<rparr>"

interpretation MarketResponse_codec: fixed_codec put_MarketResponse get_MarketResponse sizeof_MarketResponse "\<lambda>_. True"
  by unfold_locales (simp_all add: put_MarketResponse_def get_MarketResponse_def sizeof_MarketResponse_def)

record HoldingItem =
  hi_ticker_id :: u32
  hi_quantity :: u32

definition sizeof_HoldingItem :: nat where "sizeof_HoldingItem = 8"

definition put_HoldingItem :: "HoldingItem \<Rightarrow> bytes" where
  "put_HoldingItem r = put_u32 (hi_ticker_id r) @ put_u32 (hi_quantity r)"

definition get_HoldingItem :: "bytes \<Rightarrow> HoldingItem" where
  "get_HoldingItem bs = \<lparr>hi_ticker_id = get_u32 bs, hi_quantity = get_u32 (drop 4 bs)\<rparr>"

interpretation HoldingItem_codec: fixed_codec put_HoldingItem get_HoldingItem sizeof_HoldingItem "\<lambda>_. True"
  by unfold_locales (simp_all add: put_HoldingItem_def get_HoldingItem_def sizeof_HoldingItem_def)

record HoldingsResponseHeader =
  hh_status :: u8
  hh_count :: u32

definition sizeof_HoldingsResponseHeader :: nat where "sizeof_HoldingsResponseHeader = 5"

definition put_HoldingsResponseHeader :: "HoldingsResponseHeader \<Rightarrow> bytes" where
  "put_HoldingsResponseHeader r = put_u8 (hh_status r) @ put_u32 (hh_count r)"

definition get_HoldingsResponseHeader :: "bytes \<Rightarrow> HoldingsResponseHeader" where
  "get_HoldingsResponseHeader bs = \<lparr>hh_status = get_u8 bs, hh_count = get_u32 (drop 1 bs)\<rparr>"

interpretation HoldingsResponseHeader_codec: fixed_codec put_HoldingsResponseHeader get_HoldingsResponseHeader sizeof_HoldingsResponseHeader "\<lambda>_. True"
  by unfold_locales (simp_all add: put_HoldingsResponseHeader_def get_HoldingsResponseHeader_def sizeof_HoldingsResponseHeader_def)

record OrderItem =
  oi_order_id :: u64
  oi_ticker_id :: u32
  oi_side :: u8
  oi_price :: u64
  oi_amount :: u64

definition sizeof_OrderItem :: nat where "sizeof_OrderItem = 29"

definition put_OrderItem :: "OrderItem \<Rightarrow> bytes" where
  "put_OrderItem r = put_u64 (oi_order_id r) @ put_u32 (oi_ticker_id r) @ put_u8 (oi_side r) @ put_u64 (oi_price r) @ put_u64 (oi_amount r)"

definition get_OrderItem :: "bytes \<Rightarrow> OrderItem" where
  "get_OrderItem bs = \<lparr>oi_order_id = get_u64 bs, oi_ticker_id = get_u32 (drop 8 bs), oi_side = get_u8 (drop 12 bs), oi_price = get_u64 (drop 13 bs), oi_amount = get_u64 (drop 21 bs)\<rparr>"

interpretation OrderItem_codec: fixed_codec put_OrderItem get_OrderItem sizeof_OrderItem "\<lambda>_. True"
  by unfold_locales (simp_all add: put_OrderItem_def get_OrderItem_def sizeof_OrderItem_def)

record OrdersResponseHeader =
  oh_status :: u8
  oh_count :: u32

definition sizeof_OrdersResponseHeader :: nat where "sizeof_OrdersResponseHeader = 5"

definition put_OrdersResponseHeader :: "OrdersResponseHeader \<Rightarrow> bytes" where
  "put_OrdersResponseHeader r = put_u8 (oh_status r) @ put_u32 (oh_count r)"

definition get_OrdersResponseHeader :: "bytes \<Rightarrow> OrdersResponseHeader" where
  "get_OrdersResponseHeader bs = \<lparr>oh_status = get_u8 bs, oh_count = get_u32 (drop 1 bs)\<rparr>"

interpretation OrdersResponseHeader_codec: fixed_codec put_OrdersResponseHeader get_OrdersResponseHeader sizeof_OrdersResponseHeader "\<lambda>_. True"
  by unfold_locales (simp_all add: put_OrdersResponseHeader_def get_OrdersResponseHeader_def sizeof_OrdersResponseHeader_def)

record TrendRequest =
  eq_ticker_id :: u32

definition sizeof_TrendRequest :: nat where "sizeof_TrendRequest = 4"

definition put_TrendRequest :: "TrendRequest \<Rightarrow> bytes" where
  "put_TrendRequest r = put_u32 (eq_ticker_id r)"

definition get_TrendRequest :: "bytes \<Rightarrow> TrendRequest" where
  "get_TrendRequest bs = \<lparr>eq_ticker_id = get_u32 bs\<rparr>"

interpretation TrendRequest_codec: fixed_codec put_TrendRequest get_TrendRequest sizeof_TrendRequest "\<lambda>_. True"
  by unfold_locales (simp_all add: put_TrendRequest_def get_TrendRequest_def sizeof_TrendRequest_def)

record TrendResponseHeader =
  eh_status :: u8
  eh_count :: u32

definition sizeof_TrendResponseHeader :: nat where "sizeof_TrendResponseHeader = 5"

definition put_TrendResponseHeader :: "TrendResponseHeader \<Rightarrow> bytes" where
  "put_TrendResponseHeader r = put_u8 (eh_status r) @ put_u32 (eh_count r)"

definition get_TrendResponseHeader :: "bytes \<Rightarrow> TrendResponseHeader" where
  "get_TrendResponseHeader bs = \<lparr>eh_status = get_u8 bs, eh_count = get_u32 (drop 1 bs)\<rparr>"

interpretation TrendResponseHeader_codec: fixed_codec put_TrendResponseHeader get_TrendResponseHeader sizeof_TrendResponseHeader "\<lambda>_. True"
  by unfold_locales (simp_all add: put_TrendResponseHeader_def get_TrendResponseHeader_def sizeof_TrendResponseHeader_def)

record NewsItem =
  ni_time :: u32
  ni_title :: bytes
  ni_type :: bytes
  ni_symbol :: bytes

definition sizeof_NewsItem :: nat where "sizeof_NewsItem = 164"

definition put_NewsItem :: "NewsItem \<Rightarrow> bytes" where
  "put_NewsItem r = put_u32 (ni_time r) @ put_chars 128 (ni_title r) @ put_chars 16 (ni_type r) @ put_chars 16 (ni_symbol r)"

definition get_NewsItem :: "bytes \<Rightarrow> NewsItem" where
  "get_NewsItem bs = \<lparr>ni_time = get_u32 bs, ni_title = get_chars 128 (drop 4 bs), ni_type = get_chars 16 (drop 132 bs), ni_symbol = get_chars 16 (drop 148 bs)\<rparr>"

definition ok_NewsItem :: "NewsItem \<Rightarrow> bool" where
  "ok_NewsItem r \<longleftrightarrow> length (ni_title r) = 128 \<and> length (ni_type r) = 16 \<and> length (ni_symbol r) = 16"

interpretation NewsItem_codec: fixed_codec put_NewsItem get_NewsItem sizeof_NewsItem "ok_NewsItem"
  by unfold_locales (simp_all add: put_NewsItem_def get_NewsItem_def sizeof_NewsItem_def ok_NewsItem_def)

record NewsResponseHeader =
  nh_status :: u8
  nh_count :: u32

definition sizeof_NewsResponseHeader :: nat where "sizeof_NewsResponseHeader = 5"

definition put_NewsResponseHeader :: "NewsResponseHeader \<Rightarrow> bytes" where
  "put_NewsResponseHeader r = put_u8 (nh_status r) @ put_u32 (nh_count r)"

definition get_NewsResponseHeader :: "bytes \<Rightarrow> NewsResponseHeader" where
  "get_NewsResponseHeader bs = \<lparr>nh_status = get_u8 bs, nh_count = get_u32 (drop 1 bs)\<rparr>"

interpretation NewsResponseHeader_codec: fixed_codec put_NewsResponseHeader get_NewsResponseHeader sizeof_NewsResponseHeader "\<lambda>_. True"
  by unfold_locales (simp_all add: put_NewsResponseHeader_def get_NewsResponseHeader_def sizeof_NewsResponseHeader_def)

record StockItem =
  si_ticker_id :: u32
  si_symbol :: bytes

definition sizeof_StockItem :: nat where "sizeof_StockItem = 20"

definition put_StockItem :: "StockItem \<Rightarrow> bytes" where
  "put_StockItem r = put_u32 (si_ticker_id r) @ put_chars 16 (si_symbol r)"

definition get_StockItem :: "bytes \<Rightarrow> StockItem" where
  "get_StockItem bs = \<lparr>si_ticker_id = get_u32 bs, si_symbol = get_chars 16 (drop 4 bs)\<rparr>"

definition ok_StockItem :: "StockItem \<Rightarrow> bool" where
  "ok_StockItem r \<longleftrightarrow> length (si_symbol r) = 16"

interpretation StockItem_codec: fixed_codec put_StockItem get_StockItem sizeof_StockItem "ok_StockItem"
  by unfold_locales (simp_all add: put_StockItem_def get_StockItem_def sizeof_StockItem_def ok_StockItem_def)

record StocksResponseHeader =
  sh_status :: u8
  sh_count :: u32

definition sizeof_StocksResponseHeader :: nat where "sizeof_StocksResponseHeader = 5"

definition put_StocksResponseHeader :: "StocksResponseHeader \<Rightarrow> bytes" where
  "put_StocksResponseHeader r = put_u8 (sh_status r) @ put_u32 (sh_count r)"

definition get_StocksResponseHeader :: "bytes \<Rightarrow> StocksResponseHeader" where
  "get_StocksResponseHeader bs = \<lparr>sh_status = get_u8 bs, sh_count = get_u32 (drop 1 bs)\<rparr>"

interpretation StocksResponseHeader_codec: fixed_codec put_StocksResponseHeader get_StocksResponseHeader sizeof_StocksResponseHeader "\<lambda>_. True"
  by unfold_locales (simp_all add: put_StocksResponseHeader_def get_StocksResponseHeader_def sizeof_StocksResponseHeader_def)

end
