(* ===== verification/Sessions.thy ===== *)
theory Sessions
  imports Prog Protocol
begin

text \<open>
  \<^verbatim>\<open>Router.hpp\<close> and \<^verbatim>\<open>SessionManager.hpp\<close>: the state of a connection, the table that sends a message
  type to its handler, and the table of sessions by file descriptor. \<open>'e\<close> is the state of the rest
  of the server.
\<close>

section \<open>\<^verbatim>\<open>Session\<close> and \<^verbatim>\<open>Router\<close>\<close>

record Session =
  ss_fd :: i32
  ss_buffer :: bytes
  ss_username :: string
  ss_user_id :: u64

definition Session_new :: "i32 \<Rightarrow> Session" where
  "Session_new f = \<lparr>ss_fd = f, ss_buffer = [], ss_username = [], ss_user_id = 0\<rparr>"

definition isLoggedIn :: "Session \<Rightarrow> bool" where
  "isLoggedIn s \<longleftrightarrow> ss_username s \<noteq> []"

text \<open>
  \<^verbatim>\<open>IHandler::handle\<close>: the memory from the request pointer on, the length of the request, and the
  session and server that it may change.
\<close>

type_synonym 'e IHandler = "bytes \<Rightarrow> u32 \<Rightarrow> (Session \<times> 'e, bytes) prog"

type_synonym 'e Router = "(MsgType, 'e IHandler) umap"

definition Router_new :: "'e Router" where
  "Router_new = []"

definition registerHandler :: "MsgType \<Rightarrow> 'e IHandler \<Rightarrow> 'e Router \<Rightarrow> 'e Router" where
  "registerHandler ty h r = AList.update ty h r"

definition dispatch :: "'e Router \<Rightarrow> MsgType \<Rightarrow> bytes \<Rightarrow> u32 \<Rightarrow> (Session \<times> 'e, bytes) prog" where
  "dispatch r ty req req_len = (case map_of r ty of Some h \<Rightarrow> h req req_len | None \<Rightarrow> ret [])"

section \<open>\<^verbatim>\<open>SessionManager\<close>\<close>

text \<open>
  The array of 65535 session pointers, indexed by descriptor. A negative index is outside of the
  array, which the code does not check.
\<close>

definition MAX_FD :: int where "MAX_FD = 65535"

type_synonym SessionManager = "int \<Rightarrow> Session option"

definition SessionManager_new :: SessionManager where
  "SessionManager_new fd = None"

definition createSession :: "i32 \<Rightarrow> SessionManager \<Rightarrow> SessionManager" where
  "createSession fd sm = (if sint fd < MAX_FD then sm(sint fd := Some (Session_new fd)) else sm)"

definition getSession :: "SessionManager \<Rightarrow> i32 \<Rightarrow> Session option" where
  "getSession sm fd = (if sint fd \<ge> MAX_FD then None else sm (sint fd))"

definition removeSession :: "i32 \<Rightarrow> SessionManager \<Rightarrow> SessionManager" where
  "removeSession fd sm = (if sint fd < MAX_FD then sm(sint fd := None) else sm)"

text \<open>\<^verbatim>\<open>close(fd)\<close> is recorded in the list of closed descriptors.\<close>

definition cleanConnection :: "i32 \<Rightarrow> SessionManager \<times> i32 list \<Rightarrow> SessionManager \<times> i32 list" where
  "cleanConnection fd st = (removeSession fd (fst st), snd st @ [fd])"

text \<open>As written: the test is true when there is no session.\<close>

definition hasSession :: "SessionManager \<Rightarrow> i32 \<Rightarrow> bool" where
  "hasSession sm fd \<longleftrightarrow> sm (sint fd) = None"

lemma sint_eq_iff [simp]: "sint (a :: 'a :: len word) = sint b \<longleftrightarrow> a = b"
  by (auto intro: signed_word_eqI)

lemma getSession_create:
  "sint fd < MAX_FD \<Longrightarrow> getSession (createSession fd sm) g = (if g = fd then Some (Session_new fd) else getSession sm g)"
  by (auto simp: getSession_def createSession_def)

lemma getSession_remove:
  "getSession (removeSession fd sm) g = (if g = fd then None else getSession sm g)"
  by (auto simp: getSession_def removeSession_def)

lemma hasSession_inverted: "sint fd < MAX_FD \<Longrightarrow> hasSession sm fd \<longleftrightarrow> getSession sm fd = None"
  by (simp add: hasSession_def getSession_def)

end
