(* ===== verification/Timer.thy ===== *)
theory Timer
  imports Sessions
begin

text \<open>
  \<^verbatim>\<open>TimerManager.hpp\<close>: a heap of expiry times and the table of the expiry that counts for each
  descriptor. Entries of the heap that the table no longer agrees with are skipped.
\<close>

record TimerNode =
  tn_fd :: i32
  tn_expire :: int

text \<open>
  The priority queue is the list of its nodes; \<open>pop_min\<close> takes a node with the smallest expiry
  time, the oldest of them. A time point is a number of ticks; a fresh table entry is the zero time
  point.
\<close>

record TimerManager =
  minHeap :: "TimerNode list"
  secretTable :: "(i32, int) umap"

definition TimerManager_new :: TimerManager where
  "TimerManager_new = \<lparr>minHeap = [], secretTable = []\<rparr>"

fun top_node :: "TimerNode \<Rightarrow> TimerNode list \<Rightarrow> TimerNode" where
  "top_node m [] = m"
| "top_node m (n # ns) = top_node (if tn_expire n < tn_expire m then n else m) ns"

lemma top_node_mem: "top_node m ns \<in> set (m # ns)"
proof (induction ns arbitrary: m)
  case (Cons n ns)
  from Cons [of "if tn_expire n < tn_expire m then n else m"] show ?case by (auto split: if_splits)
qed simp

lemma top_node_min: "x \<in> set (m # ns) \<Longrightarrow> tn_expire (top_node m ns) \<le> tn_expire x"
proof (induction ns arbitrary: m x)
  case (Cons n ns)
  let ?m = "if tn_expire n < tn_expire m then n else m"
  have "tn_expire (top_node ?m ns) \<le> tn_expire ?m" using Cons.IH [of ?m ?m] by simp
  then have "tn_expire (top_node ?m ns) \<le> tn_expire m" "tn_expire (top_node ?m ns) \<le> tn_expire n"
    by (auto split: if_splits)
  with Cons.IH [of x ?m] Cons.prems show ?case by auto
qed simp

lemma remove_top_shorter: "length (remove1 (top_node n ns) (n # ns)) < length (n # ns)"
  using top_node_mem [of n ns] by (subst length_remove1) auto

text \<open>\<open>tick\<close> is the number of ticks in a second.\<close>

definition addTimer :: "int \<Rightarrow> int \<Rightarrow> i32 \<Rightarrow> i32 \<Rightarrow> TimerManager \<Rightarrow> TimerManager" where
  "addTimer tick now fd timeout_sec tm =
     (let expire = now + tick * sint timeout_sec
      in \<lparr>minHeap = minHeap tm @ [\<lparr>tn_fd = fd, tn_expire = expire\<rparr>],
          secretTable = AList.update fd expire (secretTable tm)\<rparr>)"

definition cancelTimer :: "i32 \<Rightarrow> TimerManager \<Rightarrow> TimerManager" where
  "cancelTimer fd tm = tm\<lparr>secretTable := AList.delete fd (secretTable tm)\<rparr>"

text \<open>
  The loop of \<^verbatim>\<open>handleTimeouts\<close>: the descriptors for which the callback is called, in order. The
  callback runs inside the loop while the mutex is held; a callback that takes the same mutex, as
  \<^verbatim>\<open>cancelTimer\<close> does, never returns, so the model is for callbacks that leave the timers alone.
\<close>

function handle_loop :: "int \<Rightarrow> TimerManager \<Rightarrow> i32 list \<times> TimerManager" where
  "handle_loop now tm =
     (case minHeap tm of
        [] \<Rightarrow> ([], tm)
      | n # ns \<Rightarrow>
          let top = top_node n ns
          in if tn_expire top > now then ([], tm)
             else
               let tbl = um_touch 0 (tn_fd top) (secretTable tm);
                   heap = remove1 top (minHeap tm)
               in if tn_expire top \<noteq> um_at 0 tbl (tn_fd top)
                  then handle_loop now \<lparr>minHeap = heap, secretTable = tbl\<rparr>
                  else (let (fds, tm') = handle_loop now \<lparr>minHeap = heap, secretTable = AList.delete (tn_fd top) tbl\<rparr>
                        in (tn_fd top # fds, tm')))"
  by pat_completeness auto

termination
  by (relation "measure (\<lambda>(now, tm). length (minHeap tm))") (use remove_top_shorter in \<open>auto simp del: remove1.simps\<close>)

declare handle_loop.simps [simp del]

section \<open>Exactly the expired descriptors are reported\<close>

text \<open>
  Every entry of the table has its node in the heap, and expiry times are positive; the zero
  entries that looking up a cancelled descriptor leaves behind never count.
\<close>

definition timer_ok :: "TimerManager \<Rightarrow> bool" where
  "timer_ok tm \<longleftrightarrow> (\<forall>n \<in> set (minHeap tm). 0 < tn_expire n) \<and>
     (\<forall>fd e. map_of (secretTable tm) fd = Some e \<longrightarrow> e = 0 \<or> \<lparr>tn_fd = fd, tn_expire = e\<rparr> \<in> set (minHeap tm))"

definition armed :: "TimerManager \<Rightarrow> i32 \<Rightarrow> int \<Rightarrow> bool" where
  "armed tm fd e \<longleftrightarrow> map_of (secretTable tm) fd = Some e \<and> e \<noteq> 0"

lemma timer_ok_new: "timer_ok TimerManager_new"
  by (simp add: timer_ok_def TimerManager_new_def)

lemma timer_ok_add: "timer_ok tm \<Longrightarrow> 0 < now + tick * sint t \<Longrightarrow> timer_ok (addTimer tick now fd t tm)"
  by (auto simp: timer_ok_def addTimer_def Let_def)

lemma timer_ok_cancel: "timer_ok tm \<Longrightarrow> timer_ok (cancelTimer fd tm)"
  by (auto simp: timer_ok_def cancelTimer_def split: if_splits)

lemma armed_add: "0 < now + tick * sint t \<Longrightarrow>
  armed (addTimer tick now fd t tm) g e \<longleftrightarrow> (if g = fd then e = now + tick * sint t else armed tm g e)"
  by (auto simp: armed_def addTimer_def Let_def)

lemma armed_cancel: "armed (cancelTimer fd tm) g e \<longleftrightarrow> g \<noteq> fd \<and> armed tm g e"
  by (auto simp: armed_def cancelTimer_def)

lemma map_of_touch: "map_of (um_touch d k m) j = (if j = k \<and> map_of m k = None then Some d else map_of m j)"
  by (auto simp: um_touch_def split: option.split)

lemma timer_node_eta: "n = \<lparr>tn_fd = tn_fd n, tn_expire = tn_expire n\<rparr>"
  by simp

lemma timer_ok_pop:
  assumes "timer_ok tm"
    and "\<And>fd e. map_of tbl fd = Some e \<Longrightarrow> e \<noteq> 0 \<Longrightarrow> armed tm fd e \<and> (fd \<noteq> tn_fd m \<or> e \<noteq> tn_expire m)"
  shows "timer_ok \<lparr>minHeap = remove1 m (minHeap tm), secretTable = tbl\<rparr>"
proof -
  have "\<lparr>tn_fd = fd, tn_expire = e\<rparr> \<in> set (remove1 m (minHeap tm))" if "map_of tbl fd = Some e" "e \<noteq> 0" for fd e
  proof -
    have "\<lparr>tn_fd = fd, tn_expire = e\<rparr> \<noteq> m" using assms(2) [OF that] by auto
    moreover have "\<lparr>tn_fd = fd, tn_expire = e\<rparr> \<in> set (minHeap tm)"
      using assms(1) assms(2) [OF that] that(2) by (auto simp: armed_def timer_ok_def)
    ultimately show ?thesis by simp
  qed
  moreover have "0 < tn_expire x" if "x \<in> set (remove1 m (minHeap tm))" for x
    using that assms(1) notin_set_remove1 [of x "minHeap tm" m] by (auto simp: timer_ok_def)
  ultimately show ?thesis by (auto simp: timer_ok_def)
qed

lemma handle_loop_spec:
  assumes "timer_ok tm" and "0 \<le> now" and "handle_loop now tm = (fds, tm')"
  shows "timer_ok tm' \<and> distinct fds \<and> set fds = {fd. \<exists>e. armed tm fd e \<and> e \<le> now} \<and>
    (\<forall>fd e. armed tm' fd e \<longleftrightarrow> armed tm fd e \<and> now < e)"
  using assms
proof (induction "length (minHeap tm)" arbitrary: tm fds tm' rule: less_induct)
  case less
  note ok0 = less.prems(1) and run = less.prems(3)
  show ?case
  proof (cases "minHeap tm")
    case Nil
    then show ?thesis using ok0 run by (auto simp: handle_loop.simps [of now tm] timer_ok_def armed_def)
  next
    case (Cons n ns)
    define top where "top = top_node n ns"
    have mem: "top \<in> set (minHeap tm)" using top_node_mem [of n ns] by (simp add: Cons top_def)
    have shorter: "length (remove1 top (minHeap tm)) < length (minHeap tm)"
      using remove_top_shorter [of n ns] by (simp only: Cons top_def)
    have low: "tn_expire top \<le> tn_expire x" if "x \<in> set (minHeap tm)" for x
      using top_node_min [of x n ns] that by (simp add: Cons top_def)
    have pos: "0 < tn_expire top" using ok0 mem by (auto simp: timer_ok_def)
    let ?tbl = "um_touch 0 (tn_fd top) (secretTable tm)"
    let ?heap = "remove1 top (minHeap tm)"
    show ?thesis
    proof (cases "tn_expire top > now")
      case True
      then have late: "now < e" if "armed tm fd e" for fd e
        using that ok0 low [of "\<lparr>tn_fd = fd, tn_expire = e\<rparr>"] by (fastforce simp: timer_ok_def armed_def)
      have "fds = []" "tm' = tm" using True run by (auto simp: handle_loop.simps [of now tm] Cons top_def Let_def)
      with late ok0 show ?thesis by fastforce
    next
      case due: False
      show ?thesis
      proof (cases "tn_expire top = um_at 0 ?tbl (tn_fd top)")
        case False
        let ?tm = "\<lparr>minHeap = ?heap, secretTable = ?tbl\<rparr>"
        have stale: "\<not> armed tm (tn_fd top) (tn_expire top)"
          using False by (auto simp: armed_def um_at_def map_of_touch)
        have arm: "armed ?tm fd e \<longleftrightarrow> armed tm fd e" for fd e by (auto simp: armed_def map_of_touch)
        have ok: "timer_ok ?tm"
          using ok0 by (rule timer_ok_pop) (use arm stale in \<open>auto simp: armed_def\<close>)
        have "handle_loop now ?tm = (fds, tm')"
          using run due False by (simp add: handle_loop.simps [of now tm] Cons top_def [symmetric] Let_def del: remove1.simps)
        from less.hyps [OF _ ok less.prems(2) this] show ?thesis using shorter by (simp add: arm)
      next
        case True
        let ?tm = "\<lparr>minHeap = ?heap, secretTable = AList.delete (tn_fd top) ?tbl\<rparr>"
        have fire: "armed tm (tn_fd top) (tn_expire top)"
          using True pos by (auto simp: armed_def um_at_def map_of_touch split: option.splits if_splits)
        have arm: "armed ?tm fd e \<longleftrightarrow> fd \<noteq> tn_fd top \<and> armed tm fd e" for fd e by (auto simp: armed_def map_of_touch)
        have ok: "timer_ok ?tm"
          using ok0 by (rule timer_ok_pop) (use arm in \<open>auto simp: armed_def\<close>)
        have "handle_loop now tm = (let (fds, tm') = handle_loop now ?tm in (tn_fd top # fds, tm'))"
          using due True by (simp add: handle_loop.simps [of now tm] Cons top_def [symmetric] Let_def del: remove1.simps)
        then have "(fds, tm') = (tn_fd top # fst (handle_loop now ?tm), snd (handle_loop now ?tm))"
          unfolding run by (simp only: Let_def case_prod_beta)
        then obtain fds1 where r: "handle_loop now ?tm = (fds1, tm')" and fds: "fds = tn_fd top # fds1"
          by (metis prod.collapse prod.inject)
        from less.hyps [OF _ ok less.prems(2) r] shorter
        have ih: "timer_ok tm'" "distinct fds1" "set fds1 = {fd. \<exists>e. (fd \<noteq> tn_fd top \<and> armed tm fd e) \<and> e \<le> now}"
            "\<forall>fd e. armed tm' fd e \<longleftrightarrow> (fd \<noteq> tn_fd top \<and> armed tm fd e) \<and> now < e"
          by (simp_all add: arm)
        have only: "e = tn_expire top" if "armed tm (tn_fd top) e" for e using that fire by (simp add: armed_def)
        have "tn_expire top \<le> now" using due by simp
        then have "set fds = {fd. \<exists>e. armed tm fd e \<and> e \<le> now}"
          using fire by (auto simp only: fds list.set ih(3))
        moreover have "armed tm' fd e \<longleftrightarrow> armed tm fd e \<and> now < e" for fd e
          using ih(4) only [of e] \<open>tn_expire top \<le> now\<close> by (cases "fd = tn_fd top") auto
        moreover have "distinct fds" using ih(2) by (simp add: fds ih(3))
        ultimately show ?thesis using ih(1) by blast
      qed
    qed
  qed
qed

end
