(* ===== verification/TcpServer.thy ===== *)
theory TcpServer
  imports Timer
begin

unbundle bit_operations_syntax

text \<open>
  \<^verbatim>\<open>TcpServer.h/.cpp\<close>: the event loop. The kernel's side (flags of descriptors, epoll registrations,
  closed descriptors) is part of the state; what \<^verbatim>\<open>accept\<close> and \<^verbatim>\<open>epoll_wait\<close> return is an argument.
  The sessions are those of the \<^verbatim>\<open>SessionManager\<close> singleton.
\<close>

record TcpServer =
  ts_port :: i32
  ts_listenFd :: i32
  ts_epollFd :: i32
  ts_timers :: TimerManager
  ts_tasks :: "i32 list"
  ts_sessions :: SessionManager
  ts_epoll :: "(i32, u32) umap"
  ts_flags :: "(i32, u32) umap"
  ts_closed :: "i32 list"

definition EPOLLIN :: u32 where "EPOLLIN = 1"
definition EPOLLONESHOT :: u32 where "EPOLLONESHOT = 0x40000000"
definition EPOLLET :: u32 where "EPOLLET = 0x80000000"
definition O_NONBLOCK :: u32 where "O_NONBLOCK = 0x800"

definition oneshot_events :: u32 where
  "oneshot_events = EPOLLIN OR EPOLLET OR EPOLLONESHOT"

definition setNonBlocking :: "i32 \<Rightarrow> TcpServer \<Rightarrow> TcpServer" where
  "setNonBlocking fd s = s\<lparr>ts_flags := AList.update fd (um_at 0 (ts_flags s) fd OR O_NONBLOCK) (ts_flags s)\<rparr>"

definition addEvent :: "i32 \<Rightarrow> u32 \<Rightarrow> TcpServer \<Rightarrow> TcpServer" where
  "addEvent fd events s = s\<lparr>ts_epoll := AList.update fd events (ts_epoll s)\<rparr>"

text \<open>\<open>sock\<close> is the new descriptor; \<open>None\<close> is the exit of the process when the port cannot be bound.\<close>

definition initSocket :: "i32 \<Rightarrow> bool \<Rightarrow> TcpServer \<Rightarrow> TcpServer option" where
  "initSocket sock bind_ok s =
     (if \<not> bind_ok then None else Some (setNonBlocking sock (s\<lparr>ts_listenFd := sock\<rparr>)))"

definition TcpServer_new :: "i32 \<Rightarrow> i32 \<Rightarrow> bool \<Rightarrow> i32 \<Rightarrow> TcpServer option" where
  "TcpServer_new port sock bind_ok epfd =
     map_option (\<lambda>s. addEvent (ts_listenFd s) EPOLLIN (s\<lparr>ts_epollFd := epfd\<rparr>))
       (initSocket sock bind_ok
         \<lparr>ts_port = port, ts_listenFd = - 1, ts_epollFd = - 1, ts_timers = TimerManager_new, ts_tasks = [],
          ts_sessions = SessionManager_new, ts_epoll = [], ts_flags = [], ts_closed = []\<rparr>)"

definition TcpServer_destroy :: "TcpServer \<Rightarrow> TcpServer" where
  "TcpServer_destroy s =
     (let s1 = (if ts_listenFd s \<noteq> - 1 then s\<lparr>ts_closed := ts_closed s @ [ts_listenFd s]\<rparr> else s)
      in if ts_epollFd s1 \<noteq> - 1 then s1\<lparr>ts_closed := ts_closed s1 @ [ts_epollFd s1]\<rparr> else s1)"

text \<open>The connections that \<^verbatim>\<open>accept\<close> returns before it reports that there are no more.\<close>

definition accept_one :: "int \<Rightarrow> int \<Rightarrow> i32 \<Rightarrow> TcpServer \<Rightarrow> TcpServer" where
  "accept_one tick now client_sock s =
     (let s1 = setNonBlocking client_sock s;
          s2 = s1\<lparr>ts_sessions := createSession client_sock (ts_sessions s1)\<rparr>;
          s3 = addEvent client_sock oneshot_events s2
      in s3\<lparr>ts_timers := addTimer tick now client_sock 60 (ts_timers s3)\<rparr>)"

definition acceptConnection :: "int \<Rightarrow> int \<Rightarrow> i32 list \<Rightarrow> TcpServer \<Rightarrow> TcpServer" where
  "acceptConnection tick now accepted s = fold (accept_one tick now) accepted s"

definition doCleanup :: "i32 \<Rightarrow> TcpServer \<Rightarrow> TcpServer" where
  "doCleanup fd s =
     (if \<not> hasSession (ts_sessions s) fd then s
      else
        let s1 = s\<lparr>ts_epoll := AList.delete fd (ts_epoll s)\<rparr>;
            s2 = s1\<lparr>ts_timers := cancelTimer fd (ts_timers s1)\<rparr>;
            (sm, closed) = cleanConnection fd (ts_sessions s2, ts_closed s2)
        in s2\<lparr>ts_sessions := sm, ts_closed := closed\<rparr>)"

text \<open>One descriptor that \<^verbatim>\<open>epoll_wait\<close> reported.\<close>

definition handle_event :: "int \<Rightarrow> int \<Rightarrow> i32 list \<Rightarrow> i32 \<Rightarrow> TcpServer \<Rightarrow> TcpServer" where
  "handle_event tick now accepted fd s =
     (if fd = ts_listenFd s then acceptConnection tick now accepted s
      else s\<lparr>ts_timers := addTimer tick now fd 60 (ts_timers s), ts_tasks := ts_tasks s @ [fd]\<rparr>)"

text \<open>
  The task of a worker after the business callback returned \<open>keepAlive\<close> with the sessions and the
  closed descriptors that it left.
\<close>

definition finish_task :: "i32 \<Rightarrow> bool \<Rightarrow> SessionManager \<times> i32 list \<Rightarrow> TcpServer \<Rightarrow> TcpServer" where
  "finish_task fd keepAlive res s =
     (let s1 = s\<lparr>ts_tasks := remove1 fd (ts_tasks s), ts_sessions := fst res, ts_closed := snd res\<rparr>
      in if keepAlive then addEvent fd oneshot_events s1 else doCleanup fd s1)"

text \<open>
  The end of a loop round: the expired descriptors are passed to the callback while the timers'
  mutex is held. The callback returns at once for the descriptors that \<^verbatim>\<open>hasSession\<close> rejects; for
  the others it calls \<^verbatim>\<open>doCleanup\<close>, whose \<^verbatim>\<open>cancelTimer\<close> waits for that mutex: \<open>None\<close>.
\<close>

definition handle_timeouts :: "int \<Rightarrow> TcpServer \<Rightarrow> TcpServer option" where
  "handle_timeouts now s =
     (let (fds, tm) = handle_loop now (ts_timers s)
      in if \<exists>fd \<in> set fds. hasSession (ts_sessions s) fd then None else Some (s\<lparr>ts_timers := tm\<rparr>))"

definition start_round :: "int \<Rightarrow> int \<Rightarrow> int \<Rightarrow> (i32 \<times> i32 list) list \<Rightarrow> TcpServer \<Rightarrow> TcpServer option" where
  "start_round tick now later events s =
     handle_timeouts later (fold (\<lambda>(fd, accepted). handle_event tick now accepted fd) events s)"

section \<open>Accepted connections\<close>

lemma accept_one_fields:
  assumes "sint c < MAX_FD" and "0 < now + tick * 60"
  shows "getSession (ts_sessions (accept_one tick now c s)) g = (if g = c then Some (Session_new c) else getSession (ts_sessions s) g)"
    and "armed (ts_timers (accept_one tick now c s)) g e \<longleftrightarrow> (if g = c then e = now + tick * 60 else armed (ts_timers s) g e)"
    and "map_of (ts_epoll (accept_one tick now c s)) g = (if g = c then Some oneshot_events else map_of (ts_epoll s) g)"
    and "ts_listenFd (accept_one tick now c s) = ts_listenFd s"
  using assms getSession_create [OF assms(1)] armed_add [of now tick 60 c "ts_timers s"]
  by (simp_all add: accept_one_def addEvent_def setNonBlocking_def Let_def)

text \<open>
  Every accepted connection with a descriptor below 65535 starts with an empty, anonymous
  session, is registered for one-shot edge-triggered input and has a timeout of 60 seconds; the
  other connections keep theirs.
\<close>

theorem acceptConnection_sets_up:
  assumes "\<forall>c \<in> set accepted. sint c < MAX_FD" and "0 < now + tick * 60"
  shows "(\<forall>c \<in> set accepted.
      getSession (ts_sessions (acceptConnection tick now accepted s)) c = Some (Session_new c) \<and>
      map_of (ts_epoll (acceptConnection tick now accepted s)) c = Some oneshot_events \<and>
      armed (ts_timers (acceptConnection tick now accepted s)) c (now + tick * 60)) \<and>
    (\<forall>g. g \<notin> set accepted \<longrightarrow>
      getSession (ts_sessions (acceptConnection tick now accepted s)) g = getSession (ts_sessions s) g \<and>
      map_of (ts_epoll (acceptConnection tick now accepted s)) g = map_of (ts_epoll s) g)"
  using assms(1)
proof (induction accepted arbitrary: s)
  case (Cons c cs)
  let ?s = "accept_one tick now c s"
  have keep: "getSession (ts_sessions (acceptConnection tick now cs ?s)) c = Some (Session_new c) \<and>
      map_of (ts_epoll (acceptConnection tick now cs ?s)) c = Some oneshot_events \<and>
      armed (ts_timers (acceptConnection tick now cs ?s)) c (now + tick * 60)"
  proof -
    have "getSession (ts_sessions s') c = Some (Session_new c) \<and> map_of (ts_epoll s') c = Some oneshot_events \<and>
        armed (ts_timers s') c (now + tick * 60) \<Longrightarrow>
      getSession (ts_sessions (acceptConnection tick now ds s')) c = Some (Session_new c) \<and>
      map_of (ts_epoll (acceptConnection tick now ds s')) c = Some oneshot_events \<and>
      armed (ts_timers (acceptConnection tick now ds s')) c (now + tick * 60)"
      if "\<forall>d \<in> set ds. sint d < MAX_FD" for ds s'
      using that by (induction ds arbitrary: s') (simp_all add: acceptConnection_def accept_one_fields assms(2))
    then show ?thesis using Cons.prems by (simp add: accept_one_fields assms(2))
  qed
  have step: "acceptConnection tick now (c # cs) s = acceptConnection tick now cs ?s" by (simp add: acceptConnection_def)
  show ?case unfolding step using keep Cons.IH [of ?s] Cons.prems by (auto simp: accept_one_fields assms(2))
qed (simp add: acceptConnection_def)

definition ex_server :: TcpServer where
  "ex_server = the (TcpServer_new 12345 3 True 4)"

theorem acceptConnection_sets_up_witness:
  "getSession (ts_sessions (acceptConnection 1000 5 [7, 9] ex_server)) 9 = Some (Session_new 9)"
  using acceptConnection_sets_up [of "[7, 9]" 5 1000 ex_server] by (simp add: MAX_FD_def)

section \<open>Closing connections\<close>

text \<open>
  C22. \<^verbatim>\<open>doCleanup\<close> leaves a connection that has a session untouched: the session stays, the
  descriptor stays open and registered. On a descriptor whose session is already gone it closes
  the descriptor again. This is what the inverted test of \<^verbatim>\<open>hasSession\<close> makes of it.
\<close>

theorem doCleanup_inverted:
  assumes "sint fd < MAX_FD"
  shows "(getSession (ts_sessions s) fd \<noteq> None \<longrightarrow> doCleanup fd s = s) \<and>
    (getSession (ts_sessions s) fd = None \<longrightarrow> ts_closed (doCleanup fd s) = ts_closed s @ [fd])"
  using hasSession_inverted [OF assms, of "ts_sessions s"]
  by (simp add: doCleanup_def cleanConnection_def Let_def)

theorem doCleanup_inverted_witness:
  "doCleanup 7 (acceptConnection 1000 5 [7] ex_server) = acceptConnection 1000 5 [7] ex_server \<and>
   ts_closed (doCleanup 8 (acceptConnection 1000 5 [7] ex_server)) = ts_closed (acceptConnection 1000 5 [7] ex_server) @ [8]"
proof -
  have "getSession (ts_sessions (acceptConnection 1000 5 [7] ex_server)) 7 \<noteq> None"
    "getSession (ts_sessions (acceptConnection 1000 5 [7] ex_server)) 8 = None"
    by (simp_all add: acceptConnection_def accept_one_def addEvent_def setNonBlocking_def Let_def createSession_def
        getSession_def MAX_FD_def ex_server_def TcpServer_new_def initSocket_def SessionManager_new_def)
  then show ?thesis
    using doCleanup_inverted [of 7 "acceptConnection 1000 5 [7] ex_server"]
      doCleanup_inverted [of 8 "acceptConnection 1000 5 [7] ex_server"] by (simp add: MAX_FD_def)
qed

text \<open>
  C21. The timeout scan reports exactly the descriptors whose latest timer has run out, each once:
  a timer that was renewed or cancelled does not count, and the timers that have not run out stay
  armed.
\<close>

theorem handleTimeouts_exact:
  assumes "timer_ok tm" and "0 \<le> now" and "handle_loop now tm = (fds, tm')"
  shows "timer_ok tm' \<and> distinct fds \<and> (\<forall>fd. fd \<in> set fds \<longleftrightarrow> (\<exists>e. armed tm fd e \<and> e \<le> now)) \<and>
    (\<forall>fd e. armed tm' fd e \<longleftrightarrow> armed tm fd e \<and> now < e)"
  using handle_loop_spec [OF assms] by auto

definition ex_timers :: TimerManager where
  "ex_timers = addTimer 1 50 7 60 (addTimer 1 20 9 60 (addTimer 1 10 7 60 TimerManager_new))"

theorem handleTimeouts_exact_witness:
  "9 \<in> set (fst (handle_loop 90 ex_timers)) \<and> 7 \<notin> set (fst (handle_loop 90 ex_timers))"
proof -
  have "timer_ok ex_timers" unfolding ex_timers_def by (intro timer_ok_add timer_ok_new) simp_all
  moreover have "armed ex_timers 9 e \<longleftrightarrow> e = 80" "armed ex_timers 7 e \<longleftrightarrow> e = 110" for e
    by (simp_all add: ex_timers_def armed_add)
  ultimately show ?thesis
    using handleTimeouts_exact [of ex_timers 90 "fst (handle_loop 90 ex_timers)" "snd (handle_loop 90 ex_timers)"] by simp
qed

text \<open>
  C23. The timeout scan at the end of a loop round never closes a connection. If every descriptor
  whose timer has run out still has its session, the round ends with all sessions, registrations
  and open descriptors as they were; if one of them has no session any more, the callback waits for
  the mutex that the scan holds and the round never ends.
\<close>

theorem timeouts_close_nothing:
  assumes "timer_ok (ts_timers s)" and "0 \<le> now" and "\<forall>fd e. armed (ts_timers s) fd e \<longrightarrow> sint fd < MAX_FD"
  shows "handle_timeouts now s =
    (if \<exists>fd e. armed (ts_timers s) fd e \<and> e \<le> now \<and> getSession (ts_sessions s) fd = None then None
     else Some (s\<lparr>ts_timers := snd (handle_loop now (ts_timers s))\<rparr>))"
proof -
  obtain fds tm' where h: "handle_loop now (ts_timers s) = (fds, tm')" by fastforce
  have "set fds = {fd. \<exists>e. armed (ts_timers s) fd e \<and> e \<le> now}"
    using handle_loop_spec [OF assms(1,2) h] by blast
  then have "(\<exists>fd \<in> set fds. hasSession (ts_sessions s) fd) \<longleftrightarrow>
      (\<exists>fd e. armed (ts_timers s) fd e \<and> e \<le> now \<and> getSession (ts_sessions s) fd = None)"
    using assms(3) hasSession_inverted by blast
  then show ?thesis unfolding handle_timeouts_def h Let_def by (simp only: prod.case snd_conv)
qed

theorem timeouts_close_nothing_witness:
  "handle_timeouts 61000 (acceptConnection 1000 5 [7] ex_server) =
     Some ((acceptConnection 1000 5 [7] ex_server)\<lparr>ts_timers :=
       snd (handle_loop 61000 (ts_timers (acceptConnection 1000 5 [7] ex_server)))\<rparr>)"
proof -
  let ?s = "acceptConnection 1000 5 [7] ex_server"
  have t: "ts_timers ?s = addTimer 1000 5 7 60 TimerManager_new" and g: "getSession (ts_sessions ?s) 7 \<noteq> None"
    by (simp_all add: acceptConnection_def accept_one_def addEvent_def setNonBlocking_def Let_def createSession_def
        getSession_def MAX_FD_def ex_server_def TcpServer_new_def initSocket_def)
  have arm: "armed (ts_timers ?s) fd e \<longleftrightarrow> fd = 7 \<and> e = 60005" for fd e
    by (auto simp: t armed_add) (simp add: armed_def TimerManager_new_def)
  have "timer_ok (ts_timers ?s)" unfolding t by (rule timer_ok_add [OF timer_ok_new]) simp
  from timeouts_close_nothing [OF this, of 61000] g show ?thesis by (simp add: arm MAX_FD_def)
qed

end
