(* ===== verification/SettlementProcessor.thy ===== *)
theory SettlementProcessor
  imports Repositories UserManager_Props
begin

text \<open>
  \<^verbatim>\<open>SettlementProcessor.hpp\<close>: the clearing thread. It takes match and cancel records from two queues,
  books the trades in the database and moves the frozen money and shares in memory.
\<close>

record Settlement =
  st_queue :: "MatchRecord list"
  st_cancel_queue :: "CancelRecord list"
  st_running :: bool

definition Settlement_new :: Settlement where
  "Settlement_new = \<lparr>st_queue = [], st_cancel_queue = [], st_running = True\<rparr>"

definition pushRecords :: "MatchRecord list \<Rightarrow> Settlement \<Rightarrow> Settlement" where
  "pushRecords records s = (if records \<noteq> [] then s\<lparr>st_queue := st_queue s @ records\<rparr> else s)"

definition pushCancelRecord :: "CancelRecord \<Rightarrow> Settlement \<Rightarrow> Settlement" where
  "pushCancelRecord r s = s\<lparr>st_cancel_queue := st_cancel_queue s @ [r]\<rparr>"

text \<open>The amounts are computed with unsigned 64-bit arithmetic and stored in an \<^verbatim>\<open>int64_t\<close>.\<close>

definition sell_money :: "MatchRecord \<Rightarrow> i64" where
  "sell_money rec = m_match_price rec * m_match_quantity rec"

definition match_refund :: "MatchRecord \<Rightarrow> i64" where
  "match_refund rec = (m_buyer_expected_price rec - m_match_price rec) * m_match_quantity rec"

text \<open>A \<^verbatim>\<open>uint64_t\<close> quantity passed as an \<^verbatim>\<open>int\<close> keeps its low 32 bits.\<close>

definition qty_int :: "u64 \<Rightarrow> i32" where
  "qty_int q = ucast q"

text \<open>The four database calls of a record; their results are not looked at.\<close>

definition settle_db :: "'s IUserRepository \<Rightarrow> 's IStockRepository \<Rightarrow> string \<Rightarrow> string \<Rightarrow> string \<Rightarrow> MatchRecord
    \<Rightarrow> ('s, unit) prog" where
  "settle_db userRepo stockRepo buyer_name seller_name symbol rec =
     bnd (deductBalance userRepo buyer_name (sell_money rec)) (\<lambda>_.
     bnd (updateStockHolding stockRepo buyer_name symbol (qty_int (m_match_quantity rec))) (\<lambda>_.
     bnd (updateBalance userRepo seller_name (sell_money rec)) (\<lambda>_.
     bnd (deductStockHolding stockRepo seller_name symbol (qty_int (m_match_quantity rec))) (\<lambda>_. ret ()))))"

definition settle_memory :: "MatchRecord \<Rightarrow> UserManager \<Rightarrow> UserManager" where
  "settle_memory rec um =
     commitSell (m_sell_user_id rec) (m_ticker_id rec) (sell_money rec) (qty_int (m_match_quantity rec))
       (commitBuy (m_buyer_user_id rec) (m_ticker_id rec) (sell_money rec) (qty_int (m_match_quantity rec)) (match_refund rec) um)"

definition settle_record :: "'s IUserRepository \<Rightarrow> 's IStockRepository \<Rightarrow> TickerManager \<Rightarrow> MatchRecord
    \<Rightarrow> ('s \<times> UserManager, unit) prog" where
  "settle_record userRepo stockRepo tm rec =
     bnd (gets snd) (\<lambda>um.
     bnd (zoom fst (\<lambda>d s. (d, snd s))
           (settle_db userRepo stockRepo (getName um (m_buyer_user_id rec)) (getName um (m_sell_user_id rec))
             (getSymbol tm (m_ticker_id rec)) rec)) (\<lambda>_.
     modify (\<lambda>s. (fst s, settle_memory rec (snd s)))))"

definition settle_cancel :: "CancelRecord \<Rightarrow> UserManager \<Rightarrow> UserManager" where
  "settle_cancel rec um =
     (if c_side rec = BUY then unfreezeBalance (c_user_id rec) (c_price rec * c_quantity rec) um
      else unfreezeStock (c_user_id rec) (c_ticker_id rec) (qty_int (c_quantity rec)) um)"

text \<open>
  One round of \<^verbatim>\<open>processLoop\<close>: \<open>n\<close> and \<open>k\<close> are the numbers of records that the two queues hand out,
  each at most the batch size.
\<close>

definition st_batch_size :: nat where "st_batch_size = 1000"

definition settle_round :: "'s IUserRepository \<Rightarrow> 's IStockRepository \<Rightarrow> TickerManager \<Rightarrow> nat \<Rightarrow> nat \<Rightarrow> Settlement
    \<Rightarrow> ('s \<times> UserManager, Settlement) prog" where
  "settle_round userRepo stockRepo tm n k s =
     (if st_running s \<or> st_queue s \<noteq> [] \<or> st_cancel_queue s \<noteq> [] then
        let count = min n st_batch_size; cancel_count = min k st_batch_size
        in bnd (for_each (settle_record userRepo stockRepo tm) (take count (st_queue s))) (\<lambda>_.
           bnd (modify (\<lambda>st. (fst st, fold settle_cancel (take cancel_count (st_cancel_queue s)) (snd st)))) (\<lambda>_.
           ret (s\<lparr>st_queue := drop count (st_queue s), st_cancel_queue := drop cancel_count (st_cancel_queue s)\<rparr>)))
      else ret s)"

definition Settlement_stop :: "Settlement \<Rightarrow> Settlement" where
  "Settlement_stop s = s\<lparr>st_running := False\<rparr>"

section \<open>Effect of a settled record\<close>

definition parties_exist :: "UserManager \<Rightarrow> MatchRecord \<Rightarrow> bool" where
  "parties_exist um rec \<longleftrightarrow> exists_user um (m_buyer_user_id rec) \<and> exists_user um (m_sell_user_id rec)"

lemma exists_settle_memory [simp]: "exists_user (settle_memory rec um) v = exists_user um v"
  by (simp add: settle_memory_def)

lemma exists_settle_cancel [simp]: "exists_user (settle_cancel rec um) v = exists_user um v"
  by (simp add: settle_cancel_def)

lemma money_split: "sell_money rec + match_refund rec = m_buyer_expected_price rec * m_match_quantity rec"
  by (simp add: sell_money_def match_refund_def algebra_simps)

lemma settle_memory_effect:
  assumes "parties_exist um rec"
  shows "balance_of (settle_memory rec um) v = balance_of um v +
      (if v = m_buyer_user_id rec then match_refund rec else 0) + (if v = m_sell_user_id rec then sell_money rec else 0)"
    and "frozen_of (settle_memory rec um) v = frozen_of um v -
      (if v = m_buyer_user_id rec then m_buyer_expected_price rec * m_match_quantity rec else 0)"
    and "stock_of (settle_memory rec um) v k = stock_of um v k +
      (if v = m_buyer_user_id rec \<and> k = m_ticker_id rec then qty_int (m_match_quantity rec) else 0)"
    and "frozen_stock_of (settle_memory rec um) v k = frozen_stock_of um v k -
      (if v = m_sell_user_id rec \<and> k = m_ticker_id rec then qty_int (m_match_quantity rec) else 0)"
  using assms money_split [of rec]
  by (simp_all add: settle_memory_def parties_exist_def account_simps)

lemma settle_cancel_effect:
  assumes "exists_user um (c_user_id rec)"
  shows "balance_of (settle_cancel rec um) v = balance_of um v +
      (if v = c_user_id rec \<and> c_side rec = BUY then c_price rec * c_quantity rec else 0)"
    and "frozen_of (settle_cancel rec um) v = frozen_of um v -
      (if v = c_user_id rec \<and> c_side rec = BUY then c_price rec * c_quantity rec else 0)"
    and "stock_of (settle_cancel rec um) v k = stock_of um v k +
      (if v = c_user_id rec \<and> c_side rec = SELL \<and> k = c_ticker_id rec then qty_int (c_quantity rec) else 0)"
    and "frozen_stock_of (settle_cancel rec um) v k = frozen_stock_of um v k -
      (if v = c_user_id rec \<and> c_side rec = SELL \<and> k = c_ticker_id rec then qty_int (c_quantity rec) else 0)"
  using assms by (cases "c_side rec"; simp add: settle_cancel_def account_simps)+

end
