(* ===== verification/MarketDataPublisher.thy ===== *)
theory MarketDataPublisher
  imports Pools
begin

text \<open>
  \<^verbatim>\<open>MarketDataPublisher.hpp\<close>: matched trades are queued and written in batches to Redis, one sorted
  set per ticker. A pipelined command is the triple of key, score and member; the replies are read
  and dropped.
\<close>

record ZADD =
  z_key :: string
  z_score :: u64
  z_member :: string

record Publisher =
  pub_queue :: "MatchRecord list"
  pub_running :: bool

definition Publisher_new :: Publisher where
  "Publisher_new = \<lparr>pub_queue = [], pub_running = True\<rparr>"

definition Publisher_pushRecords :: "MatchRecord list \<Rightarrow> Publisher \<Rightarrow> Publisher" where
  "Publisher_pushRecords records p = (if records = [] then p else p\<lparr>pub_queue := pub_queue p @ records\<rparr>)"

text \<open>\<^verbatim>\<open>"{\"ticker\":" + ... + ",\"price\":" + ... + ",\"qty\":" + ... + "}"\<close>; \<open>CHR 0x22\<close> is the double quote.\<close>

definition quoted :: "string \<Rightarrow> string" where
  "quoted s = CHR 0x22 # s @ [CHR 0x22]"

definition trade_json :: "MatchRecord \<Rightarrow> string" where
  "trade_json rec =
     CHR ''{'' # quoted ''ticker'' @ [CHR '':''] @ to_string (m_ticker_id rec) @ [CHR '',''] @
     quoted ''price'' @ [CHR '':''] @ to_string (m_match_price rec) @ [CHR '',''] @
     quoted ''qty'' @ [CHR '':''] @ to_string (m_match_quantity rec) @ [CHR ''}'']"

definition trade_key :: "u32 \<Rightarrow> string" where
  "trade_key ticker_id = ''history:trade:'' @ to_string ticker_id"

definition trade_command :: "MatchRecord \<Rightarrow> ZADD" where
  "trade_command rec = \<lparr>z_key = trade_key (m_ticker_id rec), z_score = m_timestamp rec, z_member = trade_json rec\<rparr>"

text \<open>The pool and the commands sent so far; \<open>Blocked\<close> when no connection is left.\<close>

definition publishBatchToRedis :: "MatchRecord list \<Rightarrow> (RedisPool \<times> ZADD list, unit) prog" where
  "publishBatchToRedis batch st =
     (let (pool, sent) = st
      in case RedisPool_getConnection pool of
           None \<Rightarrow> (Inl Blocked, st)
         | Some (conn, pool') \<Rightarrow>
             if conn = 0 then (Inr (), (RedisPool_deleter conn pool', sent))
             else (Inr (), (RedisPool_deleter conn pool', sent @ map trade_command batch)))"

text \<open>
  One round of \<^verbatim>\<open>processQueue\<close>: the queue hands out \<open>n\<close> records, at most the batch size, or none
  before the timeout.
\<close>

definition pub_batch_size :: nat where "pub_batch_size = 1000"

definition processQueue_round :: "nat \<Rightarrow> Publisher \<Rightarrow> (RedisPool \<times> ZADD list, Publisher) prog" where
  "processQueue_round n p =
     (let count = min n pub_batch_size; res = take count (pub_queue p); p' = p\<lparr>pub_queue := drop count (pub_queue p)\<rparr>
      in if \<not> pub_running p then ret p
         else if res = [] then ret p'
         else bnd (publishBatchToRedis res) (\<lambda>_. ret p'))"

definition Publisher_stop :: "Publisher \<Rightarrow> Publisher" where
  "Publisher_stop p = p\<lparr>pub_running := False\<rparr>"

fun processQueue :: "nat list \<Rightarrow> Publisher \<Rightarrow> (RedisPool \<times> ZADD list, Publisher) prog" where
  "processQueue [] p = ret p"
| "processQueue (n # ns) p = bnd (processQueue_round n p) (processQueue ns)"

section \<open>Everything queued is sent once, in order\<close>

definition redis_ready :: "RedisPool \<Rightarrow> bool" where
  "redis_ready pool \<longleftrightarrow> rd_connQueue pool \<noteq> [] \<and> 0 \<notin> set (rd_connQueue pool)"

lemma publishBatchToRedis_run:
  assumes "redis_ready pool"
  obtains pool' where "publishBatchToRedis batch (pool, sent) = (Inr (), (pool', sent @ map trade_command batch))"
    and "redis_ready pool'"
proof -
  obtain c p' where b: "RedisPool_getConnection pool = Some (c, p')"
    using assms redis_pool.borrow_iff [of pool] by (auto simp: redis_ready_def)
  have "c \<noteq> 0" using redis_pool.borrow_SomeD [OF b] assms by (auto simp: redis_ready_def)
  moreover have "rd_connQueue (RedisPool_deleter c p') = rotate1 (rd_connQueue pool)"
    using redis_pool.round_trip(2) [OF b] assms by (simp add: redis_ready_def)
  ultimately show thesis
    using assms by (intro that [of "RedisPool_deleter c p'"]) (simp_all add: publishBatchToRedis_def b redis_ready_def)
qed

lemma processQueue_round_run:
  assumes "redis_ready pool" and "pub_running p"
  obtains pool' p' where "processQueue_round n p (pool, sent) = (Inr p', (pool', sent @ map trade_command (take (min n pub_batch_size) (pub_queue p))))"
    and "redis_ready pool'" and "pub_queue p' = drop (min n pub_batch_size) (pub_queue p)" and "pub_running p'"
proof (cases "take (min n pub_batch_size) (pub_queue p) = []")
  case True
  then show ?thesis using assms by (intro that [of "p\<lparr>pub_queue := drop (min n pub_batch_size) (pub_queue p)\<rparr>" pool])
      (simp_all add: processQueue_round_def Let_def)
next
  case False
  obtain pool' where "publishBatchToRedis (take (min n pub_batch_size) (pub_queue p)) (pool, sent) =
      (Inr (), (pool', sent @ map trade_command (take (min n pub_batch_size) (pub_queue p))))" "redis_ready pool'"
    using publishBatchToRedis_run [OF assms(1)] by blast
  with False assms show ?thesis
    by (intro that [of "p\<lparr>pub_queue := drop (min n pub_batch_size) (pub_queue p)\<rparr>" pool'])
      (auto simp: processQueue_round_def Let_def bnd_def min_def)
qed


definition ex_trade :: MatchRecord where
  "ex_trade = \<lparr>m_ticker_id = 2, m_maker_order_id = 1, m_taker_order_id = 3, m_buyer_user_id = 1, m_sell_user_id = 2,
     m_buyer_expected_price = 1200000, m_match_price = 1190000, m_match_quantity = 5, m_timestamp = 77\<rparr>"


end
