(* ===== verification/OrderBookProcessor.thy ===== *)
theory OrderBookProcessor
  imports OrderBook_Props SettlementProcessor MarketDataPublisher
begin

text \<open>
  \<^verbatim>\<open>OrderBookProcessor.hpp\<close>: the thread of one ticker. It takes events from its queue in batches,
  applies them to the book, and hands the trades of the batch to the publisher and the clearing,
  and every cancellation to the clearing at once.
\<close>

record OrderBookProcessor =
  obp_ticker_id :: u32
  obp_book :: OrderBook
  obp_queue :: "EngineEvent list"
  obp_running :: bool
  obp_has_settlement :: bool

definition OrderBookProcessor_new :: "u32 \<Rightarrow> bool \<Rightarrow> OrderBookProcessor" where
  "OrderBookProcessor_new tk sp = \<lparr>obp_ticker_id = tk, obp_book = OrderBook_new tk, obp_queue = [],
     obp_running = True, obp_has_settlement = sp\<rparr>"

definition obp_enqueue :: "EngineEvent \<Rightarrow> OrderBookProcessor \<Rightarrow> OrderBookProcessor" where
  "obp_enqueue ev p = p\<lparr>obp_queue := obp_queue p @ [ev]\<rparr>"

definition obp_getBestBidOffer :: "OrderBookProcessor \<Rightarrow> i64 \<times> i64" where
  "obp_getBestBidOffer p = getBestBidOffer (obp_book p)"

definition obp_getUserOrder :: "u64 \<Rightarrow> OrderBookProcessor \<Rightarrow> ptr list" where
  "obp_getUserOrder uid p = getUserActiveOrder uid (obp_book p)"

definition cancel_record :: "Order \<Rightarrow> u64 \<Rightarrow> CancelRecord" where
  "cancel_record x t = \<lparr>c_ticker_id = o_ticker_id x, c_order_id = o_order_id x, c_user_id = o_user_id x,
     c_side = o_side x, c_price = o_price x, c_quantity = o_quantity x, c_timestamp = t\<rparr>"

text \<open>What a batch works on: the orders, the book, the trades of the batch and the clearing.\<close>

record batch_state =
  bs_heap :: heap
  bs_book :: OrderBook
  bs_results :: "MatchRecord list"
  bs_settlement :: Settlement

text \<open>
  One event of the batch; \<open>now\<close> gives the clock readings made while it is handled. The 64-bit order
  id of the event is converted to the 32-bit parameter of \<^verbatim>\<open>cancelOrder\<close>.
\<close>

definition process_event :: "bool \<Rightarrow> (nat \<Rightarrow> u64) \<Rightarrow> EngineEvent \<Rightarrow> batch_state \<Rightarrow> batch_state" where
  "process_event has_settlement now ev s =
     (case ev_type ev of
        NEW_ORDER \<Rightarrow>
          (let (h, b, rs) = processOrder now (ev_order ev) (bs_heap s) (bs_book s) (bs_results s)
           in s\<lparr>bs_heap := h, bs_book := b, bs_results := rs\<rparr>)
      | CANCEL_ORDER \<Rightarrow>
          (let (canceled, b) = cancelOrder (ucast (ev_cancel_order_id ev)) (ev_cancel_user_id ev) (bs_heap s) (bs_book s);
               s' = s\<lparr>bs_book := b\<rparr>
           in case canceled of
                None \<Rightarrow> s'
              | Some p \<Rightarrow> if has_settlement
                  then s'\<lparr>bs_settlement := pushCancelRecord (cancel_record (bs_heap s p) (now 0)) (bs_settlement s')\<rparr>
                  else s'))"

fun process_events :: "bool \<Rightarrow> (nat \<Rightarrow> nat \<Rightarrow> u64) \<Rightarrow> EngineEvent list \<Rightarrow> batch_state \<Rightarrow> batch_state" where
  "process_events sp clock [] s = s"
| "process_events sp clock (ev # evs) s =
     process_events sp (\<lambda>i. clock (Suc i)) evs (process_event sp (clock 0) ev s)"

definition obp_batch_size :: nat where "obp_batch_size = 1000"

text \<open>One round of \<^verbatim>\<open>processLoop\<close> in which the queue hands out \<open>n\<close> events, at most the batch size.\<close>

definition obp_round :: "(nat \<Rightarrow> nat \<Rightarrow> u64) \<Rightarrow> nat \<Rightarrow> OrderBookProcessor \<Rightarrow> heap \<Rightarrow> Settlement \<Rightarrow> Publisher
    \<Rightarrow> OrderBookProcessor \<times> heap \<times> Settlement \<times> Publisher" where
  "obp_round clock n p h st pub =
     (let count = min n obp_batch_size; buffer = take count (obp_queue p)
      in if \<not> obp_running p \<or> buffer = [] then (p, h, st, pub)
         else
           let s = process_events (obp_has_settlement p) clock buffer
                 \<lparr>bs_heap = h, bs_book = obp_book p, bs_results = [], bs_settlement = st\<rparr>;
               p' = p\<lparr>obp_book := bs_book s, obp_queue := drop count (obp_queue p)\<rparr>
           in if bs_results s = [] then (p', bs_heap s, bs_settlement s, pub)
              else (p', bs_heap s,
                    (if obp_has_settlement p then pushRecords (bs_results s) (bs_settlement s) else bs_settlement s),
                    Publisher_pushRecords (bs_results s) pub))"

definition obp_stop :: "OrderBookProcessor \<Rightarrow> OrderBookProcessor" where
  "obp_stop p = p\<lparr>obp_running := False\<rparr>"

end
