(* ===== verification/MatchingEngine.thy ===== *)
theory MatchingEngine
  imports OrderBookProcessor
begin

text \<open>\<^verbatim>\<open>MatchingEngine.hpp\<close>: one order book processor per ticker, and the routing of events to them.\<close>

record MatchingEngine =
  order_books :: "(u32, OrderBookProcessor) umap"
  me_has_settlement :: bool

definition MatchingEngine_new :: "bool \<Rightarrow> MatchingEngine" where
  "MatchingEngine_new sp = \<lparr>order_books = [], me_has_settlement = sp\<rparr>"

definition MatchingEngine_init :: "u32 \<Rightarrow> MatchingEngine \<Rightarrow> MatchingEngine" where
  "MatchingEngine_init ticker_id e =
     (if map_of (order_books e) ticker_id = None
      then e\<lparr>order_books := AList.update ticker_id (OrderBookProcessor_new ticker_id (me_has_settlement e)) (order_books e)\<rparr>
      else e)"

definition MatchingEngine_processOrder :: "heap \<Rightarrow> ptr \<Rightarrow> MatchingEngine \<Rightarrow> bool \<times> MatchingEngine" where
  "MatchingEngine_processOrder h order e =
     (let tk = o_ticker_id (h order)
      in case map_of (order_books e) tk of
           None \<Rightarrow> (False, e)
         | Some p \<Rightarrow> (True, e\<lparr>order_books := AList.update tk
             (obp_enqueue ((EngineEvent_of NEW_ORDER)\<lparr>ev_order := order\<rparr>) p) (order_books e)\<rparr>))"

text \<open>
  The ticker parameter is a \<^verbatim>\<open>uint64_t\<close> that is narrowed for the lookup; without a book the
  out-parameters keep what the caller put there.
\<close>

definition MatchingEngine_getBestBidOffer :: "u64 \<Rightarrow> i64 \<times> i64 \<Rightarrow> MatchingEngine \<Rightarrow> i64 \<times> i64" where
  "MatchingEngine_getBestBidOffer ticker_id out e =
     (case map_of (order_books e) (ucast ticker_id) of None \<Rightarrow> out | Some p \<Rightarrow> obp_getBestBidOffer p)"

definition MatchingEngine_CancelOrder :: "u32 \<Rightarrow> u64 \<Rightarrow> u64 \<Rightarrow> MatchingEngine \<Rightarrow> MatchingEngine" where
  "MatchingEngine_CancelOrder ticker_id order_id user_id e =
     (case map_of (order_books e) ticker_id of
        None \<Rightarrow> e
      | Some p \<Rightarrow> e\<lparr>order_books := AList.update ticker_id
          (obp_enqueue ((EngineEvent_of CANCEL_ORDER)\<lparr>ev_cancel_order_id := order_id, ev_cancel_user_id := user_id\<rparr>) p)
          (order_books e)\<rparr>)"

definition MatchingEngine_getUserActiveOrder :: "u64 \<Rightarrow> MatchingEngine \<Rightarrow> ptr list" where
  "MatchingEngine_getUserActiveOrder user_id e = concat (map (\<lambda>(tk, p). obp_getUserOrder user_id p) (order_books e))"

text \<open>The loop of \<^verbatim>\<open>main\<close> that opens a book for every ticker.\<close>

definition init_books :: "u32 list \<Rightarrow> MatchingEngine \<Rightarrow> MatchingEngine" where
  "init_books ids e = fold MatchingEngine_init ids e"

lemma init_books_get:
  "map_of (order_books (init_books ids e)) tk =
     (case map_of (order_books e) tk of Some p \<Rightarrow> Some p
      | None \<Rightarrow> if tk \<in> set ids then Some (OrderBookProcessor_new tk (me_has_settlement e)) else None)"
proof (induction ids arbitrary: e)
  case (Cons i ids)
  have "me_has_settlement (MatchingEngine_init i e) = me_has_settlement e" by (simp add: MatchingEngine_init_def)
  then show ?case using Cons.IH [of "MatchingEngine_init i e"]
    by (auto simp: init_books_def MatchingEngine_init_def split: option.splits if_splits)
qed (simp add: init_books_def split: option.split)

end
