(* ===== verification/WALManager.thy ===== *)
theory WALManager
  imports MatchingEngine
begin

text \<open>
  \<^verbatim>\<open>WALManager.hpp\<close>: every event is written to the log file before it is passed to the engine. The
  log is a sequence of packed 46-byte records.
\<close>

section \<open>Log records\<close>

record WALRecord =
  w_type :: u8
  w_timestamp :: u64
  w_order_id :: u64
  w_ticker_id :: u32
  w_user_id :: u64
  w_side :: u8
  w_price :: u64
  w_quantity :: u64

definition sizeof_WALRecord :: nat where "sizeof_WALRecord = 46"

definition put_WALRecord :: "WALRecord \<Rightarrow> bytes" where
  "put_WALRecord r = put_u8 (w_type r) @ put_u64 (w_timestamp r) @ put_u64 (w_order_id r) @ put_u32 (w_ticker_id r) @
     put_u64 (w_user_id r) @ put_u8 (w_side r) @ put_u64 (w_price r) @ put_u64 (w_quantity r)"

definition get_WALRecord :: "bytes \<Rightarrow> WALRecord" where
  "get_WALRecord bs = \<lparr>w_type = get_u8 bs, w_timestamp = get_u64 (drop 1 bs), w_order_id = get_u64 (drop 9 bs),
     w_ticker_id = get_u32 (drop 17 bs), w_user_id = get_u64 (drop 21 bs), w_side = get_u8 (drop 29 bs),
     w_price = get_u64 (drop 30 bs), w_quantity = get_u64 (drop 38 bs)\<rparr>"

interpretation WALRecord_codec: fixed_codec put_WALRecord get_WALRecord sizeof_WALRecord "\<lambda>_. True"
  by unfold_locales (simp_all add: put_WALRecord_def get_WALRecord_def sizeof_WALRecord_def)

text \<open>\<open>t\<close> is the clock reading of a cancel record.\<close>

definition wal_record :: "heap \<Rightarrow> u64 \<Rightarrow> EngineEvent \<Rightarrow> WALRecord" where
  "wal_record h t ev =
     (if ev_type ev = NEW_ORDER then
        let x = h (ev_order ev)
        in \<lparr>w_type = 0, w_timestamp = o_timestamp x, w_order_id = o_order_id x, w_ticker_id = o_ticker_id x,
            w_user_id = o_user_id x, w_side = (if o_side x = BUY then 0 else 1), w_price = o_price x,
            w_quantity = o_quantity x\<rparr>
      else \<lparr>w_type = 1, w_timestamp = t, w_order_id = ev_cancel_order_id ev, w_ticker_id = ev_ticker_id ev,
            w_user_id = ev_cancel_user_id ev, w_side = 0, w_price = 0, w_quantity = 0\<rparr>)"

section \<open>The manager\<close>

record WALManager =
  wal_queue :: "EngineEvent list"
  wal_running :: bool
  wal_open :: bool
  wal_file :: bytes

text \<open>The file is opened for appending; \<open>opened\<close> tells whether that succeeds.\<close>

definition WALManager_new :: "bool \<Rightarrow> bytes \<Rightarrow> WALManager" where
  "WALManager_new opened old = \<lparr>wal_queue = [], wal_running = True, wal_open = opened, wal_file = old\<rparr>"

definition appendOrder :: "ptr \<Rightarrow> WALManager \<Rightarrow> WALManager" where
  "appendOrder order w = w\<lparr>wal_queue := wal_queue w @ [(EngineEvent_of NEW_ORDER)\<lparr>ev_order := order\<rparr>]\<rparr>"

definition appendCancel :: "u32 \<Rightarrow> u64 \<Rightarrow> u64 \<Rightarrow> WALManager \<Rightarrow> WALManager" where
  "appendCancel ticker_id order_id user_id w =
     w\<lparr>wal_queue := wal_queue w @ [(EngineEvent_of CANCEL_ORDER)\<lparr>ev_ticker_id := ticker_id,
        ev_cancel_order_id := order_id, ev_cancel_user_id := user_id\<rparr>]\<rparr>"

definition wal_forward :: "heap \<Rightarrow> EngineEvent \<Rightarrow> MatchingEngine \<Rightarrow> MatchingEngine" where
  "wal_forward h ev e =
     (if ev_type ev = NEW_ORDER then snd (MatchingEngine_processOrder h (ev_order ev) e)
      else MatchingEngine_CancelOrder (ev_ticker_id ev) (ev_cancel_order_id ev) (ev_cancel_user_id ev) e)"

definition wal_batch_size :: nat where "wal_batch_size = 1000"

text \<open>
  One round of \<^verbatim>\<open>processerLoop\<close>: the queue hands out \<open>n\<close> events, at most the batch size; \<open>clock i\<close> is
  the time read for the \<open>i\<close>-th of them; \<open>stored\<close> is the number of bytes that \<^verbatim>\<open>fwrite\<close> stores, which
  the code does not check.
\<close>

definition wal_round :: "(nat \<Rightarrow> u64) \<Rightarrow> nat \<Rightarrow> nat \<Rightarrow> heap \<Rightarrow> WALManager \<Rightarrow> MatchingEngine \<Rightarrow> WALManager \<times> MatchingEngine" where
  "wal_round clock stored n h w e =
     (let count = min n wal_batch_size; buffer = take count (wal_queue w)
      in if \<not> wal_running w \<or> buffer = [] then (w, e)
         else
           let data = concat (map (\<lambda>(i, ev). put_WALRecord (wal_record h (clock i) ev)) (zip [0 ..< length buffer] buffer));
               file = (if wal_open w then wal_file w @ take stored data else wal_file w)
           in (w\<lparr>wal_queue := drop count (wal_queue w), wal_file := file\<rparr>, fold (wal_forward h) buffer e))"

definition WALManager_stop :: "WALManager \<Rightarrow> WALManager" where
  "WALManager_stop w = w\<lparr>wal_running := False, wal_open := False\<rparr>"

section \<open>Reading the log back\<close>

definition read_log :: "bytes \<Rightarrow> WALRecord list" where
  "read_log bs = map (\<lambda>i. get_WALRecord (drop (i * sizeof_WALRecord) bs)) [0 ..< length bs div sizeof_WALRecord]"

lemma read_log_records: "read_log (concat (map put_WALRecord rs)) = rs"
  using WALRecord_codec.array_items [of rs "[]"] WALRecord_codec.array_length [of rs] WALRecord_codec.width_pos
  by (simp add: read_log_def list_all_iff)

lemma take_records:
  "\<exists>tail. length tail < sizeof_WALRecord \<and>
     take n (concat (map put_WALRecord rs)) = concat (map put_WALRecord (take (n div sizeof_WALRecord) rs)) @ tail"
proof (induction rs arbitrary: n)
  case Nil
  then show ?case using WALRecord_codec.width_pos by simp
next
  case (Cons r rs)
  have l: "length (put_WALRecord r) = sizeof_WALRecord" by (rule WALRecord_codec.enc_length) simp
  show ?case
  proof (cases "n < sizeof_WALRecord")
    case True
    then show ?thesis by (intro exI [of _ "take n (put_WALRecord r)"]) (simp add: l)
  next
    case False
    then have "n div sizeof_WALRecord = Suc ((n - sizeof_WALRecord) div sizeof_WALRecord)"
      using WALRecord_codec.width_pos by (simp add: le_div_geq)
    with Cons.IH [of "n - sizeof_WALRecord"] False show ?thesis by (auto simp: l)
  qed
qed

lemma read_log_tail:
  assumes "length tail < sizeof_WALRecord"
  shows "read_log (concat (map put_WALRecord rs) @ tail) = rs"
proof -
  have "length (concat (map put_WALRecord rs) @ tail) div sizeof_WALRecord = length rs"
    using WALRecord_codec.array_length [of rs] assms by (simp add: list_all_iff)
  then show ?thesis
    using WALRecord_codec.array_items [of rs tail] by (simp add: read_log_def list_all_iff)
qed

lemma map_enumerate: "map (\<lambda>(i, x). f i x) (zip [0 ..< length xs] xs) = map (\<lambda>i. f i (xs ! i)) [0 ..< length xs]"
  by (rule nth_equalityI) simp_all


definition ex_logged :: Order where
  "ex_logged = \<lparr>o_order_id = 8, o_ticker_id = 7, o_user_id = 3, o_side = BUY, o_price = 100, o_quantity = 2, o_timestamp = 0\<rparr>"

definition ex_wal :: WALManager where
  "ex_wal = appendCancel 7 42 3 (appendOrder 1 (WALManager_new True []))"


end
