(* ===== verification/OrderIdGenerator.thy ===== *)
theory OrderIdGenerator
  imports Prelude
begin

unbundle bit_operations_syntax

text \<open>
  \<^verbatim>\<open>OrderIdGenerator.hpp\<close>: ids made of a millisecond timestamp, a node id and a sequence number.
  The state is the atomic 32-bit counter; the clock reading is an argument.
\<close>

definition EPOCH :: u64 where "EPOCH = 1767225600000"
definition NODE_ID_BITS :: nat where "NODE_ID_BITS = 10"
definition SEQUENCE_BITS :: nat where "SEQUENCE_BITS = 12"
definition MAX_NODE_ID :: u16 where "MAX_NODE_ID = push_bit NODE_ID_BITS 1 - 1"
definition MAX_SEQUENCE :: u16 where "MAX_SEQUENCE = push_bit SEQUENCE_BITS 1 - 1"
definition NODE_ID_SHIFT :: nat where "NODE_ID_SHIFT = SEQUENCE_BITS"
definition TIMESTAMP_SHIFT :: nat where "TIMESTAMP_SHIFT = SEQUENCE_BITS + NODE_ID_BITS"

record OrderIdGenerator =
  node_id :: u16
  sequence :: u32

definition OrderIdGenerator_new :: OrderIdGenerator where
  "OrderIdGenerator_new = \<lparr>node_id = 1, sequence = 0\<rparr>"

definition generate :: "u64 \<Rightarrow> OrderIdGenerator \<Rightarrow> u64 \<times> OrderIdGenerator" where
  "generate timestamp g =
     (let seq = sequence g
      in (push_bit TIMESTAMP_SHIFT (timestamp - EPOCH) OR
          push_bit NODE_ID_SHIFT (ucast (node_id g)) OR
          ucast (seq AND ucast MAX_SEQUENCE),
          g\<lparr>sequence := seq + 1\<rparr>))"

text \<open>A run of the generator over the clock readings of the calls.\<close>

fun generate_all :: "u64 list \<Rightarrow> OrderIdGenerator \<Rightarrow> u64 list \<times> OrderIdGenerator" where
  "generate_all [] g = ([], g)"
| "generate_all (t # ts) g =
     (let (i, g1) = generate t g; (is, g2) = generate_all ts g1 in (i # is, g2))"

section \<open>Fields of an id\<close>

lemma max_sequence: "(ucast MAX_SEQUENCE :: u32) = mask 12"
  by (simp add: MAX_SEQUENCE_def SEQUENCE_BITS_def mask_eq_exp_minus_1)

lemma generate_id:
  assumes "node_id g = 1"
  shows "fst (generate t g) = push_bit 22 (t - EPOCH) OR push_bit 12 1 OR ucast (take_bit 12 (sequence g))"
proof -
  have "TIMESTAMP_SHIFT = 22" "NODE_ID_SHIFT = 12"
    by (simp_all add: TIMESTAMP_SHIFT_def NODE_ID_SHIFT_def SEQUENCE_BITS_def NODE_ID_BITS_def)
  then show ?thesis
    unfolding generate_def Let_def fst_conv assms max_sequence take_bit_eq_mask by simp
qed

lemma generate_high:
  assumes "node_id g = 1"
  shows "drop_bit 22 (fst (generate t g)) = take_bit 42 (t - EPOCH)"
  unfolding generate_id [OF assms] by (rule bit_word_eqI) (auto simp: bit_simps)

lemma generate_low:
  assumes "node_id g = 1"
  shows "take_bit 12 (fst (generate t g)) = ucast (take_bit 12 (sequence g))"
  unfolding generate_id [OF assms] by (rule bit_word_eqI) (auto simp: bit_simps)

lemma generate_eq:
  assumes "node_id g = 1" and "node_id g' = 1"
  shows "fst (generate t g) = fst (generate t' g') \<longleftrightarrow>
    take_bit 42 (t - EPOCH) = take_bit 42 (t' - EPOCH) \<and> take_bit 12 (sequence g) = take_bit 12 (sequence g')"
    (is "?l \<longleftrightarrow> ?a \<and> ?b")
proof (intro iffI conjI)
  assume ?l
  then show ?a using generate_high [OF assms(1), of t] generate_high [OF assms(2), of t'] by simp
  from \<open>?l\<close> have "(ucast (take_bit 12 (sequence g)) :: u64) = ucast (take_bit 12 (sequence g'))"
    using generate_low [OF assms(1), of t] generate_low [OF assms(2), of t'] by simp
  then show ?b by (metis ucast_back_32)
next
  assume ab: "?a \<and> ?b"
  have "push_bit 22 (t - EPOCH) = push_bit 22 (take_bit 42 (t - EPOCH))" for t
    by (rule bit_word_eqI) (auto simp: bit_simps)
  with ab have "push_bit 22 (t - EPOCH) = push_bit 22 (t' - EPOCH)" by metis
  with ab show ?l by (simp add: generate_id assms)
qed

lemma mod_eq_dvd_int: "(a :: nat) mod n = b mod n \<longleftrightarrow> int n dvd int a - int b"
  by (metis mod_eq_dvd_iff of_nat_eq_iff of_nat_mod)

lemma take_bit12_seq:
  "take_bit 12 (s + of_nat i :: u32) = take_bit 12 (s + of_nat j) \<longleftrightarrow> i mod 4096 = j mod 4096"
proof -
  have u: "unat (take_bit 12 (s + of_nat k)) = (unat s + k) mod 4096" for k
  proof -
    have "unat (take_bit 12 (s + of_nat k)) = unat (s + of_nat k) mod 4096"
      by (simp only: unsigned_take_bit_eq) (simp add: take_bit_eq_mod)
    also have "unat (s + of_nat k) = (unat s + k) mod 4294967296"
      by (simp add: unat_word_ariths unat_of_nat mod_simps)
    finally show ?thesis by (simp add: mod_mod_cancel)
  qed
  have "take_bit 12 (s + of_nat i :: u32) = take_bit 12 (s + of_nat j) \<longleftrightarrow>
      (unat s + i) mod 4096 = (unat s + j) mod 4096"
    by (simp only: word_unat_eq_iff u)
  also have "\<dots> \<longleftrightarrow> i mod 4096 = j mod 4096" by (simp only: mod_eq_dvd_int) simp
  finally show ?thesis .
qed

lemma timestamp_take_bit:
  assumes "EPOCH \<le> t" "t < EPOCH + 2 ^ 42"
  shows "take_bit 42 (t - EPOCH) = t - EPOCH"
proof -
  have "unat t < 1767225600000 + 4398046511104" "1767225600000 \<le> unat t"
    using assms by (simp_all add: word_less_nat_alt word_le_nat_alt EPOCH_def)
  then have "unat (t - EPOCH) < 2 ^ 42" using assms(1) by (simp add: unat_sub EPOCH_def)
  then show ?thesis by (simp add: word_unat_eq_iff unsigned_take_bit_eq take_bit_nat_eq_self_iff)
qed

lemma generate_all_length [simp]: "length (fst (generate_all ts g)) = length ts"
  by (induction ts arbitrary: g) (auto simp: Let_def case_prod_beta)

lemma generate_all_nth:
  "i < length ts \<Longrightarrow> fst (generate_all ts g) ! i = fst (generate (ts ! i) (g\<lparr>sequence := sequence g + of_nat i\<rparr>))"
proof (induction ts arbitrary: g i)
  case (Cons t ts)
  then show ?case
    by (cases i) (simp_all add: case_prod_beta generate_def Let_def algebra_simps)
qed simp

section \<open>Uniqueness\<close>

text \<open>
  C15. The ids of a run of calls are pairwise distinct exactly when no two calls in the same
  millisecond are a multiple of 4096 calls apart: the 12-bit sequence number keeps ids of one
  millisecond apart for 4096 calls and then repeats. The clock readings are those of the 139 years
  for which the timestamp field is wide enough.
\<close>

theorem generated_ids_distinct:
  assumes "node_id g = 1" and "\<forall>t \<in> set ts. EPOCH \<le> t \<and> t < EPOCH + 2 ^ 42"
  shows "distinct (fst (generate_all ts g)) \<longleftrightarrow>
    (\<forall>i j. i < j \<and> j < length ts \<and> ts ! i = ts ! j \<longrightarrow> (j - i) mod 4096 \<noteq> 0)"
proof -
  have eq: "fst (generate_all ts g) ! i = fst (generate_all ts g) ! j \<longleftrightarrow> ts ! i = ts ! j \<and> (j - i) mod 4096 = 0"
    if "i < j" "j < length ts" for i j
  proof -
    have "take_bit 42 (ts ! i - EPOCH) = take_bit 42 (ts ! j - EPOCH) \<longleftrightarrow> ts ! i = ts ! j"
      using assms(2) that by (simp add: timestamp_take_bit)
    moreover have "i mod 4096 = j mod 4096 \<longleftrightarrow> (j - i) mod 4096 = 0"
      using that by (metis mod_eq_dvd_iff_nat dvd_eq_mod_eq_0 less_imp_le)
    ultimately show ?thesis
      using that assms(1) by (simp add: generate_all_nth generate_eq take_bit12_seq)
  qed
  show ?thesis
    unfolding distinct_conv_nth generate_all_length
  proof (intro iffI allI impI notI)
    fix i j
    assume d: "\<forall>i < length ts. \<forall>j < length ts. i \<noteq> j \<longrightarrow> fst (generate_all ts g) ! i \<noteq> fst (generate_all ts g) ! j"
      and ij: "i < j \<and> j < length ts \<and> ts ! i = ts ! j" and z: "(j - i) mod 4096 = 0"
    have "i < length ts" "j < length ts" "i \<noteq> j" using ij by simp_all
    with d have "fst (generate_all ts g) ! i \<noteq> fst (generate_all ts g) ! j" by blast
    with eq [of i j] ij z show False by simp
  next
    fix i j
    assume sep: "\<forall>i j. i < j \<and> j < length ts \<and> ts ! i = ts ! j \<longrightarrow> (j - i) mod 4096 \<noteq> 0"
      and l: "i < length ts" "j < length ts" and ne: "i \<noteq> j"
      and same: "fst (generate_all ts g) ! i = fst (generate_all ts g) ! j"
    have False if "a < b" "b < length ts" "fst (generate_all ts g) ! a = fst (generate_all ts g) ! b" for a b
    proof -
      have "ts ! a = ts ! b" "(b - a) mod 4096 = 0" using eq [OF that(1,2)] that(3) by simp_all
      with sep [rule_format, of a b] that(1,2) show False by simp
    qed
    note contra = this
    from ne consider "i < j" | "j < i" by linarith
    then show False by cases (use contra [of i j] contra [of j i] l same in simp_all)
  qed
qed

theorem generated_ids_distinct_witness:
  "distinct (fst (generate_all [1770000000000, 1770000000000, 1770000000001] OrderIdGenerator_new))"
proof -
  have "\<forall>i j. i < j \<and> j < length [1770000000000 :: u64, 1770000000000, 1770000000001] \<longrightarrow> (j - i) mod 4096 \<noteq> 0"
    by (auto simp: less_Suc_eq)
  then show ?thesis
    using generated_ids_distinct [of OrderIdGenerator_new "[1770000000000, 1770000000000, 1770000000001]"]
    by (simp only: OrderIdGenerator_new_def EPOCH_def) simp
qed

text \<open>From about one second after the epoch, every id needs more than 32 bits.\<close>

lemma generated_id_wide:
  assumes "node_id g = 1" and "EPOCH + 1024 \<le> t" "t < EPOCH + 2 ^ 42"
  shows "2 ^ 32 \<le> unat (fst (generate t g))"
proof -
  have t: "EPOCH \<le> t" using assms(2) by (simp add: word_le_nat_alt EPOCH_def)
  have "1024 \<le> unat (t - EPOCH)" using assms(2) t by (simp add: word_le_nat_alt unat_sub EPOCH_def)
  also have "t - EPOCH = drop_bit 22 (fst (generate t g))"
    using generate_high [OF assms(1), of t] timestamp_take_bit [OF t assms(3)] by simp
  finally have "1024 \<le> unat (fst (generate t g)) div 2 ^ 22"
    unfolding unat_drop_bit_eq by (simp only: drop_bit_eq_div)
  then show ?thesis by simp
qed

end
