(* ===== verification/Handlers.thy ===== *)
theory Handlers
  imports Sessions WALManager OrderIdGenerator
begin

text \<open>
  \<^verbatim>\<open>Handler.hpp\<close>: the thirteen business handlers. They work on the session of the connection and on
  the server, whose singletons and shared objects are the fields of one record. Readings of the
  clock, the random shuffle, uninitialised memory, Redis and the JSON parser are arguments.
\<close>

section \<open>The server\<close>

text \<open>
  \<open>'d\<close> is the state behind the repositories. \<open>sv_next\<close> is the next free address for an order;
  addresses are not reused.
\<close>

record 'd Server =
  sv_db :: 'd
  sv_um :: UserManager
  sv_tm :: TickerManager
  sv_gen :: OrderIdGenerator
  sv_heap :: heap
  sv_next :: ptr
  sv_wal :: WALManager
  sv_engine :: MatchingEngine
  sv_settle :: Settlement
  sv_pub :: Publisher
  sv_redis :: RedisPool

definition on_db :: "('d, 'a) prog \<Rightarrow> (Session \<times> 'd Server, 'a) prog" where
  "on_db m = zoom (\<lambda>s. sv_db (snd s)) (\<lambda>d s. (fst s, (snd s)\<lparr>sv_db := d\<rparr>)) m"

definition on_session :: "(Session \<Rightarrow> Session) \<Rightarrow> (Session \<times> 'd Server, unit) prog" where
  "on_session f = modify (\<lambda>s. (f (fst s), snd s))"

definition on_server :: "('d Server \<Rightarrow> 'd Server) \<Rightarrow> (Session \<times> 'd Server, unit) prog" where
  "on_server f = modify (\<lambda>s. (fst s, f (snd s)))"

text \<open>\<^verbatim>\<open>if (req_len < sizeof(T)) return "";\<close>\<close>

definition need :: "nat \<Rightarrow> u32 \<Rightarrow> ('s, bytes) prog \<Rightarrow> ('s, bytes) prog" where
  "need n req_len m = (if unat req_len < n then ret [] else m)"

definition symbolToTickerId :: "TickerManager \<Rightarrow> string \<Rightarrow> u32" where
  "symbolToTickerId tm symbol = (let i = getTickerId tm symbol in if i \<noteq> 0 then i else 999)"

definition tickerIdToSymbol :: "TickerManager \<Rightarrow> u32 \<Rightarrow> string" where
  "tickerIdToSymbol tm i = getSymbol tm i"

section \<open>Accounts\<close>

text \<open>
  The two strings are read up to the first NUL, also beyond the 32 bytes of their field. On a
  failed login the user id of the reply is uninitialised memory, \<open>junk\<close>.
\<close>

definition LoginHandler :: "u64 \<Rightarrow> 'd IUserRepository \<Rightarrow> ('d Server) IHandler" where
  "LoginHandler junk userRepo req req_len =
     need sizeof_AuthRequest req_len (
       let username = c_str req; password = c_str (drop 32 req)
       in bnd (on_db (checkLogin userRepo username password)) (\<lambda>ok.
          if ok then
            bnd (on_session (\<lambda>ss. ss\<lparr>ss_username := username\<rparr>)) (\<lambda>_.
            bnd (gets (\<lambda>s. getId (sv_um (snd s)) username)) (\<lambda>cached.
            bnd (if cached = 0
                 then bnd (on_db (getUserId userRepo username)) (\<lambda>db_id.
                      bnd (if db_id \<noteq> 0 then on_server (\<lambda>sv. sv\<lparr>sv_um := createUserAccount db_id username (sv_um sv)\<rparr>)
                           else ret ()) (\<lambda>_. ret db_id))
                 else ret cached) (\<lambda>db_id.
            bnd (on_session (\<lambda>ss. ss\<lparr>ss_user_id := db_id\<rparr>)) (\<lambda>_.
            ret (put_AuthResponse \<lparr>as_status = 1, as_user_id = db_id\<rparr>)))))
          else ret (put_AuthResponse \<lparr>as_status = 0, as_user_id = junk\<rparr>)))"

definition RegisterUserHandler :: "'d IUserRepository \<Rightarrow> ('d Server) IHandler" where
  "RegisterUserHandler userRepo req req_len =
     need sizeof_AuthRequest req_len (
       let username = c_str req; password = c_str (drop 32 req)
       in bnd (on_db (registerUser userRepo username password)) (\<lambda>ok.
          if ok then
            bnd (on_db (getUserId userRepo username)) (\<lambda>new_id.
            bnd (on_server (\<lambda>sv. sv\<lparr>sv_um := createUserAccount new_id username (sv_um sv)\<rparr>)) (\<lambda>_.
            bnd (on_session (\<lambda>ss. ss\<lparr>ss_username := username, ss_user_id := new_id\<rparr>)) (\<lambda>_.
            ret (put_AuthResponse \<lparr>as_status = 1, as_user_id = new_id\<rparr>))))
          else ret (put_AuthResponse \<lparr>as_status = 0, as_user_id = 0\<rparr>)))"

definition ExitHandler :: "('d Server) IHandler" where
  "ExitHandler req req_len =
     bnd (gets (\<lambda>s. isLoggedIn (fst s))) (\<lambda>logged_in.
       if logged_in
       then bnd (on_session (\<lambda>ss. ss\<lparr>ss_username := []\<rparr>)) (\<lambda>_. ret (put_GenericResponse \<lparr>gr_status = 1\<rparr>))
       else ret (put_GenericResponse \<lparr>gr_status = 0\<rparr>))"

definition GetBalanceHandler :: "('d Server) IHandler" where
  "GetBalanceHandler req req_len =
     gets (\<lambda>(ss, sv). if \<not> isLoggedIn ss then put_BalanceResponse \<lparr>br_status = 0, br_balance = 0\<rparr>
       else put_BalanceResponse \<lparr>br_status = 1, br_balance = getBalance (sv_um sv) (ss_user_id ss)\<rparr>)"

definition DepositHandler :: "'d IUserRepository \<Rightarrow> ('d Server) IHandler" where
  "DepositHandler userRepo req req_len =
     bnd (gets fst) (\<lambda>ss.
       if \<not> isLoggedIn ss then ret (put_DepositResponse \<lparr>dr_status = 0, dr_new_balance = 0\<rparr>)
       else need sizeof_DepositRequest req_len (
         let amount = dq_amount (get_DepositRequest req)
         in if sint amount \<le> 0 then ret (put_DepositResponse \<lparr>dr_status = 0, dr_new_balance = 0\<rparr>)
            else bnd (on_db (updateBalance userRepo (ss_username ss) amount)) (\<lambda>ok.
              if ok then
                bnd (on_server (\<lambda>sv. sv\<lparr>sv_um := addBalance (ss_user_id ss) amount (sv_um sv)\<rparr>)) (\<lambda>_.
                bnd (on_db (repo_getBalance userRepo (ss_username ss))) (\<lambda>b.
                ret (put_DepositResponse \<lparr>dr_status = 1, dr_new_balance = b\<rparr>)))
              else ret (put_DepositResponse \<lparr>dr_status = 0, dr_new_balance = 0\<rparr>))))"

section \<open>Trading\<close>

text \<open>
  \<open>ms\<close> and \<open>ts\<close> are the clock readings for the id and for the order. The order is built before the
  funds are frozen; when the freeze is refused, nobody keeps its address.
\<close>

definition request_order :: "TradeRequest \<Rightarrow> u64 \<Rightarrow> u64 \<Rightarrow> u64 \<Rightarrow> Order" where
  "request_order r order_id user_id ts =
     \<lparr>o_order_id = order_id, o_ticker_id = tq_ticker_id r, o_user_id = user_id,
      o_side = (if tq_side r = 0 then BUY else SELL), o_price = tq_price r, o_quantity = ucast (tq_amount r),
      o_timestamp = ts\<rparr>"

definition null_order :: Order where
  "null_order = \<lparr>o_order_id = 0, o_ticker_id = 0, o_user_id = 0, o_side = BUY, o_price = 0, o_quantity = 0, o_timestamp = 0\<rparr>"

definition make_order :: "Order \<Rightarrow> 'd Server \<Rightarrow> 'd Server" where
  "make_order x sv = sv\<lparr>sv_heap := (sv_heap sv)(sv_next sv := x), sv_next := Suc (sv_next sv)\<rparr>"

definition TradeHandler :: "u64 \<Rightarrow> u64 \<Rightarrow> ('d Server) IHandler" where
  "TradeHandler ms ts req_s req_len =
     bnd (gets fst) (\<lambda>ss.
       if \<not> isLoggedIn ss then ret (put_TradeResponse \<lparr>tr_status = 0\<rparr>)
       else need sizeof_TradeRequest req_len (\<lambda>(ss, sv).
         let r = get_TradeRequest req_s;
             (oid, gen) = generate ms (sv_gen sv);
             x = request_order r oid (ss_user_id ss) ts;
             order = sv_next sv;
             sv1 = make_order x (sv\<lparr>sv_gen := gen\<rparr>);
             (ok, um) = (if o_side x = BUY
                         then tryFreezeBalance (ss_user_id ss) (tq_price r * ucast (tq_amount r)) (sv_um sv1)
                         else tryFreezeStock (ss_user_id ss) (o_ticker_id x) (tq_amount r) (sv_um sv1))
         in if ok
            then (Inr (put_TradeResponse \<lparr>tr_status = 1\<rparr>), (ss, sv1\<lparr>sv_um := um, sv_wal := appendOrder order (sv_wal sv1)\<rparr>))
            else (Inr (put_TradeResponse \<lparr>tr_status = 0\<rparr>), (ss, sv1\<lparr>sv_um := um\<rparr>))))"

definition CancelOrderHandler :: "('d Server) IHandler" where
  "CancelOrderHandler req req_len =
     bnd (gets fst) (\<lambda>ss.
       if \<not> isLoggedIn ss then ret (put_GenericResponse \<lparr>gr_status = 0\<rparr>)
       else need sizeof_CancelRequest req_len (
         let r = get_CancelRequest req
         in bnd (on_server (\<lambda>sv. sv\<lparr>sv_wal := appendCancel (cq_ticker_id r) (cq_order_id r) (ss_user_id ss) (sv_wal sv)\<rparr>))
              (\<lambda>_. ret (put_GenericResponse \<lparr>gr_status = 1\<rparr>))))"

section \<open>Queries\<close>

definition stock_item :: "TickerManager \<Rightarrow> string \<Rightarrow> StockItem" where
  "stock_item tm symb = \<lparr>si_ticker_id = symbolToTickerId tm symb, si_symbol = fixed_str 16 symb\<rparr>"

definition GetAllStocksHandler :: "'d IStockRepository \<Rightarrow> ('d Server) IHandler" where
  "GetAllStocksHandler stockRepo req req_len =
     bnd (on_db (getAllStocks stockRepo)) (\<lambda>stocks.
     gets (\<lambda>s. put_StocksResponseHeader \<lparr>sh_status = 1, sh_count = of_nat (length stocks)\<rparr> @
       concat (map (\<lambda>symb. put_StockItem (stock_item (sv_tm (snd s)) symb)) stocks)))"

definition holding_items :: "(u32, i32) umap \<Rightarrow> HoldingItem list" where
  "holding_items holdings =
     map (\<lambda>(tk, qty). \<lparr>hi_ticker_id = tk, hi_quantity = qty\<rparr>) (filter (\<lambda>(tk, qty). 0 < sint qty) holdings)"

definition GetHoldingsHandler :: "('d Server) IHandler" where
  "GetHoldingsHandler req req_len =
     gets (\<lambda>(ss, sv). if \<not> isLoggedIn ss then put_HoldingsResponseHeader \<lparr>hh_status = 0, hh_count = 0\<rparr>
       else let items = holding_items (getHoldings (sv_um sv) (ss_user_id ss))
            in put_HoldingsResponseHeader \<lparr>hh_status = 1, hh_count = of_nat (length items)\<rparr> @
               concat (map put_HoldingItem items))"

definition GetMarketHandler :: "('d Server) IHandler" where
  "GetMarketHandler req req_len =
     need sizeof_MarketRequest req_len (gets (\<lambda>(ss, sv).
       let (best_bid, best_ask) = MatchingEngine_getBestBidOffer (ucast (mq_ticker_id (get_MarketRequest req))) (0, 0) (sv_engine sv)
       in put_MarketResponse \<lparr>mr_status = 1, mr_best_bid = best_bid, mr_best_ask = best_ask\<rparr>))"

definition order_item :: "Order \<Rightarrow> OrderItem" where
  "order_item x = \<lparr>oi_order_id = o_order_id x, oi_ticker_id = o_ticker_id x,
     oi_side = (if o_side x = BUY then 0 else 1), oi_price = o_price x, oi_amount = o_quantity x\<rparr>"

definition GetOrdersHandler :: "('d Server) IHandler" where
  "GetOrdersHandler req req_len =
     gets (\<lambda>(ss, sv). if \<not> isLoggedIn ss then put_OrdersResponseHeader \<lparr>oh_status = 0, oh_count = 0\<rparr>
       else let items = map (\<lambda>p. order_item (sv_heap sv p)) (MatchingEngine_getUserActiveOrder (ss_user_id ss) (sv_engine sv))
            in put_OrdersResponseHeader \<lparr>oh_status = 1, oh_count = of_nat (length items)\<rparr> @
               concat (map put_OrderItem items))"

text \<open>
  \<open>zrevrange\<close> is the answer of Redis to \<^verbatim>\<open>ZREVRANGE key 0 9\<close>, \<open>None\<close> unless it is an array;
  \<open>parse_price\<close> is \<^verbatim>\<open>json::parse(s)["price"].get<uint64_t>()\<close>, \<open>None\<close> when it throws.
\<close>

definition trend_prices :: "(string \<Rightarrow> u64 option) \<Rightarrow> string list option \<Rightarrow> u64 list" where
  "trend_prices parse_price reply =
     (case reply of None \<Rightarrow> [] | Some elements \<Rightarrow> rev (List.map_filter (\<lambda>e. parse_price (c_str e)) elements))"

definition GetTrendHandler :: "(string \<Rightarrow> string list option) \<Rightarrow> (string \<Rightarrow> u64 option) \<Rightarrow> ('d Server) IHandler" where
  "GetTrendHandler zrevrange parse_price req req_len =
     need sizeof_TrendRequest req_len (let ticker_id = eq_ticker_id (get_TrendRequest req) in (\<lambda>(ss, sv).
       case RedisPool_getConnection (sv_redis sv) of
         None \<Rightarrow> (Inl Blocked, (ss, sv))
       | Some (conn, pool) \<Rightarrow>
           let prices = trend_prices parse_price (zrevrange (trade_key ticker_id))
           in (Inr (put_TrendResponseHeader \<lparr>eh_status = 1, eh_count = of_nat (length prices)\<rparr> @
                    concat (map put_u64 prices)),
               (ss, sv\<lparr>sv_redis := RedisPool_deleter conn pool\<rparr>))))"

subsection \<open>News\<close>

record NewsTemplate =
  nt_title :: string
  nt_type :: string
  nt_symbol :: string

text \<open>The titles are UTF-8 text.\<close>

definition utf8 :: "nat list \<Rightarrow> string" where
  "utf8 bs = map char_of bs"

definition newsPool :: "NewsTemplate list" where
  "newsPool =
     [
      \<lparr>nt_title = utf8 [65, 112, 112, 108, 101, 32, 40, 65, 65, 80, 76, 41, 32, 229, 174, 163, 229, 184, 131, 229, 176, 134, 232, 135, 170, 231, 160, 148, 32, 65, 73, 32, 232, 138, 175, 231, 137, 135, 230, 149, 180, 229, 144, 136, 232, 135, 179, 229, 133, 168, 231, 186, 191, 228, 186, 167, 229, 147, 129, 239, 188, 140, 229, 184, 130, 229, 156, 186, 229, 143, 141, 229, 147, 141, 229, 137, 167, 231, 131, 136],
       nt_type = ''Tech'', nt_symbol = ''AAPL''\<rparr>,
      \<lparr>nt_title = utf8 [105, 80, 104, 111, 110, 101, 32, 49, 54, 32, 228, 190, 155, 229, 186, 148, 233, 147, 190, 228, 188, 160, 229, 135, 186, 229, 136, 169, 229, 165, 189, 239, 188, 140, 229, 141, 176, 229, 186, 166, 231, 187, 132, 232, 163, 133, 230, 149, 136, 231, 142, 135, 229, 164, 167, 229, 185, 133, 230, 143, 144, 229, 141, 135, 232, 182, 133, 229, 135, 186, 233, 162, 132, 230, 156, 159],
       nt_type = ''Tech'', nt_symbol = ''AAPL''\<rparr>,
      \<lparr>nt_title = utf8 [65, 112, 112, 32, 83, 116, 111, 114, 101, 32, 230, 156, 141, 229, 138, 161, 228, 184, 154, 229, 138, 161, 230, 148, 182, 229, 133, 165, 229, 136, 155, 229, 173, 163, 229, 186, 166, 230, 150, 176, 233, 171, 152, 239, 188, 140, 65, 65, 80, 76, 32, 232, 130, 161, 228, 187, 183, 231, 155, 152, 229, 137, 141, 228, 184, 138, 230, 182, 168, 32, 50, 37],
       nt_type = ''Earnings'', nt_symbol = ''AAPL''\<rparr>,
      \<lparr>nt_title = utf8 [78, 118, 105, 100, 105, 97, 32, 40, 78, 86, 68, 65, 41, 32, 229, 143, 145, 229, 184, 131, 32, 66, 108, 97, 99, 107, 119, 101, 108, 108, 32, 230, 158, 182, 230, 158, 132, 32, 71, 80, 85, 239, 188, 140, 65, 73, 32, 232, 174, 161, 231, 174, 151, 230, 128, 167, 232, 131, 189, 230, 143, 144, 229, 141, 135, 32, 53, 32, 229, 128, 141],
       nt_type = ''Tech'', nt_symbol = ''NVDA''\<rparr>,
      \<lparr>nt_title = utf8 [229, 133, 168, 231, 144, 131, 230, 149, 176, 230, 141, 174, 228, 184, 173, 229, 191, 131, 229, 175, 185, 32, 72, 49, 48, 48, 32, 233, 156, 128, 230, 177, 130, 228, 190, 157, 231, 132, 182, 229, 188, 186, 229, 138, 178, 239, 188, 140, 78, 86, 68, 65, 32, 232, 174, 162, 229, 141, 149, 229, 183, 178, 230, 142, 146, 232, 135, 179, 32, 50, 48, 50, 53, 32, 229, 185, 180],
       nt_type = ''Macro'', nt_symbol = ''NVDA''\<rparr>,
      \<lparr>nt_title = utf8 [229, 136, 134, 230, 158, 144, 229, 184, 136, 228, 184, 138, 232, 176, 131, 32, 78, 86, 68, 65, 32, 231, 155, 174, 230, 160, 135, 228, 187, 183, 232, 135, 179, 32, 36, 49, 48, 48, 48, 239, 188, 140, 231, 167, 176, 32, 65, 73, 32, 233, 157, 169, 229, 145, 189, 229, 176, 154, 229, 164, 132, 228, 186, 142, 230, 151, 169, 230, 156, 159, 233, 152, 182, 230, 174, 181],
       nt_type = ''Tech'', nt_symbol = ''NVDA''\<rparr>,
      \<lparr>nt_title = utf8 [84, 101, 115, 108, 97, 32, 40, 84, 83, 76, 65, 41, 32, 70, 83, 68, 32, 86, 49, 50, 32, 231, 137, 136, 230, 156, 172, 229, 156, 168, 229, 140, 151, 231, 190, 142, 229, 133, 168, 233, 135, 143, 230, 142, 168, 233, 128, 129, 239, 188, 140, 232, 135, 170, 229, 138, 168, 233, 169, 190, 233, 169, 182, 232, 131, 156, 231, 142, 135, 230, 143, 144, 229, 141, 135],
       nt_type = ''Tech'', nt_symbol = ''TSLA''\<rparr>,
      \<lparr>nt_title = utf8 [231, 137, 185, 230, 150, 175, 230, 139, 137, 228, 184, 138, 230, 181, 183, 232, 182, 133, 231, 186, 167, 229, 183, 165, 229, 142, 130, 230, 137, 169, 229, 187, 186, 233, 161, 185, 231, 155, 174, 232, 142, 183, 230, 137, 185, 239, 188, 140, 229, 185, 180, 228, 186, 167, 232, 131, 189, 230, 156, 137, 230, 156, 155, 231, 170, 129, 231, 160, 180, 32, 49, 53, 48, 32, 228, 184, 135, 232, 190, 134],
       nt_type = ''Macro'', nt_symbol = ''TSLA''\<rparr>,
      \<lparr>nt_title = utf8 [84, 83, 76, 65, 32, 229, 130, 168, 232, 131, 189, 228, 184, 154, 229, 138, 161, 32, 40, 77, 101, 103, 97, 112, 97, 99, 107, 41, 32, 229, 136, 169, 230, 182, 166, 231, 142, 135, 230, 152, 190, 232, 145, 151, 230, 143, 144, 229, 141, 135, 239, 188, 140, 230, 136, 144, 228, 184, 186, 230, 150, 176, 231, 154, 132, 229, 162, 158, 233, 149, 191, 229, 188, 149, 230, 147, 142],
       nt_type = ''Earnings'', nt_symbol = ''TSLA''\<rparr>,
      \<lparr>nt_title = utf8 [231, 190, 142, 232, 129, 148, 229, 130, 168, 32, 51, 32, 230, 156, 136, 228, 188, 154, 232, 174, 174, 231, 186, 170, 232, 166, 129, 230, 152, 190, 231, 164, 186, 233, 153, 141, 230, 129, 175, 233, 162, 132, 230, 156, 159, 231, 170, 151, 229, 143, 163, 229, 143, 175, 232, 131, 189, 229, 187, 182, 229, 144, 142, 239, 188, 140, 231, 186, 179, 230, 140, 135, 230, 137, 191, 229, 142, 139],
       nt_type = ''Macro'', nt_symbol = ''Global''\<rparr>,
      \<lparr>nt_title = utf8 [231, 167, 145, 230, 138, 128, 229, 183, 168, 229, 164, 180, 233, 155, 134, 228, 189, 147, 229, 162, 158, 230, 140, 129, 32, 65, 73, 32, 229, 159, 186, 231, 161, 128, 232, 174, 190, 230, 150, 189, 239, 188, 140, 229, 141, 138, 229, 175, 188, 228, 189, 147, 230, 157, 191, 229, 157, 151, 229, 135, 186, 231, 142, 176, 233, 129, 191, 233, 153, 169, 232, 181, 132, 233, 135, 145, 230, 181, 129, 229, 133, 165],
       nt_type = ''Macro'', nt_symbol = ''Global''\<rparr>,
      \<lparr>nt_title = utf8 [231, 190, 142, 229, 128, 186, 230, 148, 182, 231, 155, 138, 231, 142, 135, 229, 176, 143, 229, 185, 133, 229, 155, 158, 232, 144, 189, 239, 188, 140, 230, 136, 144, 233, 149, 191, 229, 158, 139, 231, 167, 145, 230, 138, 128, 232, 130, 161, 229, 144, 184, 229, 188, 149, 229, 138, 155, 229, 162, 158, 229, 188, 186],
       nt_type = ''Macro'', nt_symbol = ''Global''\<rparr>]"

text \<open>\<open>shuffled\<close> is the pool after \<^verbatim>\<open>std::shuffle\<close>, \<open>now\<close> the time in seconds.\<close>

definition news_item :: "i64 \<Rightarrow> nat \<Rightarrow> NewsTemplate \<Rightarrow> NewsItem" where
  "news_item now i t = \<lparr>ni_time = ucast (now - of_nat (i * 300)), ni_title = fixed_str 128 (nt_title t),
     ni_type = fixed_str 16 (nt_type t), ni_symbol = fixed_str 16 (nt_symbol t)\<rparr>"

definition GetNewsHandler :: "(NewsTemplate list \<Rightarrow> NewsTemplate list) \<Rightarrow> i64 \<Rightarrow> ('d Server) IHandler" where
  "GetNewsHandler shuffle now req req_len =
     (let shuffled = shuffle newsPool; items = map (\<lambda>i. news_item now i (shuffled ! i)) [0 ..< 3]
      in ret (put_NewsResponseHeader \<lparr>nh_status = 1, nh_count = of_nat (length items)\<rparr> @ concat (map put_NewsItem items)))"

end
