(* ===== verification/Business.thy ===== *)
theory Business
  imports Handlers
begin

text \<open>
  \<^verbatim>\<open>main.cpp\<close>: reading a connection, cutting the byte stream into packets, dispatching each packet
  and sending the reply; and the start-up of the server. What \<^verbatim>\<open>recv\<close> and \<^verbatim>\<open>send\<close> return is an
  argument: a list of results, in the order of the calls.
\<close>

section \<open>Reading\<close>

datatype recv_result = Received bytes | RecvAgain | RecvInterrupted | RecvError | PeerClosed

text \<open>
  The end of the list stands for \<^verbatim>\<open>EAGAIN\<close>. \<open>None\<close>: the connection is cleaned up and what was read
  before is dropped. A chunk is what fits the 4096-byte buffer.
\<close>

fun read_loop :: "recv_result list \<Rightarrow> bytes \<Rightarrow> bytes option" where
  "read_loop [] localData = Some localData"
| "read_loop (Received bs # rs) localData = (if bs = [] then None else read_loop rs (localData @ bs))"
| "read_loop (RecvAgain # rs) localData = Some localData"
| "read_loop (RecvInterrupted # rs) localData = read_loop rs localData"
| "read_loop (RecvError # rs) localData = None"
| "read_loop (PeerClosed # rs) localData = None"

section \<open>Sending\<close>

datatype send_result = Sent nat | SendAgain | SendError

text \<open>
  The bytes of the packet that go out and the results left for later calls; \<open>None\<close> when the list
  ends while the loop still waits for the peer.
\<close>

fun send_packet :: "send_result list \<Rightarrow> bytes \<Rightarrow> (bytes \<times> send_result list) option" where
  "send_packet sc packet =
     (if packet = [] then Some ([], sc)
      else case sc of
        [] \<Rightarrow> None
      | SendAgain # sc' \<Rightarrow> send_packet sc' packet
      | SendError # sc' \<Rightarrow> Some ([], sc')
      | Sent n # sc' \<Rightarrow>
          if n = 0 then Some ([], sc')
          else map_option (\<lambda>(bs, sc''). (take n packet @ bs, sc'')) (send_packet sc' (drop n packet)))"

declare send_packet.simps [simp del]

section \<open>Framing and dispatch\<close>

definition reply_packet :: "u16 \<Rightarrow> bytes \<Rightarrow> bytes" where
  "reply_packet raw_type reply =
     put_PacketHeader \<lparr>h_length = htonl (of_nat (length reply)), h_type = htons (raw_type + 1)\<rparr> @ reply"

text \<open>Where the loop over the buffer ends: the unprocessed bytes, the state, the socket.\<close>

record 'e frame_state =
  fs_rest :: bytes
  fs_state :: "Session \<times> 'e"
  fs_script :: "send_result list"
  fs_out :: bytes

text \<open>
  The header check: the raw message type, the length, the memory from the payload on and what
  follows the packet, or \<open>None\<close> while the buffer holds no complete packet.
\<close>

definition parse_packet :: "bytes \<Rightarrow> (u16 \<times> u32 \<times> bytes \<times> bytes) option" where
  "parse_packet bs =
     (if length bs < sizeof_PacketHeader then None
      else
        let hdr = get_PacketHeader bs; len = ntohl (h_length hdr); raw_type = ntohs (h_type hdr)
        in if length bs < sizeof_PacketHeader + unat len then None
           else Some (raw_type, len, drop sizeof_PacketHeader bs, drop (sizeof_PacketHeader + unat len) bs))"

text \<open>
  One round of the loop on the unprocessed part of the buffer. An exception is caught and answered
  with nothing; a call that waits forever or runs into undefined behaviour ends the run of the
  thread.
\<close>

datatype 'e round = Idle | Stuck fault "'e frame_state" | Next "'e frame_state"

definition frame_round :: "'e Router \<Rightarrow> 'e frame_state \<Rightarrow> 'e round" where
  "frame_round r s =
     (case parse_packet (fs_rest s) of
        None \<Rightarrow> Idle
      | Some (raw_type, len, payload, rest) \<Rightarrow>
          (case dispatch r raw_type payload len (fs_state s) of
             (Inl (Threw e), st) \<Rightarrow> Next (s\<lparr>fs_rest := rest, fs_state := st\<rparr>)
           | (Inl f, st) \<Rightarrow> Stuck f (s\<lparr>fs_state := st\<rparr>)
           | (Inr reply, st) \<Rightarrow>
               if reply = [] then Next (s\<lparr>fs_rest := rest, fs_state := st\<rparr>)
               else case send_packet (fs_script s) (reply_packet raw_type reply) of
                      None \<Rightarrow> Stuck Blocked (s\<lparr>fs_state := st\<rparr>)
                    | Some (sent, sc) \<Rightarrow>
                        Next \<lparr>fs_rest = rest, fs_state = st, fs_script = sc, fs_out = fs_out s @ sent\<rparr>))"

lemma parse_packet_shorter: "parse_packet bs = Some (ty, len, payload, rest) \<Longrightarrow> length rest < length bs \<and> unat len \<le> length payload"
  by (auto simp: parse_packet_def Let_def sizeof_PacketHeader_def split: if_splits)

lemma frame_round_shorter: "frame_round r s = Next t \<Longrightarrow> length (fs_rest t) < length (fs_rest s)"
  using parse_packet_shorter
  by (fastforce simp: frame_round_def split: option.splits prod.splits sum.splits fault.splits if_splits)

function frame_loop :: "'e Router \<Rightarrow> 'e frame_state \<Rightarrow> fault option \<times> 'e frame_state" where
  "frame_loop r s =
     (case frame_round r s of Idle \<Rightarrow> (None, s) | Stuck f t \<Rightarrow> (Some f, t) | Next t \<Rightarrow> frame_loop r t)"
  by pat_completeness auto

termination
  by (relation "measure (\<lambda>(r, s). length (fs_rest s))") (simp_all add: frame_round_shorter)

declare frame_loop.simps [simp del]

text \<open>The sessions, the closed descriptors and the rest of the server.\<close>

record 'e World =
  wd_sessions :: SessionManager
  wd_closed :: "i32 list"
  wd_server :: 'e

text \<open>
  The result of the callback with the bytes sent; an \<open>Inl\<close> result is a thread that does not come
  back, with the state it leaves.
\<close>

definition MyEchoBusiness :: "'e Router \<Rightarrow> recv_result list \<Rightarrow> send_result list \<Rightarrow> i32 \<Rightarrow> 'e World
    \<Rightarrow> (fault + bool \<times> bytes) \<times> 'e World" where
  "MyEchoBusiness r rs sc client_fd w =
     (case getSession (wd_sessions w) client_fd of
        None \<Rightarrow> (Inr (False, []), w)
      | Some ss \<Rightarrow>
          (case read_loop rs [] of
             None \<Rightarrow> let (sm, closed) = cleanConnection client_fd (wd_sessions w, wd_closed w)
                     in (Inr (False, []), w\<lparr>wd_sessions := sm, wd_closed := closed\<rparr>)
           | Some localData \<Rightarrow>
               if localData = [] then (Inr (True, []), w)
               else
                 let ss1 = ss\<lparr>ss_buffer := ss_buffer ss @ localData\<rparr>;
                     (stuck, s) = frame_loop r \<lparr>fs_rest = ss_buffer ss1, fs_state = (ss1, wd_server w),
                                               fs_script = sc, fs_out = []\<rparr>;
                     (ss2, e) = fs_state s
                 in case stuck of
                      Some f \<Rightarrow> (Inl f, w\<lparr>wd_sessions := (wd_sessions w)(sint client_fd := Some ss2), wd_server := e\<rparr>)
                    | None \<Rightarrow> (Inr (True, fs_out s),
                        w\<lparr>wd_sessions := (wd_sessions w)(sint client_fd := Some (ss2\<lparr>ss_buffer := fs_rest s\<rparr>)), wd_server := e\<rparr>)))"

section \<open>Start-up\<close>

text \<open>
  The two routers of the program: the global \<^verbatim>\<open>g_router\<close>, where \<^verbatim>\<open>main\<close> registers the handlers,
  and the instance that \<^verbatim>\<open>MyEchoBusiness\<close> asks.
\<close>

record 'e Routers =
  g_router :: "'e Router"
  router_instance :: "'e Router"

text \<open>What the handlers take from the outside world.\<close>

record Outside =
  ow_junk :: u64
  ow_ms :: u64
  ow_ts :: u64
  ow_zrevrange :: "string \<Rightarrow> string list option"
  ow_parse_price :: "string \<Rightarrow> u64 option"
  ow_shuffle :: "NewsTemplate list \<Rightarrow> NewsTemplate list"
  ow_now :: i64

definition register_handlers :: "Outside \<Rightarrow> 'd IUserRepository \<Rightarrow> 'd IStockRepository \<Rightarrow> ('d Server) Router \<Rightarrow> ('d Server) Router" where
  "register_handlers ow userRepo stockRepo r =
     registerHandler ALL_STOCKS_REQ (GetAllStocksHandler stockRepo)
     (registerHandler CANCEL_REQ CancelOrderHandler
     (registerHandler ORDERS_REQ GetOrdersHandler
     (registerHandler TREND_REQ (GetTrendHandler (ow_zrevrange ow) (ow_parse_price ow))
     (registerHandler NEWS_REQ (GetNewsHandler (ow_shuffle ow) (ow_now ow))
     (registerHandler MARKET_REQ GetMarketHandler
     (registerHandler HOLDINGS_REQ GetHoldingsHandler
     (registerHandler TRADE_REQ (TradeHandler (ow_ms ow) (ow_ts ow))
     (registerHandler DEPOSIT_REQ (DepositHandler userRepo)
     (registerHandler BALANCE_REQ GetBalanceHandler
     (registerHandler LOGOUT_REQ ExitHandler
     (registerHandler REGISTER_REQ (RegisterUserHandler userRepo)
     (registerHandler LOGIN_REQ (LoginHandler (ow_junk ow) userRepo) r))))))))))))"

text \<open>
  \<^verbatim>\<open>main\<close> up to the event loop: connection pools, accounts, tickers, books, the log, the routes. An
  exception of a loading function ends the process.
\<close>

definition server_main :: "'d mysql \<Rightarrow> 'd \<Rightarrow> (nat \<Rightarrow> ptr \<times> bool) \<Rightarrow> (nat \<Rightarrow> ptr \<times> bool) \<Rightarrow> bool \<Rightarrow> bytes \<Rightarrow> Outside
    \<Rightarrow> fault + (('d DbServer) Server \<times> (('d DbServer) Server) Routers)" where
  "server_main my d db_connect redis_connect wal_opened wal_old ow =
     (let db = \<lparr>dbs_pool = DBPool_init db_connect ''127.0.0.1'' ''root'' ''root'' ''test_db'' 49 DBPool_new, dbs_data = d\<rparr>;
          redis = fst (RedisPool_init redis_connect (\<lambda>_. True) ''127.0.0.1'' 6379 [] 49 RedisPool_new)
      in case loadAllFromDB my TickerManager_new (db, UserManager_new) of
           (Inl f, _) \<Rightarrow> Inl f
         | (Inr _, (db1, um)) \<Rightarrow>
             (case loadAllTickersFromDB my (db1, TickerManager_new) of
                (Inl f, _) \<Rightarrow> Inl f
              | (Inr _, (db2, tm)) \<Rightarrow>
                  Inr (\<lparr>sv_db = db2, sv_um = um, sv_tm = tm, sv_gen = OrderIdGenerator_new, sv_heap = \<lambda>_. null_order,
                        sv_next = 1, sv_wal = WALManager_new wal_opened wal_old,
                        sv_engine = init_books (getAllTickerIds tm) (MatchingEngine_new True),
                        sv_settle = Settlement_new, sv_pub = Publisher_new, sv_redis = redis\<rparr>,
                       \<lparr>g_router = register_handlers ow (UserRepositoryImpl my) (StockRepositoryImpl my) Router_new,
                        router_instance = Router_new\<rparr>)))"

end
