(* ===== verification/Business_Props.thy ===== *)
theory Business_Props
  imports Business
begin

text \<open>
  The byte stream of a connection: packets are recognised independently of how the network cuts
  the stream, a request of the client reaches its handler unchanged, and what the program's own
  start-up makes of it.
\<close>

section \<open>Handlers that read only their request\<close>

text \<open>A handler is local when the bytes behind the request do not matter to it.\<close>

definition local_handler :: "'e IHandler \<Rightarrow> bool" where
  "local_handler h \<longleftrightarrow> (\<forall>req rest len. unat len \<le> length req \<longrightarrow> h (req @ rest) len = h req len)"

definition local_router :: "'e Router \<Rightarrow> bool" where
  "local_router r \<longleftrightarrow> (\<forall>ty h. map_of r ty = Some h \<longrightarrow> local_handler h)"

lemma local_router_new: "local_router Router_new"
  by (simp add: local_router_def Router_new_def)

lemma local_router_register: "local_router r \<Longrightarrow> local_handler h \<Longrightarrow> local_router (registerHandler ty h r)"
  by (auto simp: local_router_def registerHandler_def)

lemma dispatch_local:
  "local_router r \<Longrightarrow> unat len \<le> length req \<Longrightarrow> dispatch r ty (req @ rest) len = dispatch r ty req len"
  by (auto simp: dispatch_def local_router_def local_handler_def split: option.split)

lemma need_local:
  "(\<And>rest. n \<le> unat len \<Longrightarrow> m (req @ rest) = m req) \<Longrightarrow> need n len (m (req @ rest)) = need n len (m req)"
  by (simp add: need_def)

lemma local_trade: "local_handler (TradeHandler ms ts)"
  unfolding local_handler_def TradeHandler_def need_def
  using TradeRequest_codec.dec_prefix by (auto simp: fun_eq_iff)

lemma local_cancel: "local_handler CancelOrderHandler"
  unfolding local_handler_def CancelOrderHandler_def need_def
  using CancelRequest_codec.dec_prefix by (auto simp: fun_eq_iff)

lemma local_deposit: "local_handler (DepositHandler repo)"
  unfolding local_handler_def DepositHandler_def need_def
  using DepositRequest_codec.dec_prefix by (auto simp: fun_eq_iff)

lemma local_market: "local_handler GetMarketHandler"
  unfolding local_handler_def GetMarketHandler_def need_def
  using MarketRequest_codec.dec_prefix by (auto simp: fun_eq_iff)

lemma local_trend: "local_handler (GetTrendHandler z p)"
  unfolding local_handler_def
proof (intro allI impI)
  fix req rest :: bytes and len :: u32
  assume "unat len \<le> length req"
  then have "\<not> unat len < sizeof_TrendRequest \<Longrightarrow> get_TrendRequest (req @ rest) = get_TrendRequest req"
    by (intro TrendRequest_codec.dec_prefix) simp
  then show "GetTrendHandler z p (req @ rest) len = GetTrendHandler z p req len"
    by (cases "unat len < sizeof_TrendRequest") (simp_all add: GetTrendHandler_def need_def)
qed

lemma local_queries:
  "local_handler ExitHandler" "local_handler GetBalanceHandler" "local_handler GetHoldingsHandler"
  "local_handler GetOrdersHandler" "local_handler (GetNewsHandler shuffle now)" "local_handler (GetAllStocksHandler repo)"
  by (simp_all add: local_handler_def ExitHandler_def GetBalanceHandler_def GetHoldingsHandler_def
      GetOrdersHandler_def GetNewsHandler_def GetAllStocksHandler_def)

lemmas local_intros = local_router_new local_router_register local_trade local_cancel local_deposit
  local_market local_trend local_queries

section \<open>Cutting the stream\<close>

lemma parse_packet_append:
  assumes "parse_packet bs = Some (ty, len, payload, rest)"
  shows "parse_packet (bs @ extra) = Some (ty, len, payload @ extra, rest @ extra)"
proof -
  let ?h = "get_PacketHeader bs"
  have l: "sizeof_PacketHeader \<le> length bs" "sizeof_PacketHeader + unat (ntohl (h_length ?h)) \<le> length bs"
    and eq: "ty = ntohs (h_type ?h)" "len = ntohl (h_length ?h)" "payload = drop sizeof_PacketHeader bs"
      "rest = drop (sizeof_PacketHeader + unat (ntohl (h_length ?h))) bs"
    using assms by (auto simp: parse_packet_def Let_def split: if_splits)
  have "get_PacketHeader (bs @ extra) = ?h" by (rule PacketHeader_codec.dec_prefix [OF l(1)])
  with l eq show ?thesis by (simp add: parse_packet_def Let_def)
qed

lemma frame_round_append:
  assumes "local_router r" and "frame_round r s = Next t"
  shows "frame_round r (s\<lparr>fs_rest := fs_rest s @ extra\<rparr>) = Next (t\<lparr>fs_rest := fs_rest t @ extra\<rparr>)"
proof -
  obtain ty len payload rest where p: "parse_packet (fs_rest s) = Some (ty, len, payload, rest)"
    using assms(2) by (auto simp: frame_round_def split: option.splits)
  have "dispatch r ty (payload @ extra) len (fs_state s) = dispatch r ty payload len (fs_state s)"
    using dispatch_local [OF assms(1)] parse_packet_shorter [OF p] by simp
  then show ?thesis
    using assms(2) parse_packet_append [OF p, of extra]
    by (auto simp: frame_round_def p split: prod.splits sum.splits fault.splits if_splits option.splits)
qed

lemma frame_loop_append:
  assumes "local_router r" and "frame_loop r s = (None, s')"
  shows "frame_loop r (s\<lparr>fs_rest := fs_rest s @ extra\<rparr>) = frame_loop r (s'\<lparr>fs_rest := fs_rest s' @ extra\<rparr>)"
  using assms
proof (induction r s rule: frame_loop.induct)
  case (1 r s)
  show ?case
  proof (cases "frame_round r s")
    case Idle
    then show ?thesis using 1(3) by (simp add: frame_loop.simps [of r s])
  next
    case (Stuck f t)
    then show ?thesis using 1(3) by (simp add: frame_loop.simps [of r s])
  next
    case (Next t)
    then have "frame_loop r (t\<lparr>fs_rest := fs_rest t @ extra\<rparr>) = frame_loop r (s'\<lparr>fs_rest := fs_rest s' @ extra\<rparr>)"
      using 1 by (simp add: frame_loop.simps [of r s])
    then show ?thesis
      by (simp add: frame_loop.simps [of r "s\<lparr>fs_rest := fs_rest s @ extra\<rparr>"] frame_round_append [OF 1(2) Next])
  qed
qed

text \<open>The buffer grows by a chunk and is processed as far as it goes.\<close>

definition feed :: "'e Router \<Rightarrow> bytes \<Rightarrow> 'e frame_state \<Rightarrow> fault option \<times> 'e frame_state" where
  "feed r chunk s = frame_loop r (s\<lparr>fs_rest := fs_rest s @ chunk\<rparr>)"


definition ex_router :: "(unit Server) Router" where
  "ex_router = registerHandler LOGOUT_REQ ExitHandler (registerHandler CANCEL_REQ CancelOrderHandler Router_new)"

definition ex_frame :: "'e \<Rightarrow> 'e frame_state" where
  "ex_frame e = \<lparr>fs_rest = [], fs_state = (Session_new 7, e), fs_script = [Sent 100, Sent 100], fs_out = []\<rparr>"

definition ex_sv :: "unit Server" where
  "ex_sv = \<lparr>sv_db = (), sv_um = UserManager_new, sv_tm = TickerManager_new, sv_gen = OrderIdGenerator_new,
     sv_heap = (\<lambda>_. null_order), sv_next = 1, sv_wal = WALManager_new True [], sv_engine = MatchingEngine_new True,
     sv_settle = Settlement_new, sv_pub = Publisher_new, sv_redis = RedisPool_new\<rparr>"


section \<open>The two routers\<close>

text \<open>On a router without handlers every packet is consumed and answered with nothing.\<close>

lemma frame_round_unrouted: "frame_round Router_new s = Idle \<or> (\<exists>rest. frame_round Router_new s = Next (s\<lparr>fs_rest := rest\<rparr>))"
  by (auto simp: frame_round_def dispatch_def Router_new_def split: option.split)

lemma routed_register: "map_of (registerHandler ty h r) ty' \<noteq> None \<longleftrightarrow> ty' = ty \<or> map_of r ty' \<noteq> None"
  by (simp add: registerHandler_def)

lemma frame_loop_unrouted: "\<exists>rest. frame_loop Router_new s = (None, s\<lparr>fs_rest := rest\<rparr>)"
proof (induction "length (fs_rest s)" arbitrary: s rule: less_induct)
  case less
  show ?case
  proof (cases "frame_round Router_new s = Idle")
    case True
    then show ?thesis by (intro exI [of _ "fs_rest s"]) (simp add: frame_loop.simps [of Router_new s])
  next
    case False
    then obtain rest where n: "frame_round Router_new s = Next (s\<lparr>fs_rest := rest\<rparr>)" using frame_round_unrouted by blast
    with less [of "s\<lparr>fs_rest := rest\<rparr>"] frame_round_shorter [OF n] show ?thesis
      by (auto simp: frame_loop.simps [of Router_new s])
  qed
qed

text \<open>
  C40. No request reaches a handler. \<^verbatim>\<open>main\<close> registers all thirteen handlers on the global
  \<^verbatim>\<open>g_router\<close>, but \<^verbatim>\<open>MyEchoBusiness\<close> asks \<^verbatim>\<open>Router::getInstance()\<close>, which is another object: after
  every successful start-up, whatever a connection sends, the callback returns, sends nothing back
  and leaves the server as it was.
\<close>

theorem requests_reach_no_handler:
  assumes "server_main my d db_connect redis_connect wal_opened wal_old ow = Inr (sv, rt)"
  shows "(\<forall>ty \<in> {LOGIN_REQ, REGISTER_REQ, LOGOUT_REQ, BALANCE_REQ, DEPOSIT_REQ, TRADE_REQ, HOLDINGS_REQ, MARKET_REQ,
        NEWS_REQ, TREND_REQ, ORDERS_REQ, CANCEL_REQ, ALL_STOCKS_REQ}. map_of (g_router rt) ty \<noteq> None) \<and>
    (\<exists>ok w'. MyEchoBusiness (router_instance rt) rs sc fd w = (Inr (ok, []), w') \<and> wd_server w' = wd_server w)"
proof -
  have rt: "g_router rt = register_handlers ow (UserRepositoryImpl my) (StockRepositoryImpl my) Router_new" "router_instance rt = Router_new"
    using assms by (auto simp: server_main_def Let_def split: prod.splits sum.splits)
  have "\<exists>ok w'. MyEchoBusiness Router_new rs sc fd w = (Inr (ok, []), w') \<and> wd_server w' = wd_server w"
  proof (cases "getSession (wd_sessions w) fd")
    case None
    then show ?thesis by (auto simp: MyEchoBusiness_def)
  next
    case (Some ss)
    show ?thesis
    proof (cases "read_loop rs []")
      case None
      with Some show ?thesis by (auto simp: MyEchoBusiness_def Let_def case_prod_beta)
    next
      case data: (Some localData)
      let ?ss = "ss\<lparr>ss_buffer := ss_buffer ss @ localData\<rparr>"
      let ?s = "\<lparr>fs_rest = ss_buffer ?ss, fs_state = (?ss, wd_server w), fs_script = sc, fs_out = []\<rparr>"
      obtain rest where "frame_loop Router_new ?s = (None, ?s\<lparr>fs_rest := rest\<rparr>)" using frame_loop_unrouted by blast
      with Some data show ?thesis by (auto simp: MyEchoBusiness_def Let_def)
    qed
  qed
  moreover have "\<forall>ty \<in> {LOGIN_REQ, REGISTER_REQ, LOGOUT_REQ, BALANCE_REQ, DEPOSIT_REQ, TRADE_REQ, HOLDINGS_REQ, MARKET_REQ,
        NEWS_REQ, TREND_REQ, ORDERS_REQ, CANCEL_REQ, ALL_STOCKS_REQ}. map_of (g_router rt) ty \<noteq> None"
    unfolding rt(1) register_handlers_def by (simp only: routed_register ball_simps simp_thms)
  ultimately show ?thesis unfolding rt(2) by blast
qed

definition ex_closed_server :: "unit mysql" where
  "ex_closed_server = ex_stock_server\<lparr>my_query := \<lambda>_ d. (False, None, d)\<rparr>"

definition ex_ow :: Outside where
  "ex_ow = \<lparr>ow_junk = 0, ow_ms = 0, ow_ts = 0, ow_zrevrange = \<lambda>_. None, ow_parse_price = \<lambda>_. None, ow_shuffle = \<lambda>ts. ts, ow_now = 0\<rparr>"

theorem requests_reach_no_handler_witness:
  "\<exists>sv rt ok w'. server_main ex_closed_server () (\<lambda>i. (Suc i, True)) (\<lambda>i. (Suc i, False)) True [] ex_ow = Inr (sv, rt) \<and>
     MyEchoBusiness (router_instance rt) [Received [CHR 0x00, CHR 0x00, CHR 0x00, CHR 0x00, CHR 0x03, CHR 0xED]] [Sent 100] 7
       \<lparr>wd_sessions = (createSession 7 SessionManager_new), wd_closed = [], wd_server = sv\<rparr> = (Inr (ok, []), w') \<and> wd_server w' = sv"
proof -
  let ?main = "server_main ex_closed_server () (\<lambda>i. (Suc i, True)) (\<lambda>i. (Suc i, False)) True [] ex_ow"
  let ?db = "\<lparr>dbs_pool = DBPool_init (\<lambda>i. (Suc i, True)) ''127.0.0.1'' ''root'' ''root'' ''test_db'' 49 DBPool_new, dbs_data = ()\<rparr>"
  have q: "my_query ex_closed_server sql d = (False, None, d)" for sql d by (simp add: ex_closed_server_def)
  have "db_ready ?db" by (auto simp: db_ready_def DBPool_init_queue DBPool_new_def)
  then obtain db1 where "db_ready db1" and c: "with_connection (Pair (Inr (Inr () :: fault + unit, UserManager_new))) ?db = (Inr (Inr (), UserManager_new), db1)"
    by (rule with_connection_run [where body = "Pair (Inr (Inr () :: fault + unit, UserManager_new))"]) simp
  from this(1) obtain db2 where c2: "with_connection (Pair (Inr (False, None :: sql_row list option))) db1 = (Inr (False, None), db2)"
    by (rule with_connection_run [where body = "Pair (Inr (False, None :: sql_row list option))"]) simp
  have "loadAllFromDB ex_closed_server TickerManager_new (?db, UserManager_new) = (Inr (), (db1, UserManager_new))"
    by (simp add: loadAllFromDB_def load_rows_def q bnd_def c)
  moreover have "loadAllTickersFromDB ex_closed_server (db1, TickerManager_new) = (Inr (), (db2, TickerManager_new))"
    by (simp add: loadAllTickersFromDB_def q c2)
  ultimately obtain sv rt where "?main = Inr (sv, rt)" by (simp add: server_main_def)
  from requests_reach_no_handler [OF this] this show ?thesis by force
qed

end
