(* ===== verification/Clearing.thy ===== *)
theory Clearing
  imports OrderBookProcessor
begin

text \<open>
  What matching and cancelling do to claims on frozen assets. \<open>order_weight\<close> is a quantity that an
  order carries in proportion to what is left of it, and that trades and cancellations carry away:
  the frozen money of a user, or the frozen shares of a user in a ticker. Every event of a book
  conserves it.
\<close>

section \<open>Frame of an event\<close>

lemma processOrder_frame:
  assumes wf: "wf_book h b" and fr: "fresh_order h b p" and r: "processOrder now p h b rs = (h', b', rs')"
  shows "x \<noteq> p \<Longrightarrow> x \<notin> set (book_ptrs b) \<Longrightarrow> h' x = h x"
    and "set (book_ptrs b') \<subseteq> insert p (set (book_ptrs b))"
    and "same_order (h' x) (h x)"
    and "ob_ticker_id b' = ob_ticker_id b"
proof -
  have p: "p \<notin> set (book_ptrs b)" using fr by (simp add: fresh_order_def)
  have "(x \<noteq> p \<longrightarrow> x \<notin> set (book_ptrs b) \<longrightarrow> h' x = h x) \<and> set (book_ptrs b') \<subseteq> insert p (set (book_ptrs b)) \<and>
      same_order (h' x) (h x) \<and> ob_ticker_id b' = ob_ticker_id b"
  proof (cases "o_side (h p)")
    case BUY
    have ok: "sides_ok (<) SELL (>) BUY (ob_ticker_id b) h (asks b) (bids b) (user_active_orders b)"
      using wf by (simp add: wf_book_sides_buy)
    have p': "p \<notin> set (lv_ptrs (asks b)) \<union> set (lv_ptrs (bids b))" using p by (auto simp: book_ptrs_def)
    note m = buying.match_sides_ok [OF ok p', where tk = "ob_ticker_id b" and now = now and rs = rs]
    have om: "om_wf (>) (bids b)" using wf by (simp add: wf_book_def wf_side_def)
    show ?thesis
      using r m(2,3,4) by (auto simp: processOrder_buy [where h = h and p = p, OF BUY] book_ptrs_def selling.level_push_set [OF om] split: if_splits)
  next
    case SELL
    have ok: "sides_ok (>) BUY (<) SELL (ob_ticker_id b) h (bids b) (asks b) (user_active_orders b)"
      using wf by (simp add: wf_book_sides_sell)
    have p': "p \<notin> set (lv_ptrs (bids b)) \<union> set (lv_ptrs (asks b))" using p by (auto simp: book_ptrs_def)
    note m = selling.match_sides_ok [OF ok p', where tk = "ob_ticker_id b" and now = now and rs = rs]
    have om: "om_wf (<) (asks b)" using wf by (simp add: wf_book_def wf_side_def)
    show ?thesis
      using r m(2,3,4) by (auto simp: processOrder_sell [where h = h and p = p, OF SELL] book_ptrs_def buying.level_push_set [OF om] split: if_splits)
  qed
  then show "x \<noteq> p \<Longrightarrow> x \<notin> set (book_ptrs b) \<Longrightarrow> h' x = h x"
    and "set (book_ptrs b') \<subseteq> insert p (set (book_ptrs b))"
    and "same_order (h' x) (h x)"
    and "ob_ticker_id b' = ob_ticker_id b" by blast+
qed

lemma wf_book_orders:
  assumes "wf_book h b"
  shows "x \<in> set (side_view h (bids b)) \<Longrightarrow> o_side x = BUY \<and> o_ticker_id x = ob_ticker_id b"
    and "x \<in> set (side_view h (asks b)) \<Longrightarrow> o_side x = SELL \<and> o_ticker_id x = ob_ticker_id b"
  using assms by (auto simp: wf_book_def wf_side_def wf_level_def side_view_def in_lv_ptrs)

lemma sum_spec_records:
  "(\<Sum>r\<leftarrow>spec_records mk now base x f. w r) = (\<Sum>(i, m, t)\<leftarrow>enumerate base f. w (mk x m (o_price m) t (now i)))"
  unfolding spec_records_def map_map by (rule arg_cong [where f = sum_list], rule map_cong) auto

lemma sum_enumerate:
  assumes "\<And>i m t. (m, t) \<in> set f \<Longrightarrow> F i m t = G m t"
  shows "(\<Sum>(i, m, t)\<leftarrow>enumerate base f. F i m t) = (\<Sum>(m, t)\<leftarrow>f. G m t)"
  using assms
proof (induction f arbitrary: base)
  case (Cons e f)
  obtain m t where "e = (m, t)" by fastforce
  with Cons show ?case by simp
qed simp

section \<open>Weights\<close>

locale order_weight =
  fixes c :: "Order \<Rightarrow> 'w :: comm_ring_1" and g :: "u64 \<Rightarrow> 'w"
    and rw :: "MatchRecord \<Rightarrow> 'w" and cw :: "CancelRecord \<Rightarrow> 'w"
  assumes g_diff: "g (v - w) = g v - g w"
    and c_qty: "c (x\<lparr>o_quantity := q\<rparr>) = c x"
    and buy_law: "o_side x = BUY \<Longrightarrow> o_side m = SELL \<Longrightarrow> o_ticker_id x = tk \<Longrightarrow> o_ticker_id m = tk \<Longrightarrow>
      rw (buy_record tk x m price q t) = c x * g q + c m * g q"
    and sell_law: "o_side x = SELL \<Longrightarrow> o_side m = BUY \<Longrightarrow> o_ticker_id x = tk \<Longrightarrow> o_ticker_id m = tk \<Longrightarrow>
      rw (sell_record tk x m price q t) = c x * g q + c m * g q"
    and cancel_law: "cw (cancel_record x t) = c x * g (o_quantity x)"
begin

definition ow :: "Order \<Rightarrow> 'w" where
  "ow x = c x * g (o_quantity x)"

definition total :: "heap \<Rightarrow> ptr list \<Rightarrow> 'w" where
  "total h ps = (\<Sum>p\<leftarrow>ps. ow (h p))"

lemma g_zero: "g 0 = 0"
  using g_diff [of 0 0] by simp

lemma total_Nil [simp]: "total h [] = 0"
  by (simp add: total_def)

lemma total_Cons [simp]: "total h (p # ps) = ow (h p) + total h ps"
  by (simp add: total_def)

lemma total_append [simp]: "total h (ps @ qs) = total h ps + total h qs"
  by (simp add: total_def)

lemma total_cong: "(\<And>p. p \<in> set ps \<Longrightarrow> h' p = h p) \<Longrightarrow> total h' ps = total h ps"
  unfolding total_def by (rule arg_cong [where f = sum_list], rule map_cong) simp_all

lemma total_mset: "mset ps = mset qs \<Longrightarrow> total h ps = total h qs"
  unfolding total_def by (metis mset_map sum_mset_sum_list)

lemma total_book: "total h (book_ptrs b) = (\<Sum>x\<leftarrow>fst (abs_book h b). ow x) + (\<Sum>x\<leftarrow>snd (abs_book h b). ow x)"
  by (simp add: book_ptrs_def abs_book_def side_view_def total_def comp_def)

lemma ow_rest: "(\<Sum>y\<leftarrow>spec_rest lt x q xs. ow y) = (\<Sum>y\<leftarrow>xs. ow y) + c x * g q"
proof -
  have "(\<Sum>y\<leftarrow>filter (\<lambda>y. \<not> P y) xs. ow y) + (\<Sum>y\<leftarrow>filter P xs. ow y) = (\<Sum>y\<leftarrow>xs. ow y)" for P
    by (induction xs) (auto simp: algebra_simps)
  from this [of "\<lambda>y. lt (o_price x) (o_price y)"] show ?thesis
    by (simp add: spec_rest_def ow_def c_qty g_zero algebra_simps)
qed

lemma fill_weight:
  assumes "spec_fill ok (o_quantity x) ms = (r, f, q)"
    and "\<And>m t i. (m, t) \<in> set f \<Longrightarrow> rw (mk x m (o_price m) t (now i)) = c x * g t + c m * g t"
  shows "(\<Sum>m\<leftarrow>ms. ow m) + ow x = (\<Sum>m\<leftarrow>r. ow m) + c x * g q + (\<Sum>rc\<leftarrow>spec_records mk now base x f. rw rc)"
proof -
  have "(\<Sum>rc\<leftarrow>spec_records mk now base x f. rw rc) = (\<Sum>(m, t)\<leftarrow>f. c x * g t + c m * g t)"
    unfolding sum_spec_records by (rule sum_enumerate) (rule assms(2))
  also have "\<dots> = c x * (\<Sum>(m, t)\<leftarrow>f. g t) + (\<Sum>(m, t)\<leftarrow>f. c m * g t)"
    by (induction f) (auto simp: algebra_simps)
  finally show ?thesis
    using spec_fill_weight [of g c, OF g_diff c_qty assms(1)] spec_fill_left [of g, OF g_diff assms(1)]
    by (simp add: ow_def algebra_simps)
qed

lemma process_weight:
  assumes wf: "wf_book h b" and fr: "fresh_order h b p" and r: "processOrder now p h b rs = (h', b', rs')"
  shows "total h' (book_ptrs b') + (\<Sum>rc\<leftarrow>rs'. rw rc) = total h (book_ptrs b) + ow (h p) + (\<Sum>rc\<leftarrow>rs. rw rc)"
proof -
  let ?tk = "ob_ticker_id b"
  have tk: "o_ticker_id (h p) = ?tk" using fr by (simp add: fresh_order_def)
  obtain recs q where sp: "spec_process now ?tk (length rs) (h p) (abs_book h b) = (abs_book h' b', recs, q)"
    and rs': "rs' = rs @ recs" by (rule processOrder_spec [OF wf fr r])
  have member: "m \<in> set ms" if "spec_fill ok n ms = (rr, f, qq)" "(m, t) \<in> set f" for ok n ms rr f qq m t
    using spec_fill_makers [OF that(1)] that(2) by (metis fst_conv image_eqI in_set_takeD list.set_map)
  from sp show ?thesis
  proof (cases rule: spec_process_cases)
    case (buy f)
    have "(\<Sum>m\<leftarrow>snd (abs_book h b). ow m) + ow (h p) = (\<Sum>m\<leftarrow>snd (abs_book h' b'). ow m) + c (h p) * g q + (\<Sum>rc\<leftarrow>recs. rw rc)"
      unfolding buy(4) using buy(2)
    proof (rule fill_weight)
      fix m t i assume "(m, t) \<in> set f"
      then have "m \<in> set (side_view h (asks b))" using member [OF buy(2)] by (simp add: abs_book_def)
      then show "rw (buy_record ?tk (h p) m (o_price m) t (now i)) = c (h p) * g t + c m * g t"
        using wf_book_orders(2) [OF wf] buy(1) tk by (intro buy_law) auto
    qed
    then show ?thesis by (simp add: total_book rs' buy(3) ow_rest algebra_simps)
  next
    case (sell f)
    have "(\<Sum>m\<leftarrow>fst (abs_book h b). ow m) + ow (h p) = (\<Sum>m\<leftarrow>fst (abs_book h' b'). ow m) + c (h p) * g q + (\<Sum>rc\<leftarrow>recs. rw rc)"
      unfolding sell(4) using sell(2)
    proof (rule fill_weight)
      fix m t i assume "(m, t) \<in> set f"
      then have "m \<in> set (side_view h (bids b))" using member [OF sell(2)] by (simp add: abs_book_def)
      then show "rw (sell_record ?tk (h p) m (o_price m) t (now i)) = c (h p) * g t + c m * g t"
        using wf_book_orders(1) [OF wf] sell(1) tk by (intro sell_law) auto
    qed
    then show ?thesis by (simp add: total_book rs' sell(3) ow_rest algebra_simps)
  qed
qed

lemma cancel_weight:
  assumes wf: "wf_book h b" and r: "cancelOrder oid u h b = (Some p, b')"
  shows "total h (book_ptrs b') + cw (cancel_record (h p) t) = total h (book_ptrs b)"
proof -
  have f: "active_find (user_active_orders b) u (ucast oid) = Some p"
    using r cancelOrder_None [of b u oid h] by (cases "active_find (user_active_orders b) u (ucast oid)")
      (auto elim!: cancelOrder_Some [OF wf])
  obtain b'' where c: "cancelOrder oid u h b = (Some p, b'')"
    and ptrs: "lv_ptrs (bids b'') = filter (\<lambda>q. o_order_id (h q) \<noteq> ucast oid) (lv_ptrs (bids b))"
      "lv_ptrs (asks b'') = filter (\<lambda>q. o_order_id (h q) \<noteq> ucast oid) (lv_ptrs (asks b))"
    by (rule cancelOrder_Some [OF wf f])
  have "book_ptrs b' = filter (\<lambda>q. o_order_id (h q) \<noteq> ucast oid) (book_ptrs b)"
    using r c ptrs by (simp add: book_ptrs_def)
  moreover have p: "p \<in> set (book_ptrs b)" "o_order_id (h p) = ucast oid"
    and inj: "inj_on (\<lambda>q. o_order_id (h q)) (set (book_ptrs b))" and d: "distinct (book_ptrs b)"
    using wf f by (auto simp: wf_book_def index_ok_def)
  moreover have "filter (\<lambda>q. o_order_id (h q) \<noteq> ucast oid) (book_ptrs b) = remove1 p (book_ptrs b)"
    unfolding distinct_remove1_removeAll [OF d] removeAll_filter_not_eq
  proof (rule filter_cong [OF refl])
    fix q assume "q \<in> set (book_ptrs b)"
    then show "(o_order_id (h q) \<noteq> ucast oid) = (p \<noteq> q)" using inj_onD [OF inj, of q p] p by auto
  qed
  ultimately have "total h (book_ptrs b') + ow (h p) = total h (book_ptrs b)"
    using total_mset [of "p # remove1 p (book_ptrs b)" "book_ptrs b" h] by (simp add: add.commute)
  then show ?thesis by (simp add: cancel_law ow_def)
qed

end

section \<open>Frozen money and frozen shares\<close>

definition money_c :: "u64 \<Rightarrow> Order \<Rightarrow> i64" where
  "money_c u x = (if o_side x = BUY \<and> o_user_id x = u then o_price x else 0)"

definition money_rw :: "u64 \<Rightarrow> MatchRecord \<Rightarrow> i64" where
  "money_rw u r = (if m_buyer_user_id r = u then m_buyer_expected_price r * m_match_quantity r else 0)"

definition money_cw :: "u64 \<Rightarrow> CancelRecord \<Rightarrow> i64" where
  "money_cw u r = (if c_side r = BUY \<and> c_user_id r = u then c_price r * c_quantity r else 0)"

definition share_c :: "u64 \<Rightarrow> u32 \<Rightarrow> Order \<Rightarrow> i32" where
  "share_c u k x = (if o_side x = SELL \<and> o_user_id x = u \<and> o_ticker_id x = k then 1 else 0)"

definition share_rw :: "u64 \<Rightarrow> u32 \<Rightarrow> MatchRecord \<Rightarrow> i32" where
  "share_rw u k r = (if m_sell_user_id r = u \<and> m_ticker_id r = k then qty_int (m_match_quantity r) else 0)"

definition share_cw :: "u64 \<Rightarrow> u32 \<Rightarrow> CancelRecord \<Rightarrow> i32" where
  "share_cw u k r = (if c_side r = SELL \<and> c_user_id r = u \<and> c_ticker_id r = k then qty_int (c_quantity r) else 0)"

lemma qty_int_diff: "qty_int (x - y) = qty_int x - qty_int y"
  unfolding qty_int_def
proof transfer
  fix a b :: int
  have "take_bit 32 (take_bit 64 a - take_bit 64 b) = take_bit 32 (take_bit 32 (take_bit 64 a) - take_bit 32 (take_bit 64 b))"
    by (rule take_bit_diff [symmetric])
  also have "\<dots> = take_bit 32 (take_bit 32 a - take_bit 32 b)" by (simp add: take_bit_take_bit)
  also have "\<dots> = take_bit 32 (a - b)" by (rule take_bit_diff)
  finally show "take_bit LENGTH(32) (take_bit LENGTH(64) (a - b)) =
      take_bit LENGTH(32) (take_bit LENGTH(64) a - take_bit LENGTH(64) b)"
    by (simp add: take_bit_take_bit)
qed

interpretation money: order_weight "money_c u" "\<lambda>q. q" "money_rw u" "money_cw u" for u
  by unfold_locales (auto simp: money_c_def money_rw_def money_cw_def buy_record_def sell_record_def cancel_record_def)

interpretation shares: order_weight "share_c u k" qty_int "share_rw u k" "share_cw u k" for u k
  by unfold_locales (auto simp: share_c_def share_rw_def share_cw_def buy_record_def sell_record_def cancel_record_def qty_int_diff)

end
