(* ===== verification/Batches.thy ===== *)
theory Batches
  imports Clearing
begin

text \<open>
  A batch of events on one book: the book stays well formed, only the orders of the batch and of
  the book change, and the frozen assets move from the orders into the trades and cancellations.
\<close>

definition queue_ptrs :: "EngineEvent list \<Rightarrow> ptr list" where
  "queue_ptrs evs = map ev_order (filter (\<lambda>ev. ev_type ev = NEW_ORDER) evs)"

lemma queue_ptrs_simps [simp]:
  "queue_ptrs [] = []"
  "queue_ptrs (ev # evs) = (if ev_type ev = NEW_ORDER then ev_order ev # queue_ptrs evs else queue_ptrs evs)"
  "queue_ptrs (evs @ evs') = queue_ptrs evs @ queue_ptrs evs'"
  by (simp_all add: queue_ptrs_def)

lemma queue_ptrs_mset: "mset evs = mset evs' \<Longrightarrow> mset (queue_ptrs evs) = mset (queue_ptrs evs')"
  by (simp add: queue_ptrs_def mset_filter)

definition batch_ok :: "heap \<Rightarrow> OrderBook \<Rightarrow> ptr list \<Rightarrow> bool" where
  "batch_ok h b ps \<longleftrightarrow> wf_book h b \<and> distinct (ps @ book_ptrs b) \<and>
     inj_on (\<lambda>q. o_order_id (h q)) (set (ps @ book_ptrs b)) \<and> (\<forall>q \<in> set ps. o_ticker_id (h q) = ob_ticker_id b)"

definition users_at :: "heap \<Rightarrow> ptr set \<Rightarrow> u64 set" where
  "users_at h P = (\<lambda>q. o_user_id (h q)) ` P"

lemma batch_ok_inj: "batch_ok h b ps \<Longrightarrow> inj_on (\<lambda>q. o_order_id (h q)) (set (ps @ book_ptrs b))"
  unfolding batch_ok_def by blast

lemma batch_ok_fresh: "batch_ok h b (p # ps) \<Longrightarrow> fresh_order h b p"
  unfolding batch_ok_def fresh_order_def by auto (metis UnI2 image_eqI)

lemma processOrder_parties:
  assumes wf: "wf_book h b" and fr: "fresh_order h b p" and r: "processOrder now p h b rs = (h', b', rs')"
  obtains recs where "rs' = rs @ recs"
    and "\<And>rc. rc \<in> set recs \<Longrightarrow> {m_buyer_user_id rc, m_sell_user_id rc} \<subseteq> users_at h (insert p (set (book_ptrs b))) \<and>
      m_ticker_id rc = ob_ticker_id b"
proof -
  obtain recs q where sp: "spec_process now (ob_ticker_id b) (length rs) (h p) (abs_book h b) = (abs_book h' b', recs, q)"
    and rs': "rs' = rs @ recs" by (rule processOrder_spec [OF wf fr r])
  have maker: "o_user_id m \<in> users_at h (insert p (set (book_ptrs b)))"
    if "m \<in> set (fst (abs_book h b)) \<union> set (snd (abs_book h b))" for m
    using that by (auto simp: abs_book_def side_view_def users_at_def book_ptrs_def)
  have member: "m \<in> set ms" if "spec_fill ok n ms = (rr, f, qq)" "(m, t) \<in> set f" for ok n ms rr f qq m t
    using spec_fill_makers [OF that(1)] that(2) by (metis fst_conv image_eqI in_set_takeD list.set_map)
  have taker: "o_user_id (h p) \<in> users_at h (insert p (set (book_ptrs b)))" by (simp add: users_at_def)
  from sp have "{m_buyer_user_id rc, m_sell_user_id rc} \<subseteq> users_at h (insert p (set (book_ptrs b))) \<and> m_ticker_id rc = ob_ticker_id b"
    if "rc \<in> set recs" for rc
  proof (cases rule: spec_process_cases)
    case (buy f)
    from that obtain m t n where "(m, t) \<in> set f" "rc = buy_record (ob_ticker_id b) (h p) m (o_price m) t n"
      unfolding buy(4) by (rule in_spec_records)
    then show ?thesis using maker [of m] member [OF buy(2)] by (simp add: buy_record_def taker)
  next
    case (sell f)
    from that obtain m t n where "(m, t) \<in> set f" "rc = sell_record (ob_ticker_id b) (h p) m (o_price m) t n"
      unfolding sell(4) by (rule in_spec_records)
    then show ?thesis using maker [of m] member [OF sell(2)] by (simp add: sell_record_def taker)
  qed
  then show thesis by (rule that [OF rs'])
qed

lemma cancelOrder_found:
  assumes wf: "wf_book h b" and c: "cancelOrder oid u h b = (Some p, b')"
  shows "wf_book h b'" and "set (book_ptrs b') \<subseteq> set (book_ptrs b)" and "p \<in> set (book_ptrs b)"
    and "ob_ticker_id b' = ob_ticker_id b"
proof -
  have f: "active_find (user_active_orders b) u (ucast oid) = Some p"
    using c cancelOrder_None [of b u oid h] by (cases "active_find (user_active_orders b) u (ucast oid)")
      (auto elim!: cancelOrder_Some [OF wf])
  then show "p \<in> set (book_ptrs b)" using wf by (auto simp: wf_book_def index_ok_def)
  obtain b'' where "cancelOrder oid u h b = (Some p, b'')"
    and "lv_ptrs (bids b'') = filter (\<lambda>q. o_order_id (h q) \<noteq> ucast oid) (lv_ptrs (bids b))"
    and "lv_ptrs (asks b'') = filter (\<lambda>q. o_order_id (h q) \<noteq> ucast oid) (lv_ptrs (asks b))"
    and "wf_book h b''" and "ob_ticker_id b'' = ob_ticker_id b" by (rule cancelOrder_Some [OF wf f])
  with c show "wf_book h b'" "set (book_ptrs b') \<subseteq> set (book_ptrs b)" "ob_ticker_id b' = ob_ticker_id b"
    by (auto simp: book_ptrs_def)
qed

lemma cancelOrder_missing:
  assumes wf: "wf_book h b" and c: "cancelOrder oid u h b = (None, b')"
  shows "b' = b"
  using c cancelOrder_None [of b u oid h] by (cases "active_find (user_active_orders b) u (ucast oid)")
    (auto elim!: cancelOrder_Some [OF wf])


section \<open>One event\<close>

text \<open>
  What an event or a batch does to everything but the weights. \<open>P\<close> are the addresses it may touch.
\<close>

definition touches :: "ptr set \<Rightarrow> batch_state \<Rightarrow> batch_state \<Rightarrow> bool" where
  "touches P s s' \<longleftrightarrow>
     (\<forall>x. x \<notin> P \<longrightarrow> bs_heap s' x = bs_heap s x) \<and> (\<forall>x. same_order (bs_heap s' x) (bs_heap s x)) \<and>
     set (book_ptrs (bs_book s')) \<subseteq> P \<and> ob_ticker_id (bs_book s') = ob_ticker_id (bs_book s) \<and>
     st_queue (bs_settlement s') = st_queue (bs_settlement s) \<and> st_running (bs_settlement s') = st_running (bs_settlement s) \<and>
     (\<exists>recs. bs_results s' = bs_results s @ recs \<and>
        (\<forall>rc \<in> set recs. {m_buyer_user_id rc, m_sell_user_id rc} \<subseteq> users_at (bs_heap s) P)) \<and>
     (\<exists>crs. st_cancel_queue (bs_settlement s') = st_cancel_queue (bs_settlement s) @ crs \<and>
        (\<forall>cr \<in> set crs. c_user_id cr \<in> users_at (bs_heap s) P))"

lemma users_at_mono: "P \<subseteq> Q \<Longrightarrow> users_at h P \<subseteq> users_at h Q"
  by (auto simp: users_at_def)

lemma users_at_same: "(\<And>x. same_order (h' x) (h x)) \<Longrightarrow> users_at h' P = users_at h P"
  using same_order_fields(3) unfolding users_at_def by (intro image_cong) auto

lemma touches_refl: "set (book_ptrs (bs_book s)) \<subseteq> P \<Longrightarrow> touches P s s"
  by (simp add: touches_def)

lemma touches_mono: "touches P s t \<Longrightarrow> P \<subseteq> Q \<Longrightarrow> touches Q s t"
  using users_at_mono [of P Q "bs_heap s"] unfolding touches_def by fastforce

lemma touches_trans:
  assumes "touches P s t" and "touches Q t u" and "Q \<subseteq> P"
  shows "touches P s u"
proof -
  have same: "same_order (bs_heap t x) (bs_heap s x)" for x using assms(1) by (simp add: touches_def)
  have us: "users_at (bs_heap t) Q \<subseteq> users_at (bs_heap s) P"
    using users_at_same [of "bs_heap t" "bs_heap s", OF same] users_at_mono [OF assms(3)] by metis
  have "bs_heap u x = bs_heap s x" if "x \<notin> P" for x using that assms by (auto simp: touches_def)
  moreover have "same_order (bs_heap u x) (bs_heap s x)" for x
    using assms(1,2) same_order_trans [of "bs_heap u x" "bs_heap t x" "bs_heap s x"] by (simp add: touches_def)
  moreover obtain r1 r2 where "bs_results t = bs_results s @ r1" "bs_results u = bs_results t @ r2"
      "\<forall>rc \<in> set r1. {m_buyer_user_id rc, m_sell_user_id rc} \<subseteq> users_at (bs_heap s) P"
      "\<forall>rc \<in> set r2. {m_buyer_user_id rc, m_sell_user_id rc} \<subseteq> users_at (bs_heap t) Q"
    using assms(1,2) by (auto simp: touches_def)
  moreover obtain c1 c2 where "st_cancel_queue (bs_settlement t) = st_cancel_queue (bs_settlement s) @ c1"
      "st_cancel_queue (bs_settlement u) = st_cancel_queue (bs_settlement t) @ c2"
      "\<forall>cr \<in> set c1. c_user_id cr \<in> users_at (bs_heap s) P" "\<forall>cr \<in> set c2. c_user_id cr \<in> users_at (bs_heap t) Q"
    using assms(1,2) by (auto simp: touches_def)
  moreover have "set (book_ptrs (bs_book u)) \<subseteq> P" "ob_ticker_id (bs_book u) = ob_ticker_id (bs_book s)"
      "st_queue (bs_settlement u) = st_queue (bs_settlement s)" "st_running (bs_settlement u) = st_running (bs_settlement s)"
    using assms by (auto simp: touches_def)
  ultimately show ?thesis unfolding touches_def using us
    by (intro conjI allI impI exI [of _ "r1 @ r2"] exI [of _ "c1 @ c2"]) (simp_all, blast+)
qed

definition event_ptrs :: "EngineEvent \<Rightarrow> batch_state \<Rightarrow> ptr set" where
  "event_ptrs ev s = set (queue_ptrs [ev]) \<union> set (book_ptrs (bs_book s))"

lemma process_event_new:
  assumes ok: "batch_ok (bs_heap s) (bs_book s) (p # ps)" and ev: "ev_type ev = NEW_ORDER" "ev_order ev = p"
  shows "touches (event_ptrs ev s) s (process_event sp now ev s)"
    and "batch_ok (bs_heap (process_event sp now ev s)) (bs_book (process_event sp now ev s)) ps"
proof -
  obtain h b rs where r: "processOrder now p (bs_heap s) (bs_book s) (bs_results s) = (h, b, rs)" by (metis prod_cases3)
  then have s': "process_event sp now ev s = s\<lparr>bs_heap := h, bs_book := b, bs_results := rs\<rparr>"
    by (simp add: process_event_def ev)
  have wf: "wf_book (bs_heap s) (bs_book s)" using ok by (simp add: batch_ok_def)
  note fr = batch_ok_fresh [OF ok]
  note frame = processOrder_frame [OF wf fr r]
  obtain recs where "rs = bs_results s @ recs"
    "\<And>rc. rc \<in> set recs \<Longrightarrow> {m_buyer_user_id rc, m_sell_user_id rc} \<subseteq> users_at (bs_heap s) (insert p (set (book_ptrs (bs_book s)))) \<and>
      m_ticker_id rc = ob_ticker_id (bs_book s)" by (rule processOrder_parties [OF wf fr r]) blast
  then show "touches (event_ptrs ev s) s (process_event sp now ev s)"
    using frame by (auto simp: touches_def s' event_ptrs_def ev)
  have wf': "wf_book h b"
    using processOrder_wf_buy [OF wf fr _ r] processOrder_wf_sell [OF wf fr _ r] by (cases "o_side (bs_heap s p)") auto
  have ids: "o_order_id (h x) = o_order_id (bs_heap s x)" "o_ticker_id (h x) = o_ticker_id (bs_heap s x)" for x
    using same_order_fields [OF frame(3) [of x]] by auto
  have sub: "set (ps @ book_ptrs b) \<subseteq> set ((p # ps) @ book_ptrs (bs_book s))" using frame(2) by auto
  have "distinct (ps @ book_ptrs b)"
    using ok wf' frame(2) by (auto simp: batch_ok_def wf_book_def)
  moreover have "inj_on (\<lambda>q. o_order_id (h q)) (set (ps @ book_ptrs b))"
    unfolding ids by (rule inj_on_subset [OF batch_ok_inj [OF ok] sub])
  ultimately show "batch_ok (bs_heap (process_event sp now ev s)) (bs_book (process_event sp now ev s)) ps"
    using ok wf' frame(4) by (simp add: batch_ok_def s' ids)
qed

lemma process_event_cancel:
  assumes ok: "batch_ok (bs_heap s) (bs_book s) ps" and ev: "ev_type ev = CANCEL_ORDER"
  shows "touches (event_ptrs ev s) s (process_event sp now ev s)"
    and "batch_ok (bs_heap (process_event sp now ev s)) (bs_book (process_event sp now ev s)) ps"
proof -
  obtain c b where r: "cancelOrder (ucast (ev_cancel_order_id ev)) (ev_cancel_user_id ev) (bs_heap s) (bs_book s) = (c, b)" by fastforce
  have wf: "wf_book (bs_heap s) (bs_book s)" using ok by (simp add: batch_ok_def)
  have "touches (event_ptrs ev s) s (process_event sp now ev s) \<and>
      batch_ok (bs_heap (process_event sp now ev s)) (bs_book (process_event sp now ev s)) ps"
  proof (cases c)
    case None
    then have "b = bs_book s" using cancelOrder_missing [OF wf] r by simp
    with None ok show ?thesis by (auto simp: process_event_def ev r touches_def event_ptrs_def)
  next
    case (Some p)
    note f = cancelOrder_found [OF wf r [unfolded Some]]
    have sub: "set (ps @ book_ptrs b) \<subseteq> set (ps @ book_ptrs (bs_book s))" using f(2) by auto
    have "distinct (ps @ book_ptrs b)" using ok f(1,2) by (auto simp: batch_ok_def wf_book_def)
    moreover have "inj_on (\<lambda>q. o_order_id (bs_heap s q)) (set (ps @ book_ptrs b))"
      by (rule inj_on_subset [OF batch_ok_inj [OF ok] sub])
    ultimately have "batch_ok (bs_heap s) b ps" using ok f by (simp add: batch_ok_def)
    moreover have "o_user_id (bs_heap s p) \<in> users_at (bs_heap s) (event_ptrs ev s)"
      using f(3) by (simp add: users_at_def event_ptrs_def)
    ultimately show ?thesis
      using f by (auto simp: process_event_def ev r Some touches_def event_ptrs_def pushCancelRecord_def cancel_record_def Let_def)
  qed
  then show "touches (event_ptrs ev s) s (process_event sp now ev s)"
    and "batch_ok (bs_heap (process_event sp now ev s)) (bs_book (process_event sp now ev s)) ps" by blast+
qed

lemma process_events_ok:
  assumes "batch_ok (bs_heap s) (bs_book s) (queue_ptrs evs)"
  shows "touches (set (queue_ptrs evs) \<union> set (book_ptrs (bs_book s))) s (process_events sp clock evs s)"
    and "wf_book (bs_heap (process_events sp clock evs s)) (bs_book (process_events sp clock evs s))"
proof -
  have "touches (set (queue_ptrs evs) \<union> set (book_ptrs (bs_book s))) s (process_events sp clock evs s) \<and>
      wf_book (bs_heap (process_events sp clock evs s)) (bs_book (process_events sp clock evs s))"
    using assms
  proof (induction evs arbitrary: s clock)
    case Nil
    then show ?case by (simp add: touches_refl batch_ok_def)
  next
    case (Cons ev evs)
    let ?s = "process_event sp (clock 0) ev s"
    have step: "touches (event_ptrs ev s) s ?s" "batch_ok (bs_heap ?s) (bs_book ?s) (queue_ptrs evs)"
      using Cons.prems process_event_new [of s "ev_order ev" "queue_ptrs evs" ev sp "clock 0"]
        process_event_cancel [of s "queue_ptrs evs" ev sp "clock 0"] by (cases "ev_type ev"; simp)+
    have sub: "set (queue_ptrs evs) \<union> set (book_ptrs (bs_book ?s)) \<subseteq> set (queue_ptrs (ev # evs)) \<union> set (book_ptrs (bs_book s))"
      using step(1) by (auto simp: touches_def event_ptrs_def)
    have "touches (set (queue_ptrs (ev # evs)) \<union> set (book_ptrs (bs_book s))) s ?s"
      using step(1) by (rule touches_mono) (auto simp: event_ptrs_def)
    from touches_trans [OF this _ sub] Cons.IH [OF step(2), of "\<lambda>i. clock (Suc i)"] show ?case by simp
  qed
  then show "touches (set (queue_ptrs evs) \<union> set (book_ptrs (bs_book s))) s (process_events sp clock evs s)"
    and "wf_book (bs_heap (process_events sp clock evs s)) (bs_book (process_events sp clock evs s))" by blast+
qed


section \<open>What a batch conserves\<close>

context order_weight
begin

text \<open>The weight of the orders \<open>ps\<close> that wait, of the book, and of the trades and cancellations so far.\<close>

definition load :: "batch_state \<Rightarrow> ptr list \<Rightarrow> 'w" where
  "load s ps = total (bs_heap s) ps + total (bs_heap s) (book_ptrs (bs_book s)) + (\<Sum>rc\<leftarrow>bs_results s. rw rc)
     + (\<Sum>cr\<leftarrow>st_cancel_queue (bs_settlement s). cw cr)"

lemma load_new:
  assumes ok: "batch_ok (bs_heap s) (bs_book s) (p # ps)" and ev: "ev_type ev = NEW_ORDER" "ev_order ev = p"
  shows "load (process_event sp now ev s) ps = load s (p # ps)"
proof -
  obtain h b rs where r: "processOrder now p (bs_heap s) (bs_book s) (bs_results s) = (h, b, rs)" by (metis prod_cases3)
  have wf: "wf_book (bs_heap s) (bs_book s)" using ok by (simp add: batch_ok_def)
  note fr = batch_ok_fresh [OF ok]
  have "total h ps = total (bs_heap s) ps"
  proof (rule total_cong)
    fix q assume "q \<in> set ps"
    then show "h q = bs_heap s q"
      using ok by (intro processOrder_frame(1) [OF wf fr r]) (auto simp: batch_ok_def)
  qed
  with process_weight [OF wf fr r] show ?thesis
    by (simp add: load_def process_event_def ev r algebra_simps)
qed

lemma load_cancel:
  assumes wf: "wf_book (bs_heap s) (bs_book s)" and ev: "ev_type ev = CANCEL_ORDER"
  shows "load (process_event True now ev s) ps = load s ps"
proof -
  obtain c b where r: "cancelOrder (ucast (ev_cancel_order_id ev)) (ev_cancel_user_id ev) (bs_heap s) (bs_book s) = (c, b)" by fastforce
  show ?thesis
  proof (cases c)
    case None
    then have "b = bs_book s" using cancelOrder_missing [OF wf] r by simp
    with None r show ?thesis by (simp add: process_event_def ev)
  next
    case (Some p)
    from cancel_weight [OF wf r [unfolded Some], of "now 0"] show ?thesis
      by (simp add: load_def process_event_def ev r Some pushCancelRecord_def algebra_simps)
  qed
qed

lemma load_events:
  "batch_ok (bs_heap s) (bs_book s) (queue_ptrs evs @ ps) \<Longrightarrow>
     load (process_events True clock evs s) ps = load s (queue_ptrs evs @ ps)"
proof (induction evs arbitrary: s clock)
  case (Cons ev evs)
  let ?s = "process_event True (clock 0) ev s"
  have "batch_ok (bs_heap ?s) (bs_book ?s) (queue_ptrs evs @ ps) \<and> load ?s (queue_ptrs evs @ ps) = load s (queue_ptrs (ev # evs) @ ps)"
  proof (cases "ev_type ev")
    case NEW_ORDER
    with Cons.prems show ?thesis
      using process_event_new [of s "ev_order ev" "queue_ptrs evs @ ps" ev True "clock 0"]
        load_new [of s "ev_order ev" "queue_ptrs evs @ ps" ev True "clock 0"] by simp
  next
    case CANCEL_ORDER
    with Cons.prems show ?thesis
      using process_event_cancel [of s "queue_ptrs evs @ ps" ev True "clock 0"]
        load_cancel [of s ev "clock 0" "queue_ptrs evs @ ps"] by (simp add: batch_ok_def)
  qed
  with Cons.IH show ?case by simp
qed simp

end

end
