(* ===== verification/System.thy ===== *)
theory System
  imports Business_Props Batches
begin

text \<open>
  The server as one transition system: requests of any session, rounds of the logging thread, of
  the thread of any book, of the clearing thread and of the publisher, in any order. An order is
  live from the freeze of its funds until a trade or a cancellation takes it out of its book. Each
  round is one step: the queues are the only data that two threads work on at the same time.
\<close>

section \<open>Association lists\<close>

lemma um_split:
  assumes "um_wf m" and "map_of m k = Some v"
  obtains xs ys where "m = xs @ (k, v) # ys" and "k \<notin> fst ` set xs" "k \<notin> fst ` set ys"
    and "\<And>v'. AList.update k v' m = xs @ (k, v') # ys"
proof -
  have "(k, v) \<in> set m" using assms(2) by (rule map_of_SomeD)
  then obtain xs ys where m: "m = xs @ (k, v) # ys" by (auto simp: in_set_conv_decomp)
  with assms(1) have k: "k \<notin> fst ` set xs" "k \<notin> fst ` set ys" by (auto simp: um_wf_def)
  have "AList.update k v' (xs @ (k, v) # ys) = xs @ (k, v') # ys" for v'
    using k(1) by (induction xs) auto
  then show thesis using m k that [of xs ys] by simp
qed

section \<open>Live orders\<close>

definition engine_ptrs :: "(u32, OrderBookProcessor) umap \<Rightarrow> ptr list" where
  "engine_ptrs obs = concat (map (\<lambda>(tk, p). queue_ptrs (obp_queue p) @ book_ptrs (obp_book p)) obs)"

lemma engine_ptrs_simps [simp]:
  "engine_ptrs [] = []"
  "engine_ptrs ((tk, p) # obs) = queue_ptrs (obp_queue p) @ book_ptrs (obp_book p) @ engine_ptrs obs"
  "engine_ptrs (obs @ obs') = engine_ptrs obs @ engine_ptrs obs'"
  by (simp_all add: engine_ptrs_def)

text \<open>\<open>dr\<close>: the orders that the engine refused because their ticker has no book.\<close>

definition live :: "'d Server \<Rightarrow> ptr list \<Rightarrow> ptr list" where
  "live sv dr = dr @ queue_ptrs (wal_queue (sv_wal sv)) @ engine_ptrs (order_books (sv_engine sv))"

definition unroutable :: "heap \<Rightarrow> MatchingEngine \<Rightarrow> EngineEvent list \<Rightarrow> ptr list" where
  "unroutable h e evs = filter (\<lambda>q. map_of (order_books e) (o_ticker_id (h q)) = None) (queue_ptrs evs)"

definition wal_taken :: "nat \<Rightarrow> WALManager \<Rightarrow> EngineEvent list" where
  "wal_taken n w = (if wal_running w then take (min n wal_batch_size) (wal_queue w) else [])"

section \<open>Steps\<close>

text \<open>The amount that a request pays in: the database accepted it and the account is in memory.\<close>

definition deposited :: "'d IUserRepository \<Rightarrow> MsgType \<Rightarrow> bytes \<Rightarrow> u32 \<Rightarrow> Session \<Rightarrow> 'd Server \<Rightarrow> i64" where
  "deposited ur ty req len ss sv =
     (let amount = dq_amount (get_DepositRequest req)
      in if ty = DEPOSIT_REQ \<and> isLoggedIn ss \<and> sizeof_DepositRequest \<le> unat len \<and> 0 < sint amount \<and>
            exists_user (sv_um sv) (ss_user_id ss) \<and>
            fst (updateBalance ur (ss_username ss) amount (sv_db sv)) = Inr True
         then amount else 0)"

definition fresh_id :: "u64 \<Rightarrow> 'd Server \<Rightarrow> ptr list \<Rightarrow> bool" where
  "fresh_id ms sv dr \<longleftrightarrow> fst (generate ms (sv_gen sv)) \<notin> (\<lambda>q. o_order_id (sv_heap sv q)) ` set (live sv dr)"

text \<open>
  A step and the amount paid in. The routes are those that \<^verbatim>\<open>main\<close> registers. The clock readings,
  batch sizes and outside answers of a step are arbitrary; an id that is generated for an order must
  not be in use (\<open>OrderIdGenerator\<close> shows when that is so). A clearing round that throws ends the process.
  A lock-free queue keeps the order of each of its producers only, so elements may overtake each
  other at any time: the \<open>overtake\<close> steps permute a queue.
\<close>

inductive sys_step :: "'d IUserRepository \<Rightarrow> 'd IStockRepository \<Rightarrow> i64 \<Rightarrow> 'd Server \<times> ptr list \<Rightarrow> 'd Server \<times> ptr list \<Rightarrow> bool"
  for ur sr where
  request: "dispatch (register_handlers ow ur sr Router_new) ty req len (ss, sv) = (r, (ss', sv')) \<Longrightarrow>
     ty = TRADE_REQ \<longrightarrow> fresh_id (ow_ms ow) sv dr \<Longrightarrow>
     sys_step ur sr (deposited ur ty req len ss sv) (sv, dr) (sv', dr)"
| log: "wal_round clock stored n (sv_heap sv) (sv_wal sv) (sv_engine sv) = (w, e) \<Longrightarrow>
     sys_step ur sr 0 (sv, dr) (sv\<lparr>sv_wal := w, sv_engine := e\<rparr>,
       dr @ unroutable (sv_heap sv) (sv_engine sv) (wal_taken n (sv_wal sv)))"
| book: "map_of (order_books (sv_engine sv)) tk = Some p \<Longrightarrow>
     obp_round clocks n p (sv_heap sv) (sv_settle sv) (sv_pub sv) = (p', h, st, pub) \<Longrightarrow>
     sys_step ur sr 0 (sv, dr)
       (sv\<lparr>sv_heap := h, sv_engine := (sv_engine sv)\<lparr>order_books := AList.update tk p' (order_books (sv_engine sv))\<rparr>,
           sv_settle := st, sv_pub := pub\<rparr>, dr)"
| clear: "settle_round ur sr (sv_tm sv) n k (sv_settle sv) (sv_db sv, sv_um sv) = (Inr st, (db, um)) \<Longrightarrow>
     sys_step ur sr 0 (sv, dr) (sv\<lparr>sv_db := db, sv_um := um, sv_settle := st\<rparr>, dr)"
| publish: "processQueue_round n (sv_pub sv) (sv_redis sv, sent) = (Inr pub, (redis, sent')) \<Longrightarrow>
     sys_step ur sr 0 (sv, dr) (sv\<lparr>sv_pub := pub, sv_redis := redis\<rparr>, dr)"
| overtake_log: "mset q = mset (wal_queue (sv_wal sv)) \<Longrightarrow>
     sys_step ur sr 0 (sv, dr) (sv\<lparr>sv_wal := (sv_wal sv)\<lparr>wal_queue := q\<rparr>\<rparr>, dr)"
| overtake_book: "map_of (order_books (sv_engine sv)) tk = Some p \<Longrightarrow> mset q = mset (obp_queue p) \<Longrightarrow>
     sys_step ur sr 0 (sv, dr)
       (sv\<lparr>sv_engine := (sv_engine sv)\<lparr>order_books := AList.update tk (p\<lparr>obp_queue := q\<rparr>) (order_books (sv_engine sv))\<rparr>\<rparr>, dr)"
| overtake_clear: "mset q = mset (st_queue (sv_settle sv)) \<Longrightarrow> mset c = mset (st_cancel_queue (sv_settle sv)) \<Longrightarrow>
     sys_step ur sr 0 (sv, dr) (sv\<lparr>sv_settle := (sv_settle sv)\<lparr>st_queue := q, st_cancel_queue := c\<rparr>\<rparr>, dr)"

inductive sys_run :: "'d IUserRepository \<Rightarrow> 'd IStockRepository \<Rightarrow> i64 \<Rightarrow> 'd Server \<times> ptr list \<Rightarrow> 'd Server \<times> ptr list \<Rightarrow> bool"
  for ur sr where
  stop: "sys_run ur sr 0 s s"
| more_steps: "sys_run ur sr d s t \<Longrightarrow> sys_step ur sr d' t u \<Longrightarrow> sys_run ur sr (d + d') s u"

section \<open>What a request does\<close>

text \<open>Nothing that is owed or owned changes; accounts may be added, empty.\<close>

definition same_assets :: "UserManager \<Rightarrow> UserManager \<Rightarrow> bool" where
  "same_assets um um' \<longleftrightarrow> (\<forall>u. exists_user um u \<longrightarrow> exists_user um' u) \<and>
     (\<forall>u k. balance_of um' u = balance_of um u \<and> frozen_of um' u = frozen_of um u \<and>
        stock_of um' u k = stock_of um u k \<and> frozen_stock_of um' u k = frozen_stock_of um u k)"

definition idle :: "'d Server \<Rightarrow> 'd Server \<Rightarrow> bool" where
  "idle sv sv' \<longleftrightarrow> same_assets (sv_um sv) (sv_um sv') \<and> sv_heap sv' = sv_heap sv \<and> sv_next sv' = sv_next sv \<and>
     sv_wal sv' = sv_wal sv \<and> sv_engine sv' = sv_engine sv \<and> sv_settle sv' = sv_settle sv"

lemma same_assets_refl [simp]: "same_assets um um"
  by (simp add: same_assets_def)

lemma createUserAccount_assets:
  "balance_of (createUserAccount u n um) v = balance_of um v"
  "frozen_of (createUserAccount u n um) v = frozen_of um v"
  "stock_of (createUserAccount u n um) v k = stock_of um v k"
  "frozen_stock_of (createUserAccount u n um) v k = frozen_stock_of um v k"
  "exists_user um v \<Longrightarrow> exists_user (createUserAccount u n um) v"
proof -
  have cs: "getAccount um u = None \<or> createUserAccount u n um = um" by (simp add: createUserAccount_def getAccount_def)
  show "balance_of (createUserAccount u n um) v = balance_of um v"
    and "frozen_of (createUserAccount u n um) v = frozen_of um v"
    and "stock_of (createUserAccount u n um) v k = stock_of um v k"
    and "frozen_stock_of (createUserAccount u n um) v k = frozen_stock_of um v k"
    and "exists_user um v \<Longrightarrow> exists_user (createUserAccount u n um) v"
    using cs by (elim disjE; simp add: account_reads exists_user_def getAccount_create UserAccount_of_def)+
qed

lemma same_assets_create: "same_assets um0 um \<Longrightarrow> same_assets um0 (createUserAccount u n um)"
  by (simp add: same_assets_def createUserAccount_assets)

lemma idle_keeps [keeps_intros]:
  "keeps (\<lambda>s. idle sv0 (snd s)) (on_db m)"
  "keeps (\<lambda>s. idle sv0 (snd s)) (on_session f)"
  "keeps (\<lambda>s. idle sv0 (snd s)) (on_server (\<lambda>sv. sv\<lparr>sv_um := createUserAccount u n (sv_um sv)\<rparr>))"
  by (auto simp: keeps_def on_db_def on_session_def on_server_def zoom_def idle_def same_assets_create split: prod.split)

lemma keeps_need [keeps_intros]: "keeps I m \<Longrightarrow> keeps I (need n len m)"
  by (simp add: need_def keeps_def)

lemma keeps_if [keeps_intros]: "keeps I m \<Longrightarrow> keeps I m' \<Longrightarrow> keeps I (if b then m else m')"
  by simp

definition quiet :: "('d Server) IHandler \<Rightarrow> bool" where
  "quiet h \<longleftrightarrow> (\<forall>req len sv0. keeps (\<lambda>s. idle sv0 (snd s)) (h req len))"

lemma quiet_accounts: "quiet (LoginHandler junk ur)" "quiet (RegisterUserHandler ur)" "quiet ExitHandler" "quiet GetBalanceHandler"
  unfolding quiet_def LoginHandler_def RegisterUserHandler_def ExitHandler_def GetBalanceHandler_def Let_def
  by (intro allI keeps_intros)+

lemma quiet_queries: "quiet (GetAllStocksHandler sr)" "quiet GetHoldingsHandler" "quiet GetMarketHandler" "quiet GetOrdersHandler"
    "quiet (GetNewsHandler shuffle now)"
  unfolding quiet_def GetAllStocksHandler_def GetHoldingsHandler_def GetMarketHandler_def GetOrdersHandler_def
    GetNewsHandler_def Let_def
  by (intro allI keeps_intros)+

lemma quiet_trend: "quiet (GetTrendHandler z p)"
  unfolding quiet_def GetTrendHandler_def Let_def
  by (intro allI keeps_need) (auto simp: keeps_def idle_def split: option.split)

lemma quietD: "quiet h \<Longrightarrow> h req len (ss, sv) = (r, (ss', sv')) \<Longrightarrow> idle sv sv'"
  unfolding quiet_def keeps_def by (metis (no_types, lifting) idle_def same_assets_refl snd_conv)

text \<open>The three requests that change what is owned or owed.\<close>

lemma routes:
  assumes "dispatch (register_handlers ow ur sr Router_new) ty req len (ss, sv) = (r, (ss', sv'))"
  shows "ty = TRADE_REQ \<and> TradeHandler (ow_ms ow) (ow_ts ow) req len (ss, sv) = (r, (ss', sv')) \<or>
    ty = CANCEL_REQ \<and> CancelOrderHandler req len (ss, sv) = (r, (ss', sv')) \<or>
    ty = DEPOSIT_REQ \<and> DepositHandler ur req len (ss, sv) = (r, (ss', sv')) \<or>
    ty \<noteq> DEPOSIT_REQ \<and> idle sv sv'"
proof -
  note codes = ALL_STOCKS_REQ_def CANCEL_REQ_def ORDERS_REQ_def TREND_REQ_def NEWS_REQ_def MARKET_REQ_def HOLDINGS_REQ_def
    TRADE_REQ_def DEPOSIT_REQ_def BALANCE_REQ_def LOGOUT_REQ_def REGISTER_REQ_def LOGIN_REQ_def
  have d: "(case map_of (register_handlers ow ur sr Router_new) ty of Some h \<Rightarrow> h req len | None \<Rightarrow> ret []) (ss, sv) = (r, (ss', sv'))"
    using assms by (simp add: dispatch_def)
  have q: "idle sv sv'" if "map_of (register_handlers ow ur sr Router_new) ty = Some h" "quiet h" for h
    using d that by (auto dest: quietD)
  note quiets = quiet_accounts [THEN q [rotated]] quiet_queries [THEN q [rotated]] quiet_trend [THEN q [rotated]]
  show ?thesis
  proof (cases "ty \<in> {TRADE_REQ, CANCEL_REQ, DEPOSIT_REQ}")
    case True
    then show ?thesis using d by (auto simp: register_handlers_def registerHandler_def codes)
  next
    case False
    have "map_of (register_handlers ow ur sr Router_new) ty = None \<Longrightarrow> idle sv sv'"
      using d by (simp add: idle_def)
    with False show ?thesis
      using quiets by (fastforce simp: register_handlers_def registerHandler_def Router_new_def split: if_splits)
  qed
qed

text \<open>The freeze that the trade handler makes for an order.\<close>

definition freeze_for :: "Order \<Rightarrow> UserManager \<Rightarrow> bool \<times> UserManager" where
  "freeze_for x um =
     (if o_side x = BUY then tryFreezeBalance (o_user_id x) (o_price x * o_quantity x) um
      else tryFreezeStock (o_user_id x) (o_ticker_id x) (qty_int (o_quantity x)) um)"

lemma qty_int_ucast: "qty_int (ucast (a :: u32)) = a"
  unfolding qty_int_def by transfer (simp add: take_bit_take_bit)

lemma freeze_for_exists: "freeze_for x um = (b, um') \<Longrightarrow> exists_user um' v = exists_user um v"
  using exists_ops(1,2) by (metis freeze_for_def snd_conv)

lemma freeze_for_user: "freeze_for x um = (True, um') \<Longrightarrow> exists_user um (o_user_id x)"
  using tryFreezeBalance_result [of "o_user_id x" "o_price x * o_quantity x" um]
    tryFreezeStock_result [of "o_user_id x" "o_ticker_id x" "qty_int (o_quantity x)" um]
  by (auto simp: freeze_for_def split: if_splits)

lemma freeze_for_refused:
  assumes f: "freeze_for x um = (False, um')"
  shows "same_assets um um'"
proof -
  have "\<forall>v k. balance_of um' v = balance_of um v \<and> frozen_of um' v = frozen_of um v \<and>
      stock_of um' v k = stock_of um v k \<and> frozen_stock_of um' v k = frozen_stock_of um v k"
    using f tryFreezeBalance_fail [of "o_user_id x" "o_price x * o_quantity x" um]
      tryFreezeStock_fail [of "o_user_id x" "o_ticker_id x" "qty_int (o_quantity x)" um]
    by (auto simp: freeze_for_def split: if_splits)
  then show ?thesis using freeze_for_exists [OF f] by (simp add: same_assets_def)
qed

lemma request_order_fields [simp]:
  "o_order_id (request_order r i u ts) = i" "o_user_id (request_order r i u ts) = u"
  "o_ticker_id (request_order r i u ts) = tq_ticker_id r" "o_price (request_order r i u ts) = tq_price r"
  "o_quantity (request_order r i u ts) = ucast (tq_amount r)"
  by (simp_all add: request_order_def)

lemma TradeHandler_run:
  assumes "isLoggedIn ss" and "\<not> unat len < sizeof_TradeRequest"
    and f: "freeze_for (request_order (get_TradeRequest req) (fst (generate ms (sv_gen sv))) (ss_user_id ss) ts) (sv_um sv) = (ok, um)"
  shows "TradeHandler ms ts req len (ss, sv) = (Inr (put_TradeResponse \<lparr>tr_status = if ok then 1 else 0\<rparr>), (ss,
     let sv1 = make_order (request_order (get_TradeRequest req) (fst (generate ms (sv_gen sv))) (ss_user_id ss) ts)
                 (sv\<lparr>sv_gen := snd (generate ms (sv_gen sv))\<rparr>)
     in if ok then sv1\<lparr>sv_um := um, sv_wal := appendOrder (sv_next sv) (sv_wal sv)\<rparr> else sv1\<lparr>sv_um := um\<rparr>))"
proof -
  let ?x = "request_order (get_TradeRequest req) (fst (generate ms (sv_gen sv))) (ss_user_id ss) ts"
  have "(o_side ?x = BUY \<longrightarrow> tryFreezeBalance (ss_user_id ss) (tq_price (get_TradeRequest req) * ucast (tq_amount (get_TradeRequest req))) (sv_um sv) = (ok, um)) \<and>
      (o_side ?x = SELL \<longrightarrow> tryFreezeStock (ss_user_id ss) (tq_ticker_id (get_TradeRequest req)) (tq_amount (get_TradeRequest req)) (sv_um sv) = (ok, um))"
    using f by (cases "o_side ?x") (simp_all add: freeze_for_def qty_int_ucast)
  with assms(1,2) show ?thesis
    by (cases "o_side ?x"; cases ok) (simp_all add: TradeHandler_def need_def Let_def case_prod_beta make_order_def)
qed

lemma trade_cases:
  assumes "TradeHandler ms ts req len (ss, sv) = (r, (ss', sv'))"
  obtains (idle) "idle sv sv'"
  | (refused) x um where "freeze_for x (sv_um sv) = (False, um)" "sv_um sv' = um"
      "sv_heap sv' = (sv_heap sv)(sv_next sv := x)" "sv_next sv' = Suc (sv_next sv)" "sv_wal sv' = sv_wal sv"
      "sv_engine sv' = sv_engine sv" "sv_settle sv' = sv_settle sv"
  | (accepted) x um where "freeze_for x (sv_um sv) = (True, um)" "sv_um sv' = um" "o_order_id x = fst (generate ms (sv_gen sv))"
      "sv_heap sv' = (sv_heap sv)(sv_next sv := x)" "sv_next sv' = Suc (sv_next sv)"
      "sv_wal sv' = appendOrder (sv_next sv) (sv_wal sv)" "sv_engine sv' = sv_engine sv" "sv_settle sv' = sv_settle sv"
proof (cases "isLoggedIn ss \<and> \<not> unat len < sizeof_TradeRequest")
  case False
  then have "sv' = sv" using assms by (auto simp: TradeHandler_def need_def split: if_splits)
  then show thesis by (intro idle) (simp add: idle_def)
next
  case True
  let ?x = "request_order (get_TradeRequest req) (fst (generate ms (sv_gen sv))) (ss_user_id ss) ts"
  obtain ok um where f: "freeze_for ?x (sv_um sv) = (ok, um)" by fastforce
  have "(let sv1 = make_order ?x (sv\<lparr>sv_gen := snd (generate ms (sv_gen sv))\<rparr>)
      in if ok then sv1\<lparr>sv_um := um, sv_wal := appendOrder (sv_next sv) (sv_wal sv)\<rparr> else sv1\<lparr>sv_um := um\<rparr>) = sv'"
    using assms TradeHandler_run [OF _ _ f, of len] True by auto
  from this [symmetric] f show thesis using refused [of ?x um] accepted [of ?x um] by (cases ok) (simp_all add: make_order_def)
qed

lemma cancel_cases:
  assumes "CancelOrderHandler req len (ss, sv) = (r, (ss', sv'))"
  obtains "idle sv sv'" | tk oid where "sv' = sv\<lparr>sv_wal := appendCancel tk oid (ss_user_id ss) (sv_wal sv)\<rparr>"
  using assms by (auto simp: CancelOrderHandler_def need_def Let_def on_server_def idle_def split: if_splits)

lemma deposit_cases:
  assumes "DepositHandler ur req len (ss, sv) = (r, (ss', sv'))"
  obtains "deposited ur DEPOSIT_REQ req len ss sv = 0" "idle sv sv'"
  | db where "exists_user (sv_um sv) (ss_user_id ss)"
      "sv' = sv\<lparr>sv_um := addBalance (ss_user_id ss) (deposited ur DEPOSIT_REQ req len ss sv) (sv_um sv), sv_db := db\<rparr>"
proof (cases "isLoggedIn ss \<and> sizeof_DepositRequest \<le> unat len \<and> 0 < sint (dq_amount (get_DepositRequest req))")
  case False
  then have "sv' = sv" using assms by (auto simp: DepositHandler_def need_def Let_def split: if_splits)
  moreover have "deposited ur DEPOSIT_REQ req len ss sv = 0" using False by (auto simp: deposited_def Let_def)
  ultimately show thesis by (intro that(1)) (simp_all add: idle_def)
next
  case True
  let ?a = "dq_amount (get_DepositRequest req)"
  obtain q db where u: "updateBalance ur (ss_username ss) ?a (sv_db sv) = (q, db)" by fastforce
  obtain q' db' where b: "repo_getBalance ur (ss_username ss) db = (q', db')" by fastforce
  note run = assms True u b
  show thesis
  proof (cases "q = Inr True")
    case False
    then have "sv' = sv\<lparr>sv_db := db\<rparr>"
      using run by (auto simp: DepositHandler_def need_def Let_def on_db_def zoom_def bnd_def split: sum.splits if_splits)
    with False u show thesis by (intro that(1)) (auto simp: idle_def deposited_def Let_def)
  next
    case ok: True
    then have "sv' = sv\<lparr>sv_um := addBalance (ss_user_id ss) ?a (sv_um sv), sv_db := db'\<rparr>"
      using run by (auto simp: DepositHandler_def need_def Let_def on_db_def on_server_def zoom_def bnd_def split: sum.splits if_splits)
    moreover have "deposited ur DEPOSIT_REQ req len ss sv = (if exists_user (sv_um sv) (ss_user_id ss) then ?a else 0)"
      using True ok u by (auto simp: deposited_def Let_def)
    ultimately show thesis
      using that no_account_no_effect [of "sv_um sv" "ss_user_id ss"]
      by (cases "exists_user (sv_um sv) (ss_user_id ss)") (fastforce simp: idle_def addBalance_def)+
  qed
qed

end
