(* ===== verification/System_Inv.thy ===== *)
theory System_Inv
  imports System
begin

text \<open>
  The invariant of the running server: every live order is in exactly one place, belongs to an
  account, and waits in the book of its ticker; every book is well formed.
\<close>

section \<open>The logging thread\<close>

lemma map_fst_update: "map_of m k = Some v \<Longrightarrow> map fst (AList.update k v' m) = map fst m"
  by (induction m) auto

lemma obp_enqueue_simps [simp]:
  "obp_queue (obp_enqueue ev p) = obp_queue p @ [ev]" "obp_book (obp_enqueue ev p) = obp_book p"
  "obp_has_settlement (obp_enqueue ev p) = obp_has_settlement p"
  by (simp_all add: obp_enqueue_def)

lemma EngineEvent_of_type [simp]: "ev_type (EngineEvent_of t) = t"
  by (simp add: EngineEvent_of_def)

text \<open>An event is put at the end of one queue, or nowhere.\<close>

lemma wal_forward_cases:
  obtains (lost) "wal_forward h ev e = e"
      "ev_type ev = NEW_ORDER \<Longrightarrow> map_of (order_books e) (o_ticker_id (h (ev_order ev))) = None"
  | (put) tk p ev' where "map_of (order_books e) tk = Some p"
      "wal_forward h ev e = e\<lparr>order_books := AList.update tk (obp_enqueue ev' p) (order_books e)\<rparr>"
      "ev_type ev' = ev_type ev" "ev_type ev = NEW_ORDER \<Longrightarrow> tk = o_ticker_id (h (ev_order ev)) \<and> ev_order ev' = ev_order ev"
proof (cases "ev_type ev")
  case NEW_ORDER
  then show thesis
    using lost put by (cases "map_of (order_books e) (o_ticker_id (h (ev_order ev)))")
      (simp_all add: wal_forward_def MatchingEngine_processOrder_def Let_def)
next
  case CANCEL_ORDER
  then show thesis
    using lost put [of "ev_ticker_id ev"] by (cases "map_of (order_books e) (ev_ticker_id ev)")
      (simp_all add: wal_forward_def MatchingEngine_CancelOrder_def)
qed

definition obp_ok :: "heap \<Rightarrow> u32 \<Rightarrow> OrderBookProcessor \<Rightarrow> bool" where
  "obp_ok h tk p \<longleftrightarrow> wf_book h (obp_book p) \<and> ob_ticker_id (obp_book p) = tk \<and> obp_has_settlement p \<and>
     (\<forall>q \<in> set (queue_ptrs (obp_queue p)). o_ticker_id (h q) = tk)"

definition books_ok :: "heap \<Rightarrow> (u32, OrderBookProcessor) umap \<Rightarrow> bool" where
  "books_ok h obs \<longleftrightarrow> um_wf obs \<and> (\<forall>(tk, p) \<in> set obs. obp_ok h tk p)"

lemma books_okD: "books_ok h obs \<Longrightarrow> map_of obs tk = Some p \<Longrightarrow> obp_ok h tk p"
  by (auto simp: books_ok_def dest: map_of_SomeD)

lemma books_ok_update:
  assumes "books_ok h obs" and "map_of obs tk = Some p" and "obp_ok h tk p'"
  shows "books_ok h (AList.update tk p' obs)"
proof -
  have wf: "um_wf obs" using assms(1) by (simp add: books_ok_def)
  obtain xs ys where "obs = xs @ (tk, p) # ys" "AList.update tk p' obs = xs @ (tk, p') # ys"
    by (rule um_split [OF wf assms(2)]) blast
  with assms wf show ?thesis by (auto simp: books_ok_def um_wf_def)
qed

text \<open>Forwarding conserves orders: each new order reaches the queue of its book or has no book.\<close>

lemma wal_forward_one:
  assumes "books_ok h (order_books e)"
  shows "books_ok h (order_books (wal_forward h ev e))"
    and "map fst (order_books (wal_forward h ev e)) = map fst (order_books e)"
    and "mset (engine_ptrs (order_books (wal_forward h ev e))) + mset (unroutable h e [ev]) =
      mset (engine_ptrs (order_books e)) + mset (queue_ptrs [ev])"
proof -
  have "books_ok h (order_books (wal_forward h ev e)) \<and> map fst (order_books (wal_forward h ev e)) = map fst (order_books e) \<and>
    mset (engine_ptrs (order_books (wal_forward h ev e))) + mset (unroutable h e [ev]) =
      mset (engine_ptrs (order_books e)) + mset (queue_ptrs [ev])"
  proof (cases rule: wal_forward_cases [of h ev e])
    case lost
    with assms show ?thesis by (auto simp: unroutable_def)
  next
    case (put tk p ev')
    have p: "obp_ok h tk p" by (rule books_okD [OF assms put(1)])
    then have "obp_ok h tk (obp_enqueue ev' p)" using put(3,4) by (auto simp: obp_ok_def)
    from books_ok_update [OF assms put(1) this] map_fst_update [OF put(1)]
    have 1: "books_ok h (order_books (wal_forward h ev e))" "map fst (order_books (wal_forward h ev e)) = map fst (order_books e)"
      by (simp_all add: put(2))
    have wf: "um_wf (order_books e)" using assms by (simp add: books_ok_def)
    obtain xs ys where "order_books e = xs @ (tk, p) # ys"
      "AList.update tk (obp_enqueue ev' p) (order_books e) = xs @ (tk, obp_enqueue ev' p) # ys"
      by (rule um_split [OF wf put(1)]) blast
    moreover have "unroutable h e [ev] = []" using put(1,4) by (auto simp: unroutable_def)
    ultimately show ?thesis using 1 put by (auto simp: put(2))
  qed
  then show "books_ok h (order_books (wal_forward h ev e))"
    and "map fst (order_books (wal_forward h ev e)) = map fst (order_books e)"
    and "mset (engine_ptrs (order_books (wal_forward h ev e))) + mset (unroutable h e [ev]) =
      mset (engine_ptrs (order_books e)) + mset (queue_ptrs [ev])" by blast+
qed

lemma unroutable_keys:
  assumes "map fst (order_books e') = map fst (order_books e)"
  shows "unroutable h e' evs = unroutable h e evs"
proof -
  have "map_of (order_books e') k = None \<longleftrightarrow> map_of (order_books e) k = None" for k
    using assms unfolding map_of_eq_None_iff by (metis list.set_map)
  then show ?thesis by (simp add: unroutable_def)
qed

lemma wal_forward_all:
  assumes "books_ok h (order_books e)"
  shows "books_ok h (order_books (fold (wal_forward h) evs e)) \<and>
    mset (engine_ptrs (order_books (fold (wal_forward h) evs e))) + mset (unroutable h e evs) =
      mset (engine_ptrs (order_books e)) + mset (queue_ptrs evs)"
  using assms
proof (induction evs arbitrary: e)
  case Nil
  then show ?case by (simp add: unroutable_def)
next
  case (Cons ev evs)
  note one = wal_forward_one [OF Cons.prems, of ev]
  have "mset (unroutable h e (ev # evs)) = mset (unroutable h e [ev]) + mset (unroutable h (wal_forward h ev e) evs)"
    unfolding unroutable_keys [OF one(2)] by (simp add: unroutable_def)
  moreover have "mset (queue_ptrs (ev # evs)) = mset (queue_ptrs [ev]) + mset (queue_ptrs evs)" by simp
  ultimately show ?case using Cons.IH [OF one(1)] one(3) by (simp add: ac_simps del: queue_ptrs_simps)
qed

section \<open>The thread of a book\<close>

lemma wf_book_heap: 
  assumes "wf_book h b" and "\<And>x. x \<in> set (book_ptrs b) \<Longrightarrow> h' x = h x"
  shows "wf_book h' b"
proof -
  have "wf_side (>) BUY (ob_ticker_id b) h' (bids b)" "wf_side (<) SELL (ob_ticker_id b) h' (asks b)"
    using assms by (auto simp: wf_book_def book_ptrs_def intro: wf_side_cong)
  moreover have "inj_on (\<lambda>p. o_order_id (h' p)) (set (book_ptrs b))"
    using assms by (auto simp: wf_book_def inj_on_def)
  moreover have "index_ok h' (set (book_ptrs b)) (user_active_orders b)"
    using assms by (intro index_ok_cong [where h = h and h' = h']) (auto simp: wf_book_def)
  ultimately show ?thesis
    using assms by (auto simp: wf_book_def uncrossed_def book_ptrs_def)
qed

lemma queue_ptrs_split: "queue_ptrs evs = queue_ptrs (take n evs) @ queue_ptrs (drop n evs)"
  by (metis append_take_drop_id queue_ptrs_simps(3))

definition obp_ptrs :: "OrderBookProcessor \<Rightarrow> ptr list" where
  "obp_ptrs p = queue_ptrs (obp_queue p) @ book_ptrs (obp_book p)"

lemma obp_round_cases [consumes 2, case_names nothing batch]:
  assumes "obp_round clock n p h st pub = (p', h', st', pub')" and "obp_has_settlement p"
  obtains "p' = p" "h' = h" "st' = st"
  | c s where "s = process_events True clock (take c (obp_queue p))
        \<lparr>bs_heap = h, bs_book = obp_book p, bs_results = [], bs_settlement = st\<rparr>"
      "p' = p\<lparr>obp_book := bs_book s, obp_queue := drop c (obp_queue p)\<rparr>" "h' = bs_heap s"
      "st' = pushRecords (bs_results s) (bs_settlement s)"
proof (cases "\<not> obp_running p \<or> take (min n obp_batch_size) (obp_queue p) = []")
  case True
  then have "(p', h', st', pub') = (p, h, st, pub)"
    using assms(1) unfolding obp_round_def Let_def by (simp only: if_True)
  then show thesis using that(1) by simp
next
  case False
  let ?s = "process_events True clock (take (min n obp_batch_size) (obp_queue p))
        \<lparr>bs_heap = h, bs_book = obp_book p, bs_results = [], bs_settlement = st\<rparr>"
  have "(p', h', st') = (p\<lparr>obp_book := bs_book ?s, obp_queue := drop (min n obp_batch_size) (obp_queue p)\<rparr>, bs_heap ?s,
      pushRecords (bs_results ?s) (bs_settlement ?s))"
    using assms False unfolding obp_round_def Let_def
    by (cases "bs_results ?s = []") (simp_all only: if_False if_True pushRecords_def prod.inject simp_thms)
  then show thesis using that(2) [OF refl] by simp
qed

lemma obp_batch_ok:
  assumes "obp_ok h tk p" and "distinct (obp_ptrs p)" "inj_on (\<lambda>q. o_order_id (h q)) (set (obp_ptrs p))"
  shows "batch_ok h (obp_book p) (queue_ptrs (take c (obp_queue p)))"
proof -
  have sub: "set (queue_ptrs (take c (obp_queue p)) @ book_ptrs (obp_book p)) \<subseteq> set (obp_ptrs p)"
    using queue_ptrs_split [of "obp_queue p" c] by (auto simp: obp_ptrs_def)
  have "inj_on (\<lambda>q. o_order_id (h q)) (set (queue_ptrs (take c (obp_queue p)) @ book_ptrs (obp_book p)))"
    by (rule inj_on_subset [OF assms(3) sub])
  moreover have "distinct (queue_ptrs (take c (obp_queue p)) @ book_ptrs (obp_book p))"
    using assms(2) queue_ptrs_split [of "obp_queue p" c] by (auto simp: obp_ptrs_def)
  ultimately show ?thesis
    using assms(1) queue_ptrs_split [of "obp_queue p" c] by (auto simp: batch_ok_def obp_ok_def)
qed

text \<open>
  A round changes only orders that wait for the book or rest in it; what leaves the book goes into
  the records for the clearing, whose parties own those orders.
\<close>

lemma obp_round_effect:
  assumes ok: "obp_ok h tk p" and d: "distinct (obp_ptrs p)" and inj: "inj_on (\<lambda>q. o_order_id (h q)) (set (obp_ptrs p))"
    and r: "obp_round clock n p h st pub = (p', h', st', pub')"
  shows "(\<forall>x. x \<notin> set (obp_ptrs p) \<longrightarrow> h' x = h x) \<and> (\<forall>x. same_order (h' x) (h x)) \<and> obp_ok h' tk p' \<and>
    set (obp_ptrs p') \<subseteq> set (obp_ptrs p) \<and> distinct (obp_ptrs p') \<and>
    (\<exists>recs crs. st_queue st' = st_queue st @ recs \<and> st_cancel_queue st' = st_cancel_queue st @ crs \<and>
       (\<forall>rc \<in> set recs. {m_buyer_user_id rc, m_sell_user_id rc} \<subseteq> users_at h (set (obp_ptrs p))) \<and>
       (\<forall>cr \<in> set crs. c_user_id cr \<in> users_at h (set (obp_ptrs p))))"
proof -
  have sp: "obp_has_settlement p" using ok by (simp add: obp_ok_def)
  from r sp show ?thesis
  proof (cases rule: obp_round_cases)
    case nothing
    with ok d show ?thesis by auto
  next
    case (batch c s)
    let ?s0 = "\<lparr>bs_heap = h, bs_book = obp_book p, bs_results = [], bs_settlement = st\<rparr>"
    let ?P = "set (queue_ptrs (take c (obp_queue p))) \<union> set (book_ptrs (obp_book p))"
    have bo: "batch_ok (bs_heap ?s0) (bs_book ?s0) (queue_ptrs (take c (obp_queue p)))"
      using obp_batch_ok [OF ok d inj] by simp
    note ev = process_events_ok [OF bo, of True clock, folded batch(1)]
    have t: "touches ?P ?s0 s" and wf: "wf_book (bs_heap s) (bs_book s)" using ev by simp_all
    have q: "queue_ptrs (obp_queue p) = queue_ptrs (take c (obp_queue p)) @ queue_ptrs (drop c (obp_queue p))"
      by (rule queue_ptrs_split)
    have sub: "?P \<subseteq> set (obp_ptrs p)" by (auto simp: obp_ptrs_def q)
    have t': "touches (set (obp_ptrs p)) ?s0 s" by (rule touches_mono [OF t sub])
    have bk: "set (book_ptrs (bs_book s)) \<subseteq> ?P" using t by (simp add: touches_def)
    have same: "same_order (h' x) (h x)" for x using t by (simp add: touches_def batch(3))
    have "obp_ok h' tk p'"
      using ok wf t same_order_fields [OF same] by (auto simp: obp_ok_def batch touches_def q)
    moreover have "set (obp_ptrs p') \<subseteq> set (obp_ptrs p)" using bk by (auto simp: obp_ptrs_def batch(2) q)
    moreover have "distinct (obp_ptrs p')"
      using d bk wf by (auto simp: obp_ptrs_def batch(2) q wf_book_def)
    moreover have "\<forall>x. x \<notin> set (obp_ptrs p) \<longrightarrow> h' x = h x" using t' by (simp add: touches_def batch(3))
    moreover have "\<exists>recs crs. st_queue st' = st_queue st @ recs \<and> st_cancel_queue st' = st_cancel_queue st @ crs \<and>
       (\<forall>rc \<in> set recs. {m_buyer_user_id rc, m_sell_user_id rc} \<subseteq> users_at h (set (obp_ptrs p))) \<and>
       (\<forall>cr \<in> set crs. c_user_id cr \<in> users_at h (set (obp_ptrs p)))"
      using t' by (auto simp: touches_def batch(4) pushRecords_def)
    ultimately show ?thesis using same by blast
  qed
qed

context order_weight
begin

text \<open>The weight of what the clearing has still to do.\<close>

definition owed :: "Settlement \<Rightarrow> 'w" where
  "owed st = (\<Sum>rc\<leftarrow>st_queue st. rw rc) + (\<Sum>cr\<leftarrow>st_cancel_queue st. cw cr)"

lemma owed_pushRecords: "owed (pushRecords rs st) = (\<Sum>rc\<leftarrow>rs. rw rc) + owed st"
  by (simp add: owed_def pushRecords_def)

lemma obp_round_weight:
  assumes ok: "obp_ok h tk p" and d: "distinct (obp_ptrs p)" and inj: "inj_on (\<lambda>q. o_order_id (h q)) (set (obp_ptrs p))"
    and r: "obp_round clock n p h st pub = (p', h', st', pub')"
  shows "total h' (obp_ptrs p') + owed st' = total h (obp_ptrs p) + owed st"
proof -
  have sp: "obp_has_settlement p" using ok by (simp add: obp_ok_def)
  from r sp show ?thesis
  proof (cases rule: obp_round_cases)
    case (batch c s)
    let ?s0 = "\<lparr>bs_heap = h, bs_book = obp_book p, bs_results = [], bs_settlement = st\<rparr>"
    let ?q = "queue_ptrs (take c (obp_queue p))" let ?q' = "queue_ptrs (drop c (obp_queue p))"
    have bo: "batch_ok (bs_heap ?s0) (bs_book ?s0) ?q" using obp_batch_ok [OF ok d inj] by simp
    have t: "touches (set ?q \<union> set (book_ptrs (obp_book p))) ?s0 s"
      using process_events_ok(1) [OF bo, of True clock, folded batch(1)] by simp
    have q: "queue_ptrs (obp_queue p) = ?q @ ?q'" by (rule queue_ptrs_split)
    have "total h' ?q' = total h ?q'"
    proof (rule total_cong)
      fix x assume "x \<in> set ?q'"
      then have "x \<notin> set ?q \<union> set (book_ptrs (obp_book p))" using d by (auto simp: obp_ptrs_def q)
      then show "h' x = h x" using t by (simp add: touches_def batch(3))
    qed
    moreover have "load s [] = load ?s0 ?q"
      using load_events [of ?s0 "take c (obp_queue p)" "[]" clock] bo by (simp add: batch(1))
    moreover have "st_queue (bs_settlement s) = st_queue st" using t by (simp add: touches_def)
    then have "total h' (obp_ptrs p') + owed st' = total h' ?q' + load s [] + (\<Sum>rc\<leftarrow>st_queue st. rw rc)"
      unfolding batch(4) owed_pushRecords by (simp add: obp_ptrs_def batch(2,3) owed_def load_def)
    ultimately show ?thesis by (simp add: obp_ptrs_def q owed_def load_def)
  qed simp
qed

end

end
