(* ===== verification/System_Props.thy ===== *)
theory System_Props
  imports System_Inv
begin

text \<open>
  What holds in every state that the running server reaches: frozen money and shares are exactly
  what the live orders and the pending records need, and money and shares are conserved.
\<close>

section \<open>The clearing thread\<close>

lemma settle_records_memory:
  "for_each (settle_record ur sr tm) recs (db, um) = (Inr (), (db', um')) \<Longrightarrow> um' = fold settle_memory recs um"
proof (induction recs arbitrary: db um)
  case (Cons r recs)
  obtain x t where 1: "settle_record ur sr tm r (db, um) = (Inr x, t)"
    and 2: "for_each (settle_record ur sr tm) recs t = (Inr (), (db', um'))"
    using Cons.prems by (auto elim: bnd_result)
  from 1 have "snd t = settle_memory r um"
    by (auto simp: settle_record_def zoom_def bnd_def case_prod_beta split: sum.splits)
  with Cons.IH [of "fst t" "snd t"] 2 show ?case by (cases t) simp
qed simp

lemma settle_round_effect:
  assumes "settle_round ur sr tm n k s (db, um) = (Inr st, (db', um'))"
  obtains i j where "st = s\<lparr>st_queue := drop i (st_queue s), st_cancel_queue := drop j (st_cancel_queue s)\<rparr>"
    and "um' = fold settle_cancel (take j (st_cancel_queue s)) (fold settle_memory (take i (st_queue s)) um)"
proof (cases "st_running s \<or> st_queue s \<noteq> [] \<or> st_cancel_queue s \<noteq> []")
  case True
  let ?i = "min n st_batch_size" let ?j = "min k st_batch_size"
  from assms True have "bnd (for_each (settle_record ur sr tm) (take ?i (st_queue s))) (\<lambda>_.
      bnd (modify (\<lambda>st. (fst st, fold settle_cancel (take ?j (st_cancel_queue s)) (snd st)))) (\<lambda>_.
      ret (s\<lparr>st_queue := drop ?i (st_queue s), st_cancel_queue := drop ?j (st_cancel_queue s)\<rparr>))) (db, um) = (Inr st, (db', um'))"
    by (simp add: settle_round_def Let_def)
  then obtain x t where "for_each (settle_record ur sr tm) (take ?i (st_queue s)) (db, um) = (Inr x, t)"
    and "st = s\<lparr>st_queue := drop ?i (st_queue s), st_cancel_queue := drop ?j (st_cancel_queue s)\<rparr>"
      "um' = fold settle_cancel (take ?j (st_cancel_queue s)) (snd t)"
    by (rule bnd_result) simp
  then show thesis using settle_records_memory [of ur sr tm _ db um "fst t" "snd t"] by (intro that [of ?j ?i]) simp_all
next
  case False
  then have "st = s" "um' = um" using assms by (simp_all add: settle_round_def)
  with False show thesis by (intro that [of 0 0]) simp_all
qed

lemma exists_fold_match [simp]: "exists_user (fold settle_memory rs um) v = exists_user um v"
  by (induction rs arbitrary: um) simp_all

lemma exists_fold_cancel [simp]: "exists_user (fold settle_cancel cs um) v = exists_user um v"
  by (induction cs arbitrary: um) simp_all

section \<open>The invariant\<close>

definition live_ok :: "heap \<Rightarrow> UserManager \<Rightarrow> ptr \<Rightarrow> ptr list \<Rightarrow> bool" where
  "live_ok h um nx ps \<longleftrightarrow> distinct ps \<and> inj_on (\<lambda>q. o_order_id (h q)) (set ps) \<and>
     (\<forall>q \<in> set ps. q < nx \<and> exists_user um (o_user_id (h q)))"

definition pending_ok :: "UserManager \<Rightarrow> Settlement \<Rightarrow> bool" where
  "pending_ok um st \<longleftrightarrow> (\<forall>rc \<in> set (st_queue st). parties_exist um rc) \<and> (\<forall>cr \<in> set (st_cancel_queue st). exists_user um (c_user_id cr))"

definition sys_ok :: "'d Server \<Rightarrow> ptr list \<Rightarrow> bool" where
  "sys_ok sv dr \<longleftrightarrow> books_ok (sv_heap sv) (order_books (sv_engine sv)) \<and>
     live_ok (sv_heap sv) (sv_um sv) (sv_next sv) (live sv dr) \<and> pending_ok (sv_um sv) (sv_settle sv)"

lemma live_ok_mset: "live_ok h um nx ps \<Longrightarrow> mset qs = mset ps \<Longrightarrow> live_ok h um nx qs"
  using mset_eq_setD [of qs ps] mset_eq_imp_distinct_iff [of qs ps] by (simp add: live_ok_def)

lemma live_ok_sub:
  assumes "live_ok h um nx ps" and "set qs \<subseteq> set ps" "distinct qs" and same: "\<And>x. same_order (h' x) (h x)"
  shows "live_ok h' um nx qs"
proof -
  have "inj_on (\<lambda>q. o_order_id (h q)) (set qs)" using assms(1,2) by (auto simp: live_ok_def intro: inj_on_subset)
  then show ?thesis using assms(1-3) same_order_fields [OF same] by (auto simp: live_ok_def)
qed

lemma books_ok_frame:
  assumes "books_ok h obs" and "\<And>x. x \<in> set (engine_ptrs obs) \<Longrightarrow> h' x = h x"
  shows "books_ok h' obs"
proof -
  have "obp_ok h' tk p" if "(tk, p) \<in> set obs" for tk p
  proof -
    have eq: "h' x = h x" if "x \<in> set (queue_ptrs (obp_queue p) @ book_ptrs (obp_book p))" for x
      using that \<open>(tk, p) \<in> set obs\<close> assms(2) by (force simp: engine_ptrs_def)
    have "obp_ok h tk p" using assms(1) that by (auto simp: books_ok_def)
    then show ?thesis using eq wf_book_heap [of h "obp_book p" h'] by (auto simp: obp_ok_def)
  qed
  then show ?thesis using assms(1) by (auto simp: books_ok_def)
qed

lemma pending_ok_mono:
  "pending_ok um st \<Longrightarrow> (\<And>u. exists_user um u \<Longrightarrow> exists_user um' u) \<Longrightarrow> pending_ok um' st"
  by (auto simp: pending_ok_def parties_exist_def)

lemma live_ok_users:
  "live_ok h um nx ps \<Longrightarrow> (\<And>u. exists_user um u \<Longrightarrow> exists_user um' u) \<Longrightarrow> nx \<le> nx' \<Longrightarrow> live_ok h um' nx' ps"
  unfolding live_ok_def using less_le_trans by blast

lemma sys_okI:
  assumes "sys_ok sv dr" and "sv_heap sv' = sv_heap sv" "order_books (sv_engine sv') = order_books (sv_engine sv)"
    and "queue_ptrs (wal_queue (sv_wal sv')) = queue_ptrs (wal_queue (sv_wal sv))" "sv_next sv' = sv_next sv"
    and "\<And>u. exists_user (sv_um sv) u \<Longrightarrow> exists_user (sv_um sv') u" and "pending_ok (sv_um sv') (sv_settle sv')"
  shows "sys_ok sv' dr"
  using assms live_ok_users [of "sv_heap sv" "sv_um sv" "sv_next sv" "live sv dr" "sv_um sv'" "sv_next sv"]
  by (simp add: sys_ok_def live_def)

lemma sys_ok_pending: "sys_ok sv dr \<Longrightarrow> pending_ok (sv_um sv) (sv_settle sv)"
  by (simp add: sys_ok_def)

lemma sys_ok_idle:
  assumes "sys_ok sv dr" and "idle sv sv'"
  shows "sys_ok sv' dr"
proof (rule sys_okI [OF assms(1)])
  show ex: "exists_user (sv_um sv) u \<Longrightarrow> exists_user (sv_um sv') u" for u
    using assms(2) by (simp add: idle_def same_assets_def)
  show "pending_ok (sv_um sv') (sv_settle sv')"
    using pending_ok_mono [OF sys_ok_pending [OF assms(1)] ex] assms(2) by (simp add: idle_def)
qed (use assms(2) in \<open>simp_all add: idle_def\<close>)

text \<open>A new order at a new address under an unused id.\<close>

lemma live_ok_new:
  assumes "live_ok h um nx ps" and "o_order_id x \<notin> (\<lambda>q. o_order_id (h q)) ` set ps"
    and "exists_user um (o_user_id x)"
  shows "live_ok (h(nx := x)) um (Suc nx) (nx # ps)"
proof -
  have "nx \<notin> set ps" using assms(1) by (auto simp: live_ok_def)
  moreover from this have eq: "(\<lambda>q. o_order_id ((h(nx := x)) q)) ` set ps = (\<lambda>q. o_order_id (h q)) ` set ps"
    "inj_on (\<lambda>q. o_order_id ((h(nx := x)) q)) (set ps) = inj_on (\<lambda>q. o_order_id (h q)) (set ps)"
    by (auto simp: image_def inj_on_def)
  ultimately show ?thesis using assms by (auto simp: live_ok_def less_Suc_eq)
qed

lemma live_below: "sys_ok sv dr \<Longrightarrow> x \<in> set (live sv dr) \<Longrightarrow> x < sv_next sv"
  by (simp add: sys_ok_def live_ok_def)

lemma sys_ok_heap:
  assumes "sys_ok sv dr"
  shows "books_ok ((sv_heap sv)(sv_next sv := x)) (order_books (sv_engine sv))"
proof (rule books_ok_frame)
  show "books_ok (sv_heap sv) (order_books (sv_engine sv))" using assms by (simp add: sys_ok_def)
  fix q assume "q \<in> set (engine_ptrs (order_books (sv_engine sv)))"
  then have "q < sv_next sv" by (intro live_below [OF assms]) (simp add: live_def)
  then show "((sv_heap sv)(sv_next sv := x)) q = sv_heap sv q" by simp
qed

lemma sys_ok_trade:
  assumes ok: "sys_ok sv dr" and "fresh_id ms sv dr" and t: "TradeHandler ms ts req len (ss, sv) = (r, (ss', sv'))"
  shows "sys_ok sv' dr"
  using t
proof (cases rule: trade_cases)
  case idle
  then show ?thesis by (rule sys_ok_idle [OF ok])
next
  case (refused x um)
  have "live_ok (sv_heap sv') (sv_um sv') (sv_next sv') (live sv dr)"
  proof -
    have "live_ok (sv_heap sv) (sv_um sv') (sv_next sv') (live sv dr)"
      using ok freeze_for_exists [OF refused(1)] refused(2,4)
      by - (rule live_ok_users [of _ "sv_um sv" "sv_next sv"], simp_all add: sys_ok_def)
    then show ?thesis using live_below [OF ok] by (auto simp: live_ok_def refused(3) inj_on_def)
  qed
  moreover have "pending_ok (sv_um sv') (sv_settle sv')"
    using pending_ok_mono [OF sys_ok_pending [OF ok]] freeze_for_exists [OF refused(1)] refused(2,7) by simp
  ultimately show ?thesis using sys_ok_heap [OF ok, of x] refused by (simp add: sys_ok_def live_def)
next
  case (accepted x um)
  have ex: "exists_user um u = exists_user (sv_um sv) u" for u by (rule freeze_for_exists [OF accepted(1)])
  have "live_ok ((sv_heap sv)(sv_next sv := x)) (sv_um sv) (Suc (sv_next sv)) (sv_next sv # live sv dr)"
    using ok assms(2) freeze_for_user [OF accepted(1)]
    by (intro live_ok_new) (simp_all add: sys_ok_def fresh_id_def accepted(3))
  then have "live_ok (sv_heap sv') um (Suc (sv_next sv)) (sv_next sv # live sv dr)"
    unfolding accepted(4) by (rule live_ok_users) (simp_all add: ex)
  then have "live_ok (sv_heap sv') (sv_um sv') (sv_next sv') (live sv' dr)"
    unfolding accepted(2,5) by (rule live_ok_mset) (simp add: live_def accepted appendOrder_def EngineEvent_of_def)
  moreover have "pending_ok (sv_um sv') (sv_settle sv')"
    using pending_ok_mono [OF sys_ok_pending [OF ok]] ex accepted(2,8) by simp
  ultimately show ?thesis using sys_ok_heap [OF ok, of x] accepted by (simp add: sys_ok_def)
qed

lemma sys_ok_book:
  assumes ok: "sys_ok sv dr" and m: "map_of (order_books (sv_engine sv)) tk = Some p"
    and r: "obp_round clocks n p (sv_heap sv) (sv_settle sv) (sv_pub sv) = (p', h, st, pub)"
  shows "sys_ok (sv\<lparr>sv_heap := h, sv_engine := (sv_engine sv)\<lparr>order_books := AList.update tk p' (order_books (sv_engine sv))\<rparr>,
           sv_settle := st, sv_pub := pub\<rparr>) dr"
proof -
  let ?obs = "order_books (sv_engine sv)" let ?q = "queue_ptrs (wal_queue (sv_wal sv))"
  have b: "books_ok (sv_heap sv) ?obs" and l: "live_ok (sv_heap sv) (sv_um sv) (sv_next sv) (live sv dr)"
    and pend: "pending_ok (sv_um sv) (sv_settle sv)" using ok by (simp_all add: sys_ok_def)
  then have wf: "um_wf ?obs" by (simp add: books_ok_def)
  obtain xs ys where s: "?obs = xs @ (tk, p) # ys" "\<And>v. AList.update tk v ?obs = xs @ (tk, v) # ys"
    by (rule um_split [OF wf m]) blast
  have live: "live sv dr = dr @ ?q @ engine_ptrs xs @ obp_ptrs p @ engine_ptrs ys" by (simp add: live_def s(1) obp_ptrs_def)
  have d: "distinct (obp_ptrs p)" and inj: "inj_on (\<lambda>q. o_order_id (sv_heap sv q)) (set (obp_ptrs p))"
    using l by (auto simp: live live_ok_def intro: inj_on_subset)
  note eff = obp_round_effect [OF books_okD [OF b m] d inj r]
  have frame: "x \<notin> set (obp_ptrs p) \<Longrightarrow> h x = sv_heap sv x" and same: "same_order (h x) (sv_heap sv x)" for x using eff by blast+
  have sub: "set (obp_ptrs p') \<subseteq> set (obp_ptrs p)" and d': "distinct (obp_ptrs p')" and ok': "obp_ok h tk p'" using eff by blast+
  have "distinct (live sv dr)" using l by (simp add: live_ok_def)
  then have dd: "distinct (dr @ ?q @ engine_ptrs xs @ obp_ptrs p @ engine_ptrs ys)" by (simp only: live)
  have "books_ok h (xs @ ys)"
  proof (rule books_ok_frame)
    show "books_ok (sv_heap sv) (xs @ ys)" using b by (auto simp: s(1) books_ok_def um_wf_def)
    show "h x = sv_heap sv x" if "x \<in> set (engine_ptrs (xs @ ys))" for x
      using that dd by (intro frame) auto
  qed
  then have books: "books_ok h (xs @ (tk, p') # ys)" using ok' wf by (auto simp: s(1) books_ok_def um_wf_def)
  have live': "live_ok h (sv_um sv) (sv_next sv) (dr @ ?q @ engine_ptrs xs @ obp_ptrs p' @ engine_ptrs ys)"
    using sub dd d' same by - (rule live_ok_sub [OF l], auto simp: live)
  have users: "exists_user (sv_um sv) u" if "u \<in> users_at (sv_heap sv) (set (obp_ptrs p))" for u
    using l that by (auto simp: users_at_def live_ok_def live)
  from eff obtain recs crs where "st_queue st = st_queue (sv_settle sv) @ recs" "st_cancel_queue st = st_cancel_queue (sv_settle sv) @ crs"
    "\<forall>rc \<in> set recs. {m_buyer_user_id rc, m_sell_user_id rc} \<subseteq> users_at (sv_heap sv) (set (obp_ptrs p))"
    "\<forall>cr \<in> set crs. c_user_id cr \<in> users_at (sv_heap sv) (set (obp_ptrs p))" by blast
  then have "pending_ok (sv_um sv) st" using pend users by (auto simp: pending_ok_def parties_exist_def)
  then show ?thesis using books live' by (simp add: sys_ok_def live_def s(2) obp_ptrs_def)
qed

lemma wal_round_effect:
  assumes "wal_round clock stored n h w e = (w', e')"
  shows "e' = fold (wal_forward h) (wal_taken n w) e"
    and "queue_ptrs (wal_queue w) = queue_ptrs (wal_taken n w) @ queue_ptrs (wal_queue w')"
  using assms queue_ptrs_split [of "wal_queue w" "min n wal_batch_size"]
  by (auto simp: wal_round_def wal_taken_def Let_def split: if_splits)

lemma live_log:
  assumes ok: "sys_ok sv dr" and r: "wal_round clock stored n (sv_heap sv) (sv_wal sv) (sv_engine sv) = (w, e)"
  shows "mset (live (sv\<lparr>sv_wal := w, sv_engine := e\<rparr>) (dr @ unroutable (sv_heap sv) (sv_engine sv) (wal_taken n (sv_wal sv)))) =
      mset (live sv dr)" (is ?live)
    and "books_ok (sv_heap sv) (order_books e)"
proof -
  have b: "books_ok (sv_heap sv) (order_books (sv_engine sv))" using ok by (simp add: sys_ok_def)
  note all = wal_forward_all [OF b, of "wal_taken n (sv_wal sv)", folded wal_round_effect(1) [OF r]]
  then show "books_ok (sv_heap sv) (order_books e)" by blast
  from all have m: "mset (engine_ptrs (order_books e)) + mset (unroutable (sv_heap sv) (sv_engine sv) (wal_taken n (sv_wal sv))) =
      mset (engine_ptrs (order_books (sv_engine sv))) + mset (queue_ptrs (wal_taken n (sv_wal sv)))" by blast
  have "mset (live (sv\<lparr>sv_wal := w, sv_engine := e\<rparr>) (dr @ unroutable (sv_heap sv) (sv_engine sv) (wal_taken n (sv_wal sv)))) =
      mset dr + mset (queue_ptrs (wal_queue w)) +
      (mset (engine_ptrs (order_books e)) + mset (unroutable (sv_heap sv) (sv_engine sv) (wal_taken n (sv_wal sv))))"
    by (simp add: live_def ac_simps)
  also have "\<dots> = mset (live sv dr)" unfolding m by (simp add: live_def wal_round_effect(2) [OF r] ac_simps)
  finally show ?live .
qed

lemma sys_ok_log:
  assumes ok: "sys_ok sv dr" and r: "wal_round clock stored n (sv_heap sv) (sv_wal sv) (sv_engine sv) = (w, e)"
  shows "sys_ok (sv\<lparr>sv_wal := w, sv_engine := e\<rparr>) (dr @ unroutable (sv_heap sv) (sv_engine sv) (wal_taken n (sv_wal sv)))"
proof -
  have "live_ok (sv_heap sv) (sv_um sv) (sv_next sv) (live sv dr)" using ok by (simp add: sys_ok_def)
  from live_ok_mset [OF this live_log(1) [OF ok r]] live_log(2) [OF ok r] ok show ?thesis by (simp add: sys_ok_def)
qed

lemma sys_ok_clear:
  assumes ok: "sys_ok sv dr" and r: "settle_round ur sr (sv_tm sv) n k (sv_settle sv) (sv_db sv, sv_um sv) = (Inr st, (db, um))"
  shows "sys_ok (sv\<lparr>sv_db := db, sv_um := um, sv_settle := st\<rparr>) dr"
proof -
  obtain i j where st: "st = (sv_settle sv)\<lparr>st_queue := drop i (st_queue (sv_settle sv)),
        st_cancel_queue := drop j (st_cancel_queue (sv_settle sv))\<rparr>"
    and um: "um = fold settle_cancel (take j (st_cancel_queue (sv_settle sv))) (fold settle_memory (take i (st_queue (sv_settle sv))) (sv_um sv))"
    by (rule settle_round_effect [OF r])
  have "pending_ok um st"
    using sys_ok_pending [OF ok] by (auto simp: pending_ok_def parties_exist_def st um dest: in_set_dropD)
  then show ?thesis by (intro sys_okI [OF ok]) (simp_all add: um)
qed

lemma sys_ok_deposit:
  assumes ok: "sys_ok sv dr" and r: "DepositHandler ur req len (ss, sv) = (r, (ss', sv'))"
  shows "sys_ok sv' dr"
  using r
proof (cases rule: deposit_cases)
  case 1
  then show ?thesis using sys_ok_idle [OF ok] by simp
next
  case (2 db)
  have "pending_ok (sv_um sv') (sv_settle sv')"
    using pending_ok_mono [OF sys_ok_pending [OF ok], of "sv_um sv'"] by (simp add: 2)
  then show ?thesis by (intro sys_okI [OF ok]) (simp_all add: 2)
qed

lemma sys_ok_cancel:
  assumes ok: "sys_ok sv dr" and r: "CancelOrderHandler req len (ss, sv) = (r, (ss', sv'))"
  shows "sys_ok sv' dr"
  using r
proof (cases rule: cancel_cases)
  case 1
  then show ?thesis using sys_ok_idle [OF ok] by simp
next
  case (2 tk oid)
  then show ?thesis using sys_ok_pending [OF ok] by (intro sys_okI [OF ok]) (simp_all add: appendCancel_def EngineEvent_of_def)
qed

lemma live_overtake_log:
  assumes "mset q = mset (wal_queue (sv_wal sv))"
  shows "mset (live (sv\<lparr>sv_wal := (sv_wal sv)\<lparr>wal_queue := q\<rparr>\<rparr>) dr) = mset (live sv dr)"
  using queue_ptrs_mset [OF assms] by (simp add: live_def)

lemma live_overtake_book:
  assumes b: "books_ok (sv_heap sv) (order_books (sv_engine sv))"
    and m: "map_of (order_books (sv_engine sv)) tk = Some p" and q: "mset q = mset (obp_queue p)"
  shows "mset (live (sv\<lparr>sv_engine := (sv_engine sv)\<lparr>order_books := AList.update tk (p\<lparr>obp_queue := q\<rparr>) (order_books (sv_engine sv))\<rparr>\<rparr>) dr) =
      mset (live sv dr)"
proof -
  from b have "um_wf (order_books (sv_engine sv))" by (simp add: books_ok_def)
  then obtain xs ys where "order_books (sv_engine sv) = xs @ (tk, p) # ys"
    "\<And>v. AList.update tk v (order_books (sv_engine sv)) = xs @ (tk, v) # ys"
    by (rule um_split [OF _ m]) blast
  then show ?thesis using queue_ptrs_mset [OF q] by (simp add: live_def)
qed

lemma sys_ok_overtake_book:
  assumes ok: "sys_ok sv dr" and m: "map_of (order_books (sv_engine sv)) tk = Some p" and q: "mset q = mset (obp_queue p)"
  shows "sys_ok (sv\<lparr>sv_engine := (sv_engine sv)\<lparr>order_books := AList.update tk (p\<lparr>obp_queue := q\<rparr>) (order_books (sv_engine sv))\<rparr>\<rparr>) dr"
proof -
  have b: "books_ok (sv_heap sv) (order_books (sv_engine sv))" using ok by (simp add: sys_ok_def)
  have "obp_ok (sv_heap sv) tk (p\<lparr>obp_queue := q\<rparr>)"
    using books_okD [OF b m] mset_eq_setD [OF queue_ptrs_mset [OF q]] by (simp add: obp_ok_def)
  then have "books_ok (sv_heap sv) (AList.update tk (p\<lparr>obp_queue := q\<rparr>) (order_books (sv_engine sv)))"
    by (rule books_ok_update [OF b m])
  then show ?thesis
    using ok live_ok_mset [OF _ live_overtake_book [OF b m q]] by (simp add: sys_ok_def)
qed

lemma sys_step_ok:
  assumes "sys_step ur sr d s t" and "sys_ok (fst s) (snd s)"
  shows "sys_ok (fst t) (snd t)"
  using assms
proof (induction rule: sys_step.induct)
  case (request ow ty req len ss sv r ss' sv' dr)
  have ok: "sys_ok sv dr" using request(3) by simp
  from routes [OF request(1)] have "sys_ok sv' dr"
  proof (elim disjE conjE)
    assume "ty = TRADE_REQ" and h: "TradeHandler (ow_ms ow) (ow_ts ow) req len (ss, sv) = (r, ss', sv')"
    then have "fresh_id (ow_ms ow) sv dr" using request(2) by simp
    then show ?thesis using h by (rule sys_ok_trade [OF ok])
  qed (rule sys_ok_cancel [OF ok] sys_ok_deposit [OF ok] sys_ok_idle [OF ok], assumption)+
  then show ?case by simp
next
  case (publish n sv sent pub redis sent' dr)
  then show ?case using sys_ok_pending [of sv dr] by (auto intro!: sys_okI [of sv dr])
next
  case (overtake_log q sv dr)
  then show ?case using live_ok_mset [OF _ live_overtake_log [OF overtake_log(1), of dr]] by (simp add: sys_ok_def)
next
  case (overtake_clear q sv c dr)
  then show ?case using mset_eq_setD [OF overtake_clear(1)] mset_eq_setD [OF overtake_clear(2)] sys_ok_pending [of sv dr]
    by (auto intro!: sys_okI [of sv dr] simp: pending_ok_def)
qed (auto intro: sys_ok_log sys_ok_book sys_ok_clear sys_ok_overtake_book)

end
