(* ===== verification/Ledger.thy ===== *)
theory Ledger
  imports System_Props
begin

text \<open>
  The accounting of the running server. \<open>ledger\<close> relates a frozen asset of the accounts to the
  weight of the live orders and of the pending records; \<open>wealth\<close> is a sum of assets that only
  deposits change. Both are instantiated with money and with the shares of a ticker.
\<close>

section \<open>Frozen assets\<close>

locale ledger = order_weight c g rw cw
  for c :: "Order \<Rightarrow> 'w :: comm_ring_1" and g :: "u64 \<Rightarrow> 'w" and rw :: "MatchRecord \<Rightarrow> 'w" and cw :: "CancelRecord \<Rightarrow> 'w" +
  fixes frozen :: "UserManager \<Rightarrow> 'w"
  assumes frozen_same: "same_assets um um' \<Longrightarrow> frozen um' = frozen um"
    and frozen_order: "freeze_for x um = (True, um') \<Longrightarrow> frozen um' = frozen um + c x * g (o_quantity x)"
    and frozen_match: "parties_exist um rc \<Longrightarrow> frozen (settle_memory rc um) = frozen um - rw rc"
    and frozen_cancel: "exists_user um (c_user_id cr) \<Longrightarrow> frozen (settle_cancel cr um) = frozen um - cw cr"
    and frozen_deposit: "exists_user um u \<Longrightarrow> frozen (addBalance u a um) = frozen um"
begin

definition backed :: "'d Server \<Rightarrow> ptr list \<Rightarrow> bool" where
  "backed sv dr \<longleftrightarrow> frozen (sv_um sv) = total (sv_heap sv) (live sv dr) + owed (sv_settle sv)"

lemma frozen_matches:
  "\<forall>rc \<in> set rs. parties_exist um rc \<Longrightarrow> frozen (fold settle_memory rs um) = frozen um - (\<Sum>rc\<leftarrow>rs. rw rc)"
proof (induction rs arbitrary: um)
  case (Cons rc rs)
  then have "\<forall>rc' \<in> set rs. parties_exist (settle_memory rc um) rc'" by (simp add: parties_exist_def)
  from Cons.IH [OF this] Cons.prems show ?case by (simp add: frozen_match algebra_simps)
qed simp

lemma frozen_cancels:
  "\<forall>cr \<in> set cs. exists_user um (c_user_id cr) \<Longrightarrow> frozen (fold settle_cancel cs um) = frozen um - (\<Sum>cr\<leftarrow>cs. cw cr)"
  by (induction cs arbitrary: um) (simp_all add: frozen_cancel algebra_simps)

lemma sum_list_split: "(\<Sum>x\<leftarrow>xs. f x) = (\<Sum>x\<leftarrow>take n xs. f x) + (\<Sum>x\<leftarrow>drop n xs. f x)" for f :: "'x \<Rightarrow> 'w"
  by (metis append_take_drop_id map_append sum_list_append)

lemma sum_list_permute: "mset xs = mset ys \<Longrightarrow> (\<Sum>x\<leftarrow>xs. f x) = (\<Sum>x\<leftarrow>ys. f x)" for f :: "'x \<Rightarrow> 'w"
  by (metis mset_map sum_mset_sum_list)

lemma backed_idle: "backed sv dr \<Longrightarrow> idle sv sv' \<Longrightarrow> backed sv' dr"
  using frozen_same [of "sv_um sv" "sv_um sv'"] by (simp add: backed_def idle_def live_def)

lemma backed_trade:
  assumes ok: "sys_ok sv dr" and b: "backed sv dr" and t: "TradeHandler ms ts req len (ss, sv) = (r, (ss', sv'))"
  shows "backed sv' dr"
proof -
  have heap: "total ((sv_heap sv)(sv_next sv := x)) (live sv dr) = total (sv_heap sv) (live sv dr)" for x
    using live_below [OF ok] by (intro total_cong) auto
  from t show ?thesis
  proof (cases rule: trade_cases)
    case idle
    then show ?thesis by (rule backed_idle [OF b])
  next
    case (refused x um)
    have "live sv' dr = live sv dr" by (simp add: live_def refused)
    then show ?thesis using b heap frozen_same [OF freeze_for_refused [OF refused(1)]] by (simp add: backed_def refused)
  next
    case (accepted x um)
    have "mset (live sv' dr) = mset (sv_next sv # live sv dr)"
      by (simp add: live_def accepted appendOrder_def EngineEvent_of_def)
    from total_mset [OF this, of "sv_heap sv'"] have "total (sv_heap sv') (live sv' dr) = c x * g (o_quantity x) + total (sv_heap sv) (live sv dr)"
      by (simp add: accepted heap ow_def)
    then show ?thesis using b frozen_order [OF accepted(1)] by (simp add: backed_def accepted)
  qed
qed

lemma backed_cancel: "backed sv dr \<Longrightarrow> CancelOrderHandler req len (ss, sv) = (r, (ss', sv')) \<Longrightarrow> backed sv' dr"
  by (erule cancel_cases, erule (1) backed_idle) (simp add: backed_def live_def appendCancel_def EngineEvent_of_def)

lemma backed_deposit: "backed sv dr \<Longrightarrow> DepositHandler ur req len (ss, sv) = (r, (ss', sv')) \<Longrightarrow> backed sv' dr"
  by (erule deposit_cases, erule (1) backed_idle) (simp add: backed_def live_def frozen_deposit)

lemma backed_log:
  assumes ok: "sys_ok sv dr" and b: "backed sv dr"
    and r: "wal_round clock stored n (sv_heap sv) (sv_wal sv) (sv_engine sv) = (w, e)"
  shows "backed (sv\<lparr>sv_wal := w, sv_engine := e\<rparr>) (dr @ unroutable (sv_heap sv) (sv_engine sv) (wal_taken n (sv_wal sv)))"
  using b total_mset [OF live_log(1) [OF ok r], of "sv_heap sv"] by (simp add: backed_def)

lemma backed_book:
  assumes ok: "sys_ok sv dr" and b: "backed sv dr" and m: "map_of (order_books (sv_engine sv)) tk = Some p"
    and r: "obp_round clocks n p (sv_heap sv) (sv_settle sv) (sv_pub sv) = (p', h, st, pub)"
  shows "backed (sv\<lparr>sv_heap := h, sv_engine := (sv_engine sv)\<lparr>order_books := AList.update tk p' (order_books (sv_engine sv))\<rparr>,
           sv_settle := st, sv_pub := pub\<rparr>) dr" (is "backed ?sv dr")
proof -
  let ?obs = "order_books (sv_engine sv)" let ?q = "queue_ptrs (wal_queue (sv_wal sv))"
  have bo: "books_ok (sv_heap sv) ?obs" and l: "live_ok (sv_heap sv) (sv_um sv) (sv_next sv) (live sv dr)"
    using ok by (simp_all add: sys_ok_def)
  then have wf: "um_wf ?obs" by (simp add: books_ok_def)
  obtain xs ys where s: "?obs = xs @ (tk, p) # ys" "\<And>v. AList.update tk v ?obs = xs @ (tk, v) # ys"
    by (rule um_split [OF wf m]) blast
  have live: "live sv dr = dr @ ?q @ engine_ptrs xs @ obp_ptrs p @ engine_ptrs ys" by (simp add: live_def s(1) obp_ptrs_def)
  have live': "live ?sv dr = dr @ ?q @ engine_ptrs xs @ obp_ptrs p' @ engine_ptrs ys" by (simp add: live_def s(2) obp_ptrs_def)
  have d: "distinct (obp_ptrs p)" and inj: "inj_on (\<lambda>q. o_order_id (sv_heap sv q)) (set (obp_ptrs p))"
    using l by (auto simp: live live_ok_def intro: inj_on_subset)
  note p = books_okD [OF bo m] d inj r
  have frame: "h x = sv_heap sv x" if "x \<notin> set (obp_ptrs p)" for x using obp_round_effect [OF p] that by blast
  have "distinct (dr @ ?q @ engine_ptrs xs @ obp_ptrs p @ engine_ptrs ys)" using l by (simp only: live_ok_def live)
  then have "total h dr = total (sv_heap sv) dr" "total h ?q = total (sv_heap sv) ?q"
    "total h (engine_ptrs xs) = total (sv_heap sv) (engine_ptrs xs)" "total h (engine_ptrs ys) = total (sv_heap sv) (engine_ptrs ys)"
    by (auto intro!: total_cong frame)
  then have "total h (live ?sv dr) + owed st = total (sv_heap sv) (live sv dr) + owed (sv_settle sv)"
    using obp_round_weight [OF p] by (simp add: live live')
  then show ?thesis using b by (simp add: backed_def)
qed

lemma backed_clear:
  assumes ok: "sys_ok sv dr" and b: "backed sv dr"
    and r: "settle_round ur sr (sv_tm sv) n k (sv_settle sv) (sv_db sv, sv_um sv) = (Inr st, (db, um))"
  shows "backed (sv\<lparr>sv_db := db, sv_um := um, sv_settle := st\<rparr>) dr"
proof -
  let ?s = "sv_settle sv"
  obtain i j where st: "st = ?s\<lparr>st_queue := drop i (st_queue ?s), st_cancel_queue := drop j (st_cancel_queue ?s)\<rparr>"
    and um: "um = fold settle_cancel (take j (st_cancel_queue ?s)) (fold settle_memory (take i (st_queue ?s)) (sv_um sv))"
    by (rule settle_round_effect [OF r])
  have "frozen um = frozen (sv_um sv) - (\<Sum>rc\<leftarrow>take i (st_queue ?s). rw rc) - (\<Sum>cr\<leftarrow>take j (st_cancel_queue ?s). cw cr)"
    unfolding um using sys_ok_pending [OF ok]
    by (subst frozen_cancels frozen_matches, auto simp: pending_ok_def dest: in_set_takeD)+
  moreover have "owed ?s = (\<Sum>rc\<leftarrow>take i (st_queue ?s). rw rc) + (\<Sum>cr\<leftarrow>take j (st_cancel_queue ?s). cw cr) + owed st"
    using sum_list_split [of rw "st_queue ?s" i] sum_list_split [of cw "st_cancel_queue ?s" j] by (simp add: owed_def st)
  ultimately show ?thesis using b by (simp add: backed_def live_def)
qed

lemma backed_step:
  assumes "sys_step ur sr d s t" and "sys_ok (fst s) (snd s)" and "backed (fst s) (snd s)"
  shows "backed (fst t) (snd t)"
  using assms
proof (induction rule: sys_step.induct)
  case (request ow ty req len ss sv r ss' sv' dr)
  have ok: "sys_ok sv dr" and b: "backed sv dr" using request(3,4) by simp_all
  from routes [OF request(1)] have "backed sv' dr"
    by (elim disjE conjE) (rule backed_trade [OF ok b] backed_cancel [OF b] backed_deposit [OF b] backed_idle [OF b], assumption)+
  then show ?case by simp
next
  case (publish n sv sent pub redis sent' dr)
  then show ?case by (simp add: backed_def live_def)
next
  case (overtake_log q sv dr)
  then show ?case using total_mset [OF live_overtake_log [OF overtake_log(1), of dr]] by (simp add: backed_def)
next
  case (overtake_book sv tk p q dr)
  then have "books_ok (sv_heap sv) (order_books (sv_engine sv))" by (simp add: sys_ok_def)
  from total_mset [OF live_overtake_book [OF this overtake_book(1,2), of dr]] overtake_book show ?case by (simp add: backed_def)
next
  case (overtake_clear q sv c dr)
  then have "owed ((sv_settle sv)\<lparr>st_queue := q, st_cancel_queue := c\<rparr>) = owed (sv_settle sv)"
    using sum_list_permute [of q "st_queue (sv_settle sv)"] sum_list_permute [of c "st_cancel_queue (sv_settle sv)"] by (simp add: owed_def)
  with overtake_clear show ?case by (simp add: backed_def live_def)
qed (auto intro: backed_log backed_book backed_clear)

lemma backed_run:
  assumes "sys_run ur sr d s t" and "sys_ok (fst s) (snd s)" and "backed (fst s) (snd s)"
  shows "sys_ok (fst t) (snd t) \<and> backed (fst t) (snd t)"
  using assms by (induction rule: sys_run.induct) (auto intro: backed_step sys_step_ok)

end

lemma freeze_for_effect:
  assumes "freeze_for x um = (True, um')"
  shows "balance_of um' v = balance_of um v - (if o_side x = BUY \<and> v = o_user_id x then o_price x * o_quantity x else 0)"
    and "frozen_of um' v = frozen_of um v + (if o_side x = BUY \<and> v = o_user_id x then o_price x * o_quantity x else 0)"
    and "stock_of um' v k = stock_of um v k - (if o_side x = SELL \<and> v = o_user_id x \<and> k = o_ticker_id x then qty_int (o_quantity x) else 0)"
    and "frozen_stock_of um' v k = frozen_stock_of um v k +
      (if o_side x = SELL \<and> v = o_user_id x \<and> k = o_ticker_id x then qty_int (o_quantity x) else 0)"
  using assms tryFreezeBalance_effect [of "o_user_id x" "o_price x * o_quantity x" um]
    tryFreezeStock_effect [of "o_user_id x" "o_ticker_id x" "qty_int (o_quantity x)" um]
  by (cases "o_side x"; simp add: freeze_for_def)+

interpretation money_ledger: ledger "money_c u" "\<lambda>q. q" "money_rw u" "money_cw u" "\<lambda>um. frozen_of um u" for u
  by unfold_locales
    (auto simp: same_assets_def freeze_for_effect settle_memory_effect settle_cancel_effect addBalance_effect
      money_c_def money_rw_def money_cw_def)

interpretation share_ledger: ledger "share_c u k" qty_int "share_rw u k" "share_cw u k" "\<lambda>um. frozen_stock_of um u k" for u k
  by unfold_locales
    (auto simp: same_assets_def freeze_for_effect settle_memory_effect settle_cancel_effect addBalance_effect
      share_c_def share_rw_def share_cw_def)

section \<open>Wealth\<close>

locale wealth =
  fixes wealth :: "UserManager \<Rightarrow> 'w :: comm_ring_1" and paid :: "i64 \<Rightarrow> 'w"
  assumes wealth_same: "same_assets um um' \<Longrightarrow> wealth um' = wealth um"
    and wealth_order: "freeze_for x um = (True, um') \<Longrightarrow> wealth um' = wealth um"
    and wealth_match: "parties_exist um rc \<Longrightarrow> wealth (settle_memory rc um) = wealth um"
    and wealth_cancel: "exists_user um (c_user_id cr) \<Longrightarrow> wealth (settle_cancel cr um) = wealth um"
    and wealth_deposit: "exists_user um u \<Longrightarrow> wealth (addBalance u a um) = wealth um + paid a"
    and paid_zero: "paid 0 = 0" and paid_add: "paid (a + b) = paid a + paid b"
begin

lemma wealth_matches: "\<forall>rc \<in> set rs. parties_exist um rc \<Longrightarrow> wealth (fold settle_memory rs um) = wealth um"
proof (induction rs arbitrary: um)
  case (Cons rc rs)
  then have "\<forall>rc' \<in> set rs. parties_exist (settle_memory rc um) rc'" by (simp add: parties_exist_def)
  from Cons.IH [OF this] Cons.prems show ?case by (simp add: wealth_match)
qed simp

lemma wealth_cancels: "\<forall>cr \<in> set cs. exists_user um (c_user_id cr) \<Longrightarrow> wealth (fold settle_cancel cs um) = wealth um"
  by (induction cs arbitrary: um) (simp_all add: wealth_cancel)

lemma wealth_trade: "TradeHandler ms ts req len (ss, sv) = (r, (ss', sv')) \<Longrightarrow> wealth (sv_um sv') = wealth (sv_um sv)"
  by (erule trade_cases) (auto simp: idle_def wealth_same wealth_order dest: freeze_for_refused)

lemma wealth_request:
  assumes "dispatch (register_handlers ow ur sr Router_new) ty req len (ss, sv) = (r, (ss', sv'))"
  shows "wealth (sv_um sv') = wealth (sv_um sv) + paid (deposited ur ty req len ss sv)"
proof -
  have none: "deposited ur ty req len ss sv = 0" if "ty \<noteq> DEPOSIT_REQ" using that by (simp add: deposited_def)
  have codes: "TRADE_REQ \<noteq> DEPOSIT_REQ" "CANCEL_REQ \<noteq> DEPOSIT_REQ" by (simp_all add: TRADE_REQ_def CANCEL_REQ_def DEPOSIT_REQ_def)
  from routes [OF assms] show ?thesis
  proof (elim disjE conjE)
    assume "ty = TRADE_REQ" "TradeHandler (ow_ms ow) (ow_ts ow) req len (ss, sv) = (r, ss', sv')"
    then show ?thesis using none codes wealth_trade paid_zero by simp
  next
    assume ty: "ty = CANCEL_REQ" and h: "CancelOrderHandler req len (ss, sv) = (r, ss', sv')"
    from h have "wealth (sv_um sv') = wealth (sv_um sv)" by (rule cancel_cases) (simp_all add: idle_def wealth_same)
    then show ?thesis using ty none codes paid_zero by simp
  next
    assume ty: "ty = DEPOSIT_REQ" and h: "DepositHandler ur req len (ss, sv) = (r, ss', sv')"
    from h show ?thesis unfolding ty by (rule deposit_cases) (simp_all add: idle_def wealth_same wealth_deposit paid_zero)
  next
    assume "ty \<noteq> DEPOSIT_REQ" "idle sv sv'"
    then show ?thesis using none paid_zero by (simp add: idle_def wealth_same)
  qed
qed

lemma wealth_clear:
  assumes "pending_ok (sv_um sv) (sv_settle sv)"
    and r: "settle_round ur sr (sv_tm sv) n k (sv_settle sv) (sv_db sv, sv_um sv) = (Inr st, (db, um))"
  shows "wealth um = wealth (sv_um sv)"
proof -
  obtain i j where "um = fold settle_cancel (take j (st_cancel_queue (sv_settle sv))) (fold settle_memory (take i (st_queue (sv_settle sv))) (sv_um sv))"
    by (rule settle_round_effect [OF r])
  moreover have "\<forall>rc \<in> set (take i (st_queue (sv_settle sv))). parties_exist (sv_um sv) rc"
    "\<forall>cr \<in> set (take j (st_cancel_queue (sv_settle sv))). exists_user (sv_um sv) (c_user_id cr)"
    using assms(1) by (auto simp: pending_ok_def dest: in_set_takeD)
  ultimately show ?thesis by (simp add: wealth_matches wealth_cancels)
qed

lemma wealth_step:
  assumes "sys_step ur sr d s t" and "sys_ok (fst s) (snd s)"
  shows "wealth (sv_um (fst t)) = wealth (sv_um (fst s)) + paid d"
  using assms
proof (induction rule: sys_step.induct)
  case (request ow ty req len ss sv r ss' sv' dr)
  then show ?case using wealth_request by simp
next
  case (clear sv n k st db um dr)
  then show ?case using wealth_clear [OF sys_ok_pending] by (simp add: paid_zero)
qed (simp_all add: paid_zero)

lemma wealth_run:
  assumes "sys_run ur sr d s t" and "sys_ok (fst s) (snd s)"
  shows "sys_ok (fst t) (snd t) \<and> wealth (sv_um (fst t)) = wealth (sv_um (fst s)) + paid d"
  using assms by (induction rule: sys_run.induct) (auto simp: wealth_step paid_zero paid_add algebra_simps intro: sys_step_ok)

end

definition all_money :: "UserManager \<Rightarrow> i64" where
  "all_money um = (\<Sum>v \<in> UNIV. balance_of um v + frozen_of um v)"

definition all_shares :: "u32 \<Rightarrow> UserManager \<Rightarrow> i32" where
  "all_shares k um = (\<Sum>v \<in> UNIV. stock_of um v k + frozen_stock_of um v k)"

lemma sum_at [simp]: "(\<Sum>v \<in> UNIV. if v = u then x else 0) = x" for u :: u64 and x :: "'w :: comm_monoid_add"
  by simp

interpretation money_wealth: wealth all_money "\<lambda>a. a"
  by unfold_locales
    (simp_all add: all_money_def same_assets_def freeze_for_effect settle_memory_effect settle_cancel_effect
      addBalance_effect sum.distrib sum_subtractf money_split [symmetric])

interpretation share_wealth: wealth "all_shares k" "\<lambda>_. 0" for k
  by unfold_locales
    (simp_all add: all_shares_def same_assets_def freeze_for_effect settle_memory_effect settle_cancel_effect
      addBalance_effect sum.distrib sum_subtractf sum_single)

end
