(* ===== verification/System_Claims.thy ===== *)
theory System_Claims
  imports Ledger UserManager_Claims
begin

text \<open>The properties of the running server, from the start-up of \<^verbatim>\<open>main\<close> on.\<close>

section \<open>Start-up\<close>

definition no_frozen :: "UserManager \<Rightarrow> bool" where
  "no_frozen um \<longleftrightarrow> (\<forall>u a. getAccount um u = Some a \<longrightarrow> frozen_balance a = 0 \<and> frozen_stock a = [])"

lemma no_frozen_rows: "keeps no_frozen (load_account_row row)" "keeps no_frozen (load_holding_row tm row)"
  unfolding load_account_row_def load_holding_row_def Let_def
  by (intro keeps_intros keeps_column keeps_if;
      auto simp: no_frozen_def getAccount_put_account accounts.lookup_upd UserAccount_of_def split: if_splits)+

lemma no_frozen_load:
  assumes "loadAllFromDB my tm (db, um) = (r, (db', um'))" and "no_frozen um"
  shows "no_frozen um'"
proof -
  let ?body = "bnd (load_rows my accounts_sql load_account_row) (\<lambda>_. load_rows my holdings_sql (load_holding_row tm))"
  have "keeps (\<lambda>st. no_frozen (snd st)) ?body" by (intro keeps_bnd load_rows_keeps no_frozen_rows)
  then have "no_frozen (snd (snd (?body (d, um))))" for d
    using keepsD [of "\<lambda>st. no_frozen (snd st)" ?body "(d, um)"] assms(2) by simp
  then show ?thesis
    using assms by (auto simp: loadAllFromDB_def with_connection_def Let_def case_prod_beta split: option.splits sum.splits)
qed

definition sys_start :: "'d Server \<Rightarrow> bool" where
  "sys_start sv \<longleftrightarrow> no_frozen (sv_um sv) \<and> wal_queue (sv_wal sv) = [] \<and> sv_settle sv = Settlement_new \<and>
     um_wf (order_books (sv_engine sv)) \<and> (\<forall>(tk, p) \<in> set (order_books (sv_engine sv)). p = OrderBookProcessor_new tk True)"

lemma update_new: "map_of m k = None \<Longrightarrow> AList.update k v m = m @ [(k, v)]"
  by (induction m) (auto split: if_splits)

lemma init_books_new:
  assumes "me_has_settlement e" "um_wf (order_books e)" "\<forall>(tk, p) \<in> set (order_books e). p = OrderBookProcessor_new tk True"
  shows "um_wf (order_books (init_books ids e)) \<and> (\<forall>(tk, p) \<in> set (order_books (init_books ids e)). p = OrderBookProcessor_new tk True)"
  using assms
proof (induction ids arbitrary: e)
  case (Cons i ids)
  have "um_wf (order_books (MatchingEngine_init i e))" "me_has_settlement (MatchingEngine_init i e)"
    using Cons.prems by (simp_all add: MatchingEngine_init_def)
  moreover have "\<forall>(tk, p) \<in> set (order_books (MatchingEngine_init i e)). p = OrderBookProcessor_new tk True"
  proof (cases "map_of (order_books e) i = None")
    case True
    then have "AList.update i v (order_books e) = order_books e @ [(i, v)]" for v
      by (rule update_new)
    then show ?thesis using Cons.prems by (auto simp: MatchingEngine_init_def)
  next
    case False
    then have "MatchingEngine_init i e = e" unfolding MatchingEngine_init_def by (rule if_not_P)
    then show ?thesis using Cons.prems(3) by simp
  qed
  ultimately have "um_wf (order_books (init_books ids (MatchingEngine_init i e))) \<and>
      (\<forall>(tk, p) \<in> set (order_books (init_books ids (MatchingEngine_init i e))). p = OrderBookProcessor_new tk True)"
    by (intro Cons.IH)
  then show ?case by (simp add: init_books_def)
qed (simp add: init_books_def)

lemma server_main_start:
  assumes "server_main my d db_connect redis_connect wal_opened wal_old ow = Inr (sv, rt)"
  shows "sys_start sv"
proof -
  obtain db um db1 db2 tm where l: "loadAllFromDB my TickerManager_new (db, UserManager_new) = (Inr (), (db1, um))"
    and "sv_um sv = um" "sv_wal sv = WALManager_new wal_opened wal_old" "sv_settle sv = Settlement_new"
      "sv_engine sv = init_books (getAllTickerIds tm) (MatchingEngine_new True)"
    using assms by (auto simp: server_main_def Let_def split: prod.splits sum.splits)
  moreover have "no_frozen um" by (rule no_frozen_load [OF l]) (simp add: no_frozen_def getAccount_new)
  ultimately show ?thesis
    using init_books_new [of "MatchingEngine_new True"] by (simp add: sys_start_def WALManager_new_def MatchingEngine_new_def)
qed

lemma start_ptrs:
  assumes "\<forall>(tk, p) \<in> set obs. p = OrderBookProcessor_new tk True"
  shows "engine_ptrs obs = []"
  using assms by (induction obs) (auto simp: OrderBookProcessor_new_def OrderBook_new_def book_ptrs_def)

lemma OrderBook_new_wf: "wf_book h (OrderBook_new tk)"
  by (simp add: wf_book_def OrderBook_new_def book_ptrs_def wf_side_def index_ok_def uncrossed_def om_wf_def
      active_wf_def active_find_def)

lemma sys_start_ok:
  assumes "sys_start sv"
  shows "sys_ok sv []" and "live sv [] = []"
proof -
  have "live sv [] = []" using assms start_ptrs by (simp add: live_def sys_start_def)
  moreover have "books_ok (sv_heap sv) (order_books (sv_engine sv))"
    using assms OrderBook_new_wf
    by (auto simp: sys_start_def books_ok_def obp_ok_def OrderBookProcessor_new_def OrderBook_new_def)
  ultimately show "sys_ok sv []" and "live sv [] = []"
    using assms by (simp_all add: sys_ok_def live_ok_def pending_ok_def sys_start_def Settlement_new_def)
qed

lemma sys_start_balanced:
  assumes "sys_start sv"
  shows "money_ledger.backed u sv []" and "share_ledger.backed u k sv []"
proof -
  have "frozen_of (sv_um sv) u = 0" "frozen_stock_of (sv_um sv) u k = 0"
    using assms by (auto simp: sys_start_def no_frozen_def frozen_of_def frozen_stock_of_def split: option.split)
  moreover have "sv_settle sv = Settlement_new" using assms by (simp add: sys_start_def)
  ultimately show "money_ledger.backed u sv []" and "share_ledger.backed u k sv []"
    using sys_start_ok(2) [OF assms]
    by (simp_all add: money_ledger.backed_def share_ledger.backed_def money.owed_def shares.owed_def Settlement_new_def)
qed

lemma reachable:
  assumes "server_main my d db_connect redis_connect wal_opened wal_old ow = Inr (sv0, rt)"
    and "sys_run ur sr paid (sv0, []) (sv, dr)"
  shows "sys_ok sv dr" and "money_ledger.backed u sv dr" and "share_ledger.backed u k sv dr"
    and "all_money (sv_um sv) = all_money (sv_um sv0) + paid" and "all_shares k (sv_um sv) = all_shares k (sv_um sv0)"
proof -
  note st = server_main_start [OF assms(1)]
  note ok = sys_start_ok(1) [OF st]
  show "sys_ok sv dr" "money_ledger.backed u sv dr"
    using money_ledger.backed_run [OF assms(2), of u] sys_start_balanced(1) [OF st] ok by simp_all
  show "share_ledger.backed u k sv dr"
    using share_ledger.backed_run [OF assms(2), of u k] sys_start_balanced(2) [OF st] ok by simp
  show "all_money (sv_um sv) = all_money (sv_um sv0) + paid"
    using money_wealth.wealth_run [OF assms(2)] ok by simp
  show "all_shares k (sv_um sv) = all_shares k (sv_um sv0)"
    using share_wealth.wealth_run [OF assms(2)] ok by simp
qed

lemma list_all_pairs: "(\<And>a b. (a, b) \<in> set xs \<Longrightarrow> P a b) \<Longrightarrow> list_all (\<lambda>(a, b). P a b) xs"
  by (auto simp: list_all_iff)

section \<open>A concrete start-up and run\<close>

definition ex_mysql :: "unit mysql" where
  "ex_mysql = ex_stock_server\<lparr>my_query := \<lambda>sql d.
     if sql = accounts_sql then (True, Some [account_row (1, ''alice'', 500)], d)
     else if sql = ''SELECT id, symbol FROM stocks'' then (True, Some (map ticker_row ex_stocks), d) else (False, None, d)\<rparr>"

definition ex_outside :: Outside where
  "ex_outside = \<lparr>ow_junk = 0, ow_ms = 1770000000000, ow_ts = 5, ow_zrevrange = \<lambda>_. None, ow_parse_price = \<lambda>_. None,
     ow_shuffle = \<lambda>ts. ts, ow_now = 0\<rparr>"

definition ex_main :: "fault + ((unit DbServer) Server \<times> ((unit DbServer) Server) Routers)" where
  "ex_main = server_main ex_mysql () (\<lambda>i. (Suc i, True)) (\<lambda>i. (Suc i, False)) True [] ex_outside"

lemma ex_load:
  assumes "db_ready db"
  obtains db1 where "db_ready db1"
    and "loadAllFromDB ex_mysql TickerManager_new (db, UserManager_new) = (Inr (), (db1, put_account (loaded_account (1, ''alice'', 500)) UserManager_new))"
proof -
  let ?um = "put_account (loaded_account (1, ''alice'', 500)) UserManager_new"
  let ?body = "\<lambda>d. let (r, (d', um')) = bnd (load_rows ex_mysql accounts_sql load_account_row)
      (\<lambda>_. load_rows ex_mysql holdings_sql (load_holding_row TickerManager_new)) (d, UserManager_new) in (Inr (r, um'), d')"
  have q: "my_query ex_mysql accounts_sql d = (True, Some [account_row (1, ''alice'', 500)], d)" "my_query ex_mysql holdings_sql d = (False, None, d)" for d
    by (simp_all add: ex_mysql_def accounts_sql_def holdings_sql_def)
  have "load_rows ex_mysql accounts_sql load_account_row (d, UserManager_new) = (Inr (), (d, ?um))" for d
    by (simp add: load_rows_def q load_account_row_ok bnd_run [OF load_account_row_ok])
  moreover have "load_rows ex_mysql holdings_sql (load_holding_row TickerManager_new) (d, ?um) = (Inr (), (d, ?um))" for d
    by (simp add: load_rows_def q)
  ultimately have "?body d = (Inr (Inr (), ?um), d)" for d by (simp add: bnd_run)
  then obtain db1 where "with_connection ?body db = (Inr (Inr (), ?um), db1)" "db_ready db1"
    using with_connection_run [OF assms, of ?body] by (metis fst_conv)
  then show thesis by (intro that [of db1]) (simp_all add: loadAllFromDB_def)
qed

lemma ex_load_tickers:
  assumes "db_ready db"
  obtains db2 tm where "loadAllTickersFromDB ex_mysql (db, TickerManager_new) = (Inr (), (db2, tm))"
proof -
  let ?body = "\<lambda>d. let (ok, rows, d') = my_query ex_mysql ''SELECT id, symbol FROM stocks'' d in (Inr (ok, rows), d')"
  have "my_query ex_mysql ''SELECT id, symbol FROM stocks'' d = (True, Some (map ticker_row ex_stocks), d)" for d
    by (simp add: ex_mysql_def accounts_sql_def)
  then obtain db2 where "with_connection ?body db = (Inr (True, Some (map ticker_row ex_stocks)), db2)"
    using with_connection_run [OF assms, of ?body] by (metis (mono_tags, lifting) case_prod_conv fst_conv)
  then show thesis by (intro that) (simp add: loadAllTickersFromDB_def load_ticker_rows_ok)
qed

lemma ex_main_runs:
  obtains sv rt where "ex_main = Inr (sv, rt)" and "sv_um sv = put_account (loaded_account (1, ''alice'', 500)) UserManager_new"
    and "wal_queue (sv_wal sv) = []" "sv_next sv = 1" "sv_gen sv = OrderIdGenerator_new"
proof -
  let ?db = "\<lparr>dbs_pool = DBPool_init (\<lambda>i. (Suc i, True)) ''127.0.0.1'' ''root'' ''root'' ''test_db'' 49 DBPool_new, dbs_data = ()\<rparr>"
  have "db_ready ?db" by (auto simp: db_ready_def DBPool_init_queue DBPool_new_def)
  then obtain db1 where db1: "db_ready db1"
    and l: "loadAllFromDB ex_mysql TickerManager_new (?db, UserManager_new) = (Inr (), (db1, put_account (loaded_account (1, ''alice'', 500)) UserManager_new))"
    by (rule ex_load)
  from db1 obtain db2 tm where t: "loadAllTickersFromDB ex_mysql (db1, TickerManager_new) = (Inr (), (db2, tm))" by (rule ex_load_tickers)
  show thesis
    by (rule that [of "\<lparr>sv_db = db2, sv_um = put_account (loaded_account (1, ''alice'', 500)) UserManager_new, sv_tm = tm, sv_gen = OrderIdGenerator_new,
        sv_heap = \<lambda>_. null_order, sv_next = 1, sv_wal = WALManager_new True [],
        sv_engine = init_books (getAllTickerIds tm) (MatchingEngine_new True), sv_settle = Settlement_new, sv_pub = Publisher_new,
        sv_redis = fst (RedisPool_init (\<lambda>i. (Suc i, False)) (\<lambda>_. True) ''127.0.0.1'' 6379 [] 49 RedisPool_new)\<rparr>"
        "\<lparr>g_router = register_handlers ex_outside (UserRepositoryImpl ex_mysql) (StockRepositoryImpl ex_mysql) Router_new, router_instance = Router_new\<rparr>"])
      (simp_all add: ex_main_def server_main_def l t WALManager_new_def)
qed

text \<open>Alice logs in as user 1 and buys 3 shares of ticker 1 for 100 each.\<close>

definition ex_request :: TradeRequest where
  "ex_request = \<lparr>tq_ticker_id = 1, tq_side = 0, tq_price = 100, tq_amount = 3\<rparr>"

definition ex_session :: Session where
  "ex_session = (Session_new 7)\<lparr>ss_username := ''alice'', ss_user_id := 1\<rparr>"

lemma ex_run:
  obtains sv0 rt sv where "ex_main = Inr (sv0, rt)"
    and "sys_run (UserRepositoryImpl ex_mysql) (StockRepositoryImpl ex_mysql) 0 (sv0, []) (sv, [])"
    and "frozen_of (sv_um sv) 1 = 300" "balance_of (sv_um sv) 1 = 200" "live sv [] = [1]"
    and "sv_heap sv 1 = request_order ex_request (fst (generate 1770000000000 OrderIdGenerator_new)) 1 5"
    and "all_money (sv_um sv0) = 500"
proof -
  obtain sv0 rt where m: "ex_main = Inr (sv0, rt)" and um: "sv_um sv0 = put_account (loaded_account (1, ''alice'', 500)) UserManager_new"
    and w: "wal_queue (sv_wal sv0) = []" "sv_next sv0 = 1" "sv_gen sv0 = OrderIdGenerator_new" by (rule ex_main_runs)
  let ?x = "request_order ex_request (fst (generate 1770000000000 OrderIdGenerator_new)) 1 5"
  let ?req = "put_TradeRequest ex_request"
  have get: "getAccount (sv_um sv0) v = (if v = 1 then Some (loaded_account (1, ''alice'', 500)) else None)" for v
    by (simp add: um getAccount_put_account getAccount_new loaded_account_def UserAccount_of_def)
  have acc: "balance_of (sv_um sv0) v = (if v = 1 then 500 else 0)" "frozen_of (sv_um sv0) v = 0" for v
    by (simp_all add: balance_of_def frozen_of_def get loaded_account_def UserAccount_of_def)
  have f: "fst (tryFreezeBalance 1 300 (sv_um sv0))"
    by (simp add: tryFreezeBalance_result acc exists_user_def get)
  obtain um where fr: "tryFreezeBalance 1 300 (sv_um sv0) = (True, um)" using f by (metis prod.collapse)
  note eff = tryFreezeBalance_effect [OF f, unfolded fr snd_conv]
  have start: "live sv0 [] = []" using sys_start_ok(2) server_main_start m by (metis ex_main_def)
  obtain r ss sv where d: "dispatch (register_handlers ex_outside (UserRepositoryImpl ex_mysql) (StockRepositoryImpl ex_mysql) Router_new)
      TRADE_REQ ?req 17 (ex_session, sv0) = (r, (ss, sv))" by (metis prod_cases3)
  have sv: "sv = (make_order ?x (sv0\<lparr>sv_gen := snd (generate 1770000000000 OrderIdGenerator_new)\<rparr>))\<lparr>sv_um := um, sv_wal := appendOrder 1 (sv_wal sv0)\<rparr>"
  proof -
    have "TradeHandler 1770000000000 5 ?req 17 (ex_session, sv0) = (r, (ss, sv))"
      using d by (simp add: dispatch_def register_handlers_def registerHandler_def ex_outside_def TRADE_REQ_def
          ALL_STOCKS_REQ_def CANCEL_REQ_def ORDERS_REQ_def TREND_REQ_def NEWS_REQ_def MARKET_REQ_def HOLDINGS_REQ_def)
    moreover have "get_TradeRequest ?req = ex_request" by (rule TradeRequest_codec.dec_enc0) simp
    moreover have "isLoggedIn ex_session" "ss_user_id ex_session = 1" by (simp_all add: ex_session_def isLoggedIn_def)
    moreover have "tryFreezeBalance 1 (tq_price ex_request * ucast (tq_amount ex_request)) (sv_um sv0) = (True, um)"
      using fr by (simp add: ex_request_def)
    ultimately show ?thesis
      by (simp add: TradeHandler_def need_def sizeof_TradeRequest_def w Let_def case_prod_beta make_order_def request_order_def ex_request_def)
  qed
  have step: "sys_run (UserRepositoryImpl ex_mysql) (StockRepositoryImpl ex_mysql) (0 + 0) (sv0, []) (sv, [])"
    using sys_run.more_steps [OF sys_run.stop sys_step.request [OF d]]
    by (simp add: fresh_id_def start deposited_def TRADE_REQ_def DEPOSIT_REQ_def)
  show thesis
  proof (rule that [OF m])
    show "sys_run (UserRepositoryImpl ex_mysql) (StockRepositoryImpl ex_mysql) 0 (sv0, []) (sv, [])" using step by simp
    show "live sv [] = [1]" using start w by (simp add: sv make_order_def live_def appendOrder_def EngineEvent_of_def)
  qed (simp_all add: sv make_order_def w eff acc all_money_def sum.distrib)
qed

section \<open>Properties\<close>

text \<open>
  C1. Frozen assets are always backed. In every state that the server reaches from its start-up, by
  any interleaving of requests, logging, matching, clearing and publishing, the frozen balance of a
  user is exactly the price times the open quantity of the user's live buy orders, plus the price
  limit times the quantity of the trades and cancellations that wait for the clearing; and the same
  holds for the frozen shares of each ticker and the live sell orders. So a user with no live order
  and no pending record has nothing frozen. Live orders include those that the engine refused because
  their ticker has no book (\<open>dr\<close>), whose funds nothing ever releases.
\<close>

theorem frozen_assets_backed:
  assumes "server_main my d db_connect redis_connect wal_opened wal_old ow = Inr (sv0, rt)"
    and "sys_run (UserRepositoryImpl my) (StockRepositoryImpl my) paid (sv0, []) (sv, dr)"
  shows "frozen_of (sv_um sv) u =
      (\<Sum>q\<leftarrow>live sv dr. if o_side (sv_heap sv q) = BUY \<and> o_user_id (sv_heap sv q) = u
          then o_price (sv_heap sv q) * o_quantity (sv_heap sv q) else 0) +
      (\<Sum>rc\<leftarrow>st_queue (sv_settle sv). if m_buyer_user_id rc = u then m_buyer_expected_price rc * m_match_quantity rc else 0) +
      (\<Sum>cr\<leftarrow>st_cancel_queue (sv_settle sv). if c_side cr = BUY \<and> c_user_id cr = u then c_price cr * c_quantity cr else 0) \<and>
    frozen_stock_of (sv_um sv) u k =
      (\<Sum>q\<leftarrow>live sv dr. if o_side (sv_heap sv q) = SELL \<and> o_user_id (sv_heap sv q) = u \<and> o_ticker_id (sv_heap sv q) = k
          then qty_int (o_quantity (sv_heap sv q)) else 0) +
      (\<Sum>rc\<leftarrow>st_queue (sv_settle sv). if m_sell_user_id rc = u \<and> m_ticker_id rc = k then qty_int (m_match_quantity rc) else 0) +
      (\<Sum>cr\<leftarrow>st_cancel_queue (sv_settle sv). if c_side cr = SELL \<and> c_user_id cr = u \<and> c_ticker_id cr = k
          then qty_int (c_quantity cr) else 0)"
proof -
  have m: "money.ow u x = (if o_side x = BUY \<and> o_user_id x = u then o_price x * o_quantity x else 0)" for x
    by (simp add: money.ow_def money_c_def)
  have s: "shares.ow u k x = (if o_side x = SELL \<and> o_user_id x = u \<and> o_ticker_id x = k then qty_int (o_quantity x) else 0)" for x
    by (simp add: shares.ow_def share_c_def)
  from reachable(2) [OF assms, of u] reachable(3) [OF assms, of u k] show ?thesis
    unfolding money_ledger.backed_def share_ledger.backed_def money.total_def shares.total_def
      money.owed_def shares.owed_def m s money_rw_def money_cw_def share_rw_def share_cw_def
    by (simp add: add.assoc)
qed

theorem frozen_assets_backed_witness:
  "\<exists>sv0 rt sv. ex_main = Inr (sv0, rt) \<and>
     sys_run (UserRepositoryImpl ex_mysql) (StockRepositoryImpl ex_mysql) 0 (sv0, []) (sv, []) \<and> balance_of (sv_um sv) 1 = 200 \<and> frozen_of (sv_um sv) 1 = 300 +
     (\<Sum>rc\<leftarrow>st_queue (sv_settle sv). if m_buyer_user_id rc = 1 then m_buyer_expected_price rc * m_match_quantity rc else 0) +
     (\<Sum>cr\<leftarrow>st_cancel_queue (sv_settle sv). if c_side cr = BUY \<and> c_user_id cr = 1 then c_price cr * c_quantity cr else 0)"
proof -
  obtain sv0 rt sv where m: "ex_main = Inr (sv0, rt)"
    and r: "sys_run (UserRepositoryImpl ex_mysql) (StockRepositoryImpl ex_mysql) 0 (sv0, []) (sv, [])"
    and "balance_of (sv_um sv) 1 = 200" "live sv [] = [1]"
      "sv_heap sv 1 = request_order ex_request (fst (generate 1770000000000 OrderIdGenerator_new)) 1 5" by (rule ex_run)
  with frozen_assets_backed [OF m [unfolded ex_main_def] r, of 1 1] show ?thesis
    by - (rule exI [of _ sv0], rule exI [of _ rt], rule exI [of _ sv], simp add: ex_request_def request_order_def)
qed

text \<open>
  C2. The server neither creates nor destroys money or shares: in every reachable state the sum over
  all users of available and frozen balances is the sum at start-up plus the accepted deposits, and
  for every ticker the sum of available and frozen shares is the one at start-up. The sums are those
  of the machine words.
\<close>

theorem assets_conserved:
  assumes "server_main my d db_connect redis_connect wal_opened wal_old ow = Inr (sv0, rt)"
    and "sys_run (UserRepositoryImpl my) (StockRepositoryImpl my) paid (sv0, []) (sv, dr)"
  shows "(\<Sum>v \<in> UNIV. balance_of (sv_um sv) v + frozen_of (sv_um sv) v) =
      (\<Sum>v \<in> UNIV. balance_of (sv_um sv0) v + frozen_of (sv_um sv0) v) + paid \<and>
    (\<Sum>v \<in> UNIV. stock_of (sv_um sv) v k + frozen_stock_of (sv_um sv) v k) =
      (\<Sum>v \<in> UNIV. stock_of (sv_um sv0) v k + frozen_stock_of (sv_um sv0) v k)"
  using reachable(4,5) [OF assms] unfolding all_money_def all_shares_def by blast

theorem assets_conserved_witness:
  "\<exists>sv0 rt sv. ex_main = Inr (sv0, rt) \<and>
     sys_run (UserRepositoryImpl ex_mysql) (StockRepositoryImpl ex_mysql) 0 (sv0, []) (sv, []) \<and> frozen_of (sv_um sv) 1 = 300 \<and>
     (\<Sum>v \<in> UNIV. balance_of (sv_um sv) v + frozen_of (sv_um sv) v) = 500"
proof -
  obtain sv0 rt sv where m: "ex_main = Inr (sv0, rt)"
    and r: "sys_run (UserRepositoryImpl ex_mysql) (StockRepositoryImpl ex_mysql) 0 (sv0, []) (sv, [])"
    and "frozen_of (sv_um sv) 1 = 300" "all_money (sv_um sv0) = 500" by (rule ex_run)
  with assets_conserved [OF m [unfolded ex_main_def] r, of 1] show ?thesis
    by - (rule exI [of _ sv0], rule exI [of _ rt], rule exI [of _ sv], simp add: all_money_def)
qed



section \<open>A trade request\<close>

lemma sint_small: "uint x < 2 ^ (LENGTH('a) - 1) \<Longrightarrow> sint x = uint x" for x :: "'a :: len word"
  using order_trans [of "- (2 ^ (LENGTH('a) - 1))" 0 "uint x"] by (simp add: sint_uint signed_take_bit_int_eq_self_iff)

lemma cost_exact:
  fixes p :: u64 and a :: u32
  assumes "uint p * uint a < 2 ^ 63"
  shows "sint (p * ucast a) = uint p * uint a"
proof -
  have "uint (ucast a :: u64) = uint a" using uint_lt2p [of a] by (simp add: unsigned_ucast_eq take_bit_int_eq_self_iff)
  then have "uint (p * ucast a) = uint p * uint a" using assms by (simp add: uint_word_ariths)
  then show ?thesis using sint_small [of "p * ucast a"] assms by simp
qed



text \<open>
  Without the bound the cost wraps: \<open>2 ^ 62\<close> times 4 is 0 in 64 bits, so a user with an empty account
  gets an order of four shares at that price into the log, with nothing frozen for it.
\<close>

lemma trade_cost_wraps:
  assumes "isLoggedIn ss" and "exists_user (sv_um sv) (ss_user_id ss)" and "balance_of (sv_um sv) (ss_user_id ss) = 0"
    and r: "r = \<lparr>tq_ticker_id = 1, tq_side = 0, tq_price = 2 ^ 62, tq_amount = 4\<rparr>"
  shows "\<exists>sv'. TradeHandler ms ts (put_TradeRequest r) 17 (ss, sv) = (Inr (put_TradeResponse \<lparr>tr_status = 1\<rparr>), (ss, sv')) \<and>
    o_quantity (sv_heap sv' (sv_next sv)) = 4 \<and> frozen_of (sv_um sv') (ss_user_id ss) = frozen_of (sv_um sv) (ss_user_id ss)"
proof -
  let ?x = "request_order r (fst (generate ms (sv_gen sv))) (ss_user_id ss) ts"
  have g: "get_TradeRequest (put_TradeRequest r) = r" by (rule TradeRequest_codec.dec_enc0) simp
  have cost: "o_price ?x * o_quantity ?x = 0" and side: "o_side ?x = BUY" by (simp_all add: r request_order_def)
  obtain um where f: "freeze_for ?x (sv_um sv) = (True, um)"
    using tryFreezeBalance_result [of "ss_user_id ss" 0 "sv_um sv"] assms(2,3)
    by (cases "tryFreezeBalance (ss_user_id ss) 0 (sv_um sv)") (simp add: freeze_for_def side cost del: request_order_fields(4,5))
  note run = TradeHandler_run [of ss 17 "put_TradeRequest r" ms sv ts, unfolded g, OF assms(1) _ f]
  show ?thesis
    using run freeze_for_effect(2) [OF f] by (simp add: sizeof_TradeRequest_def make_order_def r)
qed

end
