(* ===== verification/Client.thy ===== *)
theory Client
  imports Prog Protocol
begin

text \<open>
  \<^verbatim>\<open>client.cpp\<close>: the load generator and the viewer. It has its own copy of the message types and
  structs. A socket is the bytes that will arrive, the sizes in which \<^verbatim>\<open>recv\<close> hands them out and in
  which \<^verbatim>\<open>send\<close> takes bytes, and the bytes sent.
\<close>

section \<open>Protocol of the client\<close>

datatype ClientMsgType =
    Client_REGISTER_REQ
  | Client_REGISTER_RES
  | Client_LOGIN_REQ
  | Client_LOGIN_RES
  | Client_DEPOSIT_REQ
  | Client_DEPOSIT_RES
  | Client_BALANCE_REQ
  | Client_BALANCE_RES
  | Client_TRADE_REQ
  | Client_TRADE_RES
  | Client_CANCEL_REQ
  | Client_CANCEL_RES
  | Client_HOLDINGS_REQ
  | Client_HOLDINGS_RES
  | Client_MARKET_REQ
  | Client_MARKET_RES
  | Client_ORDERS_REQ
  | Client_ORDERS_RES
  | Client_TREND_REQ
  | Client_TREND_RES
  | Client_NEWS_REQ
  | Client_NEWS_RES
  | Client_ALL_STOCKS_REQ
  | Client_ALL_STOCKS_RES

fun client_code :: "ClientMsgType \<Rightarrow> u16" where
  "client_code Client_REGISTER_REQ = 1001"
| "client_code Client_REGISTER_RES = 1002"
| "client_code Client_LOGIN_REQ = 1003"
| "client_code Client_LOGIN_RES = 1004"
| "client_code Client_DEPOSIT_REQ = 2001"
| "client_code Client_DEPOSIT_RES = 2002"
| "client_code Client_BALANCE_REQ = 2003"
| "client_code Client_BALANCE_RES = 2004"
| "client_code Client_TRADE_REQ = 3001"
| "client_code Client_TRADE_RES = 3002"
| "client_code Client_CANCEL_REQ = 3003"
| "client_code Client_CANCEL_RES = 3004"
| "client_code Client_HOLDINGS_REQ = 4001"
| "client_code Client_HOLDINGS_RES = 4002"
| "client_code Client_MARKET_REQ = 4003"
| "client_code Client_MARKET_RES = 4004"
| "client_code Client_ORDERS_REQ = 4005"
| "client_code Client_ORDERS_RES = 4006"
| "client_code Client_TREND_REQ = 4007"
| "client_code Client_TREND_RES = 4008"
| "client_code Client_NEWS_REQ = 4009"
| "client_code Client_NEWS_RES = 4010"
| "client_code Client_ALL_STOCKS_REQ = 4011"
| "client_code Client_ALL_STOCKS_RES = 4012"

record ClientPacketHeader =
  kp_length :: u32
  kp_type :: u16

definition sizeof_ClientPacketHeader :: nat where "sizeof_ClientPacketHeader = 6"

definition put_ClientPacketHeader :: "ClientPacketHeader \<Rightarrow> bytes" where
  "put_ClientPacketHeader r = put_u32 (kp_length r) @ put_u16 (kp_type r)"

definition get_ClientPacketHeader :: "bytes \<Rightarrow> ClientPacketHeader" where
  "get_ClientPacketHeader bs = \<lparr>kp_length = get_u32 bs, kp_type = get_u16 (drop 4 bs)\<rparr>"

interpretation ClientPacketHeader_codec: fixed_codec put_ClientPacketHeader get_ClientPacketHeader sizeof_ClientPacketHeader "\<lambda>_. True"
  by unfold_locales (simp_all add: put_ClientPacketHeader_def get_ClientPacketHeader_def sizeof_ClientPacketHeader_def)

record ClientAuthRequest =
  ka_username :: bytes
  ka_password :: bytes

definition sizeof_ClientAuthRequest :: nat where "sizeof_ClientAuthRequest = 64"

definition put_ClientAuthRequest :: "ClientAuthRequest \<Rightarrow> bytes" where
  "put_ClientAuthRequest r = put_chars 32 (ka_username r) @ put_chars 32 (ka_password r)"

definition get_ClientAuthRequest :: "bytes \<Rightarrow> ClientAuthRequest" where
  "get_ClientAuthRequest bs = \<lparr>ka_username = get_chars 32 bs, ka_password = get_chars 32 (drop 32 bs)\<rparr>"

definition ok_ClientAuthRequest :: "ClientAuthRequest \<Rightarrow> bool" where
  "ok_ClientAuthRequest r \<longleftrightarrow> length (ka_username r) = 32 \<and> length (ka_password r) = 32"

interpretation ClientAuthRequest_codec: fixed_codec put_ClientAuthRequest get_ClientAuthRequest sizeof_ClientAuthRequest "ok_ClientAuthRequest"
  by unfold_locales (simp_all add: put_ClientAuthRequest_def get_ClientAuthRequest_def sizeof_ClientAuthRequest_def ok_ClientAuthRequest_def)

record ClientAuthResponse =
  kb_status :: u8
  kb_user_id :: u64

definition sizeof_ClientAuthResponse :: nat where "sizeof_ClientAuthResponse = 9"

definition put_ClientAuthResponse :: "ClientAuthResponse \<Rightarrow> bytes" where
  "put_ClientAuthResponse r = put_u8 (kb_status r) @ put_u64 (kb_user_id r)"

definition get_ClientAuthResponse :: "bytes \<Rightarrow> ClientAuthResponse" where
  "get_ClientAuthResponse bs = \<lparr>kb_status = get_u8 bs, kb_user_id = get_u64 (drop 1 bs)\<rparr>"

interpretation ClientAuthResponse_codec: fixed_codec put_ClientAuthResponse get_ClientAuthResponse sizeof_ClientAuthResponse "\<lambda>_. True"
  by unfold_locales (simp_all add: put_ClientAuthResponse_def get_ClientAuthResponse_def sizeof_ClientAuthResponse_def)

record ClientDepositRequest =
  kc_amount :: u64

definition sizeof_ClientDepositRequest :: nat where "sizeof_ClientDepositRequest = 8"

definition put_ClientDepositRequest :: "ClientDepositRequest \<Rightarrow> bytes" where
  "put_ClientDepositRequest r = put_u64 (kc_amount r)"

definition get_ClientDepositRequest :: "bytes \<Rightarrow> ClientDepositRequest" where
  "get_ClientDepositRequest bs = \<lparr>kc_amount = get_u64 bs\<rparr>"

interpretation ClientDepositRequest_codec: fixed_codec put_ClientDepositRequest get_ClientDepositRequest sizeof_ClientDepositRequest "\<lambda>_. True"
  by unfold_locales (simp_all add: put_ClientDepositRequest_def get_ClientDepositRequest_def sizeof_ClientDepositRequest_def)

record ClientTradeRequest =
  kd_ticker_id :: u32
  kd_side :: u8
  kd_price :: u64
  kd_amount :: u32

definition sizeof_ClientTradeRequest :: nat where "sizeof_ClientTradeRequest = 17"

definition put_ClientTradeRequest :: "ClientTradeRequest \<Rightarrow> bytes" where
  "put_ClientTradeRequest r = put_u32 (kd_ticker_id r) @ put_u8 (kd_side r) @ put_u64 (kd_price r) @ put_u32 (kd_amount r)"

definition get_ClientTradeRequest :: "bytes \<Rightarrow> ClientTradeRequest" where
  "get_ClientTradeRequest bs = \<lparr>kd_ticker_id = get_u32 bs, kd_side = get_u8 (drop 4 bs), kd_price = get_u64 (drop 5 bs), kd_amount = get_u32 (drop 13 bs)\<rparr>"

interpretation ClientTradeRequest_codec: fixed_codec put_ClientTradeRequest get_ClientTradeRequest sizeof_ClientTradeRequest "\<lambda>_. True"
  by unfold_locales (simp_all add: put_ClientTradeRequest_def get_ClientTradeRequest_def sizeof_ClientTradeRequest_def)

record ClientMarketRequest =
  ke_ticker_id :: u32

definition sizeof_ClientMarketRequest :: nat where "sizeof_ClientMarketRequest = 4"

definition put_ClientMarketRequest :: "ClientMarketRequest \<Rightarrow> bytes" where
  "put_ClientMarketRequest r = put_u32 (ke_ticker_id r)"

definition get_ClientMarketRequest :: "bytes \<Rightarrow> ClientMarketRequest" where
  "get_ClientMarketRequest bs = \<lparr>ke_ticker_id = get_u32 bs\<rparr>"

interpretation ClientMarketRequest_codec: fixed_codec put_ClientMarketRequest get_ClientMarketRequest sizeof_ClientMarketRequest "\<lambda>_. True"
  by unfold_locales (simp_all add: put_ClientMarketRequest_def get_ClientMarketRequest_def sizeof_ClientMarketRequest_def)

record ClientCancelRequest =
  kf_ticker_id :: u32
  kf_order_id :: u64

definition sizeof_ClientCancelRequest :: nat where "sizeof_ClientCancelRequest = 12"

definition put_ClientCancelRequest :: "ClientCancelRequest \<Rightarrow> bytes" where
  "put_ClientCancelRequest r = put_u32 (kf_ticker_id r) @ put_u64 (kf_order_id r)"

definition get_ClientCancelRequest :: "bytes \<Rightarrow> ClientCancelRequest" where
  "get_ClientCancelRequest bs = \<lparr>kf_ticker_id = get_u32 bs, kf_order_id = get_u64 (drop 4 bs)\<rparr>"

interpretation ClientCancelRequest_codec: fixed_codec put_ClientCancelRequest get_ClientCancelRequest sizeof_ClientCancelRequest "\<lambda>_. True"
  by unfold_locales (simp_all add: put_ClientCancelRequest_def get_ClientCancelRequest_def sizeof_ClientCancelRequest_def)

record ClientTrendRequest =
  kg_ticker_id :: u32

definition sizeof_ClientTrendRequest :: nat where "sizeof_ClientTrendRequest = 4"

definition put_ClientTrendRequest :: "ClientTrendRequest \<Rightarrow> bytes" where
  "put_ClientTrendRequest r = put_u32 (kg_ticker_id r)"

definition get_ClientTrendRequest :: "bytes \<Rightarrow> ClientTrendRequest" where
  "get_ClientTrendRequest bs = \<lparr>kg_ticker_id = get_u32 bs\<rparr>"

interpretation ClientTrendRequest_codec: fixed_codec put_ClientTrendRequest get_ClientTrendRequest sizeof_ClientTrendRequest "\<lambda>_. True"
  by unfold_locales (simp_all add: put_ClientTrendRequest_def get_ClientTrendRequest_def sizeof_ClientTrendRequest_def)

record ClientStocksResponseHeader =
  kh_status :: u8
  kh_count :: u32

definition sizeof_ClientStocksResponseHeader :: nat where "sizeof_ClientStocksResponseHeader = 5"

definition put_ClientStocksResponseHeader :: "ClientStocksResponseHeader \<Rightarrow> bytes" where
  "put_ClientStocksResponseHeader r = put_u8 (kh_status r) @ put_u32 (kh_count r)"

definition get_ClientStocksResponseHeader :: "bytes \<Rightarrow> ClientStocksResponseHeader" where
  "get_ClientStocksResponseHeader bs = \<lparr>kh_status = get_u8 bs, kh_count = get_u32 (drop 1 bs)\<rparr>"

interpretation ClientStocksResponseHeader_codec: fixed_codec put_ClientStocksResponseHeader get_ClientStocksResponseHeader sizeof_ClientStocksResponseHeader "\<lambda>_. True"
  by unfold_locales (simp_all add: put_ClientStocksResponseHeader_def get_ClientStocksResponseHeader_def sizeof_ClientStocksResponseHeader_def)

record ClientStockItem =
  ki_ticker_id :: u32
  ki_symbol :: bytes

definition sizeof_ClientStockItem :: nat where "sizeof_ClientStockItem = 20"

definition put_ClientStockItem :: "ClientStockItem \<Rightarrow> bytes" where
  "put_ClientStockItem r = put_u32 (ki_ticker_id r) @ put_chars 16 (ki_symbol r)"

definition get_ClientStockItem :: "bytes \<Rightarrow> ClientStockItem" where
  "get_ClientStockItem bs = \<lparr>ki_ticker_id = get_u32 bs, ki_symbol = get_chars 16 (drop 4 bs)\<rparr>"

definition ok_ClientStockItem :: "ClientStockItem \<Rightarrow> bool" where
  "ok_ClientStockItem r \<longleftrightarrow> length (ki_symbol r) = 16"

interpretation ClientStockItem_codec: fixed_codec put_ClientStockItem get_ClientStockItem sizeof_ClientStockItem "ok_ClientStockItem"
  by unfold_locales (simp_all add: put_ClientStockItem_def get_ClientStockItem_def sizeof_ClientStockItem_def ok_ClientStockItem_def)

record ClientOrdersResponseHeader =
  kj_status :: u8
  kj_count :: u32

definition sizeof_ClientOrdersResponseHeader :: nat where "sizeof_ClientOrdersResponseHeader = 5"

definition put_ClientOrdersResponseHeader :: "ClientOrdersResponseHeader \<Rightarrow> bytes" where
  "put_ClientOrdersResponseHeader r = put_u8 (kj_status r) @ put_u32 (kj_count r)"

definition get_ClientOrdersResponseHeader :: "bytes \<Rightarrow> ClientOrdersResponseHeader" where
  "get_ClientOrdersResponseHeader bs = \<lparr>kj_status = get_u8 bs, kj_count = get_u32 (drop 1 bs)\<rparr>"

interpretation ClientOrdersResponseHeader_codec: fixed_codec put_ClientOrdersResponseHeader get_ClientOrdersResponseHeader sizeof_ClientOrdersResponseHeader "\<lambda>_. True"
  by unfold_locales (simp_all add: put_ClientOrdersResponseHeader_def get_ClientOrdersResponseHeader_def sizeof_ClientOrdersResponseHeader_def)

record ClientOrderItem =
  kk_order_id :: u64
  kk_ticker_id :: u32
  kk_side :: u8
  kk_price :: u64
  kk_amount :: u64

definition sizeof_ClientOrderItem :: nat where "sizeof_ClientOrderItem = 29"

definition put_ClientOrderItem :: "ClientOrderItem \<Rightarrow> bytes" where
  "put_ClientOrderItem r = put_u64 (kk_order_id r) @ put_u32 (kk_ticker_id r) @ put_u8 (kk_side r) @ put_u64 (kk_price r) @ put_u64 (kk_amount r)"

definition get_ClientOrderItem :: "bytes \<Rightarrow> ClientOrderItem" where
  "get_ClientOrderItem bs = \<lparr>kk_order_id = get_u64 bs, kk_ticker_id = get_u32 (drop 8 bs), kk_side = get_u8 (drop 12 bs), kk_price = get_u64 (drop 13 bs), kk_amount = get_u64 (drop 21 bs)\<rparr>"

interpretation ClientOrderItem_codec: fixed_codec put_ClientOrderItem get_ClientOrderItem sizeof_ClientOrderItem "\<lambda>_. True"
  by unfold_locales (simp_all add: put_ClientOrderItem_def get_ClientOrderItem_def sizeof_ClientOrderItem_def)

record ClientHoldingsResponseHeader =
  kl_status :: u8
  kl_count :: u32

definition sizeof_ClientHoldingsResponseHeader :: nat where "sizeof_ClientHoldingsResponseHeader = 5"

definition put_ClientHoldingsResponseHeader :: "ClientHoldingsResponseHeader \<Rightarrow> bytes" where
  "put_ClientHoldingsResponseHeader r = put_u8 (kl_status r) @ put_u32 (kl_count r)"

definition get_ClientHoldingsResponseHeader :: "bytes \<Rightarrow> ClientHoldingsResponseHeader" where
  "get_ClientHoldingsResponseHeader bs = \<lparr>kl_status = get_u8 bs, kl_count = get_u32 (drop 1 bs)\<rparr>"

interpretation ClientHoldingsResponseHeader_codec: fixed_codec put_ClientHoldingsResponseHeader get_ClientHoldingsResponseHeader sizeof_ClientHoldingsResponseHeader "\<lambda>_. True"
  by unfold_locales (simp_all add: put_ClientHoldingsResponseHeader_def get_ClientHoldingsResponseHeader_def sizeof_ClientHoldingsResponseHeader_def)

record ClientHoldingItem =
  km_ticker_id :: u32
  km_quantity :: u32

definition sizeof_ClientHoldingItem :: nat where "sizeof_ClientHoldingItem = 8"

definition put_ClientHoldingItem :: "ClientHoldingItem \<Rightarrow> bytes" where
  "put_ClientHoldingItem r = put_u32 (km_ticker_id r) @ put_u32 (km_quantity r)"

definition get_ClientHoldingItem :: "bytes \<Rightarrow> ClientHoldingItem" where
  "get_ClientHoldingItem bs = \<lparr>km_ticker_id = get_u32 bs, km_quantity = get_u32 (drop 4 bs)\<rparr>"

interpretation ClientHoldingItem_codec: fixed_codec put_ClientHoldingItem get_ClientHoldingItem sizeof_ClientHoldingItem "\<lambda>_. True"
  by unfold_locales (simp_all add: put_ClientHoldingItem_def get_ClientHoldingItem_def sizeof_ClientHoldingItem_def)

section \<open>Sockets\<close>

text \<open>A size of 0, or the end of a list, is a call that returns 0 or an error, time-outs included.\<close>

record Sock =
  sk_in :: bytes
  sk_cuts :: "nat list"
  sk_out :: bytes
  sk_sends :: "nat list"

function send_all :: "bytes \<Rightarrow> Sock \<Rightarrow> bool \<times> Sock" where
  "send_all buffer s =
     (if buffer = [] then (True, s)
      else case sk_sends s of
        [] \<Rightarrow> (False, s)
      | n # ns \<Rightarrow>
          if n = 0 then (False, s\<lparr>sk_sends := ns\<rparr>)
          else send_all (drop n buffer) (s\<lparr>sk_sends := ns, sk_out := sk_out s @ take n buffer\<rparr>))"
  by pat_completeness auto

termination
  by (relation "measure (\<lambda>(buffer, s). length (sk_sends s))") auto

declare send_all.simps [simp del]

text \<open>What was received before a failure stays in a buffer that nobody reads.\<close>

function recv_all :: "nat \<Rightarrow> Sock \<Rightarrow> bytes option \<times> Sock" where
  "recv_all len s =
     (if len = 0 then (Some [], s)
      else case sk_cuts s of
        [] \<Rightarrow> (None, s)
      | n # ns \<Rightarrow>
          let bs = take (min n len) (sk_in s); s' = s\<lparr>sk_cuts := ns, sk_in := drop (min n len) (sk_in s)\<rparr>
          in if bs = [] then (None, s')
             else let (r, t) = recv_all (len - length bs) s' in (map_option (\<lambda>cs. bs @ cs) r, t))"
  by pat_completeness auto

termination
  by (relation "measure (\<lambda>(len, s). length (sk_cuts s))") auto

declare recv_all.simps [simp del]

text \<open>The packet is put together in a buffer of 1024 bytes.\<close>

definition send_pkt :: "ClientMsgType \<Rightarrow> bytes \<Rightarrow> (Sock, bool) prog" where
  "send_pkt ty data s =
     (let hdr = put_ClientPacketHeader \<lparr>kp_length = htonl (of_nat (length data)), kp_type = htons (client_code ty)\<rparr>
      in if sizeof_ClientPacketHeader + length data > 1024 then (Inl Overrun, s)
         else let (ok, s') = send_all (hdr @ data) s in (Inr ok, s'))"

text \<open>The type and the body of the packet, \<open>None\<close> for a failure.\<close>

definition recv_pkt :: "(Sock, (u16 \<times> bytes) option) prog" where
  "recv_pkt s =
     (case recv_all sizeof_ClientPacketHeader s of
        (None, s1) \<Rightarrow> (Inr None, s1)
      | (Some hb, s1) \<Rightarrow>
          let hdr = get_ClientPacketHeader hb; ty = ntohs (kp_type hdr); len = unat (ntohl (kp_length hdr))
          in if len > 1024 * 1024 then (Inr None, s1)
             else (case recv_all len s1 of
                     (None, s2) \<Rightarrow> (Inr None, s2)
                   | (Some body, s2) \<Rightarrow> (Inr (Some (ty, body)), s2)))"

text \<open>
  The array that follows a header in a body. The count comes from the header and is not checked
  against the size of the body.
\<close>

definition items_at :: "(bytes \<Rightarrow> 'a) \<Rightarrow> nat \<Rightarrow> nat \<Rightarrow> u32 \<Rightarrow> bytes \<Rightarrow> ('s, 'a list) prog" where
  "items_at dec width hdr n body =
     (if hdr + unat n * width \<le> length body
      then ret (map (\<lambda>i. dec (drop (hdr + i * width) body)) [0 ..< unat n])
      else fail Overrun)"

section \<open>Viewer\<close>

definition auth_request :: "string \<Rightarrow> string \<Rightarrow> bytes" where
  "auth_request username password =
     put_ClientAuthRequest \<lparr>ka_username = fixed_str 32 username, ka_password = fixed_str 32 password\<rparr>"

definition exchange :: "ClientMsgType \<Rightarrow> bytes \<Rightarrow> (Sock, (u16 \<times> bytes) option) prog" where
  "exchange ty data = bnd (send_pkt ty data) (\<lambda>ok. if ok then recv_pkt else ret None)"

definition stock_list_of :: "(u16 \<times> bytes) option \<Rightarrow> ('s, ClientStockItem list) prog" where
  "stock_list_of r =
     (case r of
        None \<Rightarrow> ret []
      | Some (_, body) \<Rightarrow>
          if length body \<ge> sizeof_ClientStocksResponseHeader
          then items_at get_ClientStockItem sizeof_ClientStockItem sizeof_ClientStocksResponseHeader
                 (kh_count (get_ClientStocksResponseHeader body)) body
          else ret [])"

definition holdings_of :: "(u16 \<times> bytes) option \<Rightarrow> ('s, ClientHoldingItem list) prog" where
  "holdings_of r =
     (case r of
        None \<Rightarrow> ret []
      | Some (_, body) \<Rightarrow>
          if length body \<ge> sizeof_ClientHoldingsResponseHeader
          then items_at get_ClientHoldingItem sizeof_ClientHoldingItem sizeof_ClientHoldingsResponseHeader
                 (kl_count (get_ClientHoldingsResponseHeader body)) body
          else ret [])"

definition symbol_of :: "ClientStockItem list \<Rightarrow> u32 \<Rightarrow> string" where
  "symbol_of stocks tk =
     (case find (\<lambda>s. ki_ticker_id s = tk) stocks of Some s \<Rightarrow> c_str (ki_symbol s) | None \<Rightarrow> ''UNKNOWN'')"

text \<open>
  What the viewer shows: the stocks and the holdings of \<^verbatim>\<open>root\<close> with their symbols; \<open>None\<close> when it
  gives up. The login reply is read without a check of its size; the status byte of an empty
  string is its terminating NUL.
\<close>

definition view_root_stocks :: "bool \<Rightarrow> bool
    \<Rightarrow> (Sock, ((u32 \<times> string) list \<times> (u32 \<times> string \<times> u32) list) option) prog" where
  "view_root_stocks sock_ok connect_ok =
     (if \<not> sock_ok \<or> \<not> connect_ok then ret None
      else bnd (exchange Client_LOGIN_REQ (auth_request ''root'' ''root'')) (\<lambda>r.
        case r of
          None \<Rightarrow> ret None
        | Some (_, body) \<Rightarrow>
            if body = [] \<or> kb_status (get_ClientAuthResponse body) \<noteq> 1 then ret None
            else if length body < sizeof_ClientAuthResponse then fail Overrun
            else bnd (exchange Client_ALL_STOCKS_REQ []) (\<lambda>r2.
                 bnd (stock_list_of r2) (\<lambda>stocks.
                 bnd (exchange Client_HOLDINGS_REQ []) (\<lambda>r3.
                 bnd (holdings_of r3) (\<lambda>items.
                 ret (Some (map (\<lambda>s. (ki_ticker_id s, c_str (ki_symbol s))) stocks,
                            map (\<lambda>h. (km_ticker_id h, symbol_of stocks (km_ticker_id h), km_quantity h)) items))))))))"


section \<open>Load generator\<close>

text \<open>
  A worker thread: its socket and whether it is closed, the values that the random generator will
  draw and how many it has drawn, the orders it knows, and the global counters.
\<close>

record Client =
  cl_sock :: Sock
  cl_closed :: bool
  cl_rng :: "nat \<Rightarrow> u32"
  cl_draws :: nat
  cl_active_orders :: "u64 list"
  g_success :: u64
  g_fail :: u64
  g_latency :: u64

definition on_sock :: "(Sock, 'a) prog \<Rightarrow> (Client, 'a) prog" where
  "on_sock m = zoom cl_sock (\<lambda>s c. c\<lparr>cl_sock := s\<rparr>) m"

definition rng :: "(Client, u32) prog" where
  "rng c = (Inr (cl_rng c (cl_draws c)), c\<lparr>cl_draws := Suc (cl_draws c)\<rparr>)"

definition close_sock :: "(Client, unit) prog" where
  "close_sock = modify (\<lambda>c. c\<lparr>cl_closed := True\<rparr>)"

text \<open>\<^verbatim>\<open>g_fail += requests\<close> converts the \<^verbatim>\<open>int\<close> to \<^verbatim>\<open>uint64_t\<close>.\<close>

definition fail_all :: "i32 \<Rightarrow> (Client, unit) prog" where
  "fail_all requests = modify (\<lambda>c. c\<lparr>g_fail := g_fail c + of_int (sint requests)\<rparr>)"

definition one_failed :: "(Client, unit) prog" where
  "one_failed = modify (\<lambda>c. c\<lparr>g_fail := g_fail c + 1\<rparr>)"

definition one_succeeded :: "u64 \<Rightarrow> (Client, unit) prog" where
  "one_succeeded usecs = modify (\<lambda>c. c\<lparr>g_success := g_success c + 1, g_latency := g_latency c + usecs\<rparr>)"

definition trade_request :: "u32 \<Rightarrow> u8 \<Rightarrow> u64 \<Rightarrow> u32 \<Rightarrow> bytes" where
  "trade_request tid side price amount =
     put_ClientTradeRequest \<lparr>kd_ticker_id = tid, kd_side = side, kd_price = price, kd_amount = amount\<rparr>"

text \<open>
  How the choice of a request ends: the result of sending it, or \<^verbatim>\<open>continue\<close> after an order query
  that has been answered and counted already.
\<close>

datatype choice = SendOk bool | Answered

definition orders_query :: "u64 \<Rightarrow> (Client, choice) prog" where
  "orders_query usecs =
     bnd (on_sock (send_pkt Client_ORDERS_REQ [])) (\<lambda>ok.
     bnd (if ok then on_sock recv_pkt else ret None) (\<lambda>r.
       case r of
         None \<Rightarrow> ret (SendOk False)
       | Some (_, body) \<Rightarrow>
           if length body \<ge> sizeof_ClientOrdersResponseHeader
           then bnd (items_at get_ClientOrderItem sizeof_ClientOrderItem sizeof_ClientOrdersResponseHeader
                       (kj_count (get_ClientOrdersResponseHeader body)) body) (\<lambda>items.
                bnd (modify (\<lambda>c. c\<lparr>cl_active_orders := cl_active_orders c @ map kk_order_id items\<rparr>)) (\<lambda>_.
                bnd (one_succeeded usecs) (\<lambda>_. ret Answered)))
           else ret (SendOk False)))"

definition cancel_last :: "u32 \<Rightarrow> (Client, choice) prog" where
  "cancel_last tid =
     bnd (gets (\<lambda>c. last (cl_active_orders c))) (\<lambda>oid.
     bnd (on_sock (send_pkt Client_CANCEL_REQ (put_ClientCancelRequest \<lparr>kf_ticker_id = tid, kf_order_id = oid\<rparr>))) (\<lambda>ok.
     bnd (modify (\<lambda>c. c\<lparr>cl_active_orders := butlast (cl_active_orders c)\<rparr>)) (\<lambda>_. ret (SendOk ok))))"

definition sent_as :: "ClientMsgType \<Rightarrow> bytes \<Rightarrow> (Client, choice) prog" where
  "sent_as ty data = bnd (on_sock (send_pkt ty data)) (\<lambda>ok. ret (SendOk ok))"

definition mode1_request :: "u64 \<Rightarrow> nat \<Rightarrow> u32 \<Rightarrow> (Client, choice) prog" where
  "mode1_request usecs weight tid =
     (if weight < 40 then sent_as Client_MARKET_REQ (put_ClientMarketRequest \<lparr>ke_ticker_id = tid\<rparr>)
      else if weight < 80 then
        bnd rng (\<lambda>r1. bnd rng (\<lambda>r2. bnd rng (\<lambda>r3.
          sent_as Client_TRADE_REQ (trade_request tid (ucast r1 mod 2) ((100 + ucast r2 mod 50) * 10000) (1 + r3 mod 10)))))
      else if weight < 90 then
        bnd rng (\<lambda>r. sent_as (if r mod 2 = 0 then Client_HOLDINGS_REQ else Client_BALANCE_REQ) [])
      else
        bnd (gets cl_active_orders) (\<lambda>os. if os \<noteq> [] then cancel_last tid else orders_query usecs))"

definition mode0_request :: "nat \<Rightarrow> u32 \<Rightarrow> (Client, choice) prog" where
  "mode0_request weight tid =
     (if weight < 30 then sent_as Client_MARKET_REQ (put_ClientMarketRequest \<lparr>ke_ticker_id = tid\<rparr>)
      else if weight < 60 then sent_as Client_TREND_REQ (put_ClientTrendRequest \<lparr>kg_ticker_id = tid\<rparr>)
      else if weight < 90 then
        bnd rng (\<lambda>r. sent_as Client_TRADE_REQ (trade_request tid (ucast r mod 2) (120 * 10000) 5))
      else sent_as Client_NEWS_REQ [])"

text \<open>One round of the request loop; \<open>False\<close> is its \<^verbatim>\<open>break\<close>. \<open>usecs\<close> is the measured time.\<close>

definition one_request :: "u64 \<Rightarrow> i32 \<Rightarrow> u32 list \<Rightarrow> (Client, bool) prog" where
  "one_request usecs mode ticker_ids =
     bnd rng (\<lambda>r1. bnd rng (\<lambda>r2.
       let weight = unat r1 mod 100; tid = ticker_ids ! (unat r2 mod length ticker_ids)
       in bnd (if mode = 1 then mode1_request usecs weight tid else mode0_request weight tid) (\<lambda>ch.
          case ch of
            Answered \<Rightarrow> ret True
          | SendOk ok \<Rightarrow>
              if \<not> ok then bnd one_failed (\<lambda>_. ret False)
              else bnd (on_sock recv_pkt) (\<lambda>r.
                case r of Some _ \<Rightarrow> bnd (one_succeeded usecs) (\<lambda>_. ret True)
                        | None \<Rightarrow> bnd one_failed (\<lambda>_. ret False)))))"

fun request_loop :: "(nat \<Rightarrow> u64) \<Rightarrow> i32 \<Rightarrow> u32 list \<Rightarrow> nat \<Rightarrow> (Client, unit) prog" where
  "request_loop usecs mode ticker_ids 0 = ret ()"
| "request_loop usecs mode ticker_ids (Suc n) =
     bnd (one_request (usecs 0) mode ticker_ids) (\<lambda>go.
       if go then request_loop (\<lambda>i. usecs (Suc i)) mode ticker_ids n else ret ())"

definition worker_tickers :: "(u16 \<times> bytes) option \<Rightarrow> (Client, u32 list) prog" where
  "worker_tickers r = bnd (stock_list_of r) (\<lambda>items. ret (if items = [] then [1] else map ki_ticker_id items))"

definition benchmark_worker :: "bool \<Rightarrow> bool \<Rightarrow> (nat \<Rightarrow> u64) \<Rightarrow> nat \<Rightarrow> i32 \<Rightarrow> i32 \<Rightarrow> (Client, unit) prog" where
  "benchmark_worker sock_ok connect_ok usecs i requests mode =
     (if \<not> sock_ok \<or> \<not> connect_ok then fail_all requests
      else bnd (on_sock (exchange Client_REGISTER_REQ (auth_request (''testuser_'' @ show_nat i) ''123''))) (\<lambda>r1.
        if r1 = None then bnd close_sock (\<lambda>_. fail_all requests)
        else bnd (on_sock (exchange Client_ALL_STOCKS_REQ [])) (\<lambda>r2.
             bnd (worker_tickers r2) (\<lambda>ticker_ids.
             bnd (on_sock (exchange Client_DEPOSIT_REQ (put_ClientDepositRequest \<lparr>kc_amount = 100000000\<rparr>))) (\<lambda>r3.
               if r3 = None then bnd close_sock (\<lambda>_. fail_all requests)
               else bnd (modify (\<lambda>c. c\<lparr>cl_active_orders := []\<rparr>)) (\<lambda>_.
                    bnd (request_loop usecs mode ticker_ids (nat (sint requests))) (\<lambda>_. close_sock)))))))"

section \<open>Main program\<close>

text \<open>
  What the threads find: the outcome of the socket calls, their sockets and random numbers, the
  measured times. The threads share only the counters, which they change by atomic additions, so
  the sum does not depend on how they are scheduled and they are run one after the other. The
  mode is fixed; the third argument that the usage text announces is not read.
\<close>

record worker_env =
  we_sock_ok :: bool
  we_connect_ok :: bool
  we_sock :: Sock
  we_rng :: "nat \<Rightarrow> u32"
  we_usecs :: "nat \<Rightarrow> u64"

record counters =
  ct_success :: u64
  ct_fail :: u64
  ct_latency :: u64

definition run_worker :: "worker_env \<Rightarrow> nat \<Rightarrow> i32 \<Rightarrow> i32 \<Rightarrow> (counters, unit) prog" where
  "run_worker e i reqs mode k =
     (let (r, c) = benchmark_worker (we_sock_ok e) (we_connect_ok e) (we_usecs e) i reqs mode
            \<lparr>cl_sock = we_sock e, cl_closed = False, cl_rng = we_rng e, cl_draws = 0, cl_active_orders = [],
             g_success = ct_success k, g_fail = ct_fail k, g_latency = ct_latency k\<rparr>
      in (r, \<lparr>ct_success = g_success c, ct_fail = g_fail c, ct_latency = g_latency c\<rparr>))"

text \<open>\<open>argv\<close> are the arguments after the program name.\<close>

definition client_main :: "(nat \<Rightarrow> worker_env) \<Rightarrow> string list \<Rightarrow> (counters, unit) prog" where
  "client_main env argv =
     bnd (conv (case argv of a # _ \<Rightarrow> stoi a | [] \<Rightarrow> Inr 500)) (\<lambda>threads.
     bnd (conv (case argv of _ # b # _ \<Rightarrow> stoi b | _ \<Rightarrow> Inr 2000)) (\<lambda>reqs.
       for_each (\<lambda>i. run_worker (env i) i reqs 0) [0 ..< nat (sint threads)]))"

end
