(* ===== verification/Client_Props.thy ===== *)
theory Client_Props
  imports Client Business
begin

text \<open>
  The client and the server understand each other: the structs have the same layout on both sides,
  a packet that the client sends is the packet that the server cuts out of its buffer, and a reply
  is received whole however the network cuts it. The counters of the load generator add up.
\<close>

section \<open>Sending and receiving\<close>

lemma send_all_done:
  "send_all buffer s = (True, s') \<Longrightarrow> sk_out s' = sk_out s @ buffer \<and> sk_in s' = sk_in s \<and> sk_cuts s' = sk_cuts s"
proof (induction buffer s rule: send_all.induct)
  case (1 buffer s)
  show ?case
  proof (cases "buffer = []")
    case True
    with "1.prems" show ?thesis by (simp add: send_all.simps [of "[]" s])
  next
    case False
    with "1.prems" obtain n ns where ns: "sk_sends s = n # ns" "n \<noteq> 0"
      by (auto simp: send_all.simps [of buffer s] split: list.splits if_splits)
    have "send_all (drop n buffer) (s\<lparr>sk_sends := ns, sk_out := sk_out s @ take n buffer\<rparr>) = (True, s')"
      using "1.prems" False ns by (simp add: send_all.simps [of buffer s])
    from "1.IH" [OF False ns(1,2) this] show ?thesis by simp
  qed
qed

lemma send_all_enough:
  assumes "length buffer \<le> length (sk_sends s)" and "0 \<notin> set (sk_sends s)"
  shows "fst (send_all buffer s)"
  using assms
proof (induction buffer s rule: send_all.induct)
  case (1 buffer s)
  show ?case
  proof (cases "buffer = []")
    case False
    then obtain n ns where ns: "sk_sends s = n # ns" "n \<noteq> 0" using "1.prems" by (cases "sk_sends s") auto
    with False "1.IH" [OF False ns] "1.prems" show ?thesis by (simp add: send_all.simps [of buffer s])
  qed (simp add: send_all.simps)
qed

lemma recv_all_enough:
  assumes "len \<le> length (sk_in s)" and "len \<le> length (sk_cuts s)" and "0 \<notin> set (sk_cuts s)"
  shows "\<exists>cs. recv_all len s = (Some (take len (sk_in s)), s\<lparr>sk_in := drop len (sk_in s), sk_cuts := cs\<rparr>) \<and>
    length (sk_cuts s) - len \<le> length cs \<and> set cs \<subseteq> set (sk_cuts s)"
  using assms
proof (induction len s rule: recv_all.induct)
  case (1 len s)
  show ?case
  proof (cases "len = 0")
    case True
    then show ?thesis by (intro exI [of _ "sk_cuts s"]) (simp add: recv_all.simps)
  next
    case False
    then obtain n ns where ns: "sk_cuts s = n # ns" "n \<noteq> 0" using "1.prems" by (cases "sk_cuts s") auto
    let ?m = "min n len" let ?s = "s\<lparr>sk_cuts := ns, sk_in := drop ?m (sk_in s)\<rparr>"
    have m: "length (take ?m (sk_in s)) = ?m" "0 < ?m" using "1.prems"(1) False ns by auto
    then have ne: "take ?m (sk_in s) \<noteq> []" by force
    have le: "len - length (take ?m (sk_in s)) \<le> length (sk_in ?s)" "len - length (take ?m (sk_in s)) \<le> length (sk_cuts ?s)"
        "0 \<notin> set (sk_cuts ?s)"
      using "1.prems" m ns by auto
    obtain cs where cs: "recv_all (len - ?m) ?s = (Some (take (len - ?m) (sk_in ?s)), ?s\<lparr>sk_in := drop (len - ?m) (sk_in ?s), sk_cuts := cs\<rparr>)"
        "length (sk_cuts ?s) - (len - ?m) \<le> length cs" "set cs \<subseteq> set (sk_cuts ?s)"
      using "1.IH" [OF False ns(1) refl refl ne le] unfolding m(1) by blast
    have "take ?m (sk_in s) @ take (len - ?m) (drop ?m (sk_in s)) = take len (sk_in s)"
      by (metis le_add_diff_inverse min.cobounded2 take_add)
    moreover have "drop (len - ?m) (drop ?m (sk_in s)) = drop len (sk_in s)" by simp
    ultimately have "recv_all len s = (Some (take len (sk_in s)), s\<lparr>sk_in := drop len (sk_in s), sk_cuts := cs\<rparr>)"
      using False ns ne cs(1) m by (simp add: recv_all.simps [of len s] Let_def)
    moreover have "length (sk_cuts s) - len \<le> length cs" "set cs \<subseteq> set (sk_cuts s)"
      using cs(2,3) ns m(2) by auto
    ultimately show ?thesis by blast
  qed
qed


section \<open>Packets\<close>

lemma parse_client_packet:
  assumes "length data < 2 ^ 32"
  shows "parse_packet (put_ClientPacketHeader \<lparr>kp_length = htonl (of_nat (length data)), kp_type = htons ty\<rparr> @ data @ rest) =
    Some (ty, of_nat (length data), data @ rest, rest)"
proof -
  have hdr: "put_ClientPacketHeader \<lparr>kp_length = htonl (of_nat (length data)), kp_type = htons ty\<rparr> =
      put_PacketHeader \<lparr>h_length = htonl (of_nat (length data)), h_type = htons ty\<rparr>"
    by (simp add: put_ClientPacketHeader_def put_PacketHeader_def)
  have len: "unat (of_nat (length data) :: u32) = length data" using assms by (simp add: unat_of_nat take_bit_nat_eq_self)
  have six: "length (put_PacketHeader x) = 6" for x by (simp add: put_PacketHeader_def)
  show ?thesis
    unfolding hdr parse_packet_def by (simp add: PacketHeader_codec.dec_enc len six sizeof_PacketHeader_def)
qed

lemma recv_reply:
  assumes "sk_in s = reply_packet raw reply @ rest" and "length reply \<le> 1024 * 1024"
    and "length (reply_packet raw reply) \<le> length (sk_cuts s)" and "0 \<notin> set (sk_cuts s)"
  shows "\<exists>cs. recv_pkt s = (Inr (Some (raw + 1, reply)), s\<lparr>sk_in := rest, sk_cuts := cs\<rparr>)"
proof -
  let ?h = "put_PacketHeader \<lparr>h_length = htonl (of_nat (length reply)), h_type = htons (raw + 1)\<rparr>"
  have six: "length ?h = 6" by (simp add: put_PacketHeader_def)
  have "sizeof_ClientPacketHeader \<le> length (sk_in s)" "sizeof_ClientPacketHeader \<le> length (sk_cuts s)"
    using assms(1,3) six by (simp_all add: reply_packet_def sizeof_ClientPacketHeader_def)
  from recv_all_enough [OF this assms(4)] obtain cs where r1:
      "recv_all sizeof_ClientPacketHeader s = (Some ?h, s\<lparr>sk_in := reply @ rest, sk_cuts := cs\<rparr>)"
      "length (sk_cuts s) - 6 \<le> length cs" "set cs \<subseteq> set (sk_cuts s)"
    using six by (auto simp: assms(1) reply_packet_def sizeof_ClientPacketHeader_def)
  let ?s = "s\<lparr>sk_in := reply @ rest, sk_cuts := cs\<rparr>"
  have "length reply \<le> length (sk_in ?s)" "length reply \<le> length (sk_cuts ?s)" "0 \<notin> set (sk_cuts ?s)"
    using assms(3,4) r1(2,3) six by (auto simp: reply_packet_def)
  from recv_all_enough [OF this] obtain ds where r2: "recv_all (length reply) ?s = (Some reply, s\<lparr>sk_in := rest, sk_cuts := ds\<rparr>)"
    by auto
  have hdr: "get_ClientPacketHeader ?h = \<lparr>kp_length = htonl (of_nat (length reply)), kp_type = htons (raw + 1)\<rparr>"
    by (simp add: get_ClientPacketHeader_def put_PacketHeader_def)
  have len: "unat (of_nat (length reply) :: u32) = length reply" using assms(2) by (simp add: unat_of_nat take_bit_nat_eq_self)
  have "recv_pkt s = (Inr (Some (raw + 1, reply)), s\<lparr>sk_in := rest, sk_cuts := ds\<rparr>)"
    using assms(2) by (simp add: recv_pkt_def r1(1) hdr len r2 Let_def)
  then show ?thesis ..
qed

text \<open>
  C24. A request that the client sends completely is, at the head of the server's buffer, exactly
  one packet with that type and payload, and the server's reply of at most one megabyte is
  received whole by the client, with the type one above the request's, whatever the sizes in which
  the network takes and hands out the bytes.
\<close>

theorem client_server_framing:
  assumes "length data + 6 \<le> 1024" and "send_pkt ty data s = (Inr True, s1)"
    and "length reply \<le> 1024 * 1024" and "sk_in s2 = reply_packet (client_code ty) reply @ later"
    and "length (reply_packet (client_code ty) reply) \<le> length (sk_cuts s2)" and "0 \<notin> set (sk_cuts s2)"
  shows "(\<exists>packet. sk_out s1 = sk_out s @ packet \<and>
      (\<forall>rest. parse_packet (packet @ rest) = Some (client_code ty, of_nat (length data), data @ rest, rest))) \<and>
    (\<exists>cs. recv_pkt s2 = (Inr (Some (client_code ty + 1, reply)), s2\<lparr>sk_in := later, sk_cuts := cs\<rparr>))"
proof
  let ?p = "put_ClientPacketHeader \<lparr>kp_length = htonl (of_nat (length data)), kp_type = htons (client_code ty)\<rparr> @ data"
  have "send_all ?p s = (True, s1)"
    using assms(1,2) by (auto simp: send_pkt_def Let_def sizeof_ClientPacketHeader_def split: prod.splits if_splits)
  then have "sk_out s1 = sk_out s @ ?p" by (rule send_all_done [THEN conjunct1])
  moreover have "parse_packet (?p @ rest) = Some (client_code ty, of_nat (length data), data @ rest, rest)" for rest
    using parse_client_packet [of data "client_code ty" rest] assms(1) by simp
  ultimately show "\<exists>packet. sk_out s1 = sk_out s @ packet \<and>
      (\<forall>rest. parse_packet (packet @ rest) = Some (client_code ty, of_nat (length data), data @ rest, rest))" by blast
  show "\<exists>cs. recv_pkt s2 = (Inr (Some (client_code ty + 1, reply)), s2\<lparr>sk_in := later, sk_cuts := cs\<rparr>)"
    by (rule recv_reply [OF assms(4,3,5,6)])
qed

definition ex_sock :: Sock where
  "ex_sock = \<lparr>sk_in = reply_packet 4003 ''ok'' @ ''more'', sk_cuts = replicate 9 3, sk_out = [], sk_sends = replicate 10 4\<rparr>"

theorem client_server_framing_witness:
  "\<exists>cs. recv_pkt ex_sock = (Inr (Some (4004, ''ok'')), ex_sock\<lparr>sk_in := ''more'', sk_cuts := cs\<rparr>)"
proof -
  let ?data = "put_ClientMarketRequest \<lparr>ke_ticker_id = 7\<rparr>"
  have d: "length ?data = 4" by (simp add: put_ClientMarketRequest_def)
  have six: "length (put_ClientPacketHeader x) = 6" for x by (simp add: put_ClientPacketHeader_def)
  have "fst (send_all (put_ClientPacketHeader x @ ?data) ex_sock)" for x
    by (rule send_all_enough) (simp_all add: ex_sock_def six d)
  then obtain s1 where "send_all (put_ClientPacketHeader \<lparr>kp_length = htonl 4, kp_type = htons 4003\<rparr> @ ?data) ex_sock = (True, s1)"
    by (metis (full_types) prod.collapse)
  then have "send_pkt Client_MARKET_REQ ?data ex_sock = (Inr True, s1)"
    by (simp add: send_pkt_def d sizeof_ClientPacketHeader_def)
  moreover have "length (reply_packet 4003 ''ok'') = 8" by (simp add: reply_packet_def put_PacketHeader_def)
  ultimately show ?thesis
    using client_server_framing [of ?data Client_MARKET_REQ ex_sock s1 "''ok''" ex_sock "''more''"] d by (simp add: ex_sock_def)
qed


section \<open>Layouts\<close>

text \<open>
  C25. The client's copy of the protocol is the server's: the message types have the same codes,
  and what either side writes the other reads field by field.
\<close>

theorem client_server_layout:
  "client_code Client_REGISTER_REQ = REGISTER_REQ \<and> client_code Client_REGISTER_RES = REGISTER_RES \<and>
    client_code Client_LOGIN_REQ = LOGIN_REQ \<and> client_code Client_LOGIN_RES = LOGIN_RES \<and>
    client_code Client_DEPOSIT_REQ = DEPOSIT_REQ \<and> client_code Client_DEPOSIT_RES = DEPOSIT_RES \<and>
    client_code Client_BALANCE_REQ = BALANCE_REQ \<and> client_code Client_BALANCE_RES = BALANCE_RES \<and>
    client_code Client_TRADE_REQ = TRADE_REQ \<and> client_code Client_TRADE_RES = TRADE_RES \<and>
    client_code Client_CANCEL_REQ = CANCEL_REQ \<and> client_code Client_CANCEL_RES = CANCEL_RES \<and>
    client_code Client_HOLDINGS_REQ = HOLDINGS_REQ \<and> client_code Client_HOLDINGS_RES = HOLDINGS_RES \<and>
    client_code Client_MARKET_REQ = MARKET_REQ \<and> client_code Client_MARKET_RES = MARKET_RES \<and>
    client_code Client_ORDERS_REQ = ORDERS_REQ \<and> client_code Client_ORDERS_RES = ORDERS_RES \<and>
    client_code Client_TREND_REQ = TREND_REQ \<and> client_code Client_TREND_RES = TREND_RES \<and>
    client_code Client_NEWS_REQ = NEWS_REQ \<and> client_code Client_NEWS_RES = NEWS_RES \<and>
    client_code Client_ALL_STOCKS_REQ = ALL_STOCKS_REQ \<and> client_code Client_ALL_STOCKS_RES = ALL_STOCKS_RES \<and>
   (ok_ClientAuthRequest a \<longrightarrow> get_AuthRequest (put_ClientAuthRequest a @ rest) =
      \<lparr>aq_username = ka_username a, aq_password = ka_password a\<rparr>) \<and>
   get_DepositRequest (put_ClientDepositRequest d @ rest) = \<lparr>dq_amount = kc_amount d\<rparr> \<and>
   get_TradeRequest (put_ClientTradeRequest t @ rest) =
     \<lparr>tq_ticker_id = kd_ticker_id t, tq_side = kd_side t, tq_price = kd_price t, tq_amount = kd_amount t\<rparr> \<and>
   get_MarketRequest (put_ClientMarketRequest m @ rest) = \<lparr>mq_ticker_id = ke_ticker_id m\<rparr> \<and>
   get_CancelRequest (put_ClientCancelRequest c @ rest) =
     \<lparr>cq_ticker_id = kf_ticker_id c, cq_order_id = kf_order_id c\<rparr> \<and>
   get_TrendRequest (put_ClientTrendRequest e @ rest) = \<lparr>eq_ticker_id = kg_ticker_id e\<rparr> \<and>
   get_ClientAuthResponse (put_AuthResponse ar @ rest) = \<lparr>kb_status = as_status ar, kb_user_id = as_user_id ar\<rparr> \<and>
   get_ClientStocksResponseHeader (put_StocksResponseHeader sh @ rest) =
     \<lparr>kh_status = sh_status sh, kh_count = sh_count sh\<rparr> \<and>
   (ok_StockItem si \<longrightarrow> get_ClientStockItem (put_StockItem si @ rest) =
      \<lparr>ki_ticker_id = si_ticker_id si, ki_symbol = si_symbol si\<rparr>) \<and>
   get_ClientOrdersResponseHeader (put_OrdersResponseHeader oh @ rest) =
     \<lparr>kj_status = oh_status oh, kj_count = oh_count oh\<rparr> \<and>
   get_ClientOrderItem (put_OrderItem oi @ rest) =
     \<lparr>kk_order_id = oi_order_id oi, kk_ticker_id = oi_ticker_id oi, kk_side = oi_side oi, kk_price = oi_price oi,
      kk_amount = oi_amount oi\<rparr> \<and>
   get_ClientHoldingsResponseHeader (put_HoldingsResponseHeader hh @ rest) =
     \<lparr>kl_status = hh_status hh, kl_count = hh_count hh\<rparr> \<and>
   get_ClientHoldingItem (put_HoldingItem hi @ rest) =
     \<lparr>km_ticker_id = hi_ticker_id hi, km_quantity = hi_quantity hi\<rparr>"
  apply (intro conjI impI)
                      apply (simp_all only: client_code.simps msg_types)
             apply (simp_all add: get_AuthRequest_def put_ClientAuthRequest_def ok_ClientAuthRequest_def
      get_DepositRequest_def put_ClientDepositRequest_def get_TradeRequest_def put_ClientTradeRequest_def
      get_MarketRequest_def put_ClientMarketRequest_def get_CancelRequest_def put_ClientCancelRequest_def
      get_TrendRequest_def put_ClientTrendRequest_def)
        apply (simp_all add: get_ClientAuthResponse_def put_AuthResponse_def get_ClientStocksResponseHeader_def
      put_StocksResponseHeader_def get_ClientStockItem_def put_StockItem_def ok_StockItem_def)
     apply (simp_all add: get_ClientOrdersResponseHeader_def put_OrdersResponseHeader_def get_ClientOrderItem_def
      put_OrderItem_def get_ClientHoldingsResponseHeader_def put_HoldingsResponseHeader_def get_ClientHoldingItem_def put_HoldingItem_def)
  done

text \<open>The request that registers user \<open>7\<close> and an item of the stock list.\<close>

theorem client_server_layout_witness:
  "get_AuthRequest (auth_request ''testuser_7'' ''123'') =
     \<lparr>aq_username = fixed_str 32 ''testuser_7'', aq_password = fixed_str 32 ''123''\<rparr>"
  using client_server_layout [of "\<lparr>ka_username = fixed_str 32 ''testuser_7'', ka_password = fixed_str 32 ''123''\<rparr>" "[]"]
  by (simp add: auth_request_def ok_ClientAuthRequest_def)

section \<open>Counters\<close>

text \<open>
  \<open>tally m R\<close>: when \<open>m\<close> returns \<open>x\<close>, it has counted some number \<open>n\<close> of successes and \<open>f\<close> of failures
  with \<open>R x n f\<close>.
\<close>

definition tally :: "(Client, 'a) prog \<Rightarrow> ('a \<Rightarrow> nat \<Rightarrow> nat \<Rightarrow> bool) \<Rightarrow> bool" where
  "tally m R \<longleftrightarrow> (\<forall>c x c'. m c = (Inr x, c') \<longrightarrow>
     (\<exists>n f. g_success c' = g_success c + of_nat n \<and> g_fail c' = g_fail c + of_nat f \<and> R x n f))"

abbreviation silent :: "(Client, 'a) prog \<Rightarrow> bool" where
  "silent m \<equiv> tally m (\<lambda>_ n f. n = 0 \<and> f = 0)"

lemma tallyI: "(\<And>c x c'. m c = (Inr x, c') \<Longrightarrow>
    \<exists>n f. g_success c' = g_success c + of_nat n \<and> g_fail c' = g_fail c + of_nat f \<and> R x n f) \<Longrightarrow> tally m R"
  by (simp add: tally_def)

lemma tally_ret [intro]: "R x 0 0 \<Longrightarrow> tally (ret x) R"
  by (auto intro!: tallyI exI [of _ 0])

lemma tally_bnd:
  assumes "tally m R" and "\<And>x n f. R x n f \<Longrightarrow> tally (k x) (\<lambda>y n' f'. S y (n + n') (f + f'))"
  shows "tally (bnd m k) S"
proof (rule tallyI)
  fix c y c' assume "bnd m k c = (Inr y, c')"
  then obtain x t where m: "m c = (Inr x, t)" and k: "k x t = (Inr y, c')" by (rule bnd_result)
  from assms(1) m obtain n f where nf: "g_success t = g_success c + of_nat n" "g_fail t = g_fail c + of_nat f" "R x n f"
    unfolding tally_def by blast
  from assms(2) [OF nf(3)] k obtain n' f' where "g_success c' = g_success t + of_nat n'" "g_fail c' = g_fail t + of_nat f'"
    "S y (n + n') (f + f')" unfolding tally_def by blast
  with nf show "\<exists>n f. g_success c' = g_success c + of_nat n \<and> g_fail c' = g_fail c + of_nat f \<and> S y n f"
    by (intro exI [of _ "n + n'"] exI [of _ "f + f'"]) (simp add: add.assoc)
qed

lemma tally_mono: "tally m R \<Longrightarrow> (\<And>x n f. R x n f \<Longrightarrow> S x n f) \<Longrightarrow> tally m S"
  unfolding tally_def by blast

lemma tally_after: "silent m \<Longrightarrow> (\<And>x. tally (k x) S) \<Longrightarrow> tally (bnd m k) S"
  by (rule tally_bnd [where R = "\<lambda>_ n f. n = 0 \<and> f = 0"]) simp_all

lemma silent_basic [simp, intro]: "silent (fail e)" "silent (gets g)" "silent rng" "silent close_sock" "silent (on_sock m)"
  "silent (modify (\<lambda>c. c\<lparr>cl_active_orders := u c\<rparr>))" "silent (ret x)"
  by (auto simp: tally_def rng_def close_sock_def on_sock_def zoom_def split: prod.splits)

lemma silent_items [simp, intro]: "silent (items_at dec w h n body)" "silent (stock_list_of r)"
  by (simp_all add: items_at_def stock_list_of_def split: option.split prod.split)

lemma tally_fail [simp]: "tally (fail e) R"
  by (simp add: tally_def)

lemma tally_counted:
  "tally one_failed (\<lambda>_ n f. n = 0 \<and> f = 1)" "tally (one_succeeded us) (\<lambda>_ n f. n = 1 \<and> f = 0)"
  by (auto simp: tally_def one_failed_def one_succeeded_def intro!: exI [of _ 0] exI [of _ 1])

lemma tally_fail_all: "0 \<le> sint requests \<Longrightarrow> tally (fail_all requests) (\<lambda>_ n f. n = 0 \<and> f = nat (sint requests))"
  by (auto simp: tally_def fail_all_def)

text \<open>The choice of a request counts exactly when the answer has been received already.\<close>

definition choice_counts :: "choice \<Rightarrow> nat \<Rightarrow> nat \<Rightarrow> bool" where
  "choice_counts ch n f \<longleftrightarrow> f = 0 \<and> n = (if ch = Answered then 1 else 0)"

lemma tally_sent_as: "tally (sent_as ty data) choice_counts"
  unfolding sent_as_def by (rule tally_after) (auto simp: choice_counts_def)

lemma tally_orders_query: "tally (orders_query us) choice_counts"
  unfolding orders_query_def
proof (intro tally_after)
  fix ok r
  show "tally (case r of None \<Rightarrow> ret (SendOk False)
      | Some (_, body) \<Rightarrow>
          if length body \<ge> sizeof_ClientOrdersResponseHeader
          then bnd (items_at get_ClientOrderItem sizeof_ClientOrderItem sizeof_ClientOrdersResponseHeader
                      (kj_count (get_ClientOrdersResponseHeader body)) body) (\<lambda>items.
               bnd (modify (\<lambda>c. c\<lparr>cl_active_orders := cl_active_orders c @ map kk_order_id items\<rparr>)) (\<lambda>_.
               bnd (one_succeeded us) (\<lambda>_. ret Answered)))
          else ret (SendOk False)) choice_counts"
    by (auto split: option.split simp: choice_counts_def
        intro!: tally_after [OF silent_items(1)] tally_after [OF silent_basic(6)] tally_bnd [OF tally_counted(2)])
qed simp_all

lemma tally_mode1: "tally (mode1_request us w tid) choice_counts"
proof -
  have "tally (cancel_last tid) choice_counts"
    unfolding cancel_last_def by (intro tally_after) (auto simp: choice_counts_def)
  then show ?thesis
    by (auto simp: mode1_request_def intro!: tally_sent_as tally_orders_query tally_after [OF silent_basic(3)] tally_after [OF silent_basic(2)])
qed

lemma tally_mode0: "tally (mode0_request w tid) choice_counts"
  by (auto simp: mode0_request_def intro!: tally_sent_as tally_after [OF silent_basic(3)])

lemma tally_one_request:
  "tally (one_request us mode tids) (\<lambda>go n f. if go then n = 1 \<and> f = 0 else n = 0 \<and> f = 1)"
proof -
  have rest: "tally (case ch of Answered \<Rightarrow> ret True
      | SendOk ok \<Rightarrow> if \<not> ok then bnd one_failed (\<lambda>_. ret False)
          else bnd (on_sock recv_pkt) (\<lambda>r. case r of Some _ \<Rightarrow> bnd (one_succeeded us) (\<lambda>_. ret True)
                                             | None \<Rightarrow> bnd one_failed (\<lambda>_. ret False)))
      (\<lambda>go n' f'. if go then n + n' = 1 \<and> f + f' = 0 else n + n' = 0 \<and> f + f' = 1)" if "choice_counts ch n f" for ch n f
    using that by (auto simp: choice_counts_def split: choice.split option.split
        intro!: tally_ret tally_bnd [OF tally_counted(1)] tally_bnd [OF tally_counted(2)] tally_after [OF silent_basic(5)])
  have "tally (if mode = 1 then mode1_request us w tid else mode0_request w tid) choice_counts" for w tid
    by (simp add: tally_mode1 tally_mode0)
  from tally_bnd [OF this rest] show ?thesis
    unfolding one_request_def Let_def by (intro tally_after [OF silent_basic(3)]) simp
qed

lemma tally_request_loop:
  "tally (request_loop us mode tids k) (\<lambda>_ n f. n + f \<le> k \<and> (f = 0 \<longrightarrow> n = k) \<and> f \<le> 1)"
proof (induction k arbitrary: us)
  case (Suc k)
  show ?case unfolding request_loop.simps
  proof (rule tally_bnd [OF tally_one_request])
    fix go n f assume "if go then n = 1 \<and> f = (0 :: nat) else n = (0 :: nat) \<and> f = 1"
    then show "tally (if go then request_loop (\<lambda>i. us (Suc i)) mode tids k else ret ())
        (\<lambda>_ n' f'. n + n' + (f + f') \<le> Suc k \<and> (f + f' = 0 \<longrightarrow> n + n' = Suc k) \<and> f + f' \<le> 1)"
      using Suc by (cases go) auto
  qed
qed auto


lemma silent_worker_tickers: "silent (worker_tickers r)"
  unfolding worker_tickers_def by (rule tally_after) auto

definition worker_counts :: "nat \<Rightarrow> nat \<Rightarrow> nat \<Rightarrow> bool" where
  "worker_counts k n f \<longleftrightarrow> n + f \<le> k \<and> (f = 0 \<longrightarrow> n = k) \<and> (f \<le> 1 \<or> n = 0 \<and> f = k)"

lemma tally_benchmark_worker:
  assumes "0 \<le> sint requests"
  shows "tally (benchmark_worker sock_ok connect_ok us i requests mode) (\<lambda>_. worker_counts (nat (sint requests)))"
    (is "tally _ ?R")
proof -
  have all: "tally (fail_all requests) ?R"
    by (rule tally_mono [OF tally_fail_all [OF assms]]) (simp add: worker_counts_def)
  have "tally (bnd (request_loop us mode tids (nat (sint requests))) (\<lambda>_. close_sock)) ?R" for tids
    by (rule tally_bnd [OF tally_request_loop], rule tally_mono [OF silent_basic(4)]) (auto simp: worker_counts_def)
  then show ?thesis unfolding benchmark_worker_def
    by (auto intro!: all tally_after [OF silent_basic(5)] tally_after [OF silent_basic(4)] tally_after [OF silent_basic(6)]
        tally_after [OF silent_worker_tickers])
qed

text \<open>
  A worker of the load generator counts at most as many results as it was asked for requests.
  It stops at the first failure, so that it either counts every request as answered, or counts
  some answers and one failure, or, when it cannot even log in and deposit, counts every request as
  failed.
\<close>

theorem benchmark_worker_counts:
  assumes "0 \<le> sint requests" and "benchmark_worker sock_ok connect_ok us i requests mode c = (Inr (), c')"
  shows "\<exists>n f. g_success c' = g_success c + of_nat n \<and> g_fail c' = g_fail c + of_nat f \<and>
    n + f \<le> nat (sint requests) \<and> (f = 0 \<longrightarrow> n = nat (sint requests)) \<and> (f \<le> 1 \<or> n = 0 \<and> f = nat (sint requests))"
  using tally_benchmark_worker [OF assms(1)] assms(2) unfolding tally_def worker_counts_def by blast

definition ex_client :: Client where
  "ex_client = \<lparr>cl_sock = ex_sock, cl_closed = False, cl_rng = (\<lambda>_. 0), cl_draws = 0, cl_active_orders = [],
     g_success = 10, g_fail = 2, g_latency = 0\<rparr>"

theorem benchmark_worker_counts_witness:
  "\<exists>c' n f. benchmark_worker True False (\<lambda>_. 0) 3 5 0 ex_client = (Inr (), c') \<and>
     g_success c' = 10 + of_nat n \<and> g_fail c' = 2 + of_nat f \<and> n + f \<le> 5 \<and> (f = 0 \<longrightarrow> n = 5)"
proof -
  obtain c' where r: "benchmark_worker True False (\<lambda>_. 0) 3 5 0 ex_client = (Inr (), c')"
    by (simp add: benchmark_worker_def fail_all_def)
  have "0 \<le> sint (5 :: i32)" by simp
  from benchmark_worker_counts [OF this r] obtain n f
    where nf: "g_success c' = g_success ex_client + of_nat n \<and> g_fail c' = g_fail ex_client + of_nat f \<and>
      n + f \<le> nat (sint (5 :: i32)) \<and> (f = 0 \<longrightarrow> n = nat (sint (5 :: i32))) \<and> (f \<le> 1 \<or> n = 0 \<and> f = nat (sint (5 :: i32)))"
    by (elim exE)
  have five: "nat (sint (5 :: i32)) = 5" by simp
  show ?thesis using nf unfolding five
    by (intro exI [of _ c'] exI [of _ n] exI [of _ f] conjI r) (simp_all add: ex_client_def)
qed

end
