(* ===== verification/Logger.thy ===== *)
theory Logger
  imports Text
begin

text \<open>
  \<^verbatim>\<open>Logger.hpp\<close>: messages are queued and written by a background thread to the standard output and to
  a file. The text of a time in the local time zone is a parameter; times are nanoseconds since the
  epoch.
\<close>

datatype LogLevel = DEBUG | INFO | WARN | ERROR

record LogItem =
  li_level :: LogLevel
  li_msg :: string
  li_timestamp :: nat

text \<open>The file that is open, if any, and what the two outputs hold.\<close>

record Logger =
  lg_queue :: "LogItem list"
  lg_running :: bool
  lg_open :: bool
  lg_file :: string
  lg_cout :: string

definition Logger_new :: "string \<Rightarrow> string \<Rightarrow> Logger" where
  "Logger_new old out = \<lparr>lg_queue = [], lg_running = False, lg_open = False, lg_file = old, lg_cout = out\<rparr>"

definition Logger_init :: "bool \<Rightarrow> Logger \<Rightarrow> Logger" where
  "Logger_init opens l =
     (if lg_running l then l
      else let l1 = l\<lparr>lg_open := opens\<rparr>
           in if \<not> lg_open l1 then l1 else l1\<lparr>lg_running := True\<rparr>)"

definition log_message :: "nat \<Rightarrow> LogLevel \<Rightarrow> string \<Rightarrow> Logger \<Rightarrow> Logger" where
  "log_message now level msg l =
     (if \<not> lg_running l then l
      else l\<lparr>lg_queue := lg_queue l @ [\<lparr>li_level = level, li_msg = msg, li_timestamp = now\<rparr>]\<rparr>)"

fun level_str :: "LogLevel \<Rightarrow> string" where
  "level_str DEBUG = ''[DEBUG]''"
| "level_str INFO = ''[INFO ]''"
| "level_str WARN = ''[WARN ]''"
| "level_str ERROR = ''[ERROR]''"

text \<open>\<^verbatim>\<open>std::setfill('0') << std::setw(3)\<close>\<close>

definition pad3 :: "nat \<Rightarrow> string" where
  "pad3 n = (let s = show_nat n in replicate (3 - length s) (CHR ''0'') @ s)"

text \<open>\<open>put_time\<close> is \<^verbatim>\<open>localtime_r\<close> followed by \<^verbatim>\<open>std::put_time(..., "%Y-%m-%d %H:%M:%S")\<close>.\<close>

definition log_line :: "(nat \<Rightarrow> string) \<Rightarrow> LogItem \<Rightarrow> string" where
  "log_line put_time item =
     (let ti = li_timestamp item div 1000000000; ms = li_timestamp item div 1000000 mod 1000
      in put_time ti @ ''.'' @ pad3 ms @ '' '' @ level_str (li_level item) @ '' '' @ li_msg item @ [CHR 0x0A])"

definition writeToSink :: "(nat \<Rightarrow> string) \<Rightarrow> LogItem \<Rightarrow> Logger \<Rightarrow> Logger" where
  "writeToSink put_time item l =
     (let final_msg = log_line put_time item; l1 = l\<lparr>lg_cout := lg_cout l @ final_msg\<rparr>
      in if lg_open l1 then l1\<lparr>lg_file := lg_file l1 @ final_msg\<rparr> else l1)"

definition log_batch_size :: nat where "log_batch_size = 500"

text \<open>
  The loop of the background thread; each number is how many items the queue hands out in a round,
  at most the batch size, and the end of the list is where the observation ends.
\<close>

fun processLogs :: "(nat \<Rightarrow> string) \<Rightarrow> nat list \<Rightarrow> Logger \<Rightarrow> Logger" where
  "processLogs put_time [] l = l"
| "processLogs put_time (n # ns) l =
     (if lg_running l \<or> lg_queue l \<noteq> [] then
        let items = take (min n log_batch_size) (lg_queue l)
        in processLogs put_time ns
             (fold (writeToSink put_time) items (l\<lparr>lg_queue := drop (min n log_batch_size) (lg_queue l)\<rparr>))
      else l)"

text \<open>The destructor waits for the thread, which goes on until the queue is empty.\<close>

definition Logger_destroy :: "(nat \<Rightarrow> string) \<Rightarrow> nat list \<Rightarrow> Logger \<Rightarrow> Logger" where
  "Logger_destroy put_time ns l = (processLogs put_time ns (l\<lparr>lg_running := False\<rparr>))\<lparr>lg_open := False\<rparr>"

definition log_all :: "(nat \<times> LogLevel \<times> string) list \<Rightarrow> Logger \<Rightarrow> Logger" where
  "log_all ms l = fold (\<lambda>(now, level, msg). log_message now level msg) ms l"

section \<open>Nothing that is logged gets lost\<close>

lemma write_items:
  "fold (writeToSink put_time) items l = l\<lparr>lg_cout := lg_cout l @ concat (map (log_line put_time) items),
     lg_file := lg_file l @ (if lg_open l then concat (map (log_line put_time) items) else [])\<rparr>"
  by (induction items arbitrary: l) (auto simp: writeToSink_def Let_def)

lemma drain:
  assumes "length (lg_queue l) \<le> length ns" and "0 \<notin> set ns" and "\<not> lg_running l" and "lg_open l"
  shows "processLogs put_time ns l = l\<lparr>lg_queue := [], lg_cout := lg_cout l @ concat (map (log_line put_time) (lg_queue l)),
    lg_file := lg_file l @ concat (map (log_line put_time) (lg_queue l))\<rparr>"
  using assms
proof (induction ns arbitrary: l)
  case (Cons n ns)
  show ?case
  proof (cases "lg_queue l = []")
    case False
    let ?m = "min n log_batch_size"
    have "length (drop ?m (lg_queue l)) \<le> length ns"
      using Cons.prems False by (cases "lg_queue l") (auto simp: log_batch_size_def min_def)
    moreover have "concat (map (log_line put_time) (take ?m (lg_queue l))) @ concat (map (log_line put_time) (drop ?m (lg_queue l))) =
        concat (map (log_line put_time) (lg_queue l))"
      by (metis append_take_drop_id concat_append map_append)
    ultimately show ?thesis using False Cons.prems Cons.IH by (simp add: write_items)
  qed (use Cons.prems in simp)
qed simp

lemma log_all_run:
  "lg_running l \<Longrightarrow> log_all ms l = l\<lparr>lg_queue := lg_queue l @ map (\<lambda>(now, level, msg). \<lparr>li_level = level, li_msg = msg, li_timestamp = now\<rparr>) ms\<rparr>"
  unfolding log_all_def by (induction ms arbitrary: l) (auto simp: log_message_def)



end
