(* ===== verification/ThreadPool.thy ===== *)
theory ThreadPool
  imports Main
begin

text \<open>
  \<^verbatim>\<open>ThreadPool.hpp\<close>: workers that take tasks from a shared queue until they meet a null task while the
  pool is being destroyed. A task is \<open>Some\<close> of its identity, a null \<^verbatim>\<open>std::function\<close> is \<open>None\<close>.
\<close>

record 'a ThreadPool =
  tp_workers :: "nat list"
  tp_tasks :: "'a option list"
  tp_running :: bool
  tp_done :: "(nat \<times> 'a) list"

definition ThreadPool_new :: "int \<Rightarrow> 'a ThreadPool" where
  "ThreadPool_new numThreads = \<lparr>tp_workers = [0 ..< nat numThreads], tp_tasks = [], tp_running = True, tp_done = []\<rparr>"

definition tp_enqueue :: "'a option \<Rightarrow> 'a ThreadPool \<Rightarrow> 'a ThreadPool" where
  "tp_enqueue task p = p\<lparr>tp_tasks := tp_tasks p @ [task]\<rparr>"

text \<open>
  One round of the loop of worker \<open>w\<close>: it waits while the queue is empty (\<open>None\<close>); a null task ends
  it when the pool is no longer running and is ignored before; any other task is run.
\<close>

definition worker_round :: "nat \<Rightarrow> 'a ThreadPool \<Rightarrow> 'a ThreadPool option" where
  "worker_round w p =
     (case tp_tasks p of
        [] \<Rightarrow> None
      | task # rest \<Rightarrow>
          let p1 = p\<lparr>tp_tasks := rest\<rparr>
          in if \<not> tp_running p \<and> task = None then Some (p1\<lparr>tp_workers := remove1 w (tp_workers p1)\<rparr>)
             else (case task of None \<Rightarrow> Some p1 | Some t \<Rightarrow> Some (p1\<lparr>tp_done := tp_done p1 @ [(w, t)]\<rparr>)))"

text \<open>The destructor up to the point where it waits for the workers.\<close>

definition tp_stop :: "'a ThreadPool \<Rightarrow> 'a ThreadPool" where
  "tp_stop p = p\<lparr>tp_running := False, tp_tasks := tp_tasks p @ replicate (length (tp_workers p)) None\<rparr>"

text \<open>Any worker that is still alive may go next.\<close>

inductive tp_step :: "'a ThreadPool \<Rightarrow> 'a ThreadPool \<Rightarrow> bool" where
  tp_take: "w \<in> set (tp_workers p) \<Longrightarrow> worker_round w p = Some q \<Longrightarrow> tp_step p q"

inductive_cases tp_stepE: "tp_step p q"

inductive tp_steps :: "nat \<Rightarrow> 'a ThreadPool \<Rightarrow> 'a ThreadPool \<Rightarrow> bool" where
  tp_steps_refl: "tp_steps 0 p p"
| tp_steps_step: "tp_steps n p q \<Longrightarrow> tp_step q r \<Longrightarrow> tp_steps (Suc n) p r"

section \<open>The destructor lets every task run\<close>

text \<open>While it waits: the tasks \<open>ts\<close> of which some prefix has run, then one null task per worker.\<close>

definition draining :: "'a list \<Rightarrow> (nat \<times> 'a) list \<Rightarrow> 'a ThreadPool \<Rightarrow> bool" where
  "draining ts dn p \<longleftrightarrow> \<not> tp_running p \<and>
     (\<exists>rest. tp_tasks p = map Some rest @ replicate (length (tp_workers p)) None \<and> (tp_workers p = [] \<longrightarrow> rest = []) \<and>
        (\<exists>ran. tp_done p = dn @ ran \<and> map snd ran @ rest = ts))"

lemma draining_step:
  assumes "draining ts dn p" and "tp_step p q"
  shows "draining ts dn q \<and> Suc (length (tp_tasks q)) = length (tp_tasks p)"
proof -
  from assms(2) obtain w where 1: "w \<in> set (tp_workers p)" "worker_round w p = Some q" by (rule tp_stepE)
  from assms(1) obtain rest ran where p: "\<not> tp_running p" "tp_tasks p = map Some rest @ replicate (length (tp_workers p)) None"
    "tp_done p = dn @ ran" "map snd ran @ rest = ts" by (auto simp: draining_def)
  show ?thesis
  proof (cases rest)
    case Nil
    then obtain k where k: "length (tp_workers p) = Suc k" using 1(1) by (cases "tp_workers p") auto
    have q: "q = p\<lparr>tp_tasks := replicate k None, tp_workers := remove1 w (tp_workers p)\<rparr>"
      using 1(2) p(1,2) Nil k by (simp add: worker_round_def)
    have "draining ts dn q"
      unfolding draining_def q using p Nil k 1(1) by (intro conjI exI [of _ "[]"] exI [of _ ran]) (auto simp: length_remove1)
    then show ?thesis using k p(2) Nil by (auto simp: q)
  next
    case (Cons t rest')
    have q: "q = p\<lparr>tp_tasks := map Some rest' @ replicate (length (tp_workers p)) None, tp_done := dn @ ran @ [(w, t)]\<rparr>"
      using 1(2) p Cons by (simp add: worker_round_def)
    have "draining ts dn q"
      unfolding draining_def q using p Cons 1(1) by (intro conjI exI [of _ rest'] exI [of _ "ran @ [(w, t)]"]) auto
    then show ?thesis using p(2) Cons by (auto simp: q)
  qed
qed

lemma draining_steps:
  assumes "tp_steps n p q" and "draining ts dn p"
  shows "draining ts dn q \<and> n + length (tp_tasks q) = length (tp_tasks p)"
  using assms
proof (induction rule: tp_steps.induct)
  case (tp_steps_step n p q r)
  then show ?case using draining_step [OF _ tp_steps_step.hyps(2)] by fastforce
qed simp



definition ex_pool2 :: "nat ThreadPool" where
  "ex_pool2 = tp_enqueue (Some 11) (tp_enqueue (Some 10) (ThreadPool_new 1))"


end
