(* ===== verification/Semaphore.thy ===== *)
theory Semaphore
  imports Main
begin

text \<open>
  \<^verbatim>\<open>lightweightsemaphore.h\<close>: a semaphore that counts in an atomic variable and goes to the kernel only
  to sleep. Threads interleave at every atomic operation, so each thread is at a program point of
  the call it makes. The kernel semaphore is the number of its permits.
\<close>

section \<open>The kernel semaphore\<close>

text \<open>
  \<^verbatim>\<open>details::Semaphore\<close> on POSIX: a call is repeated while it is interrupted. The list holds the
  results of the system calls; \<open>None\<close> when it ends before the loop does.
\<close>

datatype sem_rc = SemOk | SemInterrupted | SemError

fun sem_retry :: "sem_rc list \<Rightarrow> bool option" where
  "sem_retry [] = None"
| "sem_retry (SemInterrupted # rcs) = sem_retry rcs"
| "sem_retry (SemOk # rcs) = Some True"
| "sem_retry (SemError # rcs) = Some False"

text \<open>The point in time that \<^verbatim>\<open>timed_wait\<close> passes to \<^verbatim>\<open>sem_timedwait\<close>, in seconds and nanoseconds.\<close>

definition timed_wait_until :: "nat \<times> nat \<Rightarrow> nat \<Rightarrow> nat \<times> nat" where
  "timed_wait_until now usecs =
     (let sec = fst now + usecs div 1000000; nsec = snd now + usecs mod 1000000 * 1000
      in if nsec \<ge> 1000000000 then (sec + 1, nsec - 1000000000) else (sec, nsec))"

lemma timed_wait_until_ok:
  assumes "snd now < 1000000000"
  shows "snd (timed_wait_until now usecs) < 1000000000"
    and "fst (timed_wait_until now usecs) * 1000000000 + snd (timed_wait_until now usecs) =
      fst now * 1000000000 + snd now + usecs * 1000"
proof -
  have "usecs div 1000000 * 1000000000 + usecs mod 1000000 * 1000 = (usecs div 1000000 * 1000000 + usecs mod 1000000) * 1000"
    unfolding distrib_right mult.assoc by (simp only: numeral_times_numeral semiring_norm)
  then have "usecs div 1000000 * 1000000000 + usecs mod 1000000 * 1000 = usecs * 1000" by (simp only: div_mult_mod_eq)
  moreover have "usecs mod 1000000 < 1000000" by simp
  ultimately show "snd (timed_wait_until now usecs) < 1000000000"
    and "fst (timed_wait_until now usecs) * 1000000000 + snd (timed_wait_until now usecs) =
      fst now * 1000000000 + snd now + usecs * 1000"
    using assms unfolding timed_wait_until_def Let_def by (auto split: if_splits)
qed

text \<open>\<^verbatim>\<open>signal(count)\<close> repeats every \<^verbatim>\<open>sem_post\<close> until it succeeds.\<close>

fun sem_post_all :: "nat \<Rightarrow> nat \<Rightarrow> nat" where
  "sem_post_all 0 v = v"
| "sem_post_all (Suc n) v = sem_post_all n (Suc v)"

lemma sem_post_all_adds: "sem_post_all n v = v + n"
  by (induction n arbitrary: v) auto

section \<open>Program points\<close>

text \<open>
  A call that asks for up to \<open>max\<close> permits first tries (\<open>TLoad\<close>, \<open>TCas\<close>), then spins, then takes a
  permit off the count (\<open>Sub\<close>), sleeps (\<open>Waiting\<close>) when there was none, and gives the place back
  (\<open>Adjust\<close>) when the sleep ends without a permit. \<^verbatim>\<open>wait\<close> and \<^verbatim>\<open>tryWait\<close> are the calls with
  \<open>max = 1\<close>: their compare-and-swap from \<^verbatim>\<open>oldCount\<close> to \<^verbatim>\<open>oldCount - 1\<close> is the one of the bulk calls.
  \<open>Done max r\<close> is about to return \<open>r\<close> permits of at most \<open>max\<close>.
\<close>

datatype after_try = Return nat nat | ThenWait int

datatype pc =
    Ready
  | TLoad nat after_try
  | TCas int nat after_try
  | Spin nat nat int
  | SpinCas nat int nat int
  | Sub nat int
  | Waiting nat int
  | Adjust nat
  | AdjustTry nat
  | AdjustCas int nat
  | Got nat
  | Done nat nat
  | Add nat
  | Post nat

text \<open>What follows \<^verbatim>\<open>tryWaitMany(max)\<close> with result \<open>r\<close>.\<close>

fun tried :: "nat \<Rightarrow> nat \<Rightarrow> nat \<Rightarrow> after_try \<Rightarrow> pc" where
  "tried spins r n (Return mx base) = Done mx (base + r)"
| "tried spins r n (ThenWait tmo) = (if r = 0 \<and> n > 0 then Spin spins n tmo else Done n r)"

text \<open>\<^verbatim>\<open>ssize_t newCount = oldCount > max ? oldCount - max : 0;\<close>\<close>

definition newCount :: "int \<Rightarrow> nat \<Rightarrow> int" where
  "newCount old mx = (if old > int mx then old - int mx else 0)"

section \<open>Atomic steps\<close>

text \<open>
  \<open>sema_local spins (m, k, pc) sg rt (m', k', pc')\<close>: a thread at \<open>pc\<close> does its next atomic operation on
  the count \<open>m\<close> and the kernel semaphore \<open>k\<close>; \<open>sg\<close> permits are added and \<open>rt\<close> are returned to the
  caller by it. A weak compare-and-swap may fail also when the value is the expected one. The
  counts stay far from the bounds of \<^verbatim>\<open>ssize_t\<close>.
\<close>

inductive sema_local :: "nat \<Rightarrow> int \<times> nat \<times> pc \<Rightarrow> nat \<Rightarrow> nat \<Rightarrow> int \<times> nat \<times> pc \<Rightarrow> bool" for spins where
  try_load: "m > 0 \<Longrightarrow> sema_local spins (m, k, TLoad mx a) 0 0 (m, k, TCas m mx a)"
| try_empty: "m \<le> 0 \<Longrightarrow> sema_local spins (m, k, TLoad mx a) 0 0 (m, k, tried spins 0 mx a)"
| try_cas: "sema_local spins (m, k, TCas m mx a) 0 0 (newCount m mx, k, tried spins (nat (m - newCount m mx)) mx a)"
| try_again: "m > 0 \<Longrightarrow> sema_local spins (m, k, TCas old mx a) 0 0 (m, k, TCas m mx a)"
| try_gone: "m \<le> 0 \<Longrightarrow> sema_local spins (m, k, TCas old mx a) 0 0 (m, k, tried spins 0 mx a)"
| spin_over: "sema_local spins (m, k, Spin 0 mx tmo) 0 0 (m, k, Sub mx tmo)"
| spin_load: "m > 0 \<Longrightarrow> sema_local spins (m, k, Spin (Suc n) mx tmo) 0 0 (m, k, SpinCas n m mx tmo)"
| spin_empty: "m \<le> 0 \<Longrightarrow> sema_local spins (m, k, Spin (Suc n) mx tmo) 0 0 (m, k, Spin n mx tmo)"
| spin_cas: "sema_local spins (m, k, SpinCas n m mx tmo) 0 0 (newCount m mx, k, Done mx (nat (m - newCount m mx)))"
| spin_lost: "m \<noteq> old \<Longrightarrow> sema_local spins (m, k, SpinCas n old mx tmo) 0 0 (m, k, Spin n mx tmo)"
| sub_got: "m > 0 \<Longrightarrow> sema_local spins (m, k, Sub mx tmo) 0 0 (m - 1, k, Got mx)"
| sub_wait: "m \<le> 0 \<Longrightarrow> sema_local spins (m, k, Sub mx tmo) 0 0 (m - 1, k, if tmo = 0 then Adjust mx else Waiting mx tmo)"
| wait_woken: "sema_local spins (m, Suc k, Waiting mx tmo) 0 0 (m, k, Got mx)"
| wait_failed: "sema_local spins (m, k, Waiting mx tmo) 0 0 (m, k, Adjust mx)"
| adjust_load: "sema_local spins (m, k, Adjust mx) 0 0 (m, k, if m \<ge> 0 then AdjustTry mx else AdjustCas m mx)"
| adjust_got: "sema_local spins (m, Suc k, AdjustTry mx) 0 0 (m, k, Got mx)"
| adjust_none: "sema_local spins (m, 0, AdjustTry mx) 0 0 (m, 0, Adjust mx)"
| adjust_cas: "sema_local spins (m, k, AdjustCas m mx) 0 0 (m + 1, k, Done mx 0)"
| adjust_lost: "m \<noteq> old \<Longrightarrow> sema_local spins (m, k, AdjustCas old mx) 0 0 (m, k, Adjust mx)"
| got_more: "mx > 1 \<Longrightarrow> sema_local spins (m, k, Got mx) 0 0 (m, k, TLoad (mx - 1) (Return mx 1))"
| got_one: "mx \<le> 1 \<Longrightarrow> sema_local spins (m, k, Got mx) 0 0 (m, k, Done mx 1)"
| add_count: "sema_local spins (m, k, Add c) c 0
    (m + int c, k, let toRelease = (if - m < int c then - m else int c) in if toRelease > 0 then Post (nat toRelease) else Ready)"
| post_more: "sema_local spins (m, k, Post (Suc (Suc n))) 0 0 (m, Suc k, Post (Suc n))"
| post_last: "sema_local spins (m, k, Post (Suc 0)) 0 0 (m, Suc k, Ready)"
| call_returns: "sema_local spins (m, k, Done mx r) 0 r (m, k, Ready)"

text \<open>The calls: \<^verbatim>\<open>tryWaitMany\<close>, \<^verbatim>\<open>waitMany\<close> with a timeout (negative: none) and \<^verbatim>\<open>signal\<close>.\<close>

fun sema_call :: "pc \<Rightarrow> bool" where
  "sema_call (TLoad mx (Return mx' base)) \<longleftrightarrow> mx' = mx \<and> base = 0"
| "sema_call (TLoad mx (ThenWait tmo)) \<longleftrightarrow> True"
| "sema_call (Add c) \<longleftrightarrow> True"
| "sema_call pc \<longleftrightarrow> False"

text \<open>The semaphore with its threads; \<open>ls_signalled\<close> and \<open>ls_returned\<close> count the permits that went in and out.\<close>

record LightweightSemaphore =
  m_count :: int
  m_sema :: nat
  ls_threads :: "pc list"
  ls_signalled :: nat
  ls_returned :: nat

definition LightweightSemaphore_new :: "nat \<Rightarrow> nat \<Rightarrow> LightweightSemaphore" where
  "LightweightSemaphore_new initialCount nthreads =
     \<lparr>m_count = int initialCount, m_sema = 0, ls_threads = replicate nthreads Ready, ls_signalled = 0, ls_returned = 0\<rparr>"

definition availableApprox :: "LightweightSemaphore \<Rightarrow> nat" where
  "availableApprox s = (if m_count s > 0 then nat (m_count s) else 0)"

inductive sema_step :: "nat \<Rightarrow> LightweightSemaphore \<Rightarrow> LightweightSemaphore \<Rightarrow> bool" for spins where
  step_call: "i < length (ls_threads s) \<Longrightarrow> ls_threads s ! i = Ready \<Longrightarrow> sema_call p \<Longrightarrow>
    sema_step spins s (s\<lparr>ls_threads := (ls_threads s)[i := p]\<rparr>)"
| step_atomic: "i < length (ls_threads s) \<Longrightarrow>
    sema_local spins (m_count s, m_sema s, ls_threads s ! i) sg rt (m, k, p) \<Longrightarrow>
    sema_step spins s (s\<lparr>m_count := m, m_sema := k, ls_threads := (ls_threads s)[i := p],
      ls_signalled := ls_signalled s + sg, ls_returned := ls_returned s + rt\<rparr>)"

inductive sema_run :: "nat \<Rightarrow> LightweightSemaphore \<Rightarrow> LightweightSemaphore \<Rightarrow> bool" for spins where
  sema_run_refl: "sema_run spins s s"
| sema_run_step: "sema_run spins s t \<Longrightarrow> sema_step spins t u \<Longrightarrow> sema_run spins s u"

section \<open>Accounting\<close>

text \<open>Permits that a thread has taken in its call, posts it still has to make, whether it counts as a sleeper.\<close>

fun held :: "pc \<Rightarrow> nat" where
  "held (TLoad mx (Return mx' base)) = base"
| "held (TCas old mx (Return mx' base)) = base"
| "held (Got mx) = 1"
| "held (Done mx r) = r"
| "held pc = 0"

fun posts :: "pc \<Rightarrow> nat" where
  "posts (Post n) = n"
| "posts pc = 0"

fun sleeps :: "pc \<Rightarrow> nat" where
  "sleeps (Waiting mx tmo) = 1"
| "sleeps (Adjust mx) = 1"
| "sleeps (AdjustTry mx) = 1"
| "sleeps (AdjustCas old mx) = 1"
| "sleeps pc = 0"

text \<open>What a program point remembers is what it has to be.\<close>

fun try_ok :: "nat \<Rightarrow> after_try \<Rightarrow> bool" where
  "try_ok mx (Return mx' base) \<longleftrightarrow> mx + base \<le> mx'"
| "try_ok mx (ThenWait tmo) \<longleftrightarrow> True"

fun pc_ok :: "pc \<Rightarrow> bool" where
  "pc_ok (TLoad mx a) \<longleftrightarrow> try_ok mx a"
| "pc_ok (TCas old mx a) \<longleftrightarrow> 0 < old \<and> try_ok mx a"
| "pc_ok (SpinCas n old mx tmo) \<longleftrightarrow> 0 < old \<and> 0 < mx"
| "pc_ok (Spin n mx tmo) \<longleftrightarrow> 0 < mx"
| "pc_ok (Sub mx tmo) \<longleftrightarrow> 0 < mx"
| "pc_ok (Waiting mx tmo) \<longleftrightarrow> 0 < mx"
| "pc_ok (Adjust mx) \<longleftrightarrow> 0 < mx"
| "pc_ok (AdjustTry mx) \<longleftrightarrow> 0 < mx"
| "pc_ok (AdjustCas old mx) \<longleftrightarrow> old < 0 \<and> 0 < mx"
| "pc_ok (Got mx) \<longleftrightarrow> 0 < mx"
| "pc_ok (Done mx r) \<longleftrightarrow> r \<le> mx"
| "pc_ok (Post n) \<longleftrightarrow> 0 < n"
| "pc_ok Ready \<longleftrightarrow> True"
| "pc_ok (Add c) \<longleftrightarrow> True"

lemma newCount_bounds: "0 < m \<Longrightarrow> 0 \<le> newCount m mx \<and> newCount m mx \<le> m \<and> m - newCount m mx \<le> int mx"
  by (auto simp: newCount_def)

lemma tried_facts:
  "held (tried spins r mx a) = (case a of Return _ base \<Rightarrow> base | ThenWait _ \<Rightarrow> 0) + r"
  "posts (tried spins r mx a) = 0" "sleeps (tried spins r mx a) = 0"
  by (cases a; simp)+

lemma tried_ok: "try_ok mx a \<Longrightarrow> r \<le> mx \<Longrightarrow> pc_ok (tried spins r mx a)"
  by (cases a) auto

lemma held_try: "held (TLoad mx a) = (case a of Return _ base \<Rightarrow> base | ThenWait _ \<Rightarrow> 0)"
  "held (TCas old mx a) = (case a of Return _ base \<Rightarrow> base | ThenWait _ \<Rightarrow> 0)"
  by (cases a; simp)+

lemma local_balance:
  assumes "sema_local spins (m, k, p) sg rt (m', k', p')" and "pc_ok p"
  shows "pc_ok p'"
    and "int (sleeps p') - int (sleeps p) = int k' - int k + (int (posts p') - int (posts p)) + (max 0 (- m') - max 0 (- m))"
    and "int sg = int rt + (int (held p') - int (held p)) + (max 0 m' - max 0 m) + (int k' - int k) + (int (posts p') - int (posts p))"
proof -
  have "pc_ok p' \<and> int (sleeps p') - int (sleeps p) = int k' - int k + (int (posts p') - int (posts p)) + (max 0 (- m') - max 0 (- m)) \<and>
    int sg = int rt + (int (held p') - int (held p)) + (max 0 m' - max 0 m) + (int k' - int k) + (int (posts p') - int (posts p))"
    using assms
    by (cases rule: sema_local.cases)
      (use newCount_bounds [of m] in \<open>auto simp: tried_facts tried_ok held_try max_def Let_def le_nat_iff nat_le_iff intro: order.antisym split: if_splits\<close>)
  then show "pc_ok p'"
    and "int (sleeps p') - int (sleeps p) = int k' - int k + (int (posts p') - int (posts p)) + (max 0 (- m') - max 0 (- m))"
    and "int sg = int rt + (int (held p') - int (held p)) + (max 0 m' - max 0 m) + (int k' - int k) + (int (posts p') - int (posts p))"
    by blast+
qed


section \<open>All threads together\<close>

lemma sum_list_upd_int:
  "i < length xs \<Longrightarrow> int (sum_list (map f (xs[i := x]))) = int (sum_list (map f xs)) + int (f x) - int (f (xs ! i))"
  for f :: "'a \<Rightarrow> nat"
proof (induction xs arbitrary: i)
  case (Cons y xs)
  then show ?case by (cases i) auto
qed simp

text \<open>
  \<open>balanced\<close>: every permit is in one place, and there are exactly as many sleepers as there are
  wake-ups on their way plus places counted below zero.
\<close>

definition balanced :: "nat \<Rightarrow> LightweightSemaphore \<Rightarrow> bool" where
  "balanced initial s \<longleftrightarrow> (\<forall>p \<in> set (ls_threads s). pc_ok p) \<and>
     int (sum_list (map sleeps (ls_threads s))) = int (m_sema s) + int (sum_list (map posts (ls_threads s))) + max 0 (- m_count s) \<and>
     int (initial + ls_signalled s) = int (ls_returned s) + int (sum_list (map held (ls_threads s))) + max 0 (m_count s) +
       int (m_sema s) + int (sum_list (map posts (ls_threads s)))"

lemma balanced_new: "balanced initial (LightweightSemaphore_new initial n)"
  by (simp add: balanced_def LightweightSemaphore_new_def sum_list_replicate)

lemma sema_call_facts: "sema_call p \<Longrightarrow> pc_ok p \<and> sleeps p = 0 \<and> posts p = 0 \<and> held p = 0"
  by (induction p rule: sema_call.induct) auto

lemma balanced_call:
  assumes "balanced initial s" and "i < length (ls_threads s)" and "ls_threads s ! i = Ready" and "sema_call p"
  shows "balanced initial (s\<lparr>ls_threads := (ls_threads s)[i := p]\<rparr>)"
  using assms sema_call_facts [OF assms(4)]
  by (auto simp: balanced_def sum_list_upd_int dest: set_update_subset_insert [THEN subsetD])

lemma balanced_atomic:
  assumes bal: "balanced initial s" and i: "i < length (ls_threads s)"
    and l: "sema_local spins (m_count s, m_sema s, ls_threads s ! i) sg rt (m, k, p)"
  shows "balanced initial (s\<lparr>m_count := m, m_sema := k, ls_threads := (ls_threads s)[i := p],
      ls_signalled := ls_signalled s + sg, ls_returned := ls_returned s + rt\<rparr>)"
proof -
  have "pc_ok (ls_threads s ! i)" using bal i by (simp add: balanced_def)
  note b = local_balance [OF l this]
  show ?thesis
    using bal b i by (auto simp: balanced_def sum_list_upd_int dest: set_update_subset_insert [THEN subsetD])
qed

lemma balanced_run: "sema_run spins s t \<Longrightarrow> balanced initial s \<Longrightarrow> balanced initial t"
proof (induction rule: sema_run.induct)
  case (sema_run_step s t u)
  from sema_run_step.hyps(2) sema_run_step.IH [OF sema_run_step.prems] show ?case
    by (cases rule: sema_step.cases) (auto intro: balanced_call balanced_atomic)
qed

text \<open>
  C26. However the threads interleave: no call returns more permits than it asked for, and all
  calls together have returned no more permits than the initial ones and the signalled ones. No
  wake-up gets lost: when every signal has been carried out and no wake-up is pending in the
  kernel, then threads sleep only if the count is negative, by exactly their number, and then every
  permit has been handed out.
\<close>

theorem semaphore_safe:
  assumes "sema_run spins (LightweightSemaphore_new initial n) s"
  shows "(\<forall>mx r. Done mx r \<in> set (ls_threads s) \<longrightarrow> r \<le> mx) \<and>
    ls_returned s + sum_list (map held (ls_threads s)) + availableApprox s \<le> initial + ls_signalled s \<and>
    (sum_list (map posts (ls_threads s)) = 0 \<and> m_sema s = 0 \<and> 0 < sum_list (map sleeps (ls_threads s)) \<longrightarrow>
       m_count s = - int (sum_list (map sleeps (ls_threads s))) \<and>
       ls_returned s + sum_list (map held (ls_threads s)) = initial + ls_signalled s)"
proof -
  have b: "balanced initial s" by (rule balanced_run [OF assms balanced_new])
  have "r \<le> mx" if "Done mx r \<in> set (ls_threads s)" for mx r
    using b that unfolding balanced_def by (metis pc_ok.simps(11))
  moreover have "int (availableApprox s) = max 0 (m_count s)" by (simp add: availableApprox_def)
  then have "int (ls_returned s + sum_list (map held (ls_threads s)) + availableApprox s) \<le> int (initial + ls_signalled s)"
    using b by (simp add: balanced_def)
  then have "ls_returned s + sum_list (map held (ls_threads s)) + availableApprox s \<le> initial + ls_signalled s" by linarith
  moreover have "m_count s = - int (sum_list (map sleeps (ls_threads s))) \<and>
      ls_returned s + sum_list (map held (ls_threads s)) = initial + ls_signalled s"
    if "sum_list (map posts (ls_threads s)) = 0" "m_sema s = 0" "0 < sum_list (map sleeps (ls_threads s))"
    using b that unfolding balanced_def max_def by (simp split: if_splits; linarith)
  ultimately show ?thesis by blast
qed

text \<open>Thread 0 finds nothing and goes to sleep.\<close>

theorem semaphore_safe_witness:
  "\<exists>s. sema_run 0 (LightweightSemaphore_new 0 2) s \<and> ls_threads s = [Waiting 1 (- 1), Ready] \<and> m_count s = - 1 \<and>
     ls_returned s + sum_list (map held (ls_threads s)) = 0 + ls_signalled s"
proof -
  let ?s = "\<lparr>m_count = - 1, m_sema = 0, ls_threads = [Waiting 1 (- 1), Ready], ls_signalled = 0, ls_returned = 0\<rparr>"
  let ?n = "LightweightSemaphore_new 0 2"
  have two: "replicate 2 Ready = [Ready, Ready]" by (simp add: numeral_2_eq_2)
  have r0: "sema_run 0 ?n (?n\<lparr>ls_threads := [TLoad 1 (ThenWait (- 1)), Ready]\<rparr>)"
    using sema_run_step [OF sema_run_refl step_call [of 0 ?n "TLoad 1 (ThenWait (- 1))" 0]]
    by (simp add: LightweightSemaphore_new_def two)
  have go: "sema_run 0 ?n (t\<lparr>m_count := m, m_sema := k, ls_threads := (ls_threads t)[0 := p]\<rparr>)"
    if "sema_run 0 ?n t" "0 < length (ls_threads t)" "sema_local 0 (m_count t, m_sema t, ls_threads t ! 0) 0 0 (m, k, p)" for t m k p
    using sema_run_step [OF that(1) step_atomic [OF that(2,3)]] by simp
  have l: "sema_local 0 (0, 0, TLoad 1 (ThenWait (- 1))) 0 0 (0, 0, Spin 0 1 (- 1))"
    "sema_local 0 (0, 0, Spin 0 1 (- 1)) 0 0 (0, 0, Sub 1 (- 1))"
    "sema_local 0 (0, 0, Sub 1 (- 1)) 0 0 (- 1, 0, Waiting 1 (- 1))"
    using try_empty [where spins = 0 and m = 0 and k = 0 and mx = 1 and a = "ThenWait (- 1)"]
      spin_over [where spins = 0 and m = 0 and k = 0 and mx = 1 and tmo = "- 1"]
      sub_wait [where spins = 0 and m = 0 and k = 0 and mx = 1 and tmo = "- 1"] by simp_all
  have r1: "sema_run 0 ?n (?n\<lparr>ls_threads := [Spin 0 1 (- 1), Ready]\<rparr>)"
    using go [OF r0, of 0 0 "Spin 0 1 (- 1)"] l(1) by (simp add: LightweightSemaphore_new_def)
  have r2: "sema_run 0 ?n (?n\<lparr>ls_threads := [Sub 1 (- 1), Ready]\<rparr>)"
    using go [OF r1, of 0 0 "Sub 1 (- 1)"] l(2) by (simp add: LightweightSemaphore_new_def)
  have run: "sema_run 0 ?n ?s"
    using go [OF r2, of "- 1" 0 "Waiting 1 (- 1)"] l(3) by (simp add: LightweightSemaphore_new_def)
  from semaphore_safe [OF run] show ?thesis using run by (intro exI [of _ ?s]) simp
qed

end
