(* ===== verification/MultiQueue.thy ===== *)
theory MultiQueue
  imports Prelude
begin

text \<open>
  What \<^verbatim>\<open>ConcurrentQueue\<close> promises: one queue per producer, each first in first out. An operation
  appends to the queue of its producer or takes elements from the front of one of them; there is no
  order between producers. \<open>multi_queue\<close> is the contract, for the lock-free queue and for the blocking
  queue that is built on it.
\<close>

datatype 'a mq_event = Put nat "'a list" | Take nat nat

fun mq_apply :: "'a mq_event \<Rightarrow> (nat \<Rightarrow> 'a list) \<Rightarrow> (nat \<Rightarrow> 'a list) option" where
  "mq_apply (Put p xs) q = Some (q(p := q p @ xs))"
| "mq_apply (Take p n) q = (if n \<le> length (q p) then Some (q(p := drop n (q p))) else None)"

text \<open>What a sequence of operations put into the queue of \<open>p\<close>, and how many elements it took.\<close>

fun put_into :: "nat \<Rightarrow> 'a mq_event list \<Rightarrow> 'a list" where
  "put_into p [] = []"
| "put_into p (Put q xs # es) = (if q = p then xs else []) @ put_into p es"
| "put_into p (Take q n # es) = put_into p es"

fun taken_from :: "nat \<Rightarrow> 'a mq_event list \<Rightarrow> nat" where
  "taken_from p [] = 0"
| "taken_from p (Put q xs # es) = taken_from p es"
| "taken_from p (Take q n # es) = (if q = p then n else 0) + taken_from p es"

lemma put_into_snoc: "put_into p (es @ [e]) = put_into p es @ put_into p [e]"
  by (induction p es rule: put_into.induct) simp_all

lemma taken_from_snoc: "taken_from p (es @ [e]) = taken_from p es + taken_from p [e]"
  by (induction p es rule: taken_from.induct) simp_all

lemma mq_apply_fifo:
  assumes "mq_apply e q = Some q'" and "q p = drop n xs" "n \<le> length xs"
  shows "q' p = drop (n + taken_from p [e]) (xs @ put_into p [e])" "n + taken_from p [e] \<le> length (xs @ put_into p [e])"
proof -
  have "q' p = drop (n + taken_from p [e]) (xs @ put_into p [e]) \<and> n + taken_from p [e] \<le> length (xs @ put_into p [e])"
  proof (cases e)
    case (Put r ys)
    then show ?thesis using assms by (cases "r = p") auto
  next
    case (Take r k)
    then show ?thesis using assms by (cases "r = p") (auto simp: add.commute split: if_splits)
  qed
  then show "q' p = drop (n + taken_from p [e]) (xs @ put_into p [e])" "n + taken_from p [e] \<le> length (xs @ put_into p [e])" by simp_all
qed

locale multi_queue =
  fixes inv :: "'s \<Rightarrow> bool" and step :: "'s \<Rightarrow> 's \<Rightarrow> bool" and contents :: "'s \<Rightarrow> nat \<Rightarrow> 'a list"
  assumes inv_step: "inv s \<Longrightarrow> step s t \<Longrightarrow> inv t"
    and step_event: "inv s \<Longrightarrow> step s t \<Longrightarrow> \<exists>e. mq_apply e (contents s) = Some (contents t)"
begin

lemma run_inv: "step\<^sup>*\<^sup>* s t \<Longrightarrow> inv s \<Longrightarrow> inv t"
  by (induction rule: rtranclp_induct) (auto intro: inv_step)

lemma run_fifo:
  assumes "step\<^sup>*\<^sup>* s t" and "inv s"
  shows "\<exists>es. \<forall>p. contents t p = drop (taken_from p es) (contents s p @ put_into p es) \<and>
    taken_from p es \<le> length (contents s p @ put_into p es)"
  using assms
proof (induction rule: rtranclp_induct)
  case base
  show ?case by (intro exI [of _ "[]"]) simp
next
  case (step t u)
  then obtain es where es: "\<And>p. contents t p = drop (taken_from p es) (contents s p @ put_into p es)"
    "\<And>p. taken_from p es \<le> length (contents s p @ put_into p es)" by blast
  obtain e where e: "mq_apply e (contents t) = Some (contents u)" using step_event [OF run_inv] step by blast
  show ?case
  proof (intro exI [of _ "es @ [e]"] allI)
    show "contents u p = drop (taken_from p (es @ [e])) (contents s p @ put_into p (es @ [e])) \<and>
        taken_from p (es @ [e]) \<le> length (contents s p @ put_into p (es @ [e]))" for p
      using mq_apply_fifo [OF e es, of p] by (simp add: put_into_snoc [of p es e] taken_from_snoc [of p es e])
  qed
qed

text \<open>An empty queue hands out, per producer, a prefix of what was put in.\<close>

lemma run_from_empty:
  assumes "step\<^sup>*\<^sup>* s t" and "inv s" and "contents s = (\<lambda>_. [])"
  shows "\<exists>es. \<forall>p. put_into p es = take (taken_from p es) (put_into p es) @ contents t p"
proof -
  obtain es where "\<And>p. contents t p = drop (taken_from p es) (contents s p @ put_into p es)" using run_fifo [OF assms(1,2)] by blast
  then show ?thesis using assms(3) by (intro exI [of _ es]) simp
qed

end

end
