(* ===== verification/BlockingQueue.thy ===== *)
theory BlockingQueue
  imports Semaphore MultiQueue
begin

text \<open>
  \<^verbatim>\<open>blockingconcurrentqueue.h\<close>: a queue whose consumers wait on the semaphore. Its inner
  \<^verbatim>\<open>ConcurrentQueue\<close> is one sequence of elements per producing thread, as the lock-free queue
  promises: \<^verbatim>\<open>enqueue\<close> appends to the sequence of its thread, and \<^verbatim>\<open>try_dequeue_bulk\<close> takes some
  elements from the front of any of them, possibly none although there are some. The overloads with
  tokens and those that move their argument differ only in the call of the inner queue.
\<close>

section \<open>Operations\<close>

text \<open>
  A thread that is not inside a call, has put \<open>n\<close> elements into the inner queue and signals, waits
  for permits, or holds \<open>r\<close> permits that it has not yet turned into elements, next to the elements
  it has.
\<close>

datatype 'a bpc = BIdle | BSignal nat | BAcquire nat | BTake nat "'a list"

record 'a BlockingQueue =
  bq_inner :: "nat \<Rightarrow> 'a list"
  bq_sema :: LightweightSemaphore
  bq_threads :: "'a bpc list"
  bq_enqueued :: "nat \<Rightarrow> 'a list"
  bq_taken :: "nat \<Rightarrow> 'a list"

definition BlockingQueue_new :: "nat \<Rightarrow> 'a BlockingQueue" where
  "BlockingQueue_new nthreads =
     \<lparr>bq_inner = \<lambda>_. [], bq_sema = LightweightSemaphore_new 0 nthreads, bq_threads = replicate nthreads BIdle,
      bq_enqueued = \<lambda>_. [], bq_taken = \<lambda>_. []\<rparr>"

definition set_pc :: "nat \<Rightarrow> pc \<Rightarrow> LightweightSemaphore \<Rightarrow> LightweightSemaphore" where
  "set_pc i p s = s\<lparr>ls_threads := (ls_threads s)[i := p]\<rparr>"

text \<open>
  \<^verbatim>\<open>enqueue\<close> and \<^verbatim>\<open>enqueue_bulk\<close>: first the inner queue, which may refuse, then the signal for as many
  elements. \<open>ok\<close> tells whether the inner queue takes the elements.
\<close>

definition bq_enqueue_bulk :: "nat \<Rightarrow> bool \<Rightarrow> 'a list \<Rightarrow> 'a BlockingQueue \<Rightarrow> bool \<times> 'a BlockingQueue" where
  "bq_enqueue_bulk i ok xs q =
     (if ok then (True, q\<lparr>bq_inner := (bq_inner q)(i := bq_inner q i @ xs), bq_enqueued := (bq_enqueued q)(i := bq_enqueued q i @ xs),
        bq_sema := set_pc i (Add (length xs)) (bq_sema q), bq_threads := (bq_threads q)[i := BSignal (length xs)]\<rparr>)
      else (False, q))"

definition bq_enqueue :: "nat \<Rightarrow> bool \<Rightarrow> 'a \<Rightarrow> 'a BlockingQueue \<Rightarrow> bool \<times> 'a BlockingQueue" where
  "bq_enqueue i ok x = bq_enqueue_bulk i ok [x]"

text \<open>
  \<^verbatim>\<open>try_enqueue\<close> and \<^verbatim>\<open>try_enqueue_bulk\<close> ask the inner queue not to allocate; \<open>room\<close> tells whether it has
  a block for the elements. The rest is the same.
\<close>

definition try_enqueue_bulk :: "nat \<Rightarrow> bool \<Rightarrow> 'a list \<Rightarrow> 'a BlockingQueue \<Rightarrow> bool \<times> 'a BlockingQueue" where
  "try_enqueue_bulk i room xs = bq_enqueue_bulk i room xs"

definition try_enqueue :: "nat \<Rightarrow> bool \<Rightarrow> 'a \<Rightarrow> 'a BlockingQueue \<Rightarrow> bool \<times> 'a BlockingQueue" where
  "try_enqueue i room x = try_enqueue_bulk i room [x]"

text \<open>The start of \<^verbatim>\<open>try_dequeue_bulk\<close> and of \<^verbatim>\<open>wait_dequeue_bulk_timed\<close>: the call of the semaphore.\<close>

definition bq_acquire :: "nat \<Rightarrow> nat \<Rightarrow> pc \<Rightarrow> 'a BlockingQueue \<Rightarrow> 'a BlockingQueue" where
  "bq_acquire i mx p q = q\<lparr>bq_sema := set_pc i p (bq_sema q), bq_threads := (bq_threads q)[i := BAcquire mx]\<rparr>"

definition try_dequeue_bulk :: "nat \<Rightarrow> nat \<Rightarrow> 'a BlockingQueue \<Rightarrow> 'a BlockingQueue" where
  "try_dequeue_bulk i mx = bq_acquire i mx (TLoad mx (Return mx 0))"

definition wait_dequeue_bulk_timed :: "nat \<Rightarrow> nat \<Rightarrow> int \<Rightarrow> 'a BlockingQueue \<Rightarrow> 'a BlockingQueue" where
  "wait_dequeue_bulk_timed i mx timeout_usecs = bq_acquire i mx (TLoad mx (ThenWait timeout_usecs))"

definition wait_dequeue_bulk :: "nat \<Rightarrow> nat \<Rightarrow> 'a BlockingQueue \<Rightarrow> 'a BlockingQueue" where
  "wait_dequeue_bulk i mx = wait_dequeue_bulk_timed i mx (- 1)"

definition try_dequeue :: "nat \<Rightarrow> 'a BlockingQueue \<Rightarrow> 'a BlockingQueue" where
  "try_dequeue i = try_dequeue_bulk i 1"

definition wait_dequeue :: "nat \<Rightarrow> 'a BlockingQueue \<Rightarrow> 'a BlockingQueue" where
  "wait_dequeue i = wait_dequeue_bulk i 1"

definition wait_dequeue_timed :: "nat \<Rightarrow> int \<Rightarrow> 'a BlockingQueue \<Rightarrow> 'a BlockingQueue" where
  "wait_dequeue_timed i timeout_usecs = wait_dequeue_bulk_timed i 1 timeout_usecs"

text \<open>
  A \<^verbatim>\<open>std::chrono::duration\<close> of \<open>count\<close> periods of \<open>num / den\<close> seconds, and the cast to microseconds, which
  rounds towards zero. The threads of the server wait for \<^verbatim>\<open>std::chrono::milliseconds(1)\<close>.
\<close>

record duration =
  du_count :: int
  du_num :: int
  du_den :: int

definition milliseconds :: "int \<Rightarrow> duration" where
  "milliseconds n = \<lparr>du_count = n, du_num = 1, du_den = 1000\<rparr>"

definition usecs_of :: "duration \<Rightarrow> int" where
  "usecs_of d = (let x = du_count d * du_num d * 1000000 in sgn x * (\<bar>x\<bar> div du_den d))"

definition wait_dequeue_timed_for :: "nat \<Rightarrow> duration \<Rightarrow> 'a BlockingQueue \<Rightarrow> 'a BlockingQueue" where
  "wait_dequeue_timed_for i timeout = wait_dequeue_timed i (usecs_of timeout)"

definition wait_dequeue_bulk_timed_for :: "nat \<Rightarrow> nat \<Rightarrow> duration \<Rightarrow> 'a BlockingQueue \<Rightarrow> 'a BlockingQueue" where
  "wait_dequeue_bulk_timed_for i mx timeout = wait_dequeue_bulk_timed i mx (usecs_of timeout)"

text \<open>
  One round of \<^verbatim>\<open>while (count != max) count += inner.try_dequeue_bulk(itemFirst, max - count);\<close> as far as
  it takes elements of producer \<open>p\<close>; a round that goes on to other producers is several of these.
\<close>

definition take_round :: "nat \<Rightarrow> nat \<Rightarrow> nat \<Rightarrow> nat \<Rightarrow> 'a list \<Rightarrow> 'a BlockingQueue \<Rightarrow> 'a BlockingQueue" where
  "take_round i p k r got q =
     (let xs = take (min k r) (bq_inner q p)
      in q\<lparr>bq_inner := (bq_inner q)(p := drop (min k r) (bq_inner q p)), bq_taken := (bq_taken q)(p := bq_taken q p @ xs),
           bq_threads := (bq_threads q)[i := BTake (r - length xs) (got @ xs)]\<rparr>)"

definition size_approx :: "'a BlockingQueue \<Rightarrow> nat" where
  "size_approx q = availableApprox (bq_sema q)"

section \<open>Interleaved runs\<close>

text \<open>
  A thread enters a call, its semaphore part does an atomic step, the permits reach the queue, it
  takes elements, and it leaves the call.
\<close>

inductive bq_step :: "nat \<Rightarrow> 'a BlockingQueue \<Rightarrow> 'a BlockingQueue \<Rightarrow> bool" for spins where
  bq_enq: "i < length (bq_threads q) \<Longrightarrow> bq_threads q ! i = BIdle \<Longrightarrow>
    bq_step spins q (snd (bq_enqueue_bulk i ok xs q))"
| bq_try: "i < length (bq_threads q) \<Longrightarrow> bq_threads q ! i = BIdle \<Longrightarrow> bq_step spins q (try_dequeue_bulk i mx q)"
| bq_wait: "i < length (bq_threads q) \<Longrightarrow> bq_threads q ! i = BIdle \<Longrightarrow>
    bq_step spins q (wait_dequeue_bulk_timed i mx tmo q)"
| bq_sem: "i < length (bq_threads q) \<Longrightarrow>
    sema_local spins (m_count (bq_sema q), m_sema (bq_sema q), ls_threads (bq_sema q) ! i) sg 0 (m, k, p) \<Longrightarrow>
    (\<forall>mx r. ls_threads (bq_sema q) ! i \<noteq> Done mx r) \<Longrightarrow>
    bq_step spins q (q\<lparr>bq_sema := (bq_sema q)\<lparr>m_count := m, m_sema := k, ls_threads := (ls_threads (bq_sema q))[i := p],
      ls_signalled := ls_signalled (bq_sema q) + sg, ls_returned := ls_returned (bq_sema q) + 0\<rparr>\<rparr>)"
| bq_granted: "i < length (bq_threads q) \<Longrightarrow> bq_threads q ! i = BAcquire mx \<Longrightarrow> ls_threads (bq_sema q) ! i = Done mx' r \<Longrightarrow>
    bq_step spins q (q\<lparr>bq_sema := (bq_sema q)\<lparr>ls_threads := (ls_threads (bq_sema q))[i := Ready],
      ls_returned := ls_returned (bq_sema q) + r\<rparr>, bq_threads := (bq_threads q)[i := BTake r []]\<rparr>)"
| bq_take: "i < length (bq_threads q) \<Longrightarrow> p < length (bq_threads q) \<Longrightarrow> bq_threads q ! i = BTake r got \<Longrightarrow>
    bq_step spins q (take_round i p k r got q)"
| bq_signalled: "i < length (bq_threads q) \<Longrightarrow> bq_threads q ! i = BSignal n \<Longrightarrow> ls_threads (bq_sema q) ! i = Ready \<Longrightarrow>
    bq_step spins q (q\<lparr>bq_threads := (bq_threads q)[i := BIdle]\<rparr>)"
| bq_return: "i < length (bq_threads q) \<Longrightarrow> bq_threads q ! i = BTake 0 got \<Longrightarrow>
    bq_step spins q (q\<lparr>bq_threads := (bq_threads q)[i := BIdle]\<rparr>)"

inductive bq_run :: "nat \<Rightarrow> 'a BlockingQueue \<Rightarrow> 'a BlockingQueue \<Rightarrow> bool" for spins where
  bq_run_refl: "bq_run spins q q"
| bq_run_step: "bq_run spins p q \<Longrightarrow> bq_step spins q r \<Longrightarrow> bq_run spins p r"

text \<open>The other calls are steps of the same kind.\<close>

lemma usecs_of_milliseconds: "usecs_of (milliseconds n) = 1000 * n"
  by (cases n "0 :: int" rule: linorder_cases) (simp_all add: usecs_of_def milliseconds_def sgn_if)

lemma bq_step_calls:
  assumes "i < length (bq_threads q)" and "bq_threads q ! i = BIdle"
  shows "bq_step spins q (snd (bq_enqueue i ok x q))" "bq_step spins q (snd (try_enqueue i ok x q))"
    "bq_step spins q (snd (try_enqueue_bulk i ok xs q))" "bq_step spins q (try_dequeue i q)" "bq_step spins q (wait_dequeue i q)"
    "bq_step spins q (wait_dequeue_timed_for i d q)" "bq_step spins q (wait_dequeue_bulk_timed_for i mx d q)"
  unfolding bq_enqueue_def try_enqueue_def try_enqueue_bulk_def try_dequeue_def wait_dequeue_def wait_dequeue_bulk_def
    wait_dequeue_timed_for_def wait_dequeue_timed_def wait_dequeue_bulk_timed_for_def
  by (rule bq_step.intros(1,2,3) [OF assms])+

section \<open>Every permit stands for an element\<close>

fun owed :: "'a bpc \<Rightarrow> nat" where
  "owed (BTake r got) = r"
| "owed b = 0"

fun unsignalled :: "pc \<Rightarrow> nat" where
  "unsignalled (Add c) = c"
| "unsignalled p = 0"

text \<open>A thread is inside the semaphore exactly when the queue says so.\<close>

datatype role = Free | Signals | Acquires

fun role_of :: "pc \<Rightarrow> role" where
  "role_of Ready = Free"
| "role_of (Add c) = Signals"
| "role_of (Post n) = Signals"
| "role_of p = Acquires"

fun coupled :: "'a bpc \<Rightarrow> role \<Rightarrow> bool" where
  "coupled BIdle r \<longleftrightarrow> r = Free"
| "coupled (BTake k got) r \<longleftrightarrow> r = Free"
| "coupled (BSignal n) r \<longleftrightarrow> r \<noteq> Acquires"
| "coupled (BAcquire mx) r \<longleftrightarrow> r = Acquires"

definition bq_size :: "'a BlockingQueue \<Rightarrow> nat" where
  "bq_size q = (\<Sum>p < length (bq_threads q). length (bq_inner q p))"

lemma bq_size_upd:
  assumes "bq_inner q' = (bq_inner q)(p := xs)" "length (bq_threads q') = length (bq_threads q)" "p < length (bq_threads q)"
  shows "bq_size q' + length (bq_inner q p) = bq_size q + length xs"
proof -
  let ?I = "{..< length (bq_threads q)}"
  have "bq_size q' = length xs + (\<Sum>i \<in> ?I - {p}. length (bq_inner q i))"
    using assms sum.remove [of ?I p "\<lambda>i. length (bq_inner q' i)"] by (simp add: bq_size_def)
  moreover have "bq_size q = length (bq_inner q p) + (\<Sum>i \<in> ?I - {p}. length (bq_inner q i))"
    using assms(3) sum.remove [of ?I p "\<lambda>i. length (bq_inner q i)"] by (simp add: bq_size_def)
  ultimately show ?thesis by simp
qed

lemma bq_size_kept [simp]:
  "bq_size (q\<lparr>bq_sema := x\<rparr>) = bq_size q" "bq_size (q\<lparr>bq_threads := (bq_threads q)[i := b]\<rparr>) = bq_size q"
  "bq_size (q\<lparr>bq_sema := x, bq_threads := (bq_threads q)[i := b]\<rparr>) = bq_size q"
  by (simp_all add: bq_size_def)

definition bq_ok :: "'a BlockingQueue \<Rightarrow> bool" where
  "bq_ok q \<longleftrightarrow> balanced 0 (bq_sema q) \<and> length (bq_threads q) = length (ls_threads (bq_sema q)) \<and>
     (\<forall>i < length (bq_threads q). coupled (bq_threads q ! i) (role_of (ls_threads (bq_sema q) ! i))) \<and>
     (\<forall>p. bq_enqueued q p = bq_taken q p @ bq_inner q p) \<and>
     int (bq_size q) = int (sum_list (map unsignalled (ls_threads (bq_sema q)))) +
       (int (ls_signalled (bq_sema q)) - int (ls_returned (bq_sema q))) + int (sum_list (map owed (bq_threads q)))"

lemma bq_ok_new: "bq_ok (BlockingQueue_new n)"
  using balanced_new [of 0 n] by (simp add: bq_ok_def bq_size_def BlockingQueue_new_def LightweightSemaphore_new_def sum_list_replicate)


lemma role_of_Free: "role_of p = Free \<longleftrightarrow> p = Ready"
  by (cases p) simp_all

lemma bq_ok_call:
  assumes ok: "bq_ok q" and i: "i < length (bq_threads q)" "bq_threads q ! i = BIdle"
    and c: "sema_call p" "coupled b (role_of p)" "owed b = 0"
    and len: "bq_size q' = bq_size q + unsignalled p" "\<And>p. bq_enqueued q' p = bq_taken q' p @ bq_inner q' p"
    and q': "bq_sema q' = set_pc i p (bq_sema q)" "bq_threads q' = (bq_threads q)[i := b]"
  shows "bq_ok q'"
proof -
  have "coupled (bq_threads q ! i) (role_of (ls_threads (bq_sema q) ! i))" and n: "i < length (ls_threads (bq_sema q))"
    using ok i(1) by (auto simp: bq_ok_def)
  then have r: "ls_threads (bq_sema q) ! i = Ready" by (simp add: i(2) role_of_Free)
  have "balanced 0 (bq_sema q')"
    unfolding q' set_pc_def using ok n r c(1) by (intro balanced_call) (auto simp: bq_ok_def)
  moreover have "coupled (bq_threads q' ! j) (role_of (ls_threads (bq_sema q') ! j))" if "j < length (bq_threads q')" for j
    using ok i n c(2) that by (cases "j = i") (auto simp: bq_ok_def q' set_pc_def)
  ultimately show ?thesis
    using ok i n r c(3) len by (simp add: bq_ok_def q' set_pc_def sum_list_upd_int)
qed

lemma sema_local_return: "sema_local spins (m, k, p) sg rt (m', k', p') \<Longrightarrow> rt \<noteq> 0 \<Longrightarrow> \<exists>mx. p = Done mx rt"
  by (cases rule: sema_local.cases) auto

lemma tried_role: "role_of (tried spins r mx a) = Acquires" "unsignalled (tried spins r mx a) = 0"
  by (cases a; simp)+

lemma role_local:
  assumes "sema_local spins (m, k, p) sg rt (m', k', p')" and "\<forall>mx r. p \<noteq> Done mx r"
  shows "role_of p \<noteq> Free \<and> role_of p' \<in> {role_of p} \<union> (if role_of p = Signals then {Free} else {})"
    and "int (unsignalled p') = int (unsignalled p) - int sg" and "rt = 0"
proof -
  have "(role_of p \<noteq> Free \<and> role_of p' \<in> {role_of p} \<union> (if role_of p = Signals then {Free} else {})) \<and>
      int (unsignalled p') = int (unsignalled p) - int sg \<and> rt = 0"
    using assms by (cases rule: sema_local.cases) (simp_all add: tried_role Let_def)
  then show "role_of p \<noteq> Free \<and> role_of p' \<in> {role_of p} \<union> (if role_of p = Signals then {Free} else {})"
    and "int (unsignalled p') = int (unsignalled p) - int sg" and "rt = 0" by blast+
qed

lemma bq_ok_sem:
  assumes ok: "bq_ok q" and i: "i < length (bq_threads q)"
    and l: "sema_local spins (m_count (bq_sema q), m_sema (bq_sema q), ls_threads (bq_sema q) ! i) sg 0 (m, k, p)"
    and nd: "\<forall>mx r. ls_threads (bq_sema q) ! i \<noteq> Done mx r"
  shows "bq_ok (q\<lparr>bq_sema := (bq_sema q)\<lparr>m_count := m, m_sema := k, ls_threads := (ls_threads (bq_sema q))[i := p],
      ls_signalled := ls_signalled (bq_sema q) + sg, ls_returned := ls_returned (bq_sema q) + 0\<rparr>\<rparr>)"
proof -
  have n: "i < length (ls_threads (bq_sema q))" using ok i by (simp add: bq_ok_def)
  have bal: "balanced 0 (bq_sema q)" using ok by (simp add: bq_ok_def)
  note b = balanced_atomic [OF bal n l]
  note r = role_local [OF l nd]
  have "coupled (bq_threads q ! i) (role_of (ls_threads (bq_sema q) ! i))" using ok i by (simp add: bq_ok_def)
  with r(1) have "coupled (bq_threads q ! i) (role_of p)" by (cases "bq_threads q ! i") (auto split: if_splits)
  then have "coupled (bq_threads q ! j) (role_of ((ls_threads (bq_sema q))[i := p] ! j))" if "j < length (bq_threads q)" for j
    using ok n that by (cases "j = i") (auto simp: bq_ok_def)
  with b r(2) ok n show ?thesis by (simp add: bq_ok_def sum_list_upd_int)
qed

lemma bq_ok_granted:
  assumes ok: "bq_ok q" and i: "i < length (bq_threads q)" "bq_threads q ! i = BAcquire mx" "ls_threads (bq_sema q) ! i = Done mx' r"
  shows "bq_ok (q\<lparr>bq_sema := (bq_sema q)\<lparr>ls_threads := (ls_threads (bq_sema q))[i := Ready],
      ls_returned := ls_returned (bq_sema q) + r\<rparr>, bq_threads := (bq_threads q)[i := BTake r []]\<rparr>)"
proof -
  have n: "i < length (ls_threads (bq_sema q))" using ok i by (simp add: bq_ok_def)
  have "balanced 0 (bq_sema q)" using ok by (simp add: bq_ok_def)
  from balanced_atomic [OF this n, of 0 0 r "m_count (bq_sema q)" "m_sema (bq_sema q)" Ready]
  have "balanced 0 ((bq_sema q)\<lparr>ls_threads := (ls_threads (bq_sema q))[i := Ready], ls_returned := ls_returned (bq_sema q) + r\<rparr>)"
    by (simp add: i call_returns)
  moreover have "coupled ((bq_threads q)[i := BTake r []] ! j) (role_of ((ls_threads (bq_sema q))[i := Ready] ! j))"
    if "j < length (bq_threads q)" for j
    using ok n i that by (cases "j = i") (auto simp: bq_ok_def)
  ultimately show ?thesis using ok n i by (simp add: bq_ok_def sum_list_upd_int)
qed

lemma bq_ok_thread:
  assumes ok: "bq_ok q" and i: "i < length (bq_threads q)" and c: "coupled b (role_of (ls_threads (bq_sema q) ! i))"
    and q': "bq_sema q' = bq_sema q" "bq_threads q' = (bq_threads q)[i := b]" "\<And>p. bq_enqueued q' p = bq_taken q' p @ bq_inner q' p"
    and len: "bq_size q' + owed (bq_threads q ! i) = bq_size q + owed b"
  shows "bq_ok q'"
proof -
  have "coupled ((bq_threads q)[i := b] ! j) (role_of (ls_threads (bq_sema q) ! j))" if "j < length (bq_threads q)" for j
    using ok i c that by (cases "j = i") (auto simp: bq_ok_def)
  then show ?thesis using ok i len q'(3) by (simp add: bq_ok_def q'(1,2) sum_list_upd_int)
qed

lemma bq_ok_step:
  assumes "bq_step spins q q'" and ok: "bq_ok q"
  shows "bq_ok q'"
  using assms(1)
proof (cases rule: bq_step.cases)
  case (bq_enq i e xs)
  show ?thesis
  proof (cases e)
    case True
    have q': "bq_inner q' = (bq_inner q)(i := bq_inner q i @ xs)" "length (bq_threads q') = length (bq_threads q)"
      using True bq_enq by (simp_all add: bq_enqueue_bulk_def)
    show ?thesis
      by (rule bq_ok_call [OF ok bq_enq(2,3), of "Add (length xs)" "BSignal (length xs)"])
        (use ok True bq_enq bq_size_upd [OF q'] in \<open>auto simp: bq_enqueue_bulk_def bq_ok_def\<close>)
  qed (use ok bq_enq in \<open>simp add: bq_enqueue_bulk_def\<close>)
next
  case (bq_try i mx)
  show ?thesis
    by (rule bq_ok_call [OF ok bq_try(2,3), of "TLoad mx (Return mx 0)" "BAcquire mx"])
      (use ok bq_try in \<open>auto simp: try_dequeue_bulk_def bq_acquire_def bq_ok_def\<close>)
next
  case (bq_wait i mx tmo)
  show ?thesis
    by (rule bq_ok_call [OF ok bq_wait(2,3), of "TLoad mx (ThenWait tmo)" "BAcquire mx"])
      (use ok bq_wait in \<open>auto simp: wait_dequeue_bulk_timed_def bq_acquire_def bq_ok_def\<close>)
next
  case (bq_sem i sg m k p)
  show ?thesis unfolding bq_sem(1) by (rule bq_ok_sem [OF ok bq_sem(2,3,4)])
next
  case (bq_granted i mx mx' r)
  show ?thesis unfolding bq_granted(1) by (rule bq_ok_granted [OF ok bq_granted(2,3,4)])
next
  case (bq_take i p r got k)
  have q': "bq_inner q' = (bq_inner q)(p := drop (min k r) (bq_inner q p))" "length (bq_threads q') = length (bq_threads q)"
    using bq_take by (simp_all add: take_round_def Let_def)
  have size: "bq_size q' + r = bq_size q + (r - length (take (min k r) (bq_inner q p)))"
    using bq_size_upd [OF q' bq_take(3)] by auto
  have "coupled (BTake r got) (role_of (ls_threads (bq_sema q) ! i))" using ok bq_take by (metis bq_ok_def)
  then show ?thesis
  proof (intro bq_ok_thread [OF ok bq_take(2), of "BTake (r - length (take (min k r) (bq_inner q p))) (got @ take (min k r) (bq_inner q p))"])
    show "bq_size q' + owed (bq_threads q ! i) =
        bq_size q + owed (BTake (r - length (take (min k r) (bq_inner q p))) (got @ take (min k r) (bq_inner q p)))"
      using size bq_take(4) by (simp only: owed.simps)
  qed (use ok bq_take in \<open>auto simp: take_round_def Let_def bq_ok_def\<close>)
next
  case (bq_signalled i n)
  show ?thesis
    by (rule bq_ok_thread [OF ok bq_signalled(2), of BIdle]) (use ok bq_signalled in \<open>auto simp: bq_ok_def\<close>)
next
  case (bq_return i got)
  have "coupled (BTake 0 got) (role_of (ls_threads (bq_sema q) ! i))" using ok bq_return by (metis bq_ok_def)
  then show ?thesis
    by (intro bq_ok_thread [OF ok bq_return(2), of BIdle]) (use ok bq_return in \<open>auto simp: bq_ok_def\<close>)
qed

lemma bq_ok_run: "bq_run spins p q \<Longrightarrow> bq_ok p \<Longrightarrow> bq_ok q"
  by (induction rule: bq_run.induct) (auto intro: bq_ok_step)

text \<open>The queue keeps the contract of its inner queue.\<close>

lemma bq_step_event:
  assumes "bq_step spins q q'"
  shows "\<exists>e. mq_apply e (bq_inner q) = Some (bq_inner q')"
proof -
  have same: ?thesis if "bq_inner q' = bq_inner q" using that by (intro exI [of _ "Take 0 0"]) simp
  from assms show ?thesis
  proof (cases rule: bq_step.cases)
    case (bq_enq i e xs)
    then show ?thesis using same by (cases e) (auto simp: bq_enqueue_bulk_def intro!: exI [of _ "Put i xs"])
  next
    case (bq_take i p r got k)
    then show ?thesis by (intro exI [of _ "Take p (min (length (bq_inner q p)) (min k r))"]) (auto simp: take_round_def Let_def min_def)
  qed (use same in \<open>simp_all add: try_dequeue_bulk_def wait_dequeue_bulk_timed_def bq_acquire_def\<close>)
qed

interpretation blocking: multi_queue bq_ok "bq_step spins" bq_inner for spins
  by unfold_locales (auto intro: bq_ok_step bq_step_event)


text \<open>A producer enqueues two elements, and before it signals, nothing is visible to consumers.\<close>

definition ex_queue :: "nat BlockingQueue" where
  "ex_queue = snd (bq_enqueue_bulk 0 True [5, 6] (BlockingQueue_new 2))"


end
