(* ===== verification/ConcurrentQueue.thy ===== *)
theory ConcurrentQueue
  imports Prelude "HOL-Library.Signed_Division"
begin

unbundle bit_operations_syntax

text \<open>
  The lock-free queue of \<^verbatim>\<open>concurrentqueue.h\<close> as the server uses it: \<^verbatim>\<open>enqueue\<close> and \<^verbatim>\<open>enqueue_bulk\<close>
  without tokens, that is through one \<^verbatim>\<open>ImplicitProducer\<close> per producing thread, and \<^verbatim>\<open>dequeue\<close> and
  \<^verbatim>\<open>dequeue_bulk\<close> of any consumer on any producer. Threads interleave at each access to an atomic
  variable or to an element; a thread is a program counter that carries its local variables. A null
  or dangling pointer that is followed, a slot without an element that is read and an assertion that
  does not hold lead to a fault.
\<close>

section \<open>Constants and helpers\<close>

definition circular_less_than :: "u64 \<Rightarrow> u64 \<Rightarrow> bool" where
  "circular_less_than a b \<longleftrightarrow> a - b > push_bit 63 1"

definition const_numeric_max :: u64 where "const_numeric_max = - 1"
definition BLOCK_SIZE :: u64 where "BLOCK_SIZE = 32"
definition IMPLICIT_INITIAL_INDEX_SIZE :: u64 where "IMPLICIT_INITIAL_INDEX_SIZE = 32"
definition Traits_MAX_SUBQUEUE_SIZE :: u64 where "Traits_MAX_SUBQUEUE_SIZE = const_numeric_max"
definition RECYCLE_ALLOCATED_BLOCKS :: bool where "RECYCLE_ALLOCATED_BLOCKS = False"
definition INVALID_BLOCK_BASE :: u64 where "INVALID_BLOCK_BASE = 1"

definition MAX_SUBQUEUE_SIZE :: u64 where
  "MAX_SUBQUEUE_SIZE =
     (if const_numeric_max - Traits_MAX_SUBQUEUE_SIZE < BLOCK_SIZE then const_numeric_max
      else (Traits_MAX_SUBQUEUE_SIZE + (BLOCK_SIZE - 1)) div BLOCK_SIZE * BLOCK_SIZE)"

text \<open>The offset of an index in its block, and the index at which its block starts.\<close>

definition slot_of :: "u64 \<Rightarrow> u64" where "slot_of i = i AND (BLOCK_SIZE - 1)"
definition base_of :: "u64 \<Rightarrow> u64" where "base_of i = i AND NOT (BLOCK_SIZE - 1)"

section \<open>Blocks\<close>

text \<open>An element is \<open>None\<close> while its slot is raw memory.\<close>

record 'a Block =
  elements :: "nat \<Rightarrow> 'a option"
  blk_next :: "nat option"
  elementsCompletelyDequeued :: u64
  dynamicallyAllocated :: bool

definition new_Block :: "'a Block" where
  "new_Block = \<lparr>elements = \<lambda>_. None, blk_next = None, elementsCompletelyDequeued = 0, dynamicallyAllocated = True\<rparr>"

definition reset_empty :: "'a Block \<Rightarrow> 'a Block" where
  "reset_empty b = b\<lparr>elementsCompletelyDequeued := 0\<rparr>"

text \<open>The counter after the call, and whether the block is empty now. An assertion that fails is \<open>None\<close>.\<close>

definition set_empty :: "'a Block \<Rightarrow> ('a Block \<times> bool) option" where
  "set_empty b =
     (let prevVal = elementsCompletelyDequeued b
      in if prevVal < BLOCK_SIZE then Some (b\<lparr>elementsCompletelyDequeued := prevVal + 1\<rparr>, prevVal = BLOCK_SIZE - 1) else None)"

definition set_many_empty :: "u64 \<Rightarrow> 'a Block \<Rightarrow> ('a Block \<times> bool) option" where
  "set_many_empty cnt b =
     (let prevVal = elementsCompletelyDequeued b
      in if prevVal + cnt \<le> BLOCK_SIZE
         then Some (b\<lparr>elementsCompletelyDequeued := prevVal + cnt\<rparr>, prevVal + cnt = BLOCK_SIZE) else None)"

definition get_el :: "'a Block \<Rightarrow> u64 \<Rightarrow> 'a option" where
  "get_el b i = elements b (unat (slot_of i))"

definition put_el :: "u64 \<Rightarrow> 'a option \<Rightarrow> 'a Block \<Rightarrow> 'a Block" where
  "put_el i x b = b\<lparr>elements := (elements b)(unat (slot_of i) := x)\<rparr>"

section \<open>Producers\<close>

record BlockIndexEntry =
  bie_key :: u64
  bie_value :: "nat option"

record BlockIndexHeader =
  bih_capacity :: u64
  bih_tail :: u64
  bih_index :: "nat list"
  bih_prev :: "nat option"

text \<open>
  A producer with its block index. Headers and entries are never freed while the queue exists, so
  the address of one is its position in \<open>ip_headers\<close> or \<open>ip_entries\<close>.
\<close>

record ImplicitProducer =
  tailIndex :: u64
  headIndex :: u64
  dequeueOptimisticCount :: u64
  dequeueOvercommit :: u64
  tailBlock :: "nat option"
  nextBlockIndexCapacity :: u64
  blockIndex :: "nat option"
  ip_headers :: "BlockIndexHeader list"
  ip_entries :: "BlockIndexEntry list"

definition set_entry :: "nat \<Rightarrow> (BlockIndexEntry \<Rightarrow> BlockIndexEntry) \<Rightarrow> ImplicitProducer \<Rightarrow> ImplicitProducer" where
  "set_entry e f P = P\<lparr>ip_entries := (ip_entries P)[e := f (ip_entries P ! e)]\<rparr>"

definition set_header :: "nat \<Rightarrow> (BlockIndexHeader \<Rightarrow> BlockIndexHeader) \<Rightarrow> ImplicitProducer \<Rightarrow> ImplicitProducer" where
  "set_header h f P = P\<lparr>ip_headers := (ip_headers P)[h := f (ip_headers P ! h)]\<rparr>"

text \<open>
  \<^verbatim>\<open>new_block_index\<close>: the old slots from the one after the tail around the ring to the tail, then new
  entries, whose value is not initialised (\<open>junk\<close>). The caller decides whether \<^verbatim>\<open>malloc\<close> succeeds.
\<close>

definition new_block_index :: "nat option \<Rightarrow> ImplicitProducer \<Rightarrow> ImplicitProducer" where
  "new_block_index junk P =
     (let prev = blockIndex P;
          prevCapacity = (case prev of None \<Rightarrow> 0 | Some h \<Rightarrow> bih_capacity (ip_headers P ! h));
          entryCount = (case prev of None \<Rightarrow> nextBlockIndexCapacity P | Some _ \<Rightarrow> prevCapacity);
          old = (case prev of None \<Rightarrow> [] | Some h \<Rightarrow>
            map (\<lambda>i. bih_index (ip_headers P ! h) ! unat ((bih_tail (ip_headers P ! h) + 1 + of_nat i) AND (prevCapacity - 1)))
              [0 ..< unat prevCapacity]);
          n = length (ip_entries P);
          header = \<lparr>bih_capacity = nextBlockIndexCapacity P, bih_tail = (prevCapacity - 1) AND (nextBlockIndexCapacity P - 1),
            bih_index = old @ [n ..< n + unat entryCount], bih_prev = prev\<rparr>
      in P\<lparr>ip_entries := ip_entries P @ replicate (unat entryCount) \<lparr>bie_key = INVALID_BLOCK_BASE, bie_value = junk\<rparr>,
           ip_headers := ip_headers P @ [header], blockIndex := Some (length (ip_headers P)),
           nextBlockIndexCapacity := push_bit 1 (nextBlockIndexCapacity P)\<rparr>)"

text \<open>The constructor; \<open>ok\<close> says whether its \<^verbatim>\<open>malloc\<close> succeeds.\<close>

definition new_ImplicitProducer :: "bool \<Rightarrow> nat option \<Rightarrow> ImplicitProducer" where
  "new_ImplicitProducer ok junk =
     (let P = \<lparr>tailIndex = 0, headIndex = 0, dequeueOptimisticCount = 0, dequeueOvercommit = 0, tailBlock = None,
               nextBlockIndexCapacity = IMPLICIT_INITIAL_INDEX_SIZE, blockIndex = None, ip_headers = [], ip_entries = []\<rparr>
      in if ok then new_block_index junk P else P)"

definition producer_size_approx :: "ImplicitProducer \<Rightarrow> u64" where
  "producer_size_approx P =
     (let tail = tailIndex P; head = headIndex P in if circular_less_than head tail then tail - head else 0)"

text \<open>The slot after the tail of the current index: the first read of \<^verbatim>\<open>insert_block_index_entry\<close>.\<close>

definition next_slot :: "ImplicitProducer \<Rightarrow> (nat \<times> u64 \<times> nat) option" where
  "next_slot P = (case blockIndex P of None \<Rightarrow> None
     | Some h \<Rightarrow> let H = ip_headers P ! h; newTail = (bih_tail H + 1) AND (bih_capacity H - 1)
                in Some (h, newTail, bih_index H ! unat newTail))"

definition slot_free :: "BlockIndexEntry \<Rightarrow> bool" where
  "slot_free E \<longleftrightarrow> bie_key E = INVALID_BLOCK_BASE \<or> bie_value E = None"

definition rewind_block_index_tail :: "ImplicitProducer \<Rightarrow> ImplicitProducer" where
  "rewind_block_index_tail P = (case blockIndex P of None \<Rightarrow> P
     | Some h \<Rightarrow> set_header h (\<lambda>H. H\<lparr>bih_tail := (bih_tail H - 1) AND (bih_capacity H - 1)\<rparr>) P)"

text \<open>
  \<^verbatim>\<open>get_block_index_index_for_index\<close> after its loads: \<open>tail\<close> of the header and \<open>tailBase\<close>, the key of
  the entry there. The division is signed, as the offset may be negative.
\<close>

definition index_index :: "u64 \<Rightarrow> u64 \<Rightarrow> u64 \<Rightarrow> u64 \<Rightarrow> u64" where
  "index_index index tail tailBase capacity =
     (tail + word_of_int (sint (base_of index - tailBase) sdiv sint BLOCK_SIZE)) AND (capacity - 1)"

definition index_assert :: "ImplicitProducer \<Rightarrow> BlockIndexHeader \<Rightarrow> u64 \<Rightarrow> u64 \<Rightarrow> u64 \<Rightarrow> bool" where
  "index_assert P H tailBase idx index \<longleftrightarrow> tailBase \<noteq> INVALID_BLOCK_BASE \<and> unat idx < length (bih_index H) \<and>
     bie_key (ip_entries P ! (bih_index H ! unat idx)) = base_of index \<and>
     bie_value (ip_entries P ! (bih_index H ! unat idx)) \<noteq> None"

section \<open>Program counters\<close>

text \<open>
  The locals of \<^verbatim>\<open>enqueue_bulk\<close>; \<open>bk_left\<close> is the rest of the input from \<^verbatim>\<open>itemFirst\<close> on, \<open>bk_stop\<close>
  is \<^verbatim>\<open>stopIndex\<close>. A request is one element or a batch.
\<close>

record 'a bulk =
  bk_items :: "'a list"
  bk_startTailIndex :: u64
  bk_startBlock :: "nat option"
  bk_firstAllocatedBlock :: "nat option"
  bk_endBlock :: "nat option"
  bk_blockBaseDiff :: u64
  bk_currentTailIndex :: u64
  bk_stop :: u64
  bk_left :: "'a list"

datatype 'a request = One 'a | Bulk "'a bulk"

text \<open>Where a producing thread is; the names say what it does next.\<close>

datatype 'a ppc =
    PReady "bool option"
  | LoadHead "'a request"
  | Insert "'a request"
  | NewIndex "'a request"
  | StoreKey "'a request" nat u64
  | StoreIndexTail "'a request" nat u64
  | PoolLoad "'a request" nat
  | PoolTake "'a request" nat
  | FreeGet "'a request" nat
  | Create "'a request" nat
  | Rewind "'a request" nat
  | ClearValue "'a request" nat
  | ResetBlock "'a request" nat nat
  | StoreValue "'a request" nat nat
  | WriteElement "'a request"
  | Publish "'a request"
  | Revert "'a bulk" "nat option"
  | RevertTail "'a bulk" nat
  | Release "'a bulk" "nat option"
  | PFault

text \<open>
  The locals of \<^verbatim>\<open>dequeue\<close> and \<^verbatim>\<open>dequeue_bulk\<close> once an index is taken. \<open>dq_max\<close> is \<open>None\<close> for
  \<^verbatim>\<open>dequeue\<close>; \<open>dq_out\<close> holds what was moved out so far.
\<close>

record 'a dq =
  dq_producer :: nat
  dq_max :: "u64 option"
  dq_firstIndex :: u64
  dq_actualCount :: u64
  dq_header :: nat
  dq_indexIndex :: u64
  dq_blockStartIndex :: u64
  dq_index :: u64
  dq_endIndex :: u64
  dq_block :: nat
  dq_out :: "'a list"

datatype 'a cpc =
    CReady "'a list"
  | LoadTail nat "u64 option"
  | LoadOvercommit nat "u64 option" u64
  | LoadOptimistic nat "u64 option" u64 u64
  | TakeTickets nat "u64 option" u64 u64
  | ReloadTail nat "u64 option" u64 u64 u64
  | AddOvercommit nat "u64 option" u64 u64 u64
  | GiveBack nat u64 u64
  | TakeHead nat "u64 option" u64 u64
  | LoadIndex "'a dq"
  | LoadIndexTail "'a dq"
  | LoadKey "'a dq" u64
  | LoadBlock "'a dq"
  | MoveElement "'a dq"
  | SetEmpty "'a dq"
  | Unlink "'a dq"
  | FreeBlock "'a dq"
  | CFault

section \<open>The queue\<close>

text \<open>
  Blocks are shared by all producers; \<open>None\<close> is memory that is not allocated. The blocks of the
  initial pool have the addresses below \<open>initialBlockPoolSize\<close>.
\<close>

record 'a CQ =
  cq_blocks :: "nat \<Rightarrow> 'a Block option"
  initialBlockPoolIndex :: u64
  initialBlockPoolSize :: u64
  freeList :: "nat list"
  producers :: "nat \<Rightarrow> ImplicitProducer"
  cq_ppc :: "nat \<Rightarrow> 'a ppc"
  cq_cpc :: "nat \<Rightarrow> 'a cpc"

definition populate_initial_block_list :: "u64 \<Rightarrow> nat \<Rightarrow> 'a Block option" where
  "populate_initial_block_list blockCount a =
     (if a < unat blockCount then Some (new_Block\<lparr>dynamicallyAllocated := False\<rparr>) else None)"

text \<open>
  The constructor for \<open>capacity\<close> elements. \<open>pool\<close> says whether the pool could be allocated; \<open>ok\<close> and
  \<open>junk\<close> are the outcomes for the index of each producer. Producers are added to the queue when a
  thread first uses it; here they are there from the start, empty.
\<close>

definition new_ConcurrentQueue :: "u64 \<Rightarrow> bool \<Rightarrow> (nat \<Rightarrow> bool) \<Rightarrow> nat option \<Rightarrow> 'a CQ" where
  "new_ConcurrentQueue capacity pool ok junk =
     (let blockCount = (if pool then capacity div BLOCK_SIZE + (if capacity AND (BLOCK_SIZE - 1) = 0 then 0 else 1) else 0)
      in \<lparr>cq_blocks = populate_initial_block_list blockCount, initialBlockPoolIndex = 0, initialBlockPoolSize = blockCount,
          freeList = [], producers = (\<lambda>p. new_ImplicitProducer (ok p) junk),
          cq_ppc = (\<lambda>_. PReady None), cq_cpc = (\<lambda>_. CReady [])\<rparr>)"

definition with_block :: "nat \<Rightarrow> ('a Block \<Rightarrow> 'a Block) \<Rightarrow> 'a CQ \<Rightarrow> 'a CQ" where
  "with_block a f s = s\<lparr>cq_blocks := (cq_blocks s)(a := map_option f (cq_blocks s a))\<rparr>"

definition with_producer :: "nat \<Rightarrow> (ImplicitProducer \<Rightarrow> ImplicitProducer) \<Rightarrow> 'a CQ \<Rightarrow> 'a CQ" where
  "with_producer p f s = s\<lparr>producers := (producers s)(p := f (producers s p))\<rparr>"

definition goto_p :: "nat \<Rightarrow> 'a ppc \<Rightarrow> 'a CQ \<Rightarrow> 'a CQ" where
  "goto_p p pc s = s\<lparr>cq_ppc := (cq_ppc s)(p := pc)\<rparr>"

definition goto_c :: "nat \<Rightarrow> 'a cpc \<Rightarrow> 'a CQ \<Rightarrow> 'a CQ" where
  "goto_c c pc s = s\<lparr>cq_cpc := (cq_cpc s)(c := pc)\<rparr>"

text \<open>\<^verbatim>\<open>freeList.add\<close> and \<^verbatim>\<open>freeList.try_get\<close> are single steps; which block is handed out is left open.\<close>

definition add_block_to_free_list :: "nat \<Rightarrow> 'a CQ \<Rightarrow> 'a CQ" where
  "add_block_to_free_list a s =
     (if \<not> RECYCLE_ALLOCATED_BLOCKS \<and> (case cq_blocks s a of None \<Rightarrow> False | Some b \<Rightarrow> dynamicallyAllocated b)
      then s\<lparr>cq_blocks := (cq_blocks s)(a := None)\<rparr>
      else s\<lparr>freeList := a # freeList s\<rparr>)"


section \<open>Enqueuing\<close>

definition current_index :: "ImplicitProducer \<Rightarrow> 'a request \<Rightarrow> u64" where
  "current_index P req = (case req of One x \<Rightarrow> tailIndex P | Bulk k \<Rightarrow> bk_currentTailIndex k)"

definition newTailIndex :: "'a bulk \<Rightarrow> u64" where
  "newTailIndex k = bk_startTailIndex k + of_nat (length (bk_items k))"

definition stop_index :: "u64 \<Rightarrow> u64 \<Rightarrow> u64" where
  "stop_index cur new = (let stop = base_of cur + BLOCK_SIZE in if circular_less_than new stop then new else stop)"

text \<open>A request fails: \<^verbatim>\<open>enqueue\<close> returns, \<^verbatim>\<open>enqueue_bulk\<close> first undoes its allocations.\<close>

definition give_up :: "nat \<Rightarrow> 'a request \<Rightarrow> 'a CQ \<Rightarrow> 'a CQ" where
  "give_up p req = (case req of One x \<Rightarrow> goto_p p (PReady (Some False))
     | Bulk k \<Rightarrow> goto_p p (Revert (k\<lparr>bk_currentTailIndex := base_of (bk_startTailIndex k - 1)\<rparr>) (bk_firstAllocatedBlock k)))"

text \<open>All blocks are there: start to store the elements of a batch.\<close>

definition bulk_fill :: "nat \<Rightarrow> 'a bulk \<Rightarrow> 'a CQ \<Rightarrow> 'a CQ" where
  "bulk_fill p k s =
     (if slot_of (bk_startTailIndex k) \<noteq> 0 \<or> bk_firstAllocatedBlock k \<noteq> None \<or> bk_items k = []
      then goto_p p (WriteElement (Bulk (k\<lparr>bk_currentTailIndex := bk_startTailIndex k,
               bk_stop := stop_index (bk_startTailIndex k) (newTailIndex k)\<rparr>)))
             (with_producer p (\<lambda>P. P\<lparr>tailBlock :=
               if slot_of (bk_startTailIndex k) = 0 \<and> bk_firstAllocatedBlock k \<noteq> None
               then bk_firstAllocatedBlock k else bk_startBlock k\<rparr>) s)
      else goto_p p PFault s)"

text \<open>The head of the loop that allocates blocks.\<close>

definition bulk_allocate :: "nat \<Rightarrow> 'a bulk \<Rightarrow> 'a CQ \<Rightarrow> 'a CQ" where
  "bulk_allocate p k s =
     (if bk_blockBaseDiff k > 0
      then goto_p p (LoadHead (Bulk (k\<lparr>bk_blockBaseDiff := bk_blockBaseDiff k - BLOCK_SIZE,
                                     bk_currentTailIndex := bk_currentTailIndex k + BLOCK_SIZE\<rparr>))) s
      else bulk_fill p k s)"

definition enqueue_begin :: "nat \<Rightarrow> 'a \<Rightarrow> 'a CQ \<Rightarrow> 'a CQ" where
  "enqueue_begin p x s =
     (if slot_of (tailIndex (producers s p)) = 0 then goto_p p (LoadHead (One x)) s else goto_p p (WriteElement (One x)) s)"

definition enqueue_bulk_begin :: "nat \<Rightarrow> 'a list \<Rightarrow> 'a CQ \<Rightarrow> 'a CQ" where
  "enqueue_bulk_begin p xs s =
     (let P = producers s p; start = tailIndex P
      in bulk_allocate p \<lparr>bk_items = xs, bk_startTailIndex = start, bk_startBlock = tailBlock P, bk_firstAllocatedBlock = None,
           bk_endBlock = tailBlock P, bk_blockBaseDiff = base_of (start + of_nat (length xs) - 1) - base_of (start - 1),
           bk_currentTailIndex = base_of (start - 1), bk_stop = 0, bk_left = xs\<rparr> s)"

text \<open>The check against a full sub-queue, with its assertion.\<close>

definition load_head :: "nat \<Rightarrow> 'a request \<Rightarrow> 'a CQ \<Rightarrow> 'a CQ" where
  "load_head p req s =
     (let P = producers s p; cur = current_index P req; head = headIndex P
      in if circular_less_than cur head then goto_p p PFault s
         else if \<not> circular_less_than head (cur + BLOCK_SIZE) \<or>
                 (MAX_SUBQUEUE_SIZE \<noteq> const_numeric_max \<and> (MAX_SUBQUEUE_SIZE = 0 \<or> MAX_SUBQUEUE_SIZE - BLOCK_SIZE < cur - head))
         then give_up p req s
         else goto_p p (Insert req) s)"

definition insert_entry :: "nat \<Rightarrow> 'a request \<Rightarrow> 'a CQ \<Rightarrow> 'a CQ" where
  "insert_entry p req s = (case next_slot (producers s p) of
       None \<Rightarrow> give_up p req s
     | Some (h, newTail, e) \<Rightarrow>
         if slot_free (ip_entries (producers s p) ! e) then goto_p p (StoreKey req e newTail) s else goto_p p (NewIndex req) s)"

definition insert_in_new_index :: "bool \<Rightarrow> nat \<Rightarrow> nat \<Rightarrow> 'a request \<Rightarrow> 'a CQ \<Rightarrow> 'a CQ" where
  "insert_in_new_index ok n p req s =
     (if ok then (let P = new_block_index (Some n) (producers s p)
        in case next_slot P of
             None \<Rightarrow> goto_p p PFault s
           | Some (h, newTail, e) \<Rightarrow>
               if bie_key (ip_entries P ! e) = INVALID_BLOCK_BASE
               then goto_p p (StoreKey req e newTail) (with_producer p (\<lambda>_. P) s) else goto_p p PFault s)
      else give_up p req s)"

text \<open>\<^verbatim>\<open>requisition_block\<close>: the initial pool, the free list, the heap.\<close>

definition pool_load :: "nat \<Rightarrow> 'a request \<Rightarrow> nat \<Rightarrow> 'a CQ \<Rightarrow> 'a CQ" where
  "pool_load p req e s =
     goto_p p (if initialBlockPoolIndex s \<ge> initialBlockPoolSize s then FreeGet req e else PoolTake req e) s"

definition pool_take :: "nat \<Rightarrow> 'a request \<Rightarrow> nat \<Rightarrow> 'a CQ \<Rightarrow> 'a CQ" where
  "pool_take p req e s =
     (let index = initialBlockPoolIndex s
      in goto_p p (if index < initialBlockPoolSize s then ResetBlock req e (unat index) else FreeGet req e)
           (s\<lparr>initialBlockPoolIndex := index + 1\<rparr>))"

definition free_get :: "bool \<Rightarrow> nat \<Rightarrow> nat \<Rightarrow> 'a request \<Rightarrow> nat \<Rightarrow> 'a CQ \<Rightarrow> 'a CQ" where
  "free_get ok n p req e s =
     (if ok \<and> n < length (freeList s)
      then goto_p p (ResetBlock req e (freeList s ! n)) (s\<lparr>freeList := take n (freeList s) @ drop (Suc n) (freeList s)\<rparr>)
      else goto_p p (Create req e) s)"

definition create_block :: "bool \<Rightarrow> nat \<Rightarrow> nat \<Rightarrow> 'a request \<Rightarrow> nat \<Rightarrow> 'a CQ \<Rightarrow> 'a CQ" where
  "create_block ok n p req e s =
     (if ok \<and> cq_blocks s n = None
      then goto_p p (ResetBlock req e n) (s\<lparr>cq_blocks := (cq_blocks s)(n \<mapsto> new_Block)\<rparr>)
      else goto_p p (Rewind req e) s)"

definition reset_block :: "nat \<Rightarrow> 'a request \<Rightarrow> nat \<Rightarrow> nat \<Rightarrow> 'a CQ \<Rightarrow> 'a CQ" where
  "reset_block p req e b s =
     (if cq_blocks s b = None then goto_p p PFault s
      else goto_p p (StoreValue req e b)
        (with_block b (\<lambda>B. case req of One x \<Rightarrow> reset_empty B | Bulk k \<Rightarrow> (reset_empty B)\<lparr>blk_next := None\<rparr>) s))"

definition link_block :: "nat option \<Rightarrow> nat \<Rightarrow> 'a CQ \<Rightarrow> 'a CQ" where
  "link_block a b s = (case a of None \<Rightarrow> s | Some a' \<Rightarrow> with_block a' (\<lambda>B. B\<lparr>blk_next := Some b\<rparr>) s)"

definition store_value :: "nat \<Rightarrow> 'a request \<Rightarrow> nat \<Rightarrow> nat \<Rightarrow> 'a CQ \<Rightarrow> 'a CQ" where
  "store_value p req e b s =
     (let s = with_producer p (set_entry e (\<lambda>E. E\<lparr>bie_value := Some b\<rparr>)) s;
          set_tail = with_producer p (\<lambda>P. P\<lparr>tailBlock := Some b\<rparr>);
          tail = tailBlock (producers s p)
      in case req of
           One x \<Rightarrow> goto_p p (WriteElement req) (set_tail s)
         | Bulk k \<Rightarrow>
             let k' = k\<lparr>bk_endBlock := Some b,
                        bk_firstAllocatedBlock := if bk_firstAllocatedBlock k = None then Some b else bk_firstAllocatedBlock k\<rparr>
             in if slot_of (bk_startTailIndex k) \<noteq> 0 \<or> bk_firstAllocatedBlock k \<noteq> None
                then if (case tail of None \<Rightarrow> False | Some a \<Rightarrow> cq_blocks s a \<noteq> None)
                     then bulk_allocate p k' (set_tail (link_block tail b s)) else goto_p p PFault s
                else bulk_allocate p k' (set_tail s))"

definition write_element :: "nat \<Rightarrow> 'a request \<Rightarrow> 'a CQ \<Rightarrow> 'a CQ" where
  "write_element p req s =
     (let tail = tailBlock (producers s p)
      in case req of
           One x \<Rightarrow>
             (case tail of None \<Rightarrow> goto_p p PFault s
              | Some a \<Rightarrow> if cq_blocks s a = None then goto_p p PFault s
                         else goto_p p (Publish req) (with_block a (put_el (tailIndex (producers s p)) (Some x)) s))
         | Bulk k \<Rightarrow>
             if bk_currentTailIndex k \<noteq> bk_stop k then
               (case (tail, bk_left k) of
                  (Some a, x # xs) \<Rightarrow>
                    if cq_blocks s a = None then goto_p p PFault s
                    else goto_p p (WriteElement (Bulk (k\<lparr>bk_currentTailIndex := bk_currentTailIndex k + 1, bk_left := xs\<rparr>)))
                           (with_block a (put_el (bk_currentTailIndex k) (Some x)) s)
                | _ \<Rightarrow> goto_p p PFault s)
             else if tail = bk_endBlock k then
               goto_p p (if bk_currentTailIndex k = newTailIndex k then Publish req else PFault) s
             else (case tail of
                 Some a \<Rightarrow> (case cq_blocks s a of None \<Rightarrow> goto_p p PFault s
                   | Some B \<Rightarrow> goto_p p (WriteElement (Bulk (k\<lparr>bk_stop := stop_index (bk_currentTailIndex k) (newTailIndex k)\<rparr>)))
                                (with_producer p (\<lambda>P. P\<lparr>tailBlock := blk_next B\<rparr>) s))
               | None \<Rightarrow> goto_p p PFault s))"

definition publish :: "nat \<Rightarrow> 'a request \<Rightarrow> 'a CQ \<Rightarrow> 'a CQ" where
  "publish p req s =
     goto_p p (PReady (Some True)) (with_producer p (\<lambda>P. P\<lparr>tailIndex :=
       (case req of One x \<Rightarrow> 1 + tailIndex P | Bulk k \<Rightarrow> newTailIndex k)\<rparr>) s)"

text \<open>The loops that undo a batch: the entry of each block, then the blocks themselves.\<close>

definition revert_entry :: "nat \<Rightarrow> 'a bulk \<Rightarrow> nat option \<Rightarrow> 'a CQ \<Rightarrow> 'a CQ" where
  "revert_entry p k blk s = (case blk of None \<Rightarrow> goto_p p (Release k (bk_firstAllocatedBlock k)) s
     | Some b \<Rightarrow>
         let P = producers s p; cur = bk_currentTailIndex k + BLOCK_SIZE
         in case blockIndex P of None \<Rightarrow> goto_p p PFault s
            | Some h \<Rightarrow>
                let H = ip_headers P ! h; tail = bih_tail H; tailBase = bie_key (ip_entries P ! (bih_index H ! unat tail));
                    idx = index_index cur tail tailBase (bih_capacity H)
                in if index_assert P H tailBase idx cur
                   then goto_p p (RevertTail (k\<lparr>bk_currentTailIndex := cur\<rparr>) b)
                          (with_producer p (set_entry (bih_index H ! unat idx) (\<lambda>E. E\<lparr>bie_value := None\<rparr>)) s)
                   else goto_p p PFault s)"

definition revert_tail :: "nat \<Rightarrow> 'a bulk \<Rightarrow> nat \<Rightarrow> 'a CQ \<Rightarrow> 'a CQ" where
  "revert_tail p k b s = (case cq_blocks s b of None \<Rightarrow> goto_p p PFault s
     | Some B \<Rightarrow> goto_p p (Revert k (blk_next B)) (with_producer p rewind_block_index_tail s))"

definition release_block :: "nat \<Rightarrow> 'a bulk \<Rightarrow> nat option \<Rightarrow> 'a CQ \<Rightarrow> 'a CQ" where
  "release_block p k blk s = (case blk of
       None \<Rightarrow> goto_p p (PReady (Some False)) (with_producer p (\<lambda>P. P\<lparr>tailBlock := bk_startBlock k\<rparr>) s)
     | Some b \<Rightarrow> (case cq_blocks s b of None \<Rightarrow> goto_p p PFault s
         | Some B \<Rightarrow> goto_p p (Release k (blk_next B)) (add_block_to_free_list b s)))"

text \<open>
  One step of the thread of producer \<open>p\<close>. \<open>ok\<close> and \<open>n\<close> are what is not determined: whether an
  allocation succeeds or the free list gives a block, and which.
\<close>

fun enqueue_step :: "bool \<Rightarrow> nat \<Rightarrow> nat \<Rightarrow> 'a ppc \<Rightarrow> 'a CQ \<Rightarrow> 'a CQ" where
  "enqueue_step ok n p (PReady r) s = s"
| "enqueue_step ok n p (LoadHead req) s = load_head p req s"
| "enqueue_step ok n p (Insert req) s = insert_entry p req s"
| "enqueue_step ok n p (NewIndex req) s = insert_in_new_index ok n p req s"
| "enqueue_step ok n p (StoreKey req e t) s =
     goto_p p (StoreIndexTail req e t)
       (with_producer p (set_entry e (\<lambda>E. E\<lparr>bie_key := current_index (producers s p) req\<rparr>)) s)"
| "enqueue_step ok n p (StoreIndexTail req e t) s =
     goto_p p (PoolLoad req e)
       (with_producer p (\<lambda>P. set_header (the (blockIndex P)) (\<lambda>H. H\<lparr>bih_tail := t\<rparr>) P) s)"
| "enqueue_step ok n p (PoolLoad req e) s = pool_load p req e s"
| "enqueue_step ok n p (PoolTake req e) s = pool_take p req e s"
| "enqueue_step ok n p (FreeGet req e) s = free_get ok n p req e s"
| "enqueue_step ok n p (Create req e) s = create_block ok n p req e s"
| "enqueue_step ok n p (Rewind req e) s = goto_p p (ClearValue req e) (with_producer p rewind_block_index_tail s)"
| "enqueue_step ok n p (ClearValue req e) s =
     give_up p req (with_producer p (set_entry e (\<lambda>E. E\<lparr>bie_value := None\<rparr>)) s)"
| "enqueue_step ok n p (ResetBlock req e b) s = reset_block p req e b s"
| "enqueue_step ok n p (StoreValue req e b) s = store_value p req e b s"
| "enqueue_step ok n p (WriteElement req) s = write_element p req s"
| "enqueue_step ok n p (Publish req) s = publish p req s"
| "enqueue_step ok n p (Revert k b) s = revert_entry p k b s"
| "enqueue_step ok n p (RevertTail k b) s = revert_tail p k b s"
| "enqueue_step ok n p (Release k b) s = release_block p k b s"
| "enqueue_step ok n p PFault s = s"

section \<open>Dequeuing\<close>

text \<open>How many elements to ask for, after the first loads; \<open>None\<close>: the producer looks empty.\<close>

definition wanted :: "u64 option \<Rightarrow> u64 \<Rightarrow> u64 \<Rightarrow> u64 \<Rightarrow> u64 option" where
  "wanted mx tail overcommit optimistic = (case mx of
       None \<Rightarrow> if circular_less_than (optimistic - overcommit) tail then Some 1 else None
     | Some m \<Rightarrow> let desiredCount = tail - (optimistic - overcommit)
         in if circular_less_than 0 desiredCount then Some (if desiredCount < m then desiredCount else m) else None)"

text \<open>How many of them are there, after the second load of the tail; \<open>None\<close>: none.\<close>

definition granted :: "u64 option \<Rightarrow> u64 \<Rightarrow> u64 \<Rightarrow> u64 \<Rightarrow> u64 \<Rightarrow> u64 option" where
  "granted mx desired tail overcommit my = (case mx of
       None \<Rightarrow> if circular_less_than (my - overcommit) tail then Some 1 else None
     | Some m \<Rightarrow> let actualCount = tail - (my - overcommit)
         in if circular_less_than 0 actualCount then Some (if desired < actualCount then desired else actualCount) else None)"

definition end_index :: "'a dq \<Rightarrow> u64" where
  "end_index d = (let endIndex = base_of (dq_index d) + BLOCK_SIZE; last = dq_firstIndex d + dq_actualCount d
     in if circular_less_than last endIndex then last else endIndex)"

definition dq_P :: "'a CQ \<Rightarrow> 'a dq \<Rightarrow> ImplicitProducer" where
  "dq_P s d = producers s (dq_producer d)"

definition dq_H :: "'a CQ \<Rightarrow> 'a dq \<Rightarrow> BlockIndexHeader" where
  "dq_H s d = ip_headers (dq_P s d) ! dq_header d"

definition dq_entry :: "'a CQ \<Rightarrow> 'a dq \<Rightarrow> nat" where
  "dq_entry s d = bih_index (dq_H s d) ! unat (dq_indexIndex d)"

text \<open>The end of the body of the loop over blocks.\<close>

definition next_block :: "'a CQ \<Rightarrow> 'a dq \<Rightarrow> 'a cpc" where
  "next_block s d =
     (if dq_index d \<noteq> dq_firstIndex d + dq_actualCount d
      then LoadBlock (d\<lparr>dq_indexIndex := (dq_indexIndex d + 1) AND (bih_capacity (dq_H s d) - 1)\<rparr>)
      else CReady (dq_out d))"

definition load_key :: "nat \<Rightarrow> 'a dq \<Rightarrow> u64 \<Rightarrow> 'a CQ \<Rightarrow> 'a CQ" where
  "load_key c d t s =
     (let P = dq_P s d; H = dq_H s d; tailBase = bie_key (ip_entries P ! (bih_index H ! unat t));
          idx = index_index (dq_firstIndex d) t tailBase (bih_capacity H)
      in if index_assert P H tailBase idx (dq_firstIndex d)
         then goto_c c (LoadBlock (d\<lparr>dq_indexIndex := idx\<rparr>)) s else goto_c c CFault s)"

definition load_block :: "nat \<Rightarrow> 'a dq \<Rightarrow> 'a CQ \<Rightarrow> 'a CQ" where
  "load_block c d s = (case bie_value (ip_entries (dq_P s d) ! dq_entry s d) of
       None \<Rightarrow> goto_c c CFault s
     | Some b \<Rightarrow>
         let d' = d\<lparr>dq_blockStartIndex := dq_index d, dq_endIndex := end_index d, dq_block := b\<rparr>
         in goto_c c (if dq_index d \<noteq> end_index d then MoveElement d' else SetEmpty d') s)"

definition move_element :: "nat \<Rightarrow> 'a dq \<Rightarrow> 'a CQ \<Rightarrow> 'a CQ" where
  "move_element c d s = (case Option.bind (cq_blocks s (dq_block d)) (\<lambda>B. get_el B (dq_index d)) of
       None \<Rightarrow> goto_c c CFault s
     | Some x \<Rightarrow>
         let d' = d\<lparr>dq_index := dq_index d + 1, dq_out := dq_out d @ [x]\<rparr>
         in goto_c c (if dq_index d' \<noteq> dq_endIndex d then MoveElement d' else SetEmpty d')
              (with_block (dq_block d) (put_el (dq_index d) None) s))"

definition mark_empty :: "nat \<Rightarrow> 'a dq \<Rightarrow> 'a CQ \<Rightarrow> 'a CQ" where
  "mark_empty c d s =
     (let marked = (case dq_max d of None \<Rightarrow> set_empty | Some _ \<Rightarrow> set_many_empty (dq_endIndex d - dq_blockStartIndex d))
      in case Option.bind (cq_blocks s (dq_block d)) marked of
           None \<Rightarrow> goto_c c CFault s
         | Some (B, emptied) \<Rightarrow> goto_c c (if emptied then Unlink d else next_block s d) (with_block (dq_block d) (\<lambda>_. B) s))"

text \<open>One step of consumer \<open>c\<close>.\<close>

fun dequeue_step :: "nat \<Rightarrow> 'a cpc \<Rightarrow> 'a CQ \<Rightarrow> 'a CQ" where
  "dequeue_step c (CReady out) s = s"
| "dequeue_step c (LoadTail p mx) s = goto_c c (LoadOvercommit p mx (tailIndex (producers s p))) s"
| "dequeue_step c (LoadOvercommit p mx tail) s = goto_c c (LoadOptimistic p mx tail (dequeueOvercommit (producers s p))) s"
| "dequeue_step c (LoadOptimistic p mx tail over) s =
     goto_c c (case wanted mx tail over (dequeueOptimisticCount (producers s p)) of
         None \<Rightarrow> CReady [] | Some desired \<Rightarrow> TakeTickets p mx desired over) s"
| "dequeue_step c (TakeTickets p mx desired over) s =
     goto_c c (ReloadTail p mx desired over (dequeueOptimisticCount (producers s p)))
       (with_producer p (\<lambda>P. P\<lparr>dequeueOptimisticCount := dequeueOptimisticCount P + desired\<rparr>) s)"
| "dequeue_step c (ReloadTail p mx desired over my) s =
     goto_c c (case granted mx desired (tailIndex (producers s p)) over my of
         None \<Rightarrow> GiveBack p my desired
       | Some actual \<Rightarrow> if actual < desired then AddOvercommit p mx my desired actual else TakeHead p mx my actual) s"
| "dequeue_step c (AddOvercommit p mx my desired actual) s =
     goto_c c (TakeHead p mx my actual)
       (with_producer p (\<lambda>P. P\<lparr>dequeueOvercommit := dequeueOvercommit P + (desired - actual)\<rparr>) s)"
| "dequeue_step c (GiveBack p my desired) s =
     goto_c c (CReady []) (with_producer p (\<lambda>P. P\<lparr>dequeueOvercommit := dequeueOvercommit P + desired\<rparr>) s)"
| "dequeue_step c (TakeHead p mx my actual) s =
     (let firstIndex = headIndex (producers s p)
      in goto_c c (LoadIndex \<lparr>dq_producer = p, dq_max = mx, dq_firstIndex = firstIndex, dq_actualCount = actual, dq_header = 0,
             dq_indexIndex = 0, dq_blockStartIndex = firstIndex, dq_index = firstIndex, dq_endIndex = 0, dq_block = 0, dq_out = []\<rparr>)
           (with_producer p (\<lambda>P. P\<lparr>headIndex := headIndex P + actual\<rparr>) s))"
| "dequeue_step c (LoadIndex d) s =
     goto_c c (case blockIndex (dq_P s d) of None \<Rightarrow> CFault | Some h \<Rightarrow> LoadIndexTail (d\<lparr>dq_header := h\<rparr>)) s"
| "dequeue_step c (LoadIndexTail d) s = goto_c c (LoadKey d (bih_tail (dq_H s d))) s"
| "dequeue_step c (LoadKey d t) s = load_key c d t s"
| "dequeue_step c (LoadBlock d) s = load_block c d s"
| "dequeue_step c (MoveElement d) s = move_element c d s"
| "dequeue_step c (SetEmpty d) s = mark_empty c d s"
| "dequeue_step c (Unlink d) s =
     goto_c c (FreeBlock d) (with_producer (dq_producer d) (set_entry (dq_entry s d) (\<lambda>E. E\<lparr>bie_value := None\<rparr>)) s)"
| "dequeue_step c (FreeBlock d) s = goto_c c (next_block s d) (add_block_to_free_list (dq_block d) s)"
| "dequeue_step c CFault s = s"

section \<open>Runs\<close>

text \<open>
  The history of a run: the elements each producer published, and for each element moved out the
  consumer, the producer and the index, in the order of the moves.
\<close>

record 'a history =
  published :: "nat \<Rightarrow> 'a list"
  delivered :: "(nat \<times> nat \<times> nat \<times> 'a) list"

fun publishes :: "'a ppc \<Rightarrow> 'a list" where
  "publishes (Publish (One x)) = [x]"
| "publishes (Publish (Bulk k)) = bk_items k"
| "publishes _ = []"

fun delivers :: "nat \<Rightarrow> 'a cpc \<Rightarrow> 'a CQ \<Rightarrow> (nat \<times> nat \<times> nat \<times> 'a) list" where
  "delivers c (MoveElement d) s = (case Option.bind (cq_blocks s (dq_block d)) (\<lambda>B. get_el B (dq_index d)) of
     None \<Rightarrow> [] | Some x \<Rightarrow> [(c, dq_producer d, unat (dq_index d), x)])"
| "delivers c _ s = []"

text \<open>
  The counters are far from their width: at \<open>10\<^sup>9\<close> operations per second it takes more than a
  century to get there. The library relies on the same assumption.
\<close>

definition within_range :: "'a CQ \<Rightarrow> bool" where
  "within_range s \<longleftrightarrow> unat (initialBlockPoolIndex s) < 2 ^ 62 \<and>
     (\<forall>p. unat (tailIndex (producers s p)) < 2 ^ 62 \<and> unat (dequeueOptimisticCount (producers s p)) < 2 ^ 62)"

inductive cq_step :: "'a CQ \<times> 'a history \<Rightarrow> 'a CQ \<times> 'a history \<Rightarrow> bool" where
  call_enqueue: "cq_ppc s p = PReady r \<Longrightarrow> cq_step (s, h) (enqueue_begin p x s, h)"
| call_enqueue_bulk: "cq_ppc s p = PReady r \<Longrightarrow> length xs < 2 ^ 62 \<Longrightarrow> cq_step (s, h) (enqueue_bulk_begin p xs s, h)"
| produce: "cq_step (s, h)
     (enqueue_step ok n p (cq_ppc s p) s, h\<lparr>published := (published h)(p := published h p @ publishes (cq_ppc s p))\<rparr>)"
| call_dequeue: "cq_cpc s c = CReady out \<Longrightarrow> mx \<noteq> Some 0 \<Longrightarrow> cq_step (s, h) (goto_c c (LoadTail p mx) s, h)"
| consume: "cq_step (s, h)
     (dequeue_step c (cq_cpc s c) s, h\<lparr>delivered := delivered h @ delivers c (cq_cpc s c) s\<rparr>)"

inductive cq_run :: "'a CQ \<times> 'a history \<Rightarrow> 'a CQ \<times> 'a history \<Rightarrow> bool" where
  cq_refl: "cq_run s s"
| cq_more: "cq_run s t \<Longrightarrow> cq_step t u \<Longrightarrow> within_range (fst u) \<Longrightarrow> cq_run s u"

definition no_history :: "'a history" where
  "no_history = \<lparr>published = \<lambda>_. [], delivered = []\<rparr>"

end
