(* ===== verification/ConcurrentQueue_Tickets.thy ===== *)
theory ConcurrentQueue_Tickets
  imports ConcurrentQueue
begin

unbundle bit_operations_syntax

text \<open>
  How consumers share the elements of a producer. A ticket is a value of \<^verbatim>\<open>dequeueOptimisticCount\<close>
  that one consumer got; a consumer whose ticket is beyond the tail gives it back by
  \<^verbatim>\<open>dequeueOvercommit\<close>. The invariant \<open>tickets_inv\<close> keeps the tickets that failed (\<open>F\<close>), those of them
  that are given back (\<open>A\<close>) and those exchanged for an index (\<open>S\<close>). It gives that no index beyond the
  tail is taken.
\<close>

section \<open>Words\<close>

lemma circular_less_than_small:
  assumes "unat a < 2 ^ 63" "unat b < 2 ^ 63"
  shows "circular_less_than a b \<longleftrightarrow> unat a < unat b"
  using assms by (auto simp: circular_less_than_def word_less_nat_alt unat_sub_if' push_bit_of_1)

lemma unat_small [simp]: "n < 2 ^ 64 \<Longrightarrow> unat (of_nat n :: u64) = n"
  by (simp add: unat_of_nat)

lemma unat_plus: "unat a + unat b < 2 ^ 64 \<Longrightarrow> unat (a + b) = unat a + unat b" for a b :: u64
  by (simp add: unat_add_lem [symmetric])

lemma not_one_less: "\<not> 1 < x \<longleftrightarrow> x = 0 \<or> x = 1" for x :: u64
  by (auto simp: word_less_nat_alt word_unat_eq_iff)

lemma min_word: "unat (if a < b then a else b) = min (unat a) (unat b)" for a b :: u64
  by (simp add: word_less_nat_alt min_def)

text \<open>A single \<^verbatim>\<open>dequeue\<close> decides as \<^verbatim>\<open>dequeue_bulk\<close> with \<open>max = 1\<close>.\<close>

lemma wanted_one: "wanted None tail over opt = wanted (Some 1) tail over opt"
  by (auto simp: wanted_def Let_def circular_less_than_def algebra_simps word_less_1)

lemma granted_one: "granted None 1 tail over my = granted (Some 1) 1 tail over my"
proof -
  define x where "x = tail - (my - over)"
  have "my - over - tail = - x" by (simp add: x_def)
  moreover have "(if 1 < x then 1 else x) = 1" if "x \<noteq> 0" using that not_one_less [of x] by auto
  ultimately show ?thesis by (cases "x = 0") (auto simp: granted_def circular_less_than_def simp flip: x_def)
qed

lemma distance:
  assumes "unat tail < 2 ^ 62" "unat opt < 2 ^ 62" "unat over \<le> unat opt"
  shows "circular_less_than 0 (tail - (opt - over)) \<longleftrightarrow> unat opt < unat tail + unat over"
    and "unat opt < unat tail + unat over \<Longrightarrow> unat (tail - (opt - over)) = unat tail + unat over - unat opt"
proof -
  have o: "unat (opt - over) = unat opt - unat over" using assms by (simp add: unat_sub_if')
  have "circular_less_than 0 (tail - (opt - over)) \<longleftrightarrow> circular_less_than (opt - over) tail"
    by (simp add: circular_less_than_def)
  also have "\<dots> \<longleftrightarrow> unat opt < unat tail + unat over" using assms by (subst circular_less_than_small) (auto simp: o)
  finally show "circular_less_than 0 (tail - (opt - over)) \<longleftrightarrow> unat opt < unat tail + unat over" .
  show "unat (tail - (opt - over)) = unat tail + unat over - unat opt" if "unat opt < unat tail + unat over"
    using that assms by (simp add: unat_sub_if' o)
qed

definition at_most :: "u64 option \<Rightarrow> nat" where
  "at_most mx = (case mx of None \<Rightarrow> 1 | Some m \<Rightarrow> unat m)"

lemma wanted_exact:
  assumes "unat tail < 2 ^ 62" "unat opt < 2 ^ 62" "unat over \<le> unat opt"
  shows "wanted mx tail over opt = None \<longleftrightarrow> unat tail + unat over \<le> unat opt"
    and "wanted mx tail over opt = Some d \<Longrightarrow> unat d = min (unat tail + unat over - unat opt) (at_most mx)"
proof -
  have w: "wanted mx tail over opt = wanted (Some (case mx of None \<Rightarrow> 1 | Some m \<Rightarrow> m)) tail over opt"
    by (cases mx) (simp_all add: wanted_one)
  show "wanted mx tail over opt = None \<longleftrightarrow> unat tail + unat over \<le> unat opt"
    unfolding w using distance(1) [OF assms] by (auto simp: wanted_def Let_def)
  show "unat d = min (unat tail + unat over - unat opt) (at_most mx)" if "wanted mx tail over opt = Some d"
    using that distance [OF assms] unfolding w
    by (auto simp: wanted_def Let_def at_most_def word_less_nat_alt min_def split: if_splits option.splits)
qed

lemma granted_exact:
  assumes "unat tail < 2 ^ 62" "unat my < 2 ^ 62" "unat over \<le> unat my" "mx = None \<Longrightarrow> d = 1"
  shows "granted mx d tail over my = None \<longleftrightarrow> unat tail + unat over \<le> unat my"
    and "granted mx d tail over my = Some a \<Longrightarrow> unat a = min (unat tail + unat over - unat my) (unat d)"
proof -
  have w: "granted mx d tail over my = granted (Some 1) d tail over my"
    using assms(4) by (cases mx) (simp_all add: granted_one, simp add: granted_def)
  show "granted mx d tail over my = None \<longleftrightarrow> unat tail + unat over \<le> unat my"
    unfolding w using distance(1) [OF assms(1-3)] by (auto simp: granted_def Let_def)
  show "unat a = min (unat tail + unat over - unat my) (unat d)" if "granted mx d tail over my = Some a"
    using that distance [OF assms(1-3)] unfolding w
    by (auto simp: granted_def Let_def word_less_nat_alt min_def split: if_splits)
qed

section \<open>Tickets\<close>

fun undecided :: "nat \<Rightarrow> 'a cpc \<Rightarrow> nat set" where
  "undecided p (ReloadTail q mx d over my) = (if q = p then {unat my ..< unat my + unat d} else {})"
| "undecided p _ = {}"

fun lost :: "nat \<Rightarrow> 'a cpc \<Rightarrow> nat set" where
  "lost p (AddOvercommit q mx my d a) = (if q = p then {unat my + unat a ..< unat my + unat d} else {})"
| "lost p (GiveBack q my d) = (if q = p then {unat my ..< unat my + unat d} else {})"
| "lost p _ = {}"

fun won :: "nat \<Rightarrow> 'a cpc \<Rightarrow> nat set" where
  "won p (AddOvercommit q mx my d a) = (if q = p then {unat my ..< unat my + unat a} else {})"
| "won p (TakeHead q mx my a) = (if q = p then {unat my ..< unat my + unat a} else {})"
| "won p _ = {}"

definition tickets :: "nat \<Rightarrow> 'a cpc \<Rightarrow> nat set" where
  "tickets p pc = undecided p pc \<union> lost p pc \<union> won p pc"

fun locals_ok :: "nat set \<Rightarrow> nat \<Rightarrow> nat \<Rightarrow> 'a cpc \<Rightarrow> bool" where
  "locals_ok F T p (LoadTail q mx) \<longleftrightarrow> (mx \<noteq> Some 0)"
| "locals_ok F T p (LoadOvercommit q mx tail) \<longleftrightarrow> (mx \<noteq> Some 0 \<and> (q = p \<longrightarrow> unat tail \<le> T))"
| "locals_ok F T p (LoadOptimistic q mx tail over) \<longleftrightarrow> (mx \<noteq> Some 0 \<and> (q = p \<longrightarrow> unat tail \<le> T \<and> unat over \<le> card F))"
| "locals_ok F T p (TakeTickets q mx d over) \<longleftrightarrow> (q = p \<longrightarrow> unat over \<le> card F \<and> 0 < unat d \<and> unat d \<le> T \<and> (mx = None \<longrightarrow> d = 1))"
| "locals_ok F T p (ReloadTail q mx d over my) \<longleftrightarrow>
     (q = p \<longrightarrow> unat over \<le> card (F \<inter> {..< unat my}) \<and> 0 < unat d \<and> (mx = None \<longrightarrow> d = 1))"
| "locals_ok F T p (AddOvercommit q mx my d a) \<longleftrightarrow> (q = p \<longrightarrow> 0 < unat a \<and> unat a < unat d \<and> (mx = None \<longrightarrow> a = 1))"
| "locals_ok F T p (TakeHead q mx my a) \<longleftrightarrow> (q = p \<longrightarrow> 0 < unat a \<and> (mx = None \<longrightarrow> a = 1))"
| "locals_ok F T p _ \<longleftrightarrow> True"

text \<open>
  \<open>F\<close> are the tickets of \<open>p\<close> that were refused, \<open>A\<close> those of them that are counted in
  \<^verbatim>\<open>dequeueOvercommit\<close>, \<open>S\<close> the tickets that were exchanged for an index.
\<close>

definition tickets_inv :: "nat \<Rightarrow> ImplicitProducer \<Rightarrow> (nat \<Rightarrow> 'a cpc) \<Rightarrow> nat set \<Rightarrow> nat set \<Rightarrow> nat set \<Rightarrow> bool" where
  "tickets_inv p P pcs F A S \<longleftrightarrow>
     F \<subseteq> {..< unat (dequeueOptimisticCount P)} \<and> A \<subseteq> F \<and> S \<subseteq> {..< unat (dequeueOptimisticCount P)} - F \<and>
     unat (dequeueOvercommit P) = card A \<and> unat (headIndex P) = card S \<and>
     {..< unat (dequeueOptimisticCount P)} \<subseteq> A \<union> S \<union> (\<Union>c. tickets p (pcs c)) \<and>
     (\<forall>c. tickets p (pcs c) \<subseteq> {..< unat (dequeueOptimisticCount P)} \<and> lost p (pcs c) \<subseteq> F - A \<and>
        (won p (pcs c) \<union> undecided p (pcs c)) \<inter> (F \<union> S) = {} \<and> locals_ok F (unat (tailIndex P)) p (pcs c)) \<and>
     (\<forall>c c'. c \<noteq> c' \<longrightarrow> tickets p (pcs c) \<inter> tickets p (pcs c') = {}) \<and>
     (\<forall>k \<in> S \<union> (\<Union>c. won p (pcs c)). k < unat (tailIndex P) + card (F \<inter> {..< k}))"

lemma tickets_invD:
  assumes "tickets_inv p P pcs F A S"
  shows "F \<subseteq> {..< unat (dequeueOptimisticCount P)}" "A \<subseteq> F" "S \<subseteq> {..< unat (dequeueOptimisticCount P)} - F"
    "unat (dequeueOvercommit P) = card A" "unat (headIndex P) = card S"
    "{..< unat (dequeueOptimisticCount P)} \<subseteq> A \<union> S \<union> (\<Union>c. tickets p (pcs c))"
    "tickets p (pcs c) \<subseteq> {..< unat (dequeueOptimisticCount P)}" "lost p (pcs c) \<subseteq> F - A"
    "(won p (pcs c) \<union> undecided p (pcs c)) \<inter> (F \<union> S) = {}" "locals_ok F (unat (tailIndex P)) p (pcs c)"
    "c \<noteq> c' \<Longrightarrow> tickets p (pcs c) \<inter> tickets p (pcs c') = {}"
    "k \<in> S \<or> k \<in> won p (pcs c) \<Longrightarrow> k < unat (tailIndex P) + card (F \<inter> {..< k})"
proof -
  note all = assms [unfolded tickets_inv_def]
  from all show "F \<subseteq> {..< unat (dequeueOptimisticCount P)}" "A \<subseteq> F" "S \<subseteq> {..< unat (dequeueOptimisticCount P)} - F"
    "unat (dequeueOvercommit P) = card A" "unat (headIndex P) = card S"
    "{..< unat (dequeueOptimisticCount P)} \<subseteq> A \<union> S \<union> (\<Union>c. tickets p (pcs c))" by - (elim conjE, assumption)+
  from all have "tickets p (pcs c) \<subseteq> {..< unat (dequeueOptimisticCount P)} \<and> lost p (pcs c) \<subseteq> F - A \<and>
    (won p (pcs c) \<union> undecided p (pcs c)) \<inter> (F \<union> S) = {} \<and> locals_ok F (unat (tailIndex P)) p (pcs c)"
    by (elim conjE allE [of _ c]) (intro conjI)
  then show "tickets p (pcs c) \<subseteq> {..< unat (dequeueOptimisticCount P)}" "lost p (pcs c) \<subseteq> F - A"
    "(won p (pcs c) \<union> undecided p (pcs c)) \<inter> (F \<union> S) = {}" "locals_ok F (unat (tailIndex P)) p (pcs c)" by - (elim conjE, assumption)+
  from all show "tickets p (pcs c) \<inter> tickets p (pcs c') = {}" if "c \<noteq> c'" using that by (elim conjE) simp
  from all have "\<forall>k \<in> S \<union> (\<Union>c. won p (pcs c)). k < unat (tailIndex P) + card (F \<inter> {..< k})" by (elim conjE)
  then show "k < unat (tailIndex P) + card (F \<inter> {..< k})" if "k \<in> S \<or> k \<in> won p (pcs c)" using that by blast
qed

lemma tickets_invI:
  assumes "F \<subseteq> {..< unat (dequeueOptimisticCount P)}" "A \<subseteq> F" "S \<subseteq> {..< unat (dequeueOptimisticCount P)} - F"
    "unat (dequeueOvercommit P) = card A" "unat (headIndex P) = card S"
    "{..< unat (dequeueOptimisticCount P)} \<subseteq> A \<union> S \<union> (\<Union>c. tickets p (pcs c))"
    "\<And>c. tickets p (pcs c) \<subseteq> {..< unat (dequeueOptimisticCount P)}" "\<And>c. lost p (pcs c) \<subseteq> F - A"
    "\<And>c. (won p (pcs c) \<union> undecided p (pcs c)) \<inter> (F \<union> S) = {}" "\<And>c. locals_ok F (unat (tailIndex P)) p (pcs c)"
    "\<And>c c'. c \<noteq> c' \<Longrightarrow> tickets p (pcs c) \<inter> tickets p (pcs c') = {}"
    "\<And>k c. k \<in> S \<or> k \<in> won p (pcs c) \<Longrightarrow> k < unat (tailIndex P) + card (F \<inter> {..< k})"
  shows "tickets_inv p P pcs F A S"
  unfolding tickets_inv_def
proof (intro conjI allI ballI impI)
  show "k < unat (tailIndex P) + card (F \<inter> {..< k})" if "k \<in> S \<union> (\<Union>c. won p (pcs c))" for k
    using that assms(12) by blast
qed (rule assms; assumption)+

lemma tickets_bound:
  assumes "finite F" and X: "X \<inter> F = {}" "finite X" and le: "\<And>k. k \<in> X \<Longrightarrow> k < T + card (F \<inter> {..< k})"
  shows "card X \<le> T"
proof (cases "X = {}")
  case False
  define M where "M = Max X"
  have M: "M \<in> X" "\<And>k. k \<in> X \<Longrightarrow> k \<le> M" using False X(2) by (simp_all add: M_def)
  have "X \<subseteq> {..M} - F \<inter> {..<M}" using X(1) M(2) by auto
  then have "card X \<le> card ({..M} - F \<inter> {..<M})" by (rule card_mono [rotated]) simp
  also have "\<dots> = Suc M - card (F \<inter> {..<M})" by (subst card_Diff_subset) auto
  also have "\<dots> \<le> T" using le [OF M(1)] by simp
  finally show ?thesis .
qed simp

lemma tickets_inv_finite: "tickets_inv p P pcs F A S \<Longrightarrow> finite F \<and> finite A \<and> finite S"
  unfolding tickets_inv_def by (meson finite_Diff finite_lessThan finite_subset)

text \<open>An index is taken only if it is below the tail.\<close>

lemma head_below_tail:
  assumes inv: "tickets_inv p P pcs F A S"
  shows "unat (headIndex P) + card (won p (pcs c)) \<le> unat (tailIndex P)"
proof -
  have "finite (won p (pcs c))" by (cases "pcs c") auto
  moreover have "(S \<union> won p (pcs c)) \<inter> F = {}" "S \<inter> won p (pcs c) = {}" using inv by (auto simp: tickets_inv_def)
  moreover have "card (S \<union> won p (pcs c)) \<le> unat (tailIndex P)"
    using tickets_inv_finite [OF inv] calculation inv
    by (intro tickets_bound [of F]) (auto simp: tickets_inv_def)
  ultimately show ?thesis using inv tickets_inv_finite [OF inv] by (simp add: tickets_inv_def card_Un_disjoint)
qed

lemma over_le_opt:
  assumes inv: "tickets_inv p P pcs F A S"
  shows "card F \<le> unat (dequeueOptimisticCount P)" "unat (dequeueOvercommit P) \<le> card F"
  using inv tickets_inv_finite [OF inv] card_mono [of "{..< unat (dequeueOptimisticCount P)}" F] card_mono [of F A]
  by (auto simp: tickets_inv_def)

lemma locals_ok_mono:
  assumes "locals_ok F T p pc" "F \<subseteq> F'" "finite F'" "T \<le> T'"
  shows "locals_ok F' T' p pc"
proof -
  have f: "card F \<le> card F'" using assms(2,3) by (simp add: card_mono)
  show ?thesis
  proof (cases pc)
    case (ReloadTail q mx d over my)
    have "card (F \<inter> {..< unat my}) \<le> card (F' \<inter> {..< unat my})" using assms(2,3) by (intro card_mono) auto
    then show ?thesis using assms(1) ReloadTail by auto
  qed (use assms(1,4) f in auto)
qed

text \<open>Steps that leave the counters and the tickets alone.\<close>

lemma tickets_inv_frame:
  assumes inv: "tickets_inv p P pcs F A S"
    and P: "dequeueOptimisticCount P' = dequeueOptimisticCount P" "dequeueOvercommit P' = dequeueOvercommit P"
      "headIndex P' = headIndex P" "unat (tailIndex P) \<le> unat (tailIndex P')"
    and same: "\<And>c. undecided p (pcs' c) = undecided p (pcs c) \<and> lost p (pcs' c) = lost p (pcs c) \<and> won p (pcs' c) = won p (pcs c)"
    and ok: "\<And>c. locals_ok F (unat (tailIndex P)) p (pcs c) \<Longrightarrow> locals_ok F (unat (tailIndex P')) p (pcs' c)"
  shows "tickets_inv p P' pcs' F A S"
proof -
  have t: "tickets p (pcs' c) = tickets p (pcs c)" for c by (simp add: tickets_def same)
  note D = tickets_invD [OF inv]
  show ?thesis
  proof (rule tickets_invI)
    show "k < unat (tailIndex P') + card (F \<inter> {..< k})" if "k \<in> S \<or> k \<in> won p (pcs' c)" for k c
      using D(12) [of k c] P(4) that same [of c] by simp
  qed (use D(1-9) D(11) ok [OF D(10)] in \<open>simp_all add: P t same\<close>)
qed

lemma cover_shift:
  assumes "X \<subseteq> A \<union> S \<union> (\<Union>c. f c)" and "\<And>c. f c \<subseteq> g c \<union> B"
  shows "X \<subseteq> A \<union> B \<union> S \<union> (\<Union>c. g c)" "X \<subseteq> A \<union> (S \<union> B) \<union> (\<Union>c. g c)"
  using assms by blast+

lemma tickets_take:
  assumes inv: "tickets_inv p P pcs F A S" and c: "pcs c = TakeTickets p mx d over"
    and r: "unat (dequeueOptimisticCount P) < 2 ^ 62" "unat (tailIndex P) < 2 ^ 62"
  shows "tickets_inv p (P\<lparr>dequeueOptimisticCount := dequeueOptimisticCount P + d\<rparr>)
           (pcs(c := ReloadTail p mx d over (dequeueOptimisticCount P))) F A S" (is "tickets_inv p ?P ?pcs F A S")
proof -
  note D = tickets_invD [OF inv]
  let ?n = "unat (dequeueOptimisticCount P)"
  have l: "unat over \<le> card F" "0 < unat d" "unat d \<le> unat (tailIndex P)" "mx = None \<longrightarrow> d = 1" using D(10) [of c] c by simp_all
  then have n: "unat (dequeueOptimisticCount P + d) = ?n + unat d" using r by (intro unat_plus) simp
  have t: "tickets p (pcs c) = {}" "tickets p (?pcs c) = {?n ..< ?n + unat d}" by (simp_all add: c tickets_def)
  have F: "F \<inter> {..< ?n} = F" using D(1) by blast
  show ?thesis
  proof (rule tickets_invI)
    show "F \<subseteq> {..< unat (dequeueOptimisticCount ?P)}" "S \<subseteq> {..< unat (dequeueOptimisticCount ?P)} - F" using D(1,3) by (auto simp: n)
    show "{..< unat (dequeueOptimisticCount ?P)} \<subseteq> A \<union> S \<union> (\<Union>c. tickets p (?pcs c))"
    proof
      fix k assume "k \<in> {..< unat (dequeueOptimisticCount ?P)}"
      then have "k < ?n \<or> k \<in> tickets p (?pcs c)" by (auto simp: n t(2) simp del: fun_upd_apply)
      then show "k \<in> A \<union> S \<union> (\<Union>c. tickets p (?pcs c))"
      proof
        assume "k < ?n"
        then consider "k \<in> A \<union> S" | c' where "k \<in> tickets p (pcs c')" using D(6) by blast
        then show ?thesis
        proof cases
          case 2
          then have "k \<in> tickets p (?pcs c')" using t(1) by (cases "c' = c") auto
          then show ?thesis by blast
        qed simp
      qed blast
    qed
    show "tickets p (?pcs c') \<subseteq> {..< unat (dequeueOptimisticCount ?P)}" for c'
      using D(7) [of c'] t(2) by (cases "c' = c") (auto simp: n)
    show "lost p (?pcs c') \<subseteq> F - A" for c' using D(8) [of c'] by simp
    show "(won p (?pcs c') \<union> undecided p (?pcs c')) \<inter> (F \<union> S) = {}" for c' using D(9) [of c'] D(1,3) by auto
    show "locals_ok F (unat (tailIndex ?P)) p (?pcs c')" for c' using D(10) [of c'] l by (simp add: F)
    show "tickets p (?pcs c') \<inter> tickets p (?pcs c'') = {}" if "c' \<noteq> c''" for c' c''
      using D(11) [OF that] D(7) [of c'] D(7) [of c''] t(2) that by (cases "c' = c"; cases "c'' = c") auto
    show "k < unat (tailIndex ?P) + card (F \<inter> {..< k})" if "k \<in> S \<or> k \<in> won p (?pcs c')" for k c'
      using D(12) [of k c'] that by (simp split: if_splits)
  qed (use D(2,4,5) in simp_all)
qed

text \<open>The second load of the tail decides: \<open>a\<close> tickets win.\<close>

lemma tickets_decide:
  assumes inv: "tickets_inv p P pcs F A S" and c: "pcs c = ReloadTail p mx d over my"
    and a: "a \<le> unat d" "a = 0 \<or> unat my + a \<le> unat (tailIndex P) + unat over"
    and pc: "undecided p pc = {}" "won p pc = {unat my ..< unat my + a}" "lost p pc = {unat my + a ..< unat my + unat d}"
      "\<And>F. locals_ok F (unat (tailIndex P)) p pc"
  shows "tickets_inv p P (pcs(c := pc)) (F \<union> {unat my + a ..< unat my + unat d}) A S" (is "tickets_inv p P ?pcs ?F A S")
proof -
  note D = tickets_invD [OF inv]
  note fin = tickets_inv_finite [OF inv]
  have l: "unat over \<le> card (F \<inter> {..< unat my})" using D(10) [of c] c by simp
  have old: "tickets p (pcs c) = {unat my ..< unat my + unat d}" by (simp add: c tickets_def)
  have t: "tickets p (?pcs c') = tickets p (pcs c')" for c'
    using a(1) by (cases "c' = c") (auto simp: old, auto simp: tickets_def pc)
  have mono: "card (F \<inter> {..< k}) \<le> card (?F \<inter> {..< k})" for k using fin by (intro card_mono) auto
  have u: "{unat my ..< unat my + unat d} \<inter> (F \<union> S) = {}" using D(9) [of c] by (simp add: c)
  have other: "tickets p (pcs c') \<inter> {unat my ..< unat my + unat d} = {}" if "c' \<noteq> c" for c' using D(11) [OF that] old by simp
  show ?thesis
  proof (rule tickets_invI)
    have sub: "{unat my + a ..< unat my + unat d} \<subseteq> {unat my ..< unat my + unat d}" by auto
    then show "?F \<subseteq> {..< unat (dequeueOptimisticCount P)}" using D(1) D(7) [of c] unfolding old by blast
    show "A \<subseteq> ?F" using D(2) by blast
    show "S \<subseteq> {..< unat (dequeueOptimisticCount P)} - ?F" using D(3) u sub by blast
    show "lost p (?pcs c') \<subseteq> ?F - A" for c'
    proof (cases "c' = c")
      case True
      have "{unat my + a ..< unat my + unat d} \<inter> A = {}" using u sub D(2) by blast
      then show ?thesis using True by (auto simp: pc)
    next
      case False
      then show ?thesis using D(8) [of c'] by auto
    qed
    show "(won p (?pcs c') \<union> undecided p (?pcs c')) \<inter> (?F \<union> S) = {}" for c'
    proof (cases "c' = c")
      case True
      have "{unat my ..< unat my + a} \<subseteq> {unat my ..< unat my + unat d}" using a(1) by auto
      then have "{unat my ..< unat my + a} \<inter> (F \<union> S) = {}" using u by blast
      then show ?thesis using True by (auto simp: pc)
    next
      case False
      then show ?thesis using D(9) [of c'] other [OF False] by (auto simp: tickets_def)
    qed
    show "locals_ok ?F (unat (tailIndex P)) p (?pcs c')" for c'
      using locals_ok_mono [OF D(10) [of c'], of ?F "unat (tailIndex P)"] fin pc(4) by simp
    show "k < unat (tailIndex P) + card (?F \<inter> {..< k})" if "k \<in> S \<or> k \<in> won p (?pcs c')" for k c'
    proof (cases "k \<in> S \<or> c' \<noteq> c")
      case True
      then have "k < unat (tailIndex P) + card (F \<inter> {..< k})" using D(12) [of k c'] that by auto
      then show ?thesis using mono [of k] by simp
    next
      case False
      then have k: "unat my \<le> k" "k < unat my + a" using that by (auto simp: pc)
      have "card (F \<inter> {..< unat my}) \<le> card (?F \<inter> {..< k})" using fin k(1) by (intro card_mono) auto
      then show ?thesis using k a(2) l by linarith
    qed
  qed (use D(4-7) D(11) in \<open>simp_all only: t\<close>)
qed

text \<open>Refused tickets are counted; won tickets are exchanged.\<close>

lemma tickets_count:
  assumes inv: "tickets_inv p P pcs F A S" and r: "unat (dequeueOptimisticCount P) < 2 ^ 62"
    and c: "undecided p (pcs c) = {}" "lost p (pcs c) = {m ..< m + unat d}"
    and pc: "undecided p pc = {}" "won p pc = won p (pcs c)" "lost p pc = {}" "\<And>F. locals_ok F (unat (tailIndex P)) p pc"
  shows "tickets_inv p (P\<lparr>dequeueOvercommit := dequeueOvercommit P + d\<rparr>) (pcs(c := pc)) F (A \<union> {m ..< m + unat d}) S"
    (is "tickets_inv p ?P ?pcs F ?A S")
proof -
  note D = tickets_invD [OF inv]
  note fin = tickets_inv_finite [OF inv]
  have new: "{m ..< m + unat d} \<subseteq> F - A" using D(8) [of c] c by simp
  then have cardA: "card ?A = card A + unat d" using fin by (subst card_Un_disjoint) auto
  have "card ?A \<le> card F" using new D(2) fin by (intro card_mono) auto
  then have over: "unat (dequeueOvercommit P + d) = card A + unat d"
    using cardA over_le_opt(1) [OF inv] r D(4) by (subst unat_plus) auto
  have t: "tickets p (?pcs c') \<subseteq> tickets p (pcs c')" for c' using pc c by (auto simp: tickets_def)
  have t': "tickets p (pcs c') \<subseteq> tickets p (?pcs c') \<union> {m ..< m + unat d}" for c' using pc c by (auto simp: tickets_def)
  have other: "tickets p (pcs c') \<inter> {m ..< m + unat d} = {}" if "c' \<noteq> c" for c'
    using D(11) [OF that] c by (auto simp: tickets_def)
  show ?thesis
  proof (rule tickets_invI)
    show "?A \<subseteq> F" using new D(2) by blast
    show "unat (dequeueOvercommit ?P) = card ?A" using over cardA by simp
    show "{..< unat (dequeueOptimisticCount ?P)} \<subseteq> ?A \<union> S \<union> (\<Union>c. tickets p (?pcs c))"
      using cover_shift [OF D(6) t'] by simp
    show "tickets p (?pcs c') \<subseteq> {..< unat (dequeueOptimisticCount ?P)}" for c' using D(7) [of c'] t [of c'] by auto
    show "lost p (?pcs c') \<subseteq> F - ?A" for c'
      using D(8) [of c'] other [of c'] by (cases "c' = c") (auto simp: pc tickets_def)
    show "(won p (?pcs c') \<union> undecided p (?pcs c')) \<inter> (F \<union> S) = {}" for c' using D(9) [of c'] D(9) [of c] pc by auto
    show "locals_ok F (unat (tailIndex ?P)) p (?pcs c')" for c' using D(10) [of c'] pc(4) by simp
    show "tickets p (?pcs c') \<inter> tickets p (?pcs c'') = {}" if "c' \<noteq> c''" for c' c'' using D(11) [OF that] t by blast
    show "k < unat (tailIndex ?P) + card (F \<inter> {..< k})" if "k \<in> S \<or> k \<in> won p (?pcs c')" for k c'
      using D(12) [of k c'] that pc(2) by (auto split: if_splits)
  qed (use D(1,3,5) in simp_all)
qed

lemma tickets_exchange:
  assumes inv: "tickets_inv p P pcs F A S" and r: "unat (tailIndex P) < 2 ^ 62"
    and c: "pcs c = TakeHead p mx my a"
    and pc: "undecided p pc = {}" "won p pc = {}" "lost p pc = {}" "\<And>F. locals_ok F (unat (tailIndex P)) p pc"
  shows "tickets_inv p (P\<lparr>headIndex := headIndex P + a\<rparr>) (pcs(c := pc)) F A (S \<union> {unat my ..< unat my + unat a})"
    (is "tickets_inv p ?P ?pcs F A ?S")
proof -
  note D = tickets_invD [OF inv]
  note fin = tickets_inv_finite [OF inv]
  have w: "won p (pcs c) = {unat my ..< unat my + unat a}" by (simp add: c)
  have new: "{unat my ..< unat my + unat a} \<inter> (F \<union> S) = {}" using D(9) [of c] w by blast
  then have cardS: "card ?S = card S + unat a" using fin by (subst card_Un_disjoint) auto
  have head: "unat (headIndex P + a) = card S + unat a"
    using head_below_tail [OF inv, of c] r D(5) w by (subst unat_plus) auto
  have other: "tickets p (pcs c') \<inter> {unat my ..< unat my + unat a} = {}" if "c' \<noteq> c" for c'
    using D(11) [OF that] w by (auto simp: tickets_def)
  have t: "tickets p (?pcs c') = (if c' = c then {} else tickets p (pcs c'))" for c' using pc by (simp add: tickets_def)
  have t': "tickets p (pcs c') \<subseteq> tickets p (?pcs c') \<union> {unat my ..< unat my + unat a}" for c' by (auto simp: tickets_def c)
  show ?thesis
  proof (rule tickets_invI)
    show "?S \<subseteq> {..< unat (dequeueOptimisticCount ?P)} - F" using D(3) new D(7) [of c] w by (auto simp: tickets_def)
    show "unat (headIndex ?P) = card ?S" using head cardS by simp
    show "{..< unat (dequeueOptimisticCount ?P)} \<subseteq> A \<union> ?S \<union> (\<Union>c. tickets p (?pcs c))"
      using cover_shift [OF D(6) t'] by simp
    show "tickets p (?pcs c') \<subseteq> {..< unat (dequeueOptimisticCount ?P)}" for c' using D(7) [of c'] by (simp add: t del: fun_upd_apply)
    show "lost p (?pcs c') \<subseteq> F - A" for c' using D(8) [of c'] pc by simp
    show "(won p (?pcs c') \<union> undecided p (?pcs c')) \<inter> (F \<union> ?S) = {}" for c'
      using D(9) [of c'] other [of c'] pc by (cases "c' = c") (auto simp: tickets_def)
    show "locals_ok F (unat (tailIndex ?P)) p (?pcs c')" for c' using D(10) [of c'] pc(4) by simp
    show "tickets p (?pcs c') \<inter> tickets p (?pcs c'') = {}" if "c' \<noteq> c''" for c' c'' using D(11) [OF that] by (simp add: t del: fun_upd_apply)
    show "k < unat (tailIndex ?P) + card (F \<inter> {..< k})" if "k \<in> ?S \<or> k \<in> won p (?pcs c')" for k c'
      using D(12) [of k c'] D(12) [of k c] that pc(2) w by (auto split: if_splits)
  qed (use D(1,2,4) in simp_all)
qed

section \<open>Every step keeps the tickets\<close>

text \<open>What a request of a producer remembers of its start.\<close>

fun request_of :: "'a ppc \<Rightarrow> 'a request option" where
  "request_of (LoadHead r) = Some r"
| "request_of (Insert r) = Some r"
| "request_of (NewIndex r) = Some r"
| "request_of (StoreKey r e t) = Some r"
| "request_of (StoreIndexTail r e t) = Some r"
| "request_of (PoolLoad r e) = Some r"
| "request_of (PoolTake r e) = Some r"
| "request_of (FreeGet r e) = Some r"
| "request_of (Create r e) = Some r"
| "request_of (Rewind r e) = Some r"
| "request_of (ClearValue r e) = Some r"
| "request_of (ResetBlock r e b) = Some r"
| "request_of (StoreValue r e b) = Some r"
| "request_of (WriteElement r) = Some r"
| "request_of (Publish r) = Some r"
| "request_of (Revert k b) = Some (Bulk k)"
| "request_of (RevertTail k b) = Some (Bulk k)"
| "request_of (Release k b) = Some (Bulk k)"
| "request_of _ = None"

fun fresh_start :: "ImplicitProducer \<Rightarrow> 'a request \<Rightarrow> bool" where
  "fresh_start P (One x) \<longleftrightarrow> True"
| "fresh_start P (Bulk k) \<longleftrightarrow> bk_startTailIndex k = tailIndex P \<and> length (bk_items k) < 2 ^ 62"

definition started :: "ImplicitProducer \<Rightarrow> 'a ppc \<Rightarrow> bool" where
  "started P pc \<longleftrightarrow> (case request_of pc of None \<Rightarrow> True | Some r \<Rightarrow> fresh_start P r)"

lemmas goto_simps = goto_p_def goto_c_def with_block_def with_producer_def

lemma new_block_index_counters [simp]:
  "tailIndex (new_block_index junk P) = tailIndex P" "headIndex (new_block_index junk P) = headIndex P"
  "dequeueOptimisticCount (new_block_index junk P) = dequeueOptimisticCount P"
  "dequeueOvercommit (new_block_index junk P) = dequeueOvercommit P" "tailBlock (new_block_index junk P) = tailBlock P"
  by (simp_all add: new_block_index_def Let_def)

definition same_counters :: "ImplicitProducer \<Rightarrow> ImplicitProducer \<Rightarrow> bool" where
  "same_counters P Q \<longleftrightarrow> headIndex Q = headIndex P \<and> dequeueOptimisticCount Q = dequeueOptimisticCount P \<and>
     dequeueOvercommit Q = dequeueOvercommit P"

text \<open>A step of the thread of \<open>p\<close> leaves consumers and other producers alone.\<close>

definition own_step :: "nat \<Rightarrow> 'a CQ \<Rightarrow> 'a CQ \<Rightarrow> bool" where
  "own_step p s s' \<longleftrightarrow> cq_cpc s' = cq_cpc s \<and> initialBlockPoolSize s' = initialBlockPoolSize s \<and>
     same_counters (producers s p) (producers s' p) \<and>
     (\<forall>q. q \<noteq> p \<longrightarrow> producers s' q = producers s q \<and> cq_ppc s' q = cq_ppc s q)"

lemma own_step_intros:
  "own_step p s s"
  "own_step p s s' \<Longrightarrow> own_step p s (goto_p p pc s')"
  "own_step p s s' \<Longrightarrow> own_step p s (with_block a f s')"
  "own_step p s s' \<Longrightarrow> (\<And>P. same_counters P (g P)) \<Longrightarrow> own_step p s (with_producer p g s')"
  "own_step p s s' \<Longrightarrow> own_step p s (s'\<lparr>cq_blocks := bs\<rparr>)"
  "own_step p s s' \<Longrightarrow> own_step p s (s'\<lparr>freeList := fl\<rparr>)"
  "own_step p s s' \<Longrightarrow> own_step p s (s'\<lparr>initialBlockPoolIndex := i\<rparr>)"
  by (auto simp: own_step_def same_counters_def goto_p_def with_block_def with_producer_def)

lemma same_counters_intros:
  "same_counters P P" "same_counters P (set_entry e f P)" "same_counters P (set_header h k P)"
  "same_counters P (P\<lparr>tailBlock := t\<rparr>)" "same_counters P (P\<lparr>tailIndex := i\<rparr>)" "same_counters P (rewind_block_index_tail P)"
  by (auto simp: same_counters_def set_entry_def set_header_def rewind_block_index_tail_def split: option.splits)

lemmas own_intros = own_step_intros same_counters_intros

lemma own_step_parts:
  "own_step p s s' \<Longrightarrow> own_step p s (give_up p req s')"
  "own_step p s s' \<Longrightarrow> own_step p s (bulk_fill p k s')"
  "own_step p s s' \<Longrightarrow> own_step p s (link_block t b s')"
  "own_step p s s' \<Longrightarrow> own_step p s (add_block_to_free_list b s')"
  by (auto simp: give_up_def bulk_fill_def link_block_def add_block_to_free_list_def split: request.split option.split intro!: own_intros)

lemma own_step_allocate: "own_step p s s' \<Longrightarrow> own_step p s (bulk_allocate p k s')"
  by (auto simp: bulk_allocate_def intro!: own_intros own_step_parts)

lemmas request_splits = request.split option.split list.split

lemma enqueue_step_own: "own_step p s (enqueue_step ok n p pc s)"
proof (cases pc)
  case (NewIndex r)
  have *: "own_step p s (with_producer p (\<lambda>_. new_block_index (Some n) (producers s p)) s)"
    by (simp add: own_step_def same_counters_def with_producer_def)
  then show ?thesis
    by (auto simp: NewIndex insert_in_new_index_def Let_def split: option.split intro!: own_step_intros(1,2) own_step_parts)
next
  case (StoreValue r e b)
  then show ?thesis
    by (auto simp: store_value_def Let_def split: request_splits intro!: own_intros own_step_parts own_step_allocate)
next
  case (WriteElement r)
  then show ?thesis by (auto simp: write_element_def Let_def split: request_splits intro!: own_intros)
qed (auto simp: load_head_def insert_entry_def pool_load_def pool_take_def free_get_def create_block_def
    reset_block_def publish_def revert_entry_def revert_tail_def release_block_def Let_def
    split: request_splits intro!: own_intros own_step_parts)

lemma own_step_others:
  assumes "own_step p s s'"
  shows "cq_cpc s' = cq_cpc s" "q \<noteq> p \<Longrightarrow> producers s' q = producers s q" "q \<noteq> p \<Longrightarrow> cq_ppc s' q = cq_ppc s q"
    "initialBlockPoolSize s' = initialBlockPoolSize s" "same_counters (producers s q) (producers s' q)"
  using assms by (cases "q = p", auto simp: own_step_def same_counters_def)

lemma tail_kept [simp]:
  "tailIndex (set_entry e f P) = tailIndex P" "tailIndex (set_header h g P) = tailIndex P"
  "tailIndex (rewind_block_index_tail P) = tailIndex P"
  by (simp_all add: set_entry_def set_header_def rewind_block_index_tail_def split: option.split)

lemma parts_tail [simp]:
  "producers (give_up p r s) = producers s"
  "tailIndex (producers (bulk_fill p k s) q) = tailIndex (producers s q)"
  "tailIndex (producers (bulk_allocate p k s) q) = tailIndex (producers s q)"
  "producers (link_block t b s) = producers s" "producers (add_block_to_free_list b s) = producers s"
  by (simp_all add: give_up_def bulk_fill_def bulk_allocate_def link_block_def add_block_to_free_list_def goto_simps split: request.split option.split)

lemma parts_started [simp]:
  "started P (cq_ppc (give_up p r s) p) \<longleftrightarrow> fresh_start P r"
  "fresh_start P (Bulk k) \<Longrightarrow> started P (cq_ppc (bulk_fill p k s) p)"
  "fresh_start P (Bulk k) \<Longrightarrow> started P (cq_ppc (bulk_allocate p k s) p)"
  by (auto simp: started_def give_up_def bulk_fill_def bulk_allocate_def goto_simps split: request.split option.split)

lemmas step_defs = load_head_def insert_entry_def insert_in_new_index_def pool_load_def pool_take_def free_get_def create_block_def
  reset_block_def store_value_def write_element_def publish_def revert_entry_def revert_tail_def release_block_def

lemma fresh_start_cong: "tailIndex Q = tailIndex P \<Longrightarrow> fresh_start Q r = fresh_start P r"
  by (cases r) simp_all

lemma enqueue_step_tail:
  assumes "started (producers s p) pc"
  shows "tailIndex (producers (enqueue_step ok n p pc s) p) = tailIndex (producers s p) + of_nat (length (publishes pc))"
  using assms by (cases pc) (auto simp: started_def newTailIndex_def step_defs goto_simps Let_def split: request_splits)

lemma enqueue_step_started:
  assumes "started (producers s p) pc" and "cq_ppc s p = pc"
  shows "started (producers (enqueue_step ok n p pc s) p) (cq_ppc (enqueue_step ok n p pc s) p)"
proof (cases pc)
  case (StoreValue r e b)
  then show ?thesis using assms(1)
    by (cases r) (auto simp: store_value_def goto_simps Let_def started_def [of "producers s p"] split: option.split, auto simp: started_def)
next
  case (WriteElement r)
  then show ?thesis using assms by (cases r) (auto simp: started_def write_element_def goto_simps Let_def split: option.split list.split)
next
  case (Insert r)
  then show ?thesis using assms by (auto simp: insert_entry_def goto_simps split: option.split, simp_all add: started_def)
next
  case (NewIndex r)
  then show ?thesis using assms
    by (auto simp: insert_in_new_index_def goto_simps Let_def split: option.split, simp_all add: started_def cong: fresh_start_cong)
next
  case (StoreKey r e t)
  then show ?thesis using assms by (simp add: started_def goto_simps cong: fresh_start_cong)
qed (use assms in \<open>(auto simp: step_defs goto_simps Let_def split: request_splits, simp_all add: started_def cong: fresh_start_cong)\<close>)

fun moving :: "'a cpc \<Rightarrow> bool" where
  "moving (CReady out) = True" | "moving CFault = True"
| "moving (LoadIndex d) = True" | "moving (LoadIndexTail d) = True" | "moving (LoadKey d t) = True"
| "moving (LoadBlock d) = True" | "moving (MoveElement d) = True" | "moving (SetEmpty d) = True"
| "moving (Unlink d) = True" | "moving (FreeBlock d) = True"
| "moving _ = False"

lemma moving_no_tickets [simp]:
  assumes "moving pc"
  shows "undecided p pc = {}" "lost p pc = {}" "won p pc = {}" "locals_ok F T p pc"
  using assms by (cases pc; simp)+

text \<open>A step of consumer \<open>c\<close> that only moves elements.\<close>

definition moving_step :: "nat \<Rightarrow> 'a CQ \<Rightarrow> 'a CQ \<Rightarrow> bool" where
  "moving_step c s s' \<longleftrightarrow> moving (cq_cpc s' c) \<and> (\<forall>c'. c' \<noteq> c \<longrightarrow> cq_cpc s' c' = cq_cpc s c') \<and> cq_ppc s' = cq_ppc s \<and>
     initialBlockPoolIndex s' = initialBlockPoolIndex s \<and> initialBlockPoolSize s' = initialBlockPoolSize s \<and>
     (\<forall>q. same_counters (producers s q) (producers s' q) \<and> tailIndex (producers s' q) = tailIndex (producers s q) \<and>
        tailBlock (producers s' q) = tailBlock (producers s q))"

lemma add_block_frame [simp]:
  "cq_cpc (add_block_to_free_list b s) = cq_cpc s" "cq_ppc (add_block_to_free_list b s) = cq_ppc s"
  "initialBlockPoolIndex (add_block_to_free_list b s) = initialBlockPoolIndex s"
  "initialBlockPoolSize (add_block_to_free_list b s) = initialBlockPoolSize s"
  by (simp_all add: add_block_to_free_list_def)

lemma moving_next_block [simp]: "moving (next_block s d)"
  by (simp add: next_block_def)

lemma dequeue_step_moving:
  assumes "moving (cq_cpc s c)"
  shows "moving_step c s (dequeue_step c (cq_cpc s c) s)"
  using assms by (cases "cq_cpc s c")
    (auto simp: moving_step_def load_key_def load_block_def move_element_def mark_empty_def goto_simps Let_def
      same_counters_def set_entry_def split: option.split)

lemma tickets_inv_other:
  assumes inv: "tickets_inv p P pcs F A S" and o: "\<And>c'. c' \<noteq> c \<Longrightarrow> pcs' c' = pcs c'"
    and P: "same_counters P P'" "tailIndex P' = tailIndex P"
    and none: "undecided p (pcs c) = {}" "lost p (pcs c) = {}" "won p (pcs c) = {}"
      "undecided p (pcs' c) = {}" "lost p (pcs' c) = {}" "won p (pcs' c) = {}"
    and ok: "locals_ok F (unat (tailIndex P)) p (pcs c) \<Longrightarrow> locals_ok F (unat (tailIndex P)) p (pcs' c)"
  shows "\<exists>F A S. tickets_inv p P' pcs' F A S"
proof (intro exI, rule tickets_inv_frame [OF inv])
  fix c'
  show "undecided p (pcs' c') = undecided p (pcs c') \<and> lost p (pcs' c') = lost p (pcs c') \<and> won p (pcs' c') = won p (pcs c')"
    using none o by (cases "c' = c") simp_all
  show "locals_ok F (unat (tailIndex P')) p (pcs' c')" if "locals_ok F (unat (tailIndex P)) p (pcs c')"
    using that ok o by (cases "c' = c") (simp_all add: P(2))
qed (use P in \<open>simp_all add: same_counters_def\<close>)

lemma tickets_consume:
  fixes s :: "'a CQ"
  assumes inv: "\<And>p. tickets_inv p (producers s p) (cq_cpc s) (F p) (A p) (S p)" and r: "within_range s"
  shows "\<exists>F' A' S'. tickets_inv p (producers (dequeue_step c (cq_cpc s c) s) p) (cq_cpc (dequeue_step c (cq_cpc s c) s)) F' A' S'"
proof (cases "moving (cq_cpc s c)")
  case True
  note m = dequeue_step_moving [OF True, unfolded moving_step_def]
  show ?thesis
    by (rule tickets_inv_other [OF inv]) (use m True in auto)
next
  case False
  have range: "unat (tailIndex (producers s q)) < 2 ^ 62" "unat (dequeueOptimisticCount (producers s q)) < 2 ^ 62" for q
    using r by (simp_all add: within_range_def)
  show ?thesis
  proof (cases "cq_cpc s c")
    case (LoadTail q mx)
    show ?thesis by (rule tickets_inv_other [OF inv, where c = c])
        (auto simp: LoadTail goto_simps same_counters_def)
  next
    case (LoadOvercommit q mx tail)
    show ?thesis by (rule tickets_inv_other [OF inv, where c = c])
        (use over_le_opt(2) [OF inv [of p]] in \<open>auto simp: LoadOvercommit goto_simps same_counters_def\<close>)
  next
    case (LoadOptimistic q mx tail over)
    let ?opt = "dequeueOptimisticCount (producers s q)"
    have l: "mx \<noteq> Some 0" "unat tail \<le> unat (tailIndex (producers s q))" "unat over \<le> card (F q)"
      using tickets_invD(10) [OF inv, of q c] LoadOptimistic by simp_all
    have o: "unat over \<le> unat ?opt" using l(3) over_le_opt(1) [OF inv [of q]] by simp
    have t: "unat tail < 2 ^ 62" using l(2) range(1) [of q] by simp
    have "0 < unat d \<and> unat d \<le> unat (tailIndex (producers s q)) \<and> (mx = None \<longrightarrow> d = 1)" if w: "wanted mx tail over ?opt = Some d" for d
    proof -
      have "0 < at_most mx" using l(1) by (cases mx) (auto simp: at_most_def unat_gt_0)
      moreover have "unat d = min (unat tail + unat over - unat ?opt) (at_most mx)" by (rule wanted_exact(2) [OF t range(2) o w])
      moreover have "\<not> unat tail + unat over \<le> unat ?opt" using wanted_exact(1) [OF t range(2) o, of mx] w by simp
      moreover have "mx = None \<longrightarrow> d = 1" using w by (auto simp: wanted_def split: if_splits)
      ultimately show ?thesis using l(2) o by auto
    qed
    with l show ?thesis
      by - (rule tickets_inv_other [OF inv, where c = c], auto simp: LoadOptimistic goto_simps same_counters_def split: option.split)
  next
    case (TakeTickets q mx d over)
    show ?thesis
    proof (cases "q = p")
      case True
      then show ?thesis using tickets_take [OF inv [of p], of c mx d over] TakeTickets range [of p] by (auto simp: goto_simps)
    next
      case False
      then show ?thesis by - (rule tickets_inv_other [OF inv, where c = c],
        auto simp: TakeTickets goto_simps same_counters_def)
    qed
  next
    case (ReloadTail q mx d over my)
    show ?thesis
    proof (cases "q = p")
      case True
      note c = ReloadTail [unfolded True]
      have l: "unat over \<le> card (F p \<inter> {..< unat my})" "0 < unat d" "mx = None \<Longrightarrow> d = 1"
        using tickets_invD(10) [OF inv, of p c] c by simp_all
      have "card (F p \<inter> {..< unat my}) \<le> card {..< unat my}" by (rule card_mono) auto
      then have o: "unat over \<le> unat my" using l(1) by simp
      have "unat my \<in> tickets p (cq_cpc s c)" using l(2) by (simp add: c tickets_def)
      then have "unat my < unat (dequeueOptimisticCount (producers s p))" using tickets_invD(7) [OF inv, of p c] by auto
      then have my: "unat my < 2 ^ 62" using range(2) [of p] by simp
      note g = granted_exact [OF range(1) [of p] my o l(3), of mx]
      show ?thesis
      proof (cases "granted mx d (tailIndex (producers s p)) over my")
        case None
        have "tickets_inv p (producers s p) ((cq_cpc s)(c := GiveBack p my d)) (F p \<union> {unat my + 0 ..< unat my + unat d}) (A p) (S p)"
          by (rule tickets_decide [OF inv c]) simp_all
        then show ?thesis using None by (simp add: c goto_simps) blast
      next
        case (Some a)
        have a: "unat a = min (unat (tailIndex (producers s p)) + unat over - unat my) (unat d)" using g(2) Some by simp
        have pos: "\<not> unat (tailIndex (producers s p)) + unat over \<le> unat my" using g(1) Some by auto
        define pc :: "'a cpc" where "pc = (if a < d then AddOvercommit p mx my d a else TakeHead p mx my a)"
        have "tickets_inv p (producers s p) ((cq_cpc s)(c := pc)) (F p \<union> {unat my + unat a ..< unat my + unat d}) (A p) (S p)"
          by (rule tickets_decide [OF inv c]) (use a pos l(2,3) in \<open>auto simp: pc_def word_less_nat_alt word_unat_eq_iff\<close>)
        then show ?thesis using Some by (cases "a < d") (simp_all add: c goto_simps pc_def, blast+)
      qed
    next
      case False
      then show ?thesis by - (rule tickets_inv_other [OF inv, where c = c],
        auto simp: ReloadTail goto_simps same_counters_def split: option.split)
    qed
  next
    case (AddOvercommit q mx my d a)
    show ?thesis
    proof (cases "q = p")
      case True
      note c = AddOvercommit [unfolded True]
      have l: "0 < unat a" "unat a < unat d" "mx = None \<longrightarrow> a = 1" using tickets_invD(10) [OF inv, of p c] c by simp_all
      then have u: "unat my + unat a + unat (d - a) = unat my + unat d" by (simp add: unat_sub_if')
      show ?thesis
        using tickets_count [OF inv range(2), of p c "unat my + unat a" "d - a" "TakeHead p mx my a"] l u by (auto simp: c goto_simps)
    next
      case False
      then show ?thesis by - (rule tickets_inv_other [OF inv, where c = c],
        auto simp: AddOvercommit goto_simps same_counters_def)
    qed
  next
    case (GiveBack q my d)
    show ?thesis
    proof (cases "q = p")
      case True
      then show ?thesis
        using tickets_count [OF inv range(2), of p c "unat my" d "CReady []"] by (auto simp: GiveBack goto_simps)
    next
      case False
      then show ?thesis by - (rule tickets_inv_other [OF inv, where c = c],
        auto simp: GiveBack goto_simps same_counters_def)
    qed
  next
    case (TakeHead q mx my a)
    show ?thesis
    proof (cases "q = p")
      case True
      note c = TakeHead [unfolded True]
      show ?thesis unfolding c
        by (simp add: goto_simps Let_def, rule exI, rule exI, rule exI, rule tickets_exchange [OF inv range(1) c], simp_all)
    next
      case False
      then show ?thesis by - (rule tickets_inv_other [OF inv, where c = c],
        auto simp: TakeHead goto_simps same_counters_def Let_def)
    qed
  qed (use False in simp_all)
qed

lemma tickets_produce:
  assumes inv: "tickets_inv q (producers s q) (cq_cpc s) F A S" and st: "started (producers s p) (cq_ppc s p)"
    and r: "unat (tailIndex (producers s p)) < 2 ^ 62"
  shows "tickets_inv q (producers (enqueue_step ok n p (cq_ppc s p) s) q) (cq_cpc (enqueue_step ok n p (cq_ppc s p) s)) F A S"
    (is "tickets_inv q (producers ?s q) _ F A S")
proof -
  note own = own_step_others [OF enqueue_step_own [of p s ok n "cq_ppc s p"]]
  have le: "unat (tailIndex (producers s q)) \<le> unat (tailIndex (producers ?s q))"
  proof (cases "q = p")
    case True
    have "length (publishes (cq_ppc s p)) < 2 ^ 62"
      using st by (cases "cq_ppc s p" rule: publishes.cases) (auto simp: started_def)
    then show ?thesis using r True by (simp add: enqueue_step_tail [OF st] unat_plus)
  qed (simp add: own(2))
  then show ?thesis unfolding own(1)
    by (intro tickets_inv_frame [OF inv]) (use own(5) [of q] locals_ok_mono [OF _ subset_refl _ le] tickets_inv_finite [OF inv] in \<open>auto simp: same_counters_def\<close>)
qed

text \<open>Together: tickets and starts of requests, over whole runs.\<close>

definition tickets_ok :: "'a CQ \<Rightarrow> bool" where
  "tickets_ok s \<longleftrightarrow> within_range s \<and> (\<forall>p. started (producers s p) (cq_ppc s p)) \<and>
     (\<forall>p. \<exists>F A S. tickets_inv p (producers s p) (cq_cpc s) F A S)"

lemma tickets_inv_pcs:
  assumes "tickets_inv p P pcs F A S" and "tailIndex P' = tailIndex P" "same_counters P P'"
  shows "tickets_inv p P' pcs F A S"
  by (rule tickets_inv_frame [OF assms(1)]) (use assms(2,3) in \<open>simp_all add: same_counters_def\<close>)

lemma begin_own:
  "own_step p s (enqueue_begin p x s)" "own_step p s (enqueue_bulk_begin p xs s)"
  by (auto simp: enqueue_begin_def enqueue_bulk_begin_def Let_def intro!: own_intros own_step_allocate)

lemma begin_tail [simp]:
  "tailIndex (producers (enqueue_begin p x s) q) = tailIndex (producers s q)"
  "tailIndex (producers (enqueue_bulk_begin p xs s) q) = tailIndex (producers s q)"
  by (auto simp: enqueue_begin_def enqueue_bulk_begin_def Let_def goto_simps)

lemma begin_started:
  "started (producers s p) (cq_ppc (enqueue_begin p x s) p)"
  "length xs < 2 ^ 62 \<Longrightarrow> started (producers s p) (cq_ppc (enqueue_bulk_begin p xs s) p)"
  by (auto simp: enqueue_begin_def enqueue_bulk_begin_def Let_def goto_simps, simp_all add: started_def)

lemma started_cong: "tailIndex P' = tailIndex P \<Longrightarrow> started P' pc = started P pc"
  by (simp add: started_def cong: fresh_start_cong split: option.split)

lemma dequeue_step_producers:
  "tailIndex (producers (dequeue_step c pc s) q) = tailIndex (producers s q)" "cq_ppc (dequeue_step c pc s) = cq_ppc s"
  by (cases pc; auto simp: load_key_def load_block_def move_element_def mark_empty_def goto_simps Let_def
      set_entry_def split: option.split)+

lemma tickets_begin:
  assumes ok: "tickets_ok s" and own: "own_step p s s'" and r: "within_range s'"
    and t: "\<And>q. tailIndex (producers s' q) = tailIndex (producers s q)" and st: "started (producers s p) (cq_ppc s' p)"
  shows "tickets_ok s'"
proof -
  note own = own_step_others [OF own]
  have "started (producers s q) (cq_ppc s' q)" for q using ok own(3) [of q] st by (cases "q = p") (simp_all add: tickets_ok_def)
  moreover have "\<exists>F A S. tickets_inv q (producers s' q) (cq_cpc s') F A S" for q
    using ok tickets_inv_pcs [OF _ t own(5)] unfolding own(1) tickets_ok_def by blast
  ultimately show ?thesis using r by (simp add: tickets_ok_def started_cong [OF t])
qed

lemma tickets_step:
  assumes "cq_step sh th" and "tickets_ok (fst sh)" and r: "within_range (fst th)"
  shows "tickets_ok (fst th)"
  using assms
proof (induction rule: cq_step.induct)
  case (call_enqueue s p r h x)
  then show ?case using begin_started(1) [of s p x] by (auto intro!: tickets_begin [OF _ begin_own(1)])
next
  case (call_enqueue_bulk s p r xs h)
  then show ?case using begin_started(2) [of xs s p] by (auto intro!: tickets_begin [OF _ begin_own(2)])
next
  case (produce s h ok n p)
  note own = own_step_others [OF enqueue_step_own [of p s ok n "cq_ppc s p"]]
  have st: "started (producers s q) (cq_ppc s q)" and r: "unat (tailIndex (producers s q)) < 2 ^ 62" for q
    using produce(1) by (simp_all add: tickets_ok_def within_range_def)
  have "started (producers (enqueue_step ok n p (cq_ppc s p) s) q) (cq_ppc (enqueue_step ok n p (cq_ppc s p) s) q)" for q
    using enqueue_step_started [OF st [of p]] st [of q] own(2,3) [of q] by (cases "q = p") simp_all
  moreover have "\<exists>F A S. tickets_inv q (producers (enqueue_step ok n p (cq_ppc s p) s) q) (cq_cpc (enqueue_step ok n p (cq_ppc s p) s)) F A S" for q
  proof -
    obtain F A S where "tickets_inv q (producers s q) (cq_cpc s) F A S" using produce(1) unfolding tickets_ok_def fst_conv by blast
    from tickets_produce [OF this st r, of ok n] show ?thesis by blast
  qed
  ultimately show ?case using produce(2) by (simp add: tickets_ok_def)
next
  case (call_dequeue s c out mx h p)
  have "\<exists>F A S. tickets_inv q (producers s q) (cq_cpc (goto_c c (LoadTail p mx) s)) F A S" for q
  proof -
    obtain F A S where "tickets_inv q (producers s q) (cq_cpc s) F A S" using call_dequeue(3) unfolding tickets_ok_def fst_conv by blast
    then show ?thesis by (rule tickets_inv_other [where c = c]) (use call_dequeue(1,2) in \<open>auto simp: goto_c_def same_counters_def\<close>)
  qed
  then show ?case using call_dequeue(3,4) by (simp add: tickets_ok_def goto_c_def)
next
  case (consume s h c)
  from consume(1) have "\<forall>p. \<exists>F A S. tickets_inv p (producers s p) (cq_cpc s) F A S" by (simp add: tickets_ok_def)
  then obtain F A S where "\<And>p. tickets_inv p (producers s p) (cq_cpc s) (F p) (A p) (S p)" by metis
  from tickets_consume [OF this, where c = c] consume(1) have
    "\<exists>F A S. tickets_inv p (producers (dequeue_step c (cq_cpc s c) s) p) (cq_cpc (dequeue_step c (cq_cpc s c) s)) F A S" for p
    by (simp add: tickets_ok_def)
  moreover have "started (producers (dequeue_step c (cq_cpc s c) s) p) (cq_ppc (dequeue_step c (cq_cpc s c) s) p)" for p
    using consume(1) by (simp add: tickets_ok_def dequeue_step_producers started_cong [OF dequeue_step_producers(1)])
  ultimately show ?case using consume(2) by (simp add: tickets_ok_def)
qed

end
