(* ===== verification/ConcurrentQueue_Ring.thy ===== *)
theory ConcurrentQueue_Ring
  imports ConcurrentQueue_Tickets
begin

unbundle bit_operations_syntax

text \<open>
  Arithmetic of block indices: the slot and the base of an index, positions in the ring of a header,
  and that \<^verbatim>\<open>get_block_index_index_for_index\<close> computes the position of a block.
\<close>

lemma unat_2p: "j < 64 \<Longrightarrow> unat (2 ^ j :: u64) = 2 ^ j"
proof -
  assume "j < 64"
  then have "(2 :: nat) ^ j < 2 ^ 64" by (intro power_strict_increasing) simp_all
  then have "unat (of_nat (2 ^ j) :: u64) = 2 ^ j" by (rule unat_small)
  then show ?thesis by simp
qed

lemma and_mask_unat: "j < 64 \<Longrightarrow> unat (x AND (2 ^ j - 1)) = unat x mod 2 ^ j" for x :: u64
  by (simp add: take_bit_eq_mod unat_mod_distrib unat_2p flip: mask_eq_exp_minus_1 take_bit_eq_mask)

lemma mod_pow_64: "j < 64 \<Longrightarrow> x mod 18446744073709551616 mod 2 ^ j = x mod 2 ^ j" for x :: nat
  using le_imp_power_dvd [of j 64 "2 :: nat"] by (intro mod_mod_cancel) simp

lemma and_mask_add: "j < 64 \<Longrightarrow> ((x AND (2 ^ j - 1)) + y) AND (2 ^ j - 1) = (x + y) AND (2 ^ j - 1)" for x y :: u64
  by (simp add: word_unat_eq_iff and_mask_unat unat_word_ariths mod_add_left_eq mod_pow_64)

lemma slot_base_nat:
  assumes "n < 2 ^ 64"
  shows "unat (slot_of (of_nat n)) = n mod 32" and "base_of (of_nat n) = of_nat (32 * (n div 32))"
proof -
  have "unat (slot_of (of_nat n)) = unat (of_nat n :: u64) mod 2 ^ 5"
    unfolding slot_of_def BLOCK_SIZE_def by (subst and_mask_unat [symmetric]) simp_all
  then show s: "unat (slot_of (of_nat n)) = n mod 32" using assms by simp
  have "base_of (of_nat n) = of_nat n - slot_of (of_nat n)"
  proof -
    have "(of_nat n :: u64) AND NOT ((of_nat n) AND (BLOCK_SIZE - 1)) = of_nat n AND NOT (BLOCK_SIZE - 1)"
      by (auto simp: bit_eq_iff bit_simps)
    then show ?thesis unfolding base_of_def slot_of_def by (subst disjunctive_diff_eq_and_not) (simp_all add: bit_eq_iff bit_simps)
  qed
  also have "slot_of (of_nat n) = of_nat (n mod 32)" using s by (simp add: word_unat_eq_iff)
  also have "of_nat n - of_nat (n mod 32) = (of_nat (n - n mod 32) :: u64)" by simp
  finally show "base_of (of_nat n) = of_nat (32 * (n div 32))" by (simp add: minus_mod_eq_mult_div)
qed

lemma slot_base_unat: "unat (slot_of i) = unat i mod 32" "unat (base_of i) = 32 * (unat i div 32)"
proof -
  have "unat i < 2 ^ 64" using unsigned_less [of i, where ?'a = nat] by simp
  note s = slot_base_nat [OF this, unfolded of_nat_unat ucast_id]
  show "unat (slot_of i) = unat i mod 32" by (rule s(1))
  have "32 * (unat i div 32) \<le> unat i" by simp
  then have "32 * (unat i div 32) < 2 ^ 64" using unsigned_less [of i, where ?'a = nat] by simp
  then show "unat (base_of i) = 32 * (unat i div 32)" unfolding s(2) by (rule unat_small)
qed

text \<open>The position of block number \<open>b\<close> in a ring of capacity \<open>cap\<close> whose blocks are shifted by \<open>off\<close>.\<close>

definition ring :: "u64 \<Rightarrow> u64 \<Rightarrow> nat \<Rightarrow> u64" where
  "ring off cap b = (off + of_nat b) AND (cap - 1)"

lemma ring_less: "j < 64 \<Longrightarrow> unat (ring off (2 ^ j) b) < 2 ^ j"
  by (simp add: ring_def and_mask_unat)

lemma ring_Suc: "j < 64 \<Longrightarrow> (ring off (2 ^ j) b + of_nat n) AND (2 ^ j - 1) = ring off (2 ^ j) (b + n)"
  by (simp add: ring_def and_mask_add add.assoc)

lemma ring_unat: "j < 64 \<Longrightarrow> unat (ring off (2 ^ j) b) = (unat off + b) mod 2 ^ j"
proof -
  assume j: "j < 64"
  have "unat (ring off (2 ^ j) b) = (unat off + b mod 18446744073709551616) mod 18446744073709551616 mod 2 ^ j"
    using j by (simp add: ring_def and_mask_unat unat_word_ariths unat_of_nat)
  also have "\<dots> = (unat off + b mod 18446744073709551616 mod 2 ^ j) mod 2 ^ j" by (simp only: mod_pow_64 [OF j] mod_add_right_eq)
  also have "\<dots> = (unat off + b) mod 2 ^ j" by (simp only: mod_pow_64 [OF j] mod_add_right_eq)
  finally show ?thesis .
qed

lemma ring_inj:
  assumes "j < 64" "ring off (2 ^ j) b = ring off (2 ^ j) b'" "b < b' + 2 ^ j" "b' < b + 2 ^ j"
  shows "b = b'"
proof -
  have "(unat off + b) mod 2 ^ j = (unat off + b') mod 2 ^ j"
    using ring_unat [OF assms(1), of off b] ring_unat [OF assms(1), of off b'] assms(2) by simp
  then have "int (unat off + b) mod int (2 ^ j) = int (unat off + b') mod int (2 ^ j)" by (simp only: flip: zmod_int)
  then have "int (2 ^ j) dvd int b - int b'" by (simp add: mod_eq_dvd_iff)
  then obtain k where k: "int b - int b' = int (2 ^ j) * k" by (rule dvdE)
  have "int b < int (b' + 2 ^ j)" "int b' < int (b + 2 ^ j)" using assms(3,4) by (simp_all only: of_nat_less_iff)
  then have "\<bar>int b - int b'\<bar> < int (2 ^ j)" by (simp add: abs_less_iff)
  then have "\<bar>int (2 ^ j) * k\<bar> < int (2 ^ j) * 1" using k by simp
  then have "\<bar>k\<bar> < 1" by (simp only: abs_mult) (simp add: mult_less_cancel_left)
  then show ?thesis using k by simp
qed

lemma sdiv_32: "(32 * k) sdiv 32 = (k :: int)"
  by (simp add: signed_divide_int_def abs_mult sgn_mult sgn_mult_abs)

lemma index_index_ring:
  assumes "j < 64" "unat i < 2 ^ 63" "32 * B < 2 ^ 63"
  shows "index_index i (ring off (2 ^ j) B) (of_nat (32 * B)) (2 ^ j) = ring off (2 ^ j) (unat i div 32)"
proof -
  define b where "b = unat i div 32"
  have b: "32 * b < 2 ^ 63" using assms(2) unfolding b_def by (meson le_less_trans times_div_less_eq_dividend)
  have "base_of i = of_nat (32 * b)" using slot_base_nat(2) [of "unat i"] assms(2) by (simp add: b_def)
  then have "base_of i - of_nat (32 * B) = word_of_int (32 * (int b - int B))" by simp
  moreover have "sint (word_of_int (32 * (int b - int B)) :: u64) = 32 * (int b - int B)"
  proof -
    have "- (2 ^ 63) \<le> 32 * (int b - int B)" "32 * (int b - int B) < 2 ^ 63" using b assms(3) by simp_all
    then show ?thesis by (subst sint_sbintrunc') (simp add: signed_take_bit_int_eq_self)
  qed
  ultimately have "sint (base_of i - of_nat (32 * B)) sdiv sint BLOCK_SIZE = int b - int B"
    using sdiv_32 [of "int b - int B"] by (simp add: BLOCK_SIZE_def)
  then have "index_index i (ring off (2 ^ j) B) (of_nat (32 * B)) (2 ^ j) =
      (ring off (2 ^ j) B + (of_nat b - of_nat B)) AND (2 ^ j - 1)" by (simp add: index_index_def)
  also have "\<dots> = ring off (2 ^ j) b" using assms(1) by (simp add: ring_def and_mask_add)
  finally show ?thesis by (simp add: b_def)
qed

end
