(* ===== verification/ConcurrentQueue_Inv.thy ===== *)
theory ConcurrentQueue_Inv
  imports ConcurrentQueue_Ring
begin

unbundle bit_operations_syntax

text \<open>
  The invariant of the queue. Ghost state says which entry and which memory each block of a producer
  has and who owns each piece of memory; \<open>producer_ok\<close> relates it to the state of one producer and to
  the consumers that work on it, \<open>queue_inv\<close> to the whole queue.
\<close>

section \<open>Ghost state\<close>

text \<open>
  What the proof remembers of a producer. Blocks are numbered in the order in which they are put
  into the index: block \<open>b\<close> holds the indices from \<open>32 * b\<close> on. \<open>g_ent\<close> and \<open>g_blk\<close> give the entry and
  the memory of a block, \<open>g_keyed\<close> the number of blocks whose entry has its key, \<open>g_low\<close> the first
  block whose entry is not reused yet, \<open>g_hi\<close> and \<open>g_off\<close> the blocks that a header knows and the shift
  of its ring. \<open>g_fin\<close> are the indices marked as dequeued, \<open>g_unlinked\<close> and \<open>g_freed\<close> the blocks that
  left the index and the producer. \<open>g_held\<close> are the new blocks of a request in progress; the entries of
  the first \<open>g_rev\<close> of them are cleared again.
\<close>

record ghost =
  g_ent :: "nat \<Rightarrow> nat"
  g_blk :: "nat \<Rightarrow> nat"
  g_keyed :: nat
  g_low :: nat
  g_hi :: "nat \<Rightarrow> nat"
  g_off :: "nat \<Rightarrow> u64"
  g_fin :: "nat set"
  g_unlinked :: "nat set"
  g_freed :: "nat set"
  g_held :: "nat list"
  g_rev :: nat

datatype owner = Unused | Free | Held nat | Active nat nat

definition nblk :: "nat \<Rightarrow> nat" where "nblk n = (n + 31) div 32"

abbreviation nb :: "ImplicitProducer \<Rightarrow> nat" where "nb P \<equiv> nblk (unat (tailIndex P))"

definition slot :: "ImplicitProducer \<Rightarrow> ghost \<Rightarrow> nat \<Rightarrow> nat \<Rightarrow> u64" where
  "slot P g h b = ring (g_off g h) (bih_capacity (ip_headers P ! h)) b"

definition full :: "nat set \<Rightarrow> nat \<Rightarrow> bool" where
  "full F b \<longleftrightarrow> {32 * b ..< 32 * b + 32} \<subseteq> F"

section \<open>The block index\<close>

definition header_ok :: "ImplicitProducer \<Rightarrow> ghost \<Rightarrow> nat \<Rightarrow> bool" where
  "header_ok P g h \<longleftrightarrow> (let H = ip_headers P ! h in
     (\<exists>j. 5 \<le> j \<and> j < 62 \<and> bih_capacity H = 2 ^ j \<and> length (bih_index H) = 2 ^ j) \<and>
     (\<forall>e \<in> set (bih_index H). e < length (ip_entries P)) \<and> g_hi g h \<le> g_keyed g \<and>
     (\<forall>b. g_low g \<le> b \<and> b < g_hi g h \<longrightarrow> bih_index H ! unat (slot P g h b) = g_ent g b))"

definition current_ok :: "ImplicitProducer \<Rightarrow> ghost \<Rightarrow> nat \<Rightarrow> nat \<Rightarrow> bool" where
  "current_ok P g N h \<longleftrightarrow> (let H = ip_headers P ! h; cap = unat (bih_capacity H) in
     Suc h = length (ip_headers P) \<and> g_hi g h = g_keyed g \<and> distinct (bih_index H) \<and>
     nextBlockIndexCapacity P = 2 * bih_capacity H \<and> g_keyed g \<le> g_low g + cap \<and> g_low g \<le> g_keyed g \<and>
     cap \<le> 2 * g_keyed g + 32 \<and> N \<le> g_keyed g \<and>
     bih_tail H = ring (g_off g h - 1) (bih_capacity H) N \<and>
     (\<forall>b. g_keyed g \<le> b \<and> b < g_low g + cap \<longrightarrow>
        bie_key (ip_entries P ! (bih_index H ! unat (slot P g h b))) = INVALID_BLOCK_BASE))"

definition index_ok :: "ImplicitProducer \<Rightarrow> ghost \<Rightarrow> nat \<Rightarrow> bool" where
  "index_ok P g N \<longleftrightarrow> g_keyed g \<le> 2 ^ 58 \<and>
     (case blockIndex P of None \<Rightarrow> tailIndex P = 0 \<and> g_keyed g = 0 \<and> g_low g = 0 \<and> ip_headers P = []
      | Some h \<Rightarrow> current_ok P g N h \<and>
          (\<forall>h' < h. 0 < g_hi g h' \<and>
             bih_tail (ip_headers P ! h') = ring (g_off g h' - 1) (bih_capacity (ip_headers P ! h')) (g_hi g h'))) \<and>
     (\<forall>h < length (ip_headers P). header_ok P g h) \<and>
     (\<forall>b. g_low g \<le> b \<and> b < g_keyed g \<longrightarrow> g_ent g b < length (ip_entries P) \<and>
        bie_key (ip_entries P ! g_ent g b) = of_nat (32 * b))"

text \<open>The entry of the block in progress may hold anything.\<close>

fun dirty :: "'a ppc \<Rightarrow> bool" where
  "dirty (StoreIndexTail r e t) = True"
| "dirty (PoolLoad r e) = True"
| "dirty (PoolTake r e) = True"
| "dirty (FreeGet r e) = True"
| "dirty (Create r e) = True"
| "dirty (Rewind r e) = True"
| "dirty (ClearValue r e) = True"
| "dirty (ResetBlock r e b) = True"
| "dirty (StoreValue r e b) = True"
| "dirty _ = False"

definition values_ok :: "ImplicitProducer \<Rightarrow> ghost \<Rightarrow> bool \<Rightarrow> bool" where
  "values_ok P g dirt \<longleftrightarrow> g_unlinked g \<subseteq> {..< nb P} \<and> (\<forall>b < g_low g. b \<in> g_unlinked g) \<and>
     nb P + length (g_held g) \<le> g_keyed g \<and>
     (\<forall>b. g_low g \<le> b \<and> b < nb P \<longrightarrow>
        bie_value (ip_entries P ! g_ent g b) = (if b \<in> g_unlinked g then None else Some (g_blk g b))) \<and>
     (\<forall>j. nb P + j < g_keyed g \<and> \<not> (dirt \<and> j = length (g_held g)) \<longrightarrow>
        bie_value (ip_entries P ! g_ent g (nb P + j)) =
          (if g_rev g \<le> j \<and> j < length (g_held g) then Some (g_held g ! j) else None))"

section \<open>Consumers\<close>

definition last_index :: "'a dq \<Rightarrow> nat" where
  "last_index d = unat (dq_firstIndex d) + unat (dq_actualCount d)"

text \<open>The indices that a consumer took and did not mark yet, and those it did not move yet.\<close>

fun pending :: "nat \<Rightarrow> 'a cpc \<Rightarrow> nat set" where
  "pending p (LoadIndex d) = (if dq_producer d = p then {unat (dq_index d) ..< last_index d} else {})"
| "pending p (LoadIndexTail d) = (if dq_producer d = p then {unat (dq_index d) ..< last_index d} else {})"
| "pending p (LoadKey d t) = (if dq_producer d = p then {unat (dq_index d) ..< last_index d} else {})"
| "pending p (LoadBlock d) = (if dq_producer d = p then {unat (dq_index d) ..< last_index d} else {})"
| "pending p (MoveElement d) = (if dq_producer d = p then {unat (dq_blockStartIndex d) ..< last_index d} else {})"
| "pending p (SetEmpty d) = (if dq_producer d = p then {unat (dq_blockStartIndex d) ..< last_index d} else {})"
| "pending p (Unlink d) = (if dq_producer d = p then {unat (dq_index d) ..< last_index d} else {})"
| "pending p (FreeBlock d) = (if dq_producer d = p then {unat (dq_index d) ..< last_index d} else {})"
| "pending p _ = {}"

fun unread :: "nat \<Rightarrow> 'a cpc \<Rightarrow> nat set" where
  "unread p (MoveElement d) = (if dq_producer d = p then {unat (dq_index d) ..< last_index d} else {})"
| "unread p (SetEmpty d) = (if dq_producer d = p then {unat (dq_index d) ..< last_index d} else {})"
| "unread p pc = pending p pc"

text \<open>The block that a consumer is taking out of the index.\<close>

definition ended_block :: "'a dq \<Rightarrow> nat" where
  "ended_block d = (unat (dq_index d) - 1) div 32"

fun victim :: "nat \<Rightarrow> 'a cpc \<Rightarrow> nat set" where
  "victim p (Unlink d) = (if dq_producer d = p then {ended_block d} else {})"
| "victim p (FreeBlock d) = (if dq_producer d = p then {ended_block d} else {})"
| "victim p _ = {}"

definition knows :: "ImplicitProducer \<Rightarrow> ghost \<Rightarrow> 'a dq \<Rightarrow> bool" where
  "knows P g d \<longleftrightarrow> dq_header d < length (ip_headers P) \<and> (last_index d - 1) div 32 < g_hi g (dq_header d)"

definition taken_ok :: "ImplicitProducer \<Rightarrow> 'a dq \<Rightarrow> bool" where
  "taken_ok P d \<longleftrightarrow> 0 < unat (dq_actualCount d) \<and> last_index d \<le> unat (headIndex P) \<and> (dq_max d = None \<longrightarrow> dq_actualCount d = 1)"

definition in_block :: "ImplicitProducer \<Rightarrow> ghost \<Rightarrow> 'a dq \<Rightarrow> bool" where
  "in_block P g d \<longleftrightarrow> (let b = unat (dq_blockStartIndex d) div 32 in
     unat (dq_firstIndex d) \<le> unat (dq_blockStartIndex d) \<and> unat (dq_blockStartIndex d) < last_index d \<and>
     unat (dq_endIndex d) = min (32 * b + 32) (last_index d) \<and>
     dq_indexIndex d = slot P g (dq_header d) b \<and> dq_block d = g_blk g b)"

definition at_end :: "ImplicitProducer \<Rightarrow> ghost \<Rightarrow> 'a dq \<Rightarrow> bool" where
  "at_end P g d \<longleftrightarrow> (let b = ended_block d in
     unat (dq_firstIndex d) < unat (dq_index d) \<and> unat (dq_index d) \<le> last_index d \<and>
     (unat (dq_index d) = last_index d \<or> unat (dq_index d) = 32 * b + 32) \<and>
     dq_indexIndex d = slot P g (dq_header d) b \<and> dq_block d = g_blk g b \<and> full (g_fin g) b)"

fun dq_ok :: "ImplicitProducer \<Rightarrow> ghost \<Rightarrow> nat \<Rightarrow> 'a cpc \<Rightarrow> bool" where
  "dq_ok P g p (LoadIndex d) \<longleftrightarrow> (dq_producer d = p \<longrightarrow> taken_ok P d \<and> dq_index d = dq_firstIndex d)"
| "dq_ok P g p (LoadIndexTail d) \<longleftrightarrow> (dq_producer d = p \<longrightarrow> taken_ok P d \<and> knows P g d \<and> dq_index d = dq_firstIndex d)"
| "dq_ok P g p (LoadKey d t) \<longleftrightarrow> (dq_producer d = p \<longrightarrow> taken_ok P d \<and> knows P g d \<and> dq_index d = dq_firstIndex d \<and>
     (\<exists>B. unat (dq_firstIndex d) div 32 \<le> B \<and> B < g_hi g (dq_header d) \<and> t = slot P g (dq_header d) B))"
| "dq_ok P g p (LoadBlock d) \<longleftrightarrow> (dq_producer d = p \<longrightarrow> taken_ok P d \<and> knows P g d \<and>
     unat (dq_firstIndex d) \<le> unat (dq_index d) \<and> unat (dq_index d) < last_index d \<and>
     dq_indexIndex d = slot P g (dq_header d) (unat (dq_index d) div 32))"
| "dq_ok P g p (MoveElement d) \<longleftrightarrow> (dq_producer d = p \<longrightarrow> taken_ok P d \<and> knows P g d \<and> in_block P g d \<and>
     unat (dq_blockStartIndex d) \<le> unat (dq_index d) \<and> unat (dq_index d) < unat (dq_endIndex d))"
| "dq_ok P g p (SetEmpty d) \<longleftrightarrow> (dq_producer d = p \<longrightarrow> taken_ok P d \<and> knows P g d \<and> in_block P g d \<and> dq_index d = dq_endIndex d)"
| "dq_ok P g p (Unlink d) \<longleftrightarrow> (dq_producer d = p \<longrightarrow> taken_ok P d \<and> knows P g d \<and> at_end P g d \<and> ended_block d \<notin> g_unlinked g)"
| "dq_ok P g p (FreeBlock d) \<longleftrightarrow> (dq_producer d = p \<longrightarrow> taken_ok P d \<and> knows P g d \<and> at_end P g d \<and>
     ended_block d \<in> g_unlinked g \<and> ended_block d \<notin> g_freed g)"
| "dq_ok P g p CFault \<longleftrightarrow> False"
| "dq_ok P g p _ \<longleftrightarrow> True"

definition claims_ok :: "nat \<Rightarrow> ImplicitProducer \<Rightarrow> ghost \<Rightarrow> (nat \<Rightarrow> 'a cpc) \<Rightarrow> bool" where
  "claims_ok p P g pcs \<longleftrightarrow> g_fin g \<subseteq> {..< unat (headIndex P)} \<and>
     {..< unat (headIndex P)} \<subseteq> g_fin g \<union> (\<Union>c. pending p (pcs c)) \<and>
     (\<forall>c. pending p (pcs c) \<subseteq> {..< unat (headIndex P)} - g_fin g \<and> dq_ok P g p (pcs c)) \<and>
     (\<forall>c c'. c \<noteq> c' \<longrightarrow> pending p (pcs c) \<inter> pending p (pcs c') = {} \<and> victim p (pcs c) \<inter> victim p (pcs c') = {})"

section \<open>Blocks\<close>

definition element :: "(nat \<Rightarrow> 'a Block option) \<Rightarrow> nat \<Rightarrow> nat \<Rightarrow> 'a option" where
  "element M a i = Option.bind (M a) (\<lambda>B. elements B (i mod 32))"

definition counter :: "(nat \<Rightarrow> 'a Block option) \<Rightarrow> nat \<Rightarrow> nat" where
  "counter M a = (case M a of None \<Rightarrow> 0 | Some B \<Rightarrow> unat (elementsCompletelyDequeued B))"

definition next_of :: "(nat \<Rightarrow> 'a Block option) \<Rightarrow> nat \<Rightarrow> nat option" where
  "next_of M a = Option.bind (M a) blk_next"

definition blocks_ok :: "nat \<Rightarrow> ImplicitProducer \<Rightarrow> ghost \<Rightarrow> (nat \<Rightarrow> owner) \<Rightarrow> (nat \<Rightarrow> 'a Block option) \<Rightarrow> (nat \<Rightarrow> 'a cpc) \<Rightarrow> bool" where
  "blocks_ok p P g own M pcs \<longleftrightarrow> g_freed g \<subseteq> g_unlinked g \<and> (\<forall>b \<in> g_unlinked g. full (g_fin g) b) \<and>
     (\<forall>b < nb P. b \<notin> g_freed g \<longrightarrow> own (g_blk g b) = Active p b \<and> M (g_blk g b) \<noteq> None \<and>
        counter M (g_blk g b) = card (g_fin g \<inter> {32 * b ..< 32 * b + 32}) \<and>
        (full (g_fin g) b \<longrightarrow> (\<exists>c. b \<in> victim p (pcs c)))) \<and>
     distinct (g_held g) \<and> (\<forall>a \<in> set (g_held g). own a = Held p \<and> M a \<noteq> None)"

definition contents_ok :: "nat \<Rightarrow> ImplicitProducer \<Rightarrow> ghost \<Rightarrow> (nat \<Rightarrow> 'a Block option) \<Rightarrow> (nat \<Rightarrow> 'a cpc) \<Rightarrow> 'a list \<Rightarrow> bool" where
  "contents_ok p P g M pcs items \<longleftrightarrow> length items = unat (tailIndex P) \<and>
     (\<forall>i < unat (tailIndex P). unat (headIndex P) \<le> i \<or> (\<exists>c. i \<in> unread p (pcs c)) \<longrightarrow>
        element M (g_blk g (i div 32)) i = Some (items ! i))"

definition pool_ok :: "'a CQ \<Rightarrow> (nat \<Rightarrow> owner) \<Rightarrow> bool" where
  "pool_ok s own \<longleftrightarrow> distinct (freeList s) \<and> (\<forall>a \<in> set (freeList s). own a = Free \<and> cq_blocks s a \<noteq> None) \<and>
     (\<forall>a. cq_blocks s a = None \<longrightarrow> own a = Unused) \<and>
     (\<forall>a. unat (initialBlockPoolIndex s) \<le> a \<and> a < unat (initialBlockPoolSize s) \<longrightarrow> own a = Unused \<and> cq_blocks s a \<noteq> None)"

section \<open>Producers\<close>

text \<open>The memory of block \<open>b\<close>, published or in progress.\<close>

definition block_at :: "ImplicitProducer \<Rightarrow> ghost \<Rightarrow> nat \<Rightarrow> nat" where
  "block_at P g b = (if b < nb P then g_blk g b else g_held g ! (b - nb P))"

fun request_items :: "'a request \<Rightarrow> 'a list" where
  "request_items (One x) = [x]"
| "request_items (Bulk k) = bk_items k"

text \<open>The number of blocks when the request is done.\<close>

definition goal :: "ImplicitProducer \<Rightarrow> 'a request \<Rightarrow> nat" where
  "goal P r = nblk (unat (tailIndex P) + length (request_items r))"

definition tail_block_ok :: "ImplicitProducer \<Rightarrow> ghost \<Rightarrow> nat option \<Rightarrow> bool" where
  "tail_block_ok P g t \<longleftrightarrow> (unat (tailIndex P) mod 32 \<noteq> 0 \<longrightarrow> t = Some (g_blk g (nb P - 1)))"

definition chain_ok :: "ghost \<Rightarrow> (nat \<Rightarrow> 'a Block option) \<Rightarrow> bool" where
  "chain_ok g M \<longleftrightarrow> (\<forall>j < length (g_held g). next_of M (g_held g ! j) =
     (if Suc j < length (g_held g) then Some (g_held g ! Suc j) else None))"

definition first_held :: "ghost \<Rightarrow> nat option" where
  "first_held g = (if g_held g = [] then None else Some (hd (g_held g)))"

definition last_held :: "ghost \<Rightarrow> nat option \<Rightarrow> nat option" where
  "last_held g t = (if g_held g = [] then t else Some (last (g_held g)))"

definition bulk_ok :: "ImplicitProducer \<Rightarrow> ghost \<Rightarrow> (nat \<Rightarrow> 'a Block option) \<Rightarrow> 'a bulk \<Rightarrow> bool" where
  "bulk_ok P g M k \<longleftrightarrow> tail_block_ok P g (bk_startBlock k) \<and> bk_firstAllocatedBlock k = first_held g \<and>
     bk_endBlock k = last_held g (bk_startBlock k) \<and> chain_ok g M \<and>
     (unat (tailIndex P) mod 32 \<noteq> 0 \<and> g_held g \<noteq> [] \<longrightarrow> next_of M (g_blk g (nb P - 1)) = Some (hd (g_held g)))"

text \<open>Before the blocks of a request are complete.\<close>

definition allocating :: "ImplicitProducer \<Rightarrow> ghost \<Rightarrow> (nat \<Rightarrow> 'a Block option) \<Rightarrow> 'a request \<Rightarrow> bool" where
  "allocating P g M r \<longleftrightarrow> g_rev g = 0 \<and> nb P + length (g_held g) < goal P r \<and>
     current_index P r = of_nat (32 * (nb P + length (g_held g))) \<and>
     (case r of One x \<Rightarrow> g_held g = [] \<and> unat (tailIndex P) mod 32 = 0
      | Bulk k \<Rightarrow> bulk_ok P g M k \<and> bk_left k = bk_items k \<and> tailBlock P = last_held g (bk_startBlock k) \<and>
          bk_blockBaseDiff k = of_nat (32 * (goal P r - nb P - length (g_held g) - 1)))"

definition inserting :: "ImplicitProducer \<Rightarrow> ghost \<Rightarrow> nat \<Rightarrow> bool" where
  "inserting P g e \<longleftrightarrow> nb P + length (g_held g) < g_keyed g \<and> e = g_ent g (nb P + length (g_held g)) \<and> blockIndex P \<noteq> None"

definition written :: "ImplicitProducer \<Rightarrow> ghost \<Rightarrow> (nat \<Rightarrow> 'a Block option) \<Rightarrow> 'a list \<Rightarrow> nat \<Rightarrow> bool" where
  "written P g M xs n \<longleftrightarrow> (\<forall>i < n. element M (block_at P g ((unat (tailIndex P) + i) div 32)) (unat (tailIndex P) + i) = Some (xs ! i))"

definition filling :: "ImplicitProducer \<Rightarrow> ghost \<Rightarrow> (nat \<Rightarrow> 'a Block option) \<Rightarrow> 'a request \<Rightarrow> bool" where
  "filling P g M r \<longleftrightarrow> g_rev g = 0 \<and> nb P + length (g_held g) = goal P r \<and>
     (case r of One x \<Rightarrow> tailBlock P = Some (block_at P g (unat (tailIndex P) div 32))
      | Bulk k \<Rightarrow> bulk_ok P g M k \<and>
          (let n = unat (bk_currentTailIndex k) - unat (tailIndex P); m = unat (tailIndex P) + length (bk_items k) in
           unat (tailIndex P) \<le> unat (bk_currentTailIndex k) \<and> unat (bk_currentTailIndex k) \<le> unat (bk_stop k) \<and>
           bk_left k = drop n (bk_items k) \<and> written P g M (bk_items k) n \<and>
           (if bk_items k = [] then tailBlock P = bk_startBlock k \<and> unat (bk_stop k) = unat (tailIndex P)
            else (\<exists>B. unat (tailIndex P) div 32 \<le> B \<and> B < goal P r \<and> tailBlock P = Some (block_at P g B) \<and>
                    32 * B \<le> unat (bk_currentTailIndex k) \<and> unat (bk_stop k) = min (32 * B + 32) m))))"

definition publishing :: "ImplicitProducer \<Rightarrow> ghost \<Rightarrow> (nat \<Rightarrow> 'a Block option) \<Rightarrow> 'a request \<Rightarrow> bool" where
  "publishing P g M r \<longleftrightarrow> g_rev g = 0 \<and> nb P + length (g_held g) = goal P r \<and>
     written P g M (request_items r) (length (request_items r)) \<and>
     ((unat (tailIndex P) + length (request_items r)) mod 32 \<noteq> 0 \<longrightarrow> tailBlock P = Some (block_at P g (goal P r - 1)))"

fun prod_ok :: "ImplicitProducer \<Rightarrow> ghost \<Rightarrow> (nat \<Rightarrow> owner) \<Rightarrow> (nat \<Rightarrow> 'a Block option) \<Rightarrow> nat \<Rightarrow> 'a ppc \<Rightarrow> bool" where
  "prod_ok P g own M p (PReady r) \<longleftrightarrow> g_held g = [] \<and> g_rev g = 0 \<and> tail_block_ok P g (tailBlock P)"
| "prod_ok P g own M p (LoadHead r) \<longleftrightarrow> allocating P g M r"
| "prod_ok P g own M p (Insert r) \<longleftrightarrow> allocating P g M r"
| "prod_ok P g own M p (NewIndex r) \<longleftrightarrow> allocating P g M r \<and> nb P + length (g_held g) = g_keyed g \<and>
     (\<exists>h. blockIndex P = Some h \<and> g_keyed g = g_low g + unat (bih_capacity (ip_headers P ! h)))"
| "prod_ok P g own M p (StoreKey r e t) \<longleftrightarrow> allocating P g M r \<and>
     (\<exists>h. blockIndex P = Some h \<and> t = slot P g h (nb P + length (g_held g)) \<and> e = bih_index (ip_headers P ! h) ! unat t \<and>
        (nb P + length (g_held g) = g_keyed g \<longrightarrow>
           g_keyed g < g_low g + unat (bih_capacity (ip_headers P ! h)) \<or> g_low g \<in> g_unlinked g))"
| "prod_ok P g own M p (StoreIndexTail r e t) \<longleftrightarrow> allocating P g M r \<and> inserting P g e \<and>
     t = slot P g (the (blockIndex P)) (nb P + length (g_held g))"
| "prod_ok P g own M p (PoolLoad r e) \<longleftrightarrow> allocating P g M r \<and> inserting P g e"
| "prod_ok P g own M p (PoolTake r e) \<longleftrightarrow> allocating P g M r \<and> inserting P g e"
| "prod_ok P g own M p (FreeGet r e) \<longleftrightarrow> allocating P g M r \<and> inserting P g e"
| "prod_ok P g own M p (Create r e) \<longleftrightarrow> allocating P g M r \<and> inserting P g e"
| "prod_ok P g own M p (Rewind r e) \<longleftrightarrow> allocating P g M r \<and> inserting P g e"
| "prod_ok P g own M p (ClearValue r e) \<longleftrightarrow> allocating P g M r \<and> inserting P g e"
| "prod_ok P g own M p (ResetBlock r e a) \<longleftrightarrow> allocating P g M r \<and> inserting P g e \<and>
     own a = Held p \<and> a \<notin> set (g_held g) \<and> M a \<noteq> None"
| "prod_ok P g own M p (StoreValue r e a) \<longleftrightarrow> allocating P g M r \<and> inserting P g e \<and>
     own a = Held p \<and> a \<notin> set (g_held g) \<and> M a \<noteq> None \<and> counter M a = 0 \<and> (\<forall>k. r = Bulk k \<longrightarrow> next_of M a = None)"
| "prod_ok P g own M p (WriteElement r) \<longleftrightarrow> filling P g M r"
| "prod_ok P g own M p (Publish r) \<longleftrightarrow> publishing P g M r"
| "prod_ok P g own M p (Revert k b) \<longleftrightarrow> bulk_ok P g M k \<and> g_rev g \<le> length (g_held g) \<and>
     b = (if g_rev g < length (g_held g) then Some (g_held g ! g_rev g) else None) \<and>
     bk_currentTailIndex k + BLOCK_SIZE = of_nat (32 * (nb P + g_rev g)) \<and> (g_held g \<noteq> [] \<longrightarrow> blockIndex P \<noteq> None)"
| "prod_ok P g own M p (RevertTail k b) \<longleftrightarrow> bulk_ok P g M k \<and> 0 < g_rev g \<and> g_rev g \<le> length (g_held g) \<and>
     b = g_held g ! (g_rev g - 1) \<and> bk_currentTailIndex k = of_nat (32 * (nb P + g_rev g - 1)) \<and> blockIndex P \<noteq> None"
| "prod_ok P g own M p (Release k b) \<longleftrightarrow> tail_block_ok P g (bk_startBlock k) \<and> chain_ok g M \<and>
     g_rev g = length (g_held g) \<and> b = first_held g"
| "prod_ok P g own M p PFault \<longleftrightarrow> False"

text \<open>How many blocks the tail of the current header counts.\<close>

fun inserted :: "'a ppc \<Rightarrow> ghost \<Rightarrow> nat" where
  "inserted (PoolLoad r e) g = length (g_held g) + 1"
| "inserted (PoolTake r e) g = length (g_held g) + 1"
| "inserted (FreeGet r e) g = length (g_held g) + 1"
| "inserted (Create r e) g = length (g_held g) + 1"
| "inserted (ResetBlock r e b) g = length (g_held g) + 1"
| "inserted (StoreValue r e b) g = length (g_held g) + 1"
| "inserted (Rewind r e) g = length (g_held g) + 1"
| "inserted (RevertTail k b) g = length (g_held g) - (g_rev g - 1)"
| "inserted _ g = length (g_held g) - g_rev g"

definition held_counters :: "ghost \<Rightarrow> (nat \<Rightarrow> 'a Block option) \<Rightarrow> bool" where
  "held_counters g M \<longleftrightarrow> (\<forall>a \<in> set (g_held g). counter M a = 0)"

definition producer_ok :: "'a CQ \<Rightarrow> (nat \<Rightarrow> 'a list) \<Rightarrow> (nat \<Rightarrow> owner) \<Rightarrow> ghost \<Rightarrow> nat \<Rightarrow> bool" where
  "producer_ok s items own g p \<longleftrightarrow> (let P = producers s p; pc = cq_ppc s p; M = cq_blocks s in
     index_ok P g (nb P + inserted pc g) \<and> values_ok P g (dirty pc) \<and> claims_ok p P g (cq_cpc s) \<and>
     blocks_ok p P g own M (cq_cpc s) \<and> held_counters g M \<and> contents_ok p P g M (cq_cpc s) (items p) \<and> prod_ok P g own M p pc)"

definition queue_inv :: "'a CQ \<Rightarrow> (nat \<Rightarrow> 'a list) \<Rightarrow> (nat \<Rightarrow> owner) \<Rightarrow> (nat \<Rightarrow> ghost) \<Rightarrow> bool" where
  "queue_inv s items own g \<longleftrightarrow> tickets_ok s \<and> pool_ok s own \<and> (\<forall>p. producer_ok s items own (g p) p)"

end
