(* ===== verification/ConcurrentQueue_Frames.thy ===== *)
theory ConcurrentQueue_Frames
  imports ConcurrentQueue_Inv
begin

unbundle bit_operations_syntax

text \<open>
  What a step of one thread leaves alone, and what a consumer finds when it looks up the block of an
  index.
\<close>

section \<open>Frames\<close>

lemma index_ok_frame:
  assumes "index_ok P g N" "tailIndex P' = tailIndex P" "blockIndex P' = blockIndex P" "ip_headers P' = ip_headers P"
    "nextBlockIndexCapacity P' = nextBlockIndexCapacity P" "length (ip_entries P') = length (ip_entries P)"
    "\<And>e. e < length (ip_entries P) \<Longrightarrow> bie_key (ip_entries P' ! e) = bie_key (ip_entries P ! e)"
    "g_ent g' = g_ent g" "g_keyed g' = g_keyed g" "g_low g' = g_low g" "g_hi g' = g_hi g" "g_off g' = g_off g"
  shows "index_ok P' g' N"
proof -
  have sl: "slot P' g' = slot P g" using assms by (simp add: fun_eq_iff slot_def)
  have in_range: "bih_index (ip_headers P ! h) ! unat (slot P g h b) < length (ip_entries P)" if "h < length (ip_headers P)" for h b
  proof -
    have "header_ok P g h" using assms(1) that by (simp add: index_ok_def)
    then obtain j where j: "j < 62" "bih_capacity (ip_headers P ! h) = 2 ^ j" "length (bih_index (ip_headers P ! h)) = 2 ^ j"
      and e: "\<forall>e \<in> set (bih_index (ip_headers P ! h)). e < length (ip_entries P)" by (auto simp: header_ok_def Let_def)
    have "unat (slot P g h b) < length (bih_index (ip_headers P ! h))" using ring_less [of j] j by (simp add: slot_def)
    then show ?thesis using e nth_mem by blast
  qed
  have "header_ok P' g' h = header_ok P g h" for h using assms sl by (simp add: header_ok_def Let_def)
  moreover have "current_ok P' g' N h = current_ok P g N h" for h
    using assms sl in_range [of h] by (auto simp: current_ok_def Let_def)
  ultimately show ?thesis using assms by (simp add: index_ok_def split: option.splits)
qed

lemma values_ok_frame:
  assumes "values_ok P g d" "tailIndex P' = tailIndex P" "g_ent g' = g_ent g" "g_blk g' = g_blk g" "g_keyed g' = g_keyed g"
    "g_low g' = g_low g" "g_unlinked g' = g_unlinked g" "g_held g' = g_held g" "g_rev g' = g_rev g" "ip_entries P' = ip_entries P"
  shows "values_ok P' g' d"
  using assms by (simp add: values_ok_def)

lemma prod_ok_frame:
  assumes "prod_ok P g own M p pc"
    and P: "tailIndex P' = tailIndex P" "tailBlock P' = tailBlock P" "blockIndex P' = blockIndex P" "ip_headers P' = ip_headers P"
    and g: "g_ent g' = g_ent g" "g_blk g' = g_blk g" "g_keyed g' = g_keyed g" "g_low g' = g_low g" "g_off g' = g_off g"
      "g_held g' = g_held g" "g_rev g' = g_rev g" "g_unlinked g \<subseteq> g_unlinked g'"
    and held: "\<And>a. a \<in> set (g_held g) \<or> own a = Held p \<Longrightarrow> M' a = M a \<and> own' a = own a"
    and nxt: "unat (tailIndex P) mod 32 \<noteq> 0 \<Longrightarrow> next_of M' (g_blk g (nb P - 1)) = next_of M (g_blk g (nb P - 1))"
    and el: "\<And>i. unat (tailIndex P) \<le> i \<Longrightarrow> i div 32 < nb P \<Longrightarrow> element M' (g_blk g (i div 32)) i = element M (g_blk g (i div 32)) i"
  shows "prod_ok P' g' own' M' p pc"
proof -
  have h: "M' a = M a" if "a \<in> set (g_held g)" for a using held that by blast
  have sl: "slot P' g' = slot P g" using P g by (simp add: fun_eq_iff slot_def)
  have "chain_ok g' M' = chain_ok g M" using g h by (simp add: chain_ok_def next_of_def)
  then have bulk: "bulk_ok P' g' M' k = bulk_ok P g M k" for k
    using g P nxt by (auto simp: bulk_ok_def first_held_def last_held_def tail_block_ok_def)
  have al: "allocating P' g' M' r = allocating P g M r" for r
    using g P by (cases r) (simp_all add: allocating_def goal_def current_index_def bulk last_held_def)
  have at: "block_at P' g' = block_at P g" using P g by (simp add: fun_eq_iff block_at_def)
  have go: "goal P' r = goal P r" for r using P by (simp add: goal_def)
  have wr: "written P' g' M' xs n = written P g M xs n" if "\<And>i. i < n \<Longrightarrow> (unat (tailIndex P) + i) div 32 < nb P + length (g_held g)" for xs n
  proof -
    have "element M' (block_at P g ((unat (tailIndex P) + i) div 32)) (unat (tailIndex P) + i) =
        element M (block_at P g ((unat (tailIndex P) + i) div 32)) (unat (tailIndex P) + i)" if i: "i < n" for i
    proof (cases "(unat (tailIndex P) + i) div 32 < nb P")
      case True
      then show ?thesis using el by (simp add: block_at_def)
    next
      case False
      then have "block_at P g ((unat (tailIndex P) + i) div 32) \<in> set (g_held g)"
        using \<open>\<And>i. i < n \<Longrightarrow> _\<close> [OF i] by (simp add: block_at_def)
      then show ?thesis using h by (simp add: element_def)
    qed
    then show ?thesis by (auto simp: written_def P at)
  qed
  show ?thesis
  proof (cases pc)
    case (WriteElement r)
    then have f: "filling P g M r" using assms(1) by simp
    show ?thesis
    proof (cases r)
      case (Bulk k)
      let ?n = "unat (bk_currentTailIndex k) - unat (tailIndex P)"
      have "written P' g' M' (bk_items k) ?n = written P g M (bk_items k) ?n"
      proof (rule wr)
        fix i assume "i < ?n"
        then have "unat (tailIndex P) + i < unat (tailIndex P) + length (bk_items k)"
          using f by (auto simp: Bulk filling_def Let_def split: if_splits)
        then show "(unat (tailIndex P) + i) div 32 < nb P + length (g_held g)"
          using f by (auto simp: Bulk filling_def goal_def nblk_def)
      qed
      then show ?thesis using f unfolding WriteElement Bulk
        by (simp add: filling_def P g bulk go at Let_def)
    qed (use f in \<open>simp add: WriteElement filling_def P g go at\<close>)
  next
    case (Publish r)
    then have f: "publishing P g M r" using assms(1) by simp
    have "written P' g' M' (request_items r) (length (request_items r)) = written P g M (request_items r) (length (request_items r))"
      by (rule wr) (use f in \<open>auto simp: publishing_def goal_def nblk_def\<close>)
    then show ?thesis using f unfolding Publish by (simp add: publishing_def P g go at)
  next
    case (StoreKey r e t)
    then show ?thesis using assms(1) by (auto simp: al P g sl intro: subsetD [OF g(8)])
  next
    case (ResetBlock r e a)
    then show ?thesis using assms(1) held [of a] by (simp add: al inserting_def P g)
  next
    case (StoreValue r e a)
    then show ?thesis using assms(1) held [of a] by (simp add: al inserting_def P g counter_def next_of_def)
  next
    case (Release k b)
    then show ?thesis using assms(1) \<open>chain_ok g' M' = chain_ok g M\<close> by (simp add: tail_block_ok_def first_held_def P g)
  qed (use assms(1) in \<open>simp_all add: al inserting_def P g sl bulk tail_block_ok_def\<close>)
qed

lemma claims_okD:
  assumes "claims_ok p P g pcs"
  shows "g_fin g \<subseteq> {..< unat (headIndex P)}" "{..< unat (headIndex P)} \<subseteq> g_fin g \<union> (\<Union>c. pending p (pcs c))"
    "pending p (pcs c) \<subseteq> {..< unat (headIndex P)} - g_fin g" "dq_ok P g p (pcs c)"
    "c \<noteq> c' \<Longrightarrow> pending p (pcs c) \<inter> pending p (pcs c') = {}" "c \<noteq> c' \<Longrightarrow> victim p (pcs c) \<inter> victim p (pcs c') = {}"
  using assms by (simp_all add: claims_ok_def)

lemma claims_okI:
  assumes "g_fin g \<subseteq> {..< unat (headIndex P)}" "{..< unat (headIndex P)} \<subseteq> g_fin g \<union> (\<Union>c. pending p (pcs c))"
    "\<And>c. pending p (pcs c) \<subseteq> {..< unat (headIndex P)} - g_fin g" "\<And>c. dq_ok P g p (pcs c)"
    "\<And>c c'. c \<noteq> c' \<Longrightarrow> pending p (pcs c) \<inter> pending p (pcs c') = {}"
    "\<And>c c'. c \<noteq> c' \<Longrightarrow> victim p (pcs c) \<inter> victim p (pcs c') = {}"
  shows "claims_ok p P g pcs"
  unfolding claims_ok_def using assms by blast

lemma claims_same:
  assumes cl: "claims_ok p P g pcs" and head: "headIndex P' = headIndex P" "g_fin g' = g_fin g"
    and same: "\<And>c. pending p (pcs' c) = pending p (pcs c) \<and> victim p (pcs' c) = victim p (pcs c)"
    and ok: "\<And>c. dq_ok P g p (pcs c) \<Longrightarrow> dq_ok P' g' p (pcs' c)"
  shows "claims_ok p P' g' pcs'"
proof (rule claims_okI)
  show "dq_ok P' g' p (pcs' c)" for c using ok claims_okD(4) [OF cl] .
qed (use claims_okD [OF cl] in \<open>simp_all add: head same\<close>)

lemma unread_pending: "unread p pc \<subseteq> pending p pc" if "dq_ok P g p pc" for pc :: "'a cpc"
  using that by (cases pc) (auto simp: in_block_def Let_def)

section \<open>Looking up a block\<close>

lemma header_okD:
  assumes "index_ok P g N" "h < length (ip_headers P)"
  obtains j where "5 \<le> j" "j < 62" "bih_capacity (ip_headers P ! h) = 2 ^ j" "length (bih_index (ip_headers P ! h)) = 2 ^ j"
    "\<And>e. e \<in> set (bih_index (ip_headers P ! h)) \<Longrightarrow> e < length (ip_entries P)" "g_hi g h \<le> g_keyed g"
    "\<And>b. g_low g \<le> b \<Longrightarrow> b < g_hi g h \<Longrightarrow> bih_index (ip_headers P ! h) ! unat (slot P g h b) = g_ent g b"
    "\<And>b. unat (slot P g h b) < length (bih_index (ip_headers P ! h))"
proof -
  have "header_ok P g h" using assms by (simp add: index_ok_def)
  then obtain j where j: "5 \<le> j" "j < 62" "bih_capacity (ip_headers P ! h) = 2 ^ j" "length (bih_index (ip_headers P ! h)) = 2 ^ j"
    "\<forall>e \<in> set (bih_index (ip_headers P ! h)). e < length (ip_entries P)" "g_hi g h \<le> g_keyed g"
    "\<forall>b. g_low g \<le> b \<and> b < g_hi g h \<longrightarrow> bih_index (ip_headers P ! h) ! unat (slot P g h b) = g_ent g b"
    by (auto simp: header_ok_def Let_def)
  moreover have "unat (slot P g h b) < length (bih_index (ip_headers P ! h))" for b using ring_less [of j] j by (simp add: slot_def)
  ultimately show thesis using that by blast
qed

lemma header_entry:
  assumes "index_ok P g N" "h < length (ip_headers P)" "g_low g \<le> b" "b < g_hi g h"
  shows "bih_index (ip_headers P ! h) ! unat (slot P g h b) = g_ent g b"
  using assms by (simp add: index_ok_def header_ok_def Let_def)

lemma nblk_div: "i < n \<Longrightarrow> i div 32 < nblk n"
  by (simp add: nblk_def)

lemma nblk_alt: "nblk n = n div 32 + (if n mod 32 = 0 then 0 else 1)"
proof (cases "n mod 32 = 0")
  case True
  then have "n + 31 = 31 + 32 * (n div 32)" using mult_div_mod_eq [of 32 n] by simp
  then have "(n + 31) div 32 = 31 div 32 + n div 32" by (simp only: div_mult_self2 zero_neq_numeral simp_thms)
  then show ?thesis using True by (simp add: nblk_def)
next
  case False
  then obtain r where "n mod 32 = Suc r" by (cases "n mod 32") auto
  then have "n + 31 = (n mod 32 - 1) + 32 * (n div 32 + 1)" using mult_div_mod_eq [of 32 n] by simp
  then have "(n + 31) div 32 = (n mod 32 - 1) div 32 + (n div 32 + 1)" by simp
  moreover have "(n mod 32 - 1) div 32 = 0" using mod_less_divisor [of 32 n] by (intro div_less) linarith
  ultimately show ?thesis using False by (simp add: nblk_def)
qed

lemma nblk_tail:
  assumes "n \<le> i" "i div 32 < nblk n"
  shows "n mod 32 \<noteq> 0" "nblk n - 1 = i div 32"
  using assms div_le_mono [OF assms(1), of 32] by (auto simp: nblk_alt split: if_splits)

text \<open>A block with an index that is not marked is in the index.\<close>

lemma live_block:
  assumes v: "values_ok P g d" and b: "blocks_ok p P g own M pcs" and i: "i \<notin> g_fin g" "i < unat (tailIndex P)"
  shows "i div 32 < nb P" "i div 32 \<notin> g_unlinked g" "i div 32 \<notin> g_freed g" "g_low g \<le> i div 32" "i div 32 < g_keyed g"
    "bie_value (ip_entries P ! g_ent g (i div 32)) = Some (g_blk g (i div 32))"
    "own (g_blk g (i div 32)) = Active p (i div 32)" "M (g_blk g (i div 32)) \<noteq> None"
    "counter M (g_blk g (i div 32)) = card (g_fin g \<inter> {32 * (i div 32) ..< 32 * (i div 32) + 32})"
proof -
  show nb: "i div 32 < nb P" using i(2) by (rule nblk_div)
  have "i \<in> {32 * (i div 32) ..< 32 * (i div 32) + 32}" by auto
  then have "\<not> full (g_fin g) (i div 32)" using i(1) unfolding full_def by blast
  then show u: "i div 32 \<notin> g_unlinked g" using b by (auto simp: blocks_ok_def)
  then show f: "i div 32 \<notin> g_freed g" using b by (auto simp: blocks_ok_def)
  show l: "g_low g \<le> i div 32" using u v by (auto simp: values_ok_def not_less)
  show "i div 32 < g_keyed g" using nb v by (simp add: values_ok_def)
  show "bie_value (ip_entries P ! g_ent g (i div 32)) = Some (g_blk g (i div 32))" using nb u l v by (simp add: values_ok_def)
  show "own (g_blk g (i div 32)) = Active p (i div 32)" "M (g_blk g (i div 32)) \<noteq> None"
    "counter M (g_blk g (i div 32)) = card (g_fin g \<inter> {32 * (i div 32) ..< 32 * (i div 32) + 32})"
    using nb f b by (simp_all add: blocks_ok_def)
qed

definition nearby :: "ImplicitProducer \<Rightarrow> 'a dq \<Rightarrow> bool" where
  "nearby P d \<longleftrightarrow> unat (headIndex P) \<le> unat (tailIndex P) \<and> unat (tailIndex P) < 2 ^ 62"

lemma load_index_ok:
  assumes ix: "index_ok P g N" and v: "values_ok P g dt" and near: "nearby P d"
    and ok: "dq_ok P g p (LoadIndex d)" and p: "dq_producer d = p"
  obtains h where "blockIndex P = Some h" "dq_ok P g p (LoadIndexTail (d\<lparr>dq_header := h\<rparr>))"
proof -
  have t: "taken_ok P d" "dq_index d = dq_firstIndex d" using ok p by simp_all
  then have l: "0 < last_index d" "last_index d \<le> unat (tailIndex P)" using near by (auto simp: taken_ok_def nearby_def last_index_def)
  then obtain h where h: "blockIndex P = Some h" using ix by (cases "blockIndex P") (auto simp: index_ok_def)
  then have c: "Suc h = length (ip_headers P)" "g_hi g h = g_keyed g" using ix by (simp_all add: index_ok_def current_ok_def Let_def)
  have "(last_index d - 1) div 32 < nb P" using l by (intro nblk_div) simp
  also have "\<dots> \<le> g_keyed g" using v by (simp add: values_ok_def)
  finally show thesis using h c t p by (intro that) (auto simp: knows_def taken_ok_def last_index_def)
qed

lemma load_index_tail_ok:
  assumes ix: "index_ok P g N" and N: "nb P \<le> N" and near: "nearby P d"
    and ok: "dq_ok P g p (LoadIndexTail d)" and p: "dq_producer d = p"
  shows "dq_ok P g p (LoadKey d (bih_tail (ip_headers P ! dq_header d)))"
proof -
  let ?h = "dq_header d" let ?H = "ip_headers P ! ?h"
  have t: "taken_ok P d" "knows P g d" "dq_index d = dq_firstIndex d" using ok p by simp_all
  then have h: "?h < length (ip_headers P)" and hi: "(last_index d - 1) div 32 < g_hi g ?h" by (simp_all add: knows_def)
  obtain j where j: "j < 62" "bih_capacity ?H = 2 ^ j" "g_hi g ?h \<le> g_keyed g" by (rule header_okD [OF ix h]) blast
  have first: "unat (dq_firstIndex d) div 32 \<le> (last_index d - 1) div 32"
    using t(1) by (intro div_le_mono) (auto simp: taken_ok_def last_index_def)
  obtain h where bi: "blockIndex P = Some h" using ix h by (cases "blockIndex P") (auto simp: index_ok_def)
  have ring: "ring (g_off g ?h - 1) (2 ^ j) (Suc B) = slot P g ?h B" for B by (simp add: slot_def j(2) ring_def algebra_simps)
  have "\<exists>B. unat (dq_firstIndex d) div 32 \<le> B \<and> B < g_hi g ?h \<and> bih_tail ?H = slot P g ?h B"
  proof (cases "?h = h")
    case True
    then have c: "bih_tail ?H = ring (g_off g ?h - 1) (2 ^ j) N" "N \<le> g_keyed g" "g_hi g ?h = g_keyed g"
      using ix bi j(2) by (simp_all add: index_ok_def current_ok_def Let_def)
    have "last_index d - 1 < unat (tailIndex P)" using t(1) near by (auto simp: taken_ok_def nearby_def last_index_def)
    then have B: "unat (dq_firstIndex d) div 32 < N" using first nblk_div [of "last_index d - 1" "unat (tailIndex P)"] N by linarith
    then have "bih_tail ?H = slot P g ?h (N - 1)" using c(1) ring [of "N - 1"] by simp
    then show ?thesis using B c by (intro exI [of _ "N - 1"]) auto
  next
    case False
    moreover have "Suc h = length (ip_headers P)" using ix bi by (simp add: index_ok_def current_ok_def Let_def)
    ultimately have "?h < h" using h by simp
    then have "bih_tail ?H = ring (g_off g ?h - 1) (2 ^ j) (g_hi g ?h)" "0 < g_hi g ?h" using ix bi j(2) by (simp_all add: index_ok_def)
    then have "bih_tail ?H = slot P g ?h (g_hi g ?h - 1)" using ring [of "g_hi g ?h - 1"] by simp
    then show ?thesis using first hi by (intro exI [of _ "g_hi g ?h - 1"]) auto
  qed
  then show ?thesis using t p by simp
qed

lemma key_not_invalid: "32 * B < 2 ^ 63 \<Longrightarrow> of_nat (32 * B) \<noteq> INVALID_BLOCK_BASE"
proof -
  assume "32 * B < 2 ^ 63"
  then have "unat (of_nat (32 * B) :: u64) = 32 * B" by (intro unat_small) simp
  then show ?thesis unfolding INVALID_BLOCK_BASE_def by (metis One_nat_def dvd_triv_left nat_dvd_1_iff_1 num.distinct(1) numeral_eq_one_iff unat_1)
qed

lemma base_of_word: "unat i < 2 ^ 63 \<Longrightarrow> base_of i = of_nat (32 * (unat i div 32))"
  using slot_base_nat(2) [of "unat i"] by simp

text \<open>The entry of block \<open>b\<close> is found from the entry of any later block.\<close>

lemma lookup:
  assumes ix: "index_ok P g N" and h: "h < length (ip_headers P)"
    and i: "unat i < 2 ^ 63" "g_low g \<le> unat i div 32" "unat i div 32 < g_hi g h" and v: "bie_value (ip_entries P ! g_ent g (unat i div 32)) \<noteq> None"
    and B: "g_low g \<le> B" "B < g_hi g h" and t: "t = slot P g h B"
  defines "H \<equiv> ip_headers P ! h"
  defines "tb \<equiv> bie_key (ip_entries P ! (bih_index H ! unat t))"
  shows "index_index i t tb (bih_capacity H) = slot P g h (unat i div 32)" "index_assert P H tb (slot P g h (unat i div 32)) i"
proof -
  obtain j where j: "j < 62" "bih_capacity H = 2 ^ j" "length (bih_index H) = 2 ^ j" "g_hi g h \<le> g_keyed g"
    "\<And>b. g_low g \<le> b \<Longrightarrow> b < g_hi g h \<Longrightarrow> bih_index H ! unat (slot P g h b) = g_ent g b"
    "\<And>b. unat (slot P g h b) < length (bih_index H)"
    unfolding H_def by (rule header_okD [OF ix h]) blast
  have key: "bie_key (ip_entries P ! g_ent g b) = of_nat (32 * b)" if "g_low g \<le> b" "b < g_hi g h" for b
    using ix that j(4) by (simp add: index_ok_def)
  have K: "32 * B < 2 ^ 63" using B j(4) ix by (simp add: index_ok_def)
  have tb: "tb = of_nat (32 * B)" unfolding tb_def t using j(5) [OF B] key [OF B] by simp
  show idx: "index_index i t tb (bih_capacity H) = slot P g h (unat i div 32)"
    using index_index_ring [of j i B "g_off g h"] j(1) i(1) K unfolding tb t slot_def j(2) [unfolded H_def] by (simp add: j(2))
  show "index_assert P H tb (slot P g h (unat i div 32)) i"
    unfolding index_assert_def using key_not_invalid [OF K] j(5) [OF i(2,3)] j(6) key [OF i(2,3)] v base_of_word [OF i(1)]
    by (simp add: tb)
qed

lemma load_key_ok:
  assumes ix: "index_ok P g N" and v: "values_ok P g dt" and bl: "blocks_ok p P g own M pcs" and cl: "claims_ok p P g pcs"
    and near: "nearby P d" and c: "pcs c = LoadKey d t" and p: "dq_producer d = p"
  defines "H \<equiv> ip_headers P ! dq_header d"
  defines "tb \<equiv> bie_key (ip_entries P ! (bih_index H ! unat t))"
  defines "idx \<equiv> index_index (dq_firstIndex d) t tb (bih_capacity H)"
  shows "index_assert P H tb idx (dq_firstIndex d)" "dq_ok P g p (LoadBlock (d\<lparr>dq_indexIndex := idx\<rparr>))"
proof -
  let ?i = "dq_firstIndex d"
  have ok: "taken_ok P d" "knows P g d" "dq_index d = ?i" using claims_okD(4) [OF cl, of c] c p by simp_all
  obtain B where B: "unat ?i div 32 \<le> B" "B < g_hi g (dq_header d)" "t = slot P g (dq_header d) B"
    using claims_okD(4) [OF cl, of c] c p by auto
  have l: "unat ?i < last_index d" "last_index d \<le> unat (tailIndex P)" using ok(1) near by (auto simp: taken_ok_def nearby_def last_index_def)
  then have "unat ?i \<in> pending p (pcs c)" by (simp add: c p ok(3))
  then have "unat ?i \<notin> g_fin g" using claims_okD(3) [OF cl, of c] by blast
  note lb = live_block [OF v bl this less_le_trans [OF l]]
  have h: "dq_header d < length (ip_headers P)" and "unat ?i div 32 < g_hi g (dq_header d)"
    using ok(2) l(1) div_le_mono [of "unat ?i" "last_index d - 1" 32] by (auto simp: knows_def)
  then have look: "idx = slot P g (dq_header d) (unat ?i div 32)" "index_assert P H tb (slot P g (dq_header d) (unat ?i div 32)) ?i"
    unfolding idx_def tb_def H_def
    using lookup [OF ix h, of ?i B t] lb(4,6) B near l by (auto simp: nearby_def)
  then show "index_assert P H tb idx ?i" by simp
  show "dq_ok P g p (LoadBlock (d\<lparr>dq_indexIndex := idx\<rparr>))"
    using ok l(1) look(1) p by (simp add: taken_ok_def knows_def last_index_def)
qed

lemma end_index_ok:
  assumes "unat (dq_firstIndex d) + unat (dq_actualCount d) < 2 ^ 62" "unat (dq_index d) < last_index d"
  shows "unat (end_index d) = min (32 * (unat (dq_index d) div 32) + 32) (last_index d)"
proof -
  let ?e = "base_of (dq_index d) + BLOCK_SIZE"
  have "32 * (unat (dq_index d) div 32) \<le> unat (dq_index d)" by simp
  then have b: "32 * (unat (dq_index d) div 32) + 32 < 2 ^ 63" using assms by (simp add: last_index_def)
  have e: "unat ?e = 32 * (unat (dq_index d) div 32) + 32"
    using b by (subst unat_plus) (simp_all add: slot_base_unat(2) BLOCK_SIZE_def)
  have l: "unat (dq_firstIndex d + dq_actualCount d) = last_index d" using assms(1) by (subst unat_plus) (simp_all add: last_index_def)
  show ?thesis using circular_less_than_small [of "dq_firstIndex d + dq_actualCount d" ?e] assms(1) b
    by (auto simp: end_index_def Let_def e l last_index_def)
qed

lemma load_block_ok:
  assumes ix: "index_ok P g N" and v: "values_ok P g dt" and bl: "blocks_ok p P g own M pcs" and cl: "claims_ok p P g pcs"
    and near: "nearby P d" and c: "pcs c = LoadBlock d" and p: "dq_producer d = p"
  defines "a \<equiv> g_blk g (unat (dq_index d) div 32)"
  shows "bie_value (ip_entries P ! (bih_index (ip_headers P ! dq_header d) ! unat (dq_indexIndex d))) = Some a"
    "dq_index d \<noteq> end_index d"
    "dq_ok P g p (MoveElement (d\<lparr>dq_blockStartIndex := dq_index d, dq_endIndex := end_index d, dq_block := a\<rparr>))"
proof -
  let ?i = "dq_index d"
  have ok: "taken_ok P d" "knows P g d" "unat (dq_firstIndex d) \<le> unat ?i" "unat ?i < last_index d"
    "dq_indexIndex d = slot P g (dq_header d) (unat ?i div 32)"
    using claims_okD(4) [OF cl, of c] c p by simp_all
  have l: "last_index d \<le> unat (tailIndex P)" "last_index d < 2 ^ 62" using ok(1) near by (auto simp: taken_ok_def nearby_def)
  have "unat ?i \<in> pending p (pcs c)" using ok(4) by (simp add: c p)
  then have "unat ?i \<notin> g_fin g" using claims_okD(3) [OF cl, of c] by blast
  note lb = live_block [OF v bl this less_le_trans [OF ok(4) l(1)]]
  have h: "dq_header d < length (ip_headers P)" and hi: "unat ?i div 32 < g_hi g (dq_header d)"
    using ok(2,4) div_le_mono [of "unat ?i" "last_index d - 1" 32] by (auto simp: knows_def)
  have "bih_index (ip_headers P ! dq_header d) ! unat (slot P g (dq_header d) (unat ?i div 32)) = g_ent g (unat ?i div 32)"
    by (rule header_entry [OF ix h lb(4) hi])
  then show "bie_value (ip_entries P ! (bih_index (ip_headers P ! dq_header d) ! unat (dq_indexIndex d))) = Some a"
    using lb(6) by (simp add: ok(5) a_def)
  have e: "unat (end_index d) = min (32 * (unat ?i div 32) + 32) (last_index d)"
    using end_index_ok [of d] ok(4) l(2) by (simp add: last_index_def)
  then have "unat ?i < unat (end_index d)" using ok(4) by simp
  then show "dq_index d \<noteq> end_index d" by auto
  show "dq_ok P g p (MoveElement (d\<lparr>dq_blockStartIndex := dq_index d, dq_endIndex := end_index d, dq_block := a\<rparr>))"
    using ok e \<open>unat ?i < unat (end_index d)\<close> by (auto simp: p in_block_def Let_def a_def taken_ok_def knows_def last_index_def slot_def)
qed

section \<open>Steps that leave a producer alone\<close>

definition same_store :: "ImplicitProducer \<Rightarrow> ImplicitProducer \<Rightarrow> bool" where
  "same_store P P' \<longleftrightarrow> tailIndex P' = tailIndex P \<and> headIndex P' = headIndex P \<and> tailBlock P' = tailBlock P \<and>
     nextBlockIndexCapacity P' = nextBlockIndexCapacity P \<and> blockIndex P' = blockIndex P \<and>
     ip_headers P' = ip_headers P \<and> ip_entries P' = ip_entries P"

lemma same_storeD:
  assumes "same_store P P'"
  shows "tailIndex P' = tailIndex P" "headIndex P' = headIndex P" "tailBlock P' = tailBlock P"
    "nextBlockIndexCapacity P' = nextBlockIndexCapacity P" "blockIndex P' = blockIndex P"
    "ip_headers P' = ip_headers P" "ip_entries P' = ip_entries P"
  using assms by (simp_all add: same_store_def)

lemma same_store_refl [simp]: "same_store P P"
  by (simp add: same_store_def)

lemma slot_cong: "ip_headers P' = ip_headers P \<Longrightarrow> slot P' g h b = slot P g h b"
  by (simp add: slot_def)

lemma dq_ok_cong:
  assumes "headIndex P' = headIndex P" "ip_headers P' = ip_headers P"
  shows "dq_ok P' g p pc = dq_ok P g p pc"
  by (cases pc) (simp_all add: taken_ok_def knows_def in_block_def at_end_def slot_cong [OF assms(2)] assms Let_def)

definition mine :: "(nat \<Rightarrow> owner) \<Rightarrow> nat \<Rightarrow> nat \<Rightarrow> bool" where
  "mine own q a \<longleftrightarrow> own a = Held q \<or> (\<exists>b. own a = Active q b)"

lemma contents_frame:
  assumes c: "contents_ok p P g M pcs items" and v: "values_ok P g d" and bl: "blocks_ok p P g own M pcs" and cl: "claims_ok p P g pcs"
    and P: "tailIndex P' = tailIndex P" "headIndex P' = headIndex P" "g_blk g' = g_blk g"
    and un: "\<And>c. unread p (pcs' c) \<subseteq> unread p (pcs c)"
    and el: "\<And>i. i < unat (tailIndex P) \<Longrightarrow> i \<notin> g_fin g \<Longrightarrow> unat (headIndex P) \<le> i \<or> (\<exists>c. i \<in> unread p (pcs' c)) \<Longrightarrow>
        own (g_blk g (i div 32)) = Active p (i div 32) \<Longrightarrow> element M' (g_blk g (i div 32)) i = element M (g_blk g (i div 32)) i"
  shows "contents_ok p P' g' M' pcs' items"
  unfolding contents_ok_def P
proof (intro conjI allI impI)
  show "length items = unat (tailIndex P)" using c by (simp add: contents_ok_def)
  fix i assume i: "i < unat (tailIndex P)" and u: "unat (headIndex P) \<le> i \<or> (\<exists>c. i \<in> unread p (pcs' c))"
  have n: "i \<notin> g_fin g"
  proof
    assume "i \<in> g_fin g"
    then have "i < unat (headIndex P)" using claims_okD(1) [OF cl] by auto
    then obtain c where "i \<in> unread p (pcs c)" using u un by auto
    then have "i \<in> pending p (pcs c)" using unread_pending [OF claims_okD(4) [OF cl]] by blast
    then show False using claims_okD(3) [OF cl, of c] \<open>i \<in> g_fin g\<close> by blast
  qed
  have "element M (g_blk g (i div 32)) i = Some (items ! i)" using c i u un unfolding contents_ok_def by blast
  then show "element M' (g_blk g (i div 32)) i = Some (items ! i)" using el [OF i n u live_block(7) [OF v bl n i]] by simp
qed

lemma tail_block_live:
  assumes bl: "blocks_ok p P g own M pcs" and cl: "claims_ok p P g pcs" and v: "values_ok P g d"
    and near: "unat (headIndex P) \<le> unat (tailIndex P)" and t: "unat (tailIndex P) mod 32 \<noteq> 0"
  shows "own (g_blk g (nb P - 1)) = Active p (nb P - 1)" "M (g_blk g (nb P - 1)) \<noteq> None" "nb P - 1 = unat (tailIndex P) div 32"
    "nb P - 1 < nb P" "nb P - 1 \<notin> g_freed g" "nb P - 1 \<notin> g_unlinked g"
proof -
  let ?t = "unat (tailIndex P)"
  show n: "nb P - 1 = ?t div 32" "nb P - 1 < nb P" using t by (simp_all add: nblk_alt)
  have "?t \<in> {32 * (?t div 32) ..< 32 * (?t div 32) + 32}" by auto
  moreover have "?t \<notin> g_fin g" using claims_okD(1) [OF cl] near by auto
  ultimately have "\<not> full (g_fin g) (nb P - 1)" unfolding full_def n(1) by blast
  then show u: "nb P - 1 \<notin> g_freed g" "nb P - 1 \<notin> g_unlinked g" using bl by (auto simp: blocks_ok_def)
  then show "own (g_blk g (nb P - 1)) = Active p (nb P - 1)" "M (g_blk g (nb P - 1)) \<noteq> None"
    using bl n(2) by (simp_all add: blocks_ok_def)
qed

lemma producer_okD:
  assumes "producer_ok s items own g p"
  shows "index_ok (producers s p) g (nb (producers s p) + inserted (cq_ppc s p) g)" "values_ok (producers s p) g (dirty (cq_ppc s p))"
    "claims_ok p (producers s p) g (cq_cpc s)" "blocks_ok p (producers s p) g own (cq_blocks s) (cq_cpc s)"
    "held_counters g (cq_blocks s)" "contents_ok p (producers s p) g (cq_blocks s) (cq_cpc s) (items p)"
    "prod_ok (producers s p) g own (cq_blocks s) p (cq_ppc s p)"
  using assms by (simp_all add: producer_ok_def Let_def)

lemma producer_okI:
  assumes "index_ok (producers s p) g (nb (producers s p) + inserted (cq_ppc s p) g)" "values_ok (producers s p) g (dirty (cq_ppc s p))"
    "claims_ok p (producers s p) g (cq_cpc s)" "blocks_ok p (producers s p) g own (cq_blocks s) (cq_cpc s)"
    "held_counters g (cq_blocks s)" "contents_ok p (producers s p) g (cq_blocks s) (cq_cpc s) (items p)"
    "prod_ok (producers s p) g own (cq_blocks s) p (cq_ppc s p)"
  shows "producer_ok s items own g p"
  using assms by (simp add: producer_ok_def Let_def)

lemma producer_ok_frame:
  assumes ok: "producer_ok s items own g q" and near: "unat (headIndex (producers s q)) \<le> unat (tailIndex (producers s q))"
    and P: "same_store (producers s q) (producers s' q)" "cq_ppc s' q = cq_ppc s q" "items' q = items q"
    and M: "\<And>a. mine own q a \<Longrightarrow> cq_blocks s' a = cq_blocks s a \<and> own' a = own a"
    and pc: "\<And>c. pending q (cq_cpc s' c) = pending q (cq_cpc s c) \<and> unread q (cq_cpc s' c) = unread q (cq_cpc s c) \<and>
        victim q (cq_cpc s' c) = victim q (cq_cpc s c)"
    and dq: "\<And>c. dq_ok (producers s q) g q (cq_cpc s c) \<Longrightarrow> dq_ok (producers s q) g q (cq_cpc s' c)"
  shows "producer_ok s' items' own' g q"
proof -
  note D = producer_okD [OF ok]
  note S = same_storeD [OF P(1)]
  have held: "mine own q a" if "a \<in> set (g_held g) \<or> own a = Held q" for a using that D(4) by (auto simp: mine_def blocks_ok_def)
  have active: "cq_blocks s' (g_blk g b) = cq_blocks s (g_blk g b)" if "own (g_blk g b) = Active q b" for b
    using M that by (auto simp: mine_def)
  show ?thesis
  proof (rule producer_okI, unfold P(2,3))
    show "index_ok (producers s' q) g (nb (producers s' q) + inserted (cq_ppc s q) g)" unfolding S(1)
      by (rule index_ok_frame [OF D(1)]) (simp_all add: S)
    show "values_ok (producers s' q) g (dirty (cq_ppc s q))" by (rule values_ok_frame [OF D(2)]) (simp_all add: S)
    show "claims_ok q (producers s' q) g (cq_cpc s')"
      by (rule claims_same [OF D(3)]) (use pc dq in \<open>simp_all add: S dq_ok_cong [OF S(2,6)]\<close>)
    show "blocks_ok q (producers s' q) g own' (cq_blocks s') (cq_cpc s')"
      unfolding blocks_ok_def S(1)
    proof (intro conjI allI ballI impI)
      fix b assume b: "b < nb (producers s q)" "b \<notin> g_freed g"
      then have a: "own (g_blk g b) = Active q b" using D(4) by (simp add: blocks_ok_def)
      then show "own' (g_blk g b) = Active q b" using M [of "g_blk g b"] by (auto simp: mine_def)
      show "cq_blocks s' (g_blk g b) \<noteq> None" "counter (cq_blocks s') (g_blk g b) = card (g_fin g \<inter> {32 * b ..< 32 * b + 32})"
        using b D(4) active [OF a] by (simp_all add: blocks_ok_def counter_def)
      show "\<exists>c. b \<in> victim q (cq_cpc s' c)" if "full (g_fin g) b" using b that D(4) pc by (simp add: blocks_ok_def)
    qed (use D(4) M held in \<open>auto simp: blocks_ok_def\<close>)
    show "held_counters g (cq_blocks s')" using D(5) M held by (auto simp: held_counters_def counter_def)
    show "contents_ok q (producers s' q) g (cq_blocks s') (cq_cpc s') (items q)"
      by (rule contents_frame [OF D(6,2,4,3)]) (use pc active in \<open>simp_all add: S element_def\<close>)
    show "prod_ok (producers s' q) g own' (cq_blocks s') q (cq_ppc s q)"
    proof (rule prod_ok_frame [OF D(7)])
      show "next_of (cq_blocks s') (g_blk g (nb (producers s q) - 1)) = next_of (cq_blocks s) (g_blk g (nb (producers s q) - 1))"
        if "unat (tailIndex (producers s q)) mod 32 \<noteq> 0"
        using active [OF tail_block_live(1) [OF D(4,3,2) near that]] by (simp add: next_of_def)
      fix i assume i: "unat (tailIndex (producers s q)) \<le> i" "i div 32 < nb (producers s q)"
      note t = nblk_tail [OF i]
      show "element (cq_blocks s') (g_blk g (i div 32)) i = element (cq_blocks s) (g_blk g (i div 32)) i"
        using active [OF tail_block_live(1) [OF D(4,3,2) near t(1)]] t(2) by (simp add: element_def)
    qed (use M held in \<open>simp_all add: S\<close>)
  qed
qed

section \<open>The invariant\<close>

lemma queue_inv_near:
  assumes "queue_inv s items own g"
  shows "unat (headIndex (producers s p)) \<le> unat (tailIndex (producers s p))" "unat (tailIndex (producers s p)) < 2 ^ 62"
    "nearby (producers s p) d"
proof -
  from assms have t: "tickets_ok s" by (simp add: queue_inv_def)
  then obtain F A S where "tickets_inv p (producers s p) (cq_cpc s) F A S" unfolding tickets_ok_def by blast
  from head_below_tail [OF this, of 0] show h: "unat (headIndex (producers s p)) \<le> unat (tailIndex (producers s p))" by simp
  from t show "unat (tailIndex (producers s p)) < 2 ^ 62" by (simp add: tickets_ok_def within_range_def)
  with h show "nearby (producers s p) d" by (simp add: nearby_def)
qed

lemma queue_inv_quiet:
  assumes inv: "queue_inv s items own g" and t: "tickets_ok s'"
    and s: "cq_blocks s' = cq_blocks s" "freeList s' = freeList s" "initialBlockPoolIndex s' = initialBlockPoolIndex s"
      "initialBlockPoolSize s' = initialBlockPoolSize s" "cq_ppc s' = cq_ppc s" "\<And>q. same_store (producers s q) (producers s' q)"
    and pc: "\<And>q c. pending q (cq_cpc s' c) = pending q (cq_cpc s c) \<and> unread q (cq_cpc s' c) = unread q (cq_cpc s c) \<and>
        victim q (cq_cpc s' c) = victim q (cq_cpc s c)"
    and dq: "\<And>q c. dq_ok (producers s q) (g q) q (cq_cpc s c) \<Longrightarrow> dq_ok (producers s q) (g q) q (cq_cpc s' c)"
  shows "queue_inv s' items own g"
proof -
  have "producer_ok s' items own (g q) q" for q
    by (rule producer_ok_frame [of s items own]) (use inv s pc dq queue_inv_near(1) [OF inv] in \<open>simp_all add: queue_inv_def\<close>)
  moreover have "pool_ok s' own" using inv s by (simp add: queue_inv_def pool_ok_def)
  ultimately show ?thesis using t by (simp add: queue_inv_def)
qed

end
