(* ===== verification/ConcurrentQueue_Dequeue.thy ===== *)
theory ConcurrentQueue_Dequeue
  imports ConcurrentQueue_Frames
begin

unbundle bit_operations_syntax

text \<open>
  The steps of a consumer that change the queue keep the invariant: taking indices, moving an
  element out, marking slots as empty, taking a block out of the index and freeing it.
\<close>

lemma dq_ok_mono:
  assumes "dq_ok P g p pc"
    and P: "unat (headIndex P) \<le> unat (headIndex P')" "ip_headers P' = ip_headers P"
    and g: "g_hi g' = g_hi g" "g_off g' = g_off g" "g_blk g' = g_blk g" "g_fin g \<subseteq> g_fin g'"
    and v: "\<And>b. b \<in> victim p pc \<Longrightarrow> (b \<in> g_unlinked g' \<longleftrightarrow> b \<in> g_unlinked g) \<and> (b \<in> g_freed g' \<longleftrightarrow> b \<in> g_freed g)"
  shows "dq_ok P' g' p pc"
proof -
  have sl: "slot P' g' = slot P g" by (simp add: fun_eq_iff slot_def P g)
  have "full (g_fin g') b" if "full (g_fin g) b" for b using that g(4) by (auto simp: full_def)
  then show ?thesis using assms(1) v
    by (cases pc) (auto simp: taken_ok_def knows_def in_block_def at_end_def sl P g Let_def intro: order_trans [OF _ P(1)])
qed

lemma queue_inv_act:
  assumes inv: "queue_inv s items own g" and t: "tickets_ok s'" and pool: "pool_ok s' own'"
    and P: "\<And>q. q \<noteq> p \<Longrightarrow> same_store (producers s q) (producers s' q) \<and> cq_ppc s' q = cq_ppc s q \<and> items' q = items q"
    and M: "\<And>q a. q \<noteq> p \<Longrightarrow> mine own q a \<Longrightarrow> cq_blocks s' a = cq_blocks s a \<and> own' a = own a"
    and pc: "\<And>q c. q \<noteq> p \<Longrightarrow> pending q (cq_cpc s' c) = pending q (cq_cpc s c) \<and> unread q (cq_cpc s' c) = unread q (cq_cpc s c) \<and>
        victim q (cq_cpc s' c) = victim q (cq_cpc s c) \<and>
        (dq_ok (producers s q) (g q) q (cq_cpc s c) \<longrightarrow> dq_ok (producers s q) (g q) q (cq_cpc s' c))"
    and act: "producer_ok s' items' own' gp p"
  shows "queue_inv s' items' own' (g(p := gp))"
proof -
  have "producer_ok s' items' own' (g q) q" if q: "q \<noteq> p" for q
    by (rule producer_ok_frame [of s items own, OF _ queue_inv_near(1) [OF inv]])
      (use inv P [OF q] M [OF q] pc [OF q] in \<open>simp_all add: queue_inv_def\<close>)
  then show ?thesis using t pool act by (simp add: queue_inv_def)
qed

lemma take_head_step:
  assumes inv: "queue_inv s items own g" and c: "cq_cpc s c = TakeHead p mx my a"
    and t: "tickets_ok (dequeue_step c (cq_cpc s c) s)"
  shows "queue_inv (dequeue_step c (cq_cpc s c) s) items own g"
proof -
  let ?P = "producers s p" let ?s = "dequeue_step c (cq_cpc s c) s"
  let ?P' = "?P\<lparr>headIndex := headIndex ?P + a\<rparr>"
  define d :: "'a dq" where "d = \<lparr>dq_producer = p, dq_max = mx, dq_firstIndex = headIndex ?P, dq_actualCount = a, dq_header = 0,
    dq_indexIndex = 0, dq_blockStartIndex = headIndex ?P, dq_index = headIndex ?P, dq_endIndex = 0, dq_block = 0, dq_out = []\<rparr>"
  have s': "?s = s\<lparr>producers := (producers s)(p := ?P'), cq_cpc := (cq_cpc s)(c := LoadIndex d)\<rparr>"
    by (simp add: c d_def goto_simps Let_def)
  have D: "producer_ok s items own (g p) p" using inv by (simp add: queue_inv_def)
  note D = producer_okD [OF this]
  obtain F A S where ti: "tickets_inv p ?P (cq_cpc s) F A S" using inv unfolding queue_inv_def tickets_ok_def by blast
  have a: "0 < unat a" "mx = None \<longrightarrow> a = 1" using tickets_invD(10) [OF ti, of c] by (simp_all add: c)
  have "unat (headIndex ?P) + unat a \<le> unat (tailIndex ?P)" using head_below_tail [OF ti, of c] by (simp add: c)
  then have head: "unat (headIndex ?P + a) = unat (headIndex ?P) + unat a"
    using queue_inv_near(2) [OF inv, of p] by (intro unat_plus) simp
  have pend: "pending p (LoadIndex d) = {unat (headIndex ?P) ..< unat (headIndex ?P) + unat a}" by (simp add: d_def last_index_def)
  have old: "pending p (cq_cpc s c) = {}" "victim p (cq_cpc s c) = {}" by (simp_all add: c)
  have "producer_ok ?s items own (g p) p"
  proof (rule producer_okI)
    show "index_ok (producers ?s p) (g p) (nb (producers ?s p) + inserted (cq_ppc ?s p) (g p))" unfolding s'
      by simp (rule index_ok_frame [OF D(1)], simp_all)
    show "values_ok (producers ?s p) (g p) (dirty (cq_ppc ?s p))" unfolding s' by simp (rule values_ok_frame [OF D(2)], simp_all)
    show "claims_ok p (producers ?s p) (g p) (cq_cpc ?s)"
    proof (rule claims_okI)
      show "g_fin (g p) \<subseteq> {..<unat (headIndex (producers ?s p))}" using claims_okD(1) [OF D(3)] by (auto simp: s' head)
      show "{..<unat (headIndex (producers ?s p))} \<subseteq> g_fin (g p) \<union> (\<Union>c. pending p (cq_cpc ?s c))"
      proof
        fix i assume "i \<in> {..<unat (headIndex (producers ?s p))}"
        then consider "i < unat (headIndex ?P)" | "i \<in> pending p (cq_cpc ?s c)" by (fastforce simp: s' head pend simp del: pending.simps)
        then show "i \<in> g_fin (g p) \<union> (\<Union>c. pending p (cq_cpc ?s c))"
        proof cases
          case 1
          then consider "i \<in> g_fin (g p)" | c' where "i \<in> pending p (cq_cpc s c')" using claims_okD(2) [OF D(3)] by blast
          then show ?thesis
          proof cases
            case (2 c')
            then have "i \<in> pending p (cq_cpc ?s c')" using old(1) by (cases "c' = c") (auto simp: s')
            then show ?thesis by blast
          qed simp
        qed blast
      qed
      show "pending p (cq_cpc ?s c') \<subseteq> {..<unat (headIndex (producers ?s p))} - g_fin (g p)" for c'
        using claims_okD(3) [OF D(3), of c'] claims_okD(1) [OF D(3)] by (auto simp: s' head pend simp del: pending.simps split: if_splits)
      show "dq_ok (producers ?s p) (g p) p (cq_cpc ?s c')" for c'
      proof (cases "c' = c")
        case True
        then show ?thesis using a by (simp add: s' d_def taken_ok_def head last_index_def)
      next
        case False
        then show ?thesis using dq_ok_mono [OF claims_okD(4) [OF D(3), of c'], of ?P' "g p"] by (simp add: s' head)
      qed
      show "pending p (cq_cpc ?s c') \<inter> pending p (cq_cpc ?s c'') = {}" if "c' \<noteq> c''" for c' c''
        using claims_okD(5) [OF D(3) that] claims_okD(3) [OF D(3), of c'] claims_okD(3) [OF D(3), of c''] that
        by (auto simp: s' pend simp del: pending.simps split: if_splits)
      show "victim p (cq_cpc ?s c') \<inter> victim p (cq_cpc ?s c'') = {}" if "c' \<noteq> c''" for c' c''
        using claims_okD(6) [OF D(3) that] by (auto simp: s')
    qed
    show "blocks_ok p (producers ?s p) (g p) own (cq_blocks ?s) (cq_cpc ?s)"
    proof -
      have "\<exists>c'. b \<in> victim p (cq_cpc ?s c')" if "\<exists>c'. b \<in> victim p (cq_cpc s c')" for b
      proof -
        from that obtain c' where "b \<in> victim p (cq_cpc s c')" by blast
        then have "b \<in> victim p (cq_cpc ?s c')" using old(2) by (cases "c' = c") (auto simp: s')
        then show ?thesis by blast
      qed
      then show ?thesis using D(4) unfolding blocks_ok_def by (simp add: s')
    qed
    show "held_counters (g p) (cq_blocks ?s)" using D(5) by (simp add: s')
    show "contents_ok p (producers ?s p) (g p) (cq_blocks ?s) (cq_cpc ?s) (items p)"
    proof -
      have "unat (headIndex ?P) \<le> i \<or> (\<exists>c. i \<in> unread p (cq_cpc s c))"
        if "unat (headIndex ?P) + unat a \<le> i \<or> (\<exists>c'. i \<in> unread p (((cq_cpc s)(c := LoadIndex d)) c'))" for i
        using that pend by (auto split: if_splits)
      note before = this
      show ?thesis unfolding contents_ok_def
      proof (intro conjI allI impI)
        fix i assume i: "i < unat (tailIndex (producers ?s p))" "unat (headIndex (producers ?s p)) \<le> i \<or> (\<exists>c. i \<in> unread p (cq_cpc ?s c))"
        have "unat (headIndex ?P) \<le> i \<or> (\<exists>c. i \<in> unread p (cq_cpc s c))" by (rule before) (use i(2) in \<open>simp add: s' head\<close>)
        then show "element (cq_blocks ?s) (g_blk (g p) (i div 32)) i = Some (items p ! i)" using D(6) i(1) by (auto simp: contents_ok_def s')
      qed (use D(6) in \<open>simp add: contents_ok_def s'\<close>)
    qed
    show "prod_ok (producers ?s p) (g p) own (cq_blocks ?s) p (cq_ppc ?s p)"
      unfolding s' by simp (rule prod_ok_frame [OF D(7)], simp_all)
  qed
  moreover have "pool_ok ?s own" using inv by (simp add: queue_inv_def pool_ok_def s')
  ultimately have "queue_inv ?s items own (g(p := g p))" using t unfolding s'
    by (intro queue_inv_act [OF inv]) (auto simp: c d_def)
  then show ?thesis by simp
qed

lemma put_el_None [simp]:
  "elementsCompletelyDequeued (put_el i x B) = elementsCompletelyDequeued B" "blk_next (put_el i x B) = blk_next B"
  "dynamicallyAllocated (put_el i x B) = dynamicallyAllocated B"
  by (simp_all add: put_el_def)

lemma element_put:
  assumes "unat i mod 32 \<noteq> n mod 32 \<or> a \<noteq> b"
  shows "element (M(a := map_option (put_el i x) (M a))) b n = element M b n"
  using assms by (cases "M a") (auto simp: element_def put_el_def slot_base_unat)

lemma counter_put [simp]:
  "counter (M(a := map_option (put_el i x) (M a))) b = counter M b" "next_of (M(a := map_option (put_el i x) (M a))) b = next_of M b"
  by (cases "M a"; simp add: counter_def next_of_def)+

lemma move_element_step:
  assumes inv: "queue_inv s items own g" and c: "cq_cpc s c = MoveElement d"
    and t: "tickets_ok (dequeue_step c (cq_cpc s c) s)"
  defines "p \<equiv> dq_producer d" and "i \<equiv> unat (dq_index d)"
  shows "queue_inv (dequeue_step c (cq_cpc s c) s) items own g" "delivers c (cq_cpc s c) s = [(c, p, i, items p ! i)]"
    "unread p (cq_cpc (dequeue_step c (cq_cpc s c) s) c) = unread p (cq_cpc s c) - {i}" "i \<in> unread p (cq_cpc s c)"
proof -
  let ?P = "producers s p" let ?s = "dequeue_step c (cq_cpc s c) s" let ?b = "i div 32" let ?g = "g p"
  have "producer_ok s items own ?g p" using inv by (simp add: queue_inv_def)
  note D = producer_okD [OF this]
  note near = queue_inv_near [OF inv, of p]
  have ok: "taken_ok ?P d" "knows ?P ?g d" "in_block ?P ?g d" "unat (dq_blockStartIndex d) \<le> i" "i < unat (dq_endIndex d)"
    using claims_okD(4) [OF D(3), of c] by (simp_all add: c p_def i_def)
  have e: "unat (dq_endIndex d) = min (32 * (unat (dq_blockStartIndex d) div 32) + 32) (last_index d)" and a: "dq_block d = g_blk ?g (unat (dq_blockStartIndex d) div 32)"
    using ok(3) by (simp_all add: in_block_def Let_def)
  have b: "unat (dq_blockStartIndex d) div 32 = ?b" using ok(4,5) e by (intro div_nat_eqI [symmetric]) auto
  have last: "i < last_index d" "last_index d \<le> unat (tailIndex ?P)" using ok(1,5) e near by (auto simp: taken_ok_def)
  have un: "i \<in> unread p (cq_cpc s c)" "i \<in> pending p (cq_cpc s c)" using last ok(4) by (simp_all add: c p_def i_def)
  then show "i \<in> unread p (cq_cpc s c)" by simp
  have head: "i < unat (headIndex ?P)" and fin: "i \<notin> g_fin ?g" using claims_okD(3) [OF D(3), of c] un(2) by auto
  note lb = live_block [OF D(2,4) fin less_le_trans [OF last]]
  have "element (cq_blocks s) (g_blk ?g ?b) i = Some (items p ! i)" using D(6) un(1) last unfolding contents_ok_def by (meson less_le_trans)
  then have get: "Option.bind (cq_blocks s (dq_block d)) (\<lambda>B. get_el B (dq_index d)) = Some (items p ! i)"
    unfolding a b by (simp add: element_def get_el_def slot_base_unat i_def)
  then show "delivers c (cq_cpc s c) s = [(c, p, i, items p ! i)]" by (simp add: c p_def i_def)
  define M where "M = (cq_blocks s)(dq_block d := map_option (put_el (dq_index d) None) (cq_blocks s (dq_block d)))"
  define d' where "d' = d\<lparr>dq_index := dq_index d + 1, dq_out := dq_out d @ [items p ! i]\<rparr>"
  define pc where "pc = (if dq_index d' \<noteq> dq_endIndex d then MoveElement d' else SetEmpty d')"
  have s': "?s = s\<lparr>cq_blocks := M, cq_cpc := (cq_cpc s)(c := pc)\<rparr>"
    by (simp add: c move_element_def get Let_def goto_simps M_def d'_def pc_def)
  have i1: "unat (dq_index d + 1) = i + 1" using last near by (subst unat_plus) (simp_all add: i_def)
  have pend: "pending p pc = pending p (cq_cpc s c)" "victim p pc = victim p (cq_cpc s c)" "unread p pc = unread p (cq_cpc s c) - {i}"
    using i1 by (auto simp: pc_def d'_def c p_def last_index_def i_def)
  then show "unread p (cq_cpc ?s c) = unread p (cq_cpc s c) - {i}" by (simp add: s')
  have "taken_ok ?P d' = taken_ok ?P d" "knows ?P ?g d' = knows ?P ?g d" "in_block ?P ?g d' = in_block ?P ?g d"
    by (simp_all add: d'_def taken_ok_def knows_def in_block_def last_index_def)
  moreover have "i + 1 < unat (dq_endIndex d)" if "dq_index d + 1 \<noteq> dq_endIndex d"
    using that ok(5) i1 by (auto simp: word_unat_eq_iff)
  ultimately have dq: "dq_ok ?P ?g p pc" using ok i1 by (auto simp: pc_def p_def, auto simp: d'_def)
  have act: "own (g_blk ?g ?b) = Active p ?b" by (rule lb(7))
  have free: "M x = cq_blocks s x" if "own x \<noteq> Active p ?b" for x using that act by (auto simp: M_def a b)
  have none: "M x = None \<longleftrightarrow> cq_blocks s x = None" for x by (simp add: M_def)
  have cnt: "counter M x = counter (cq_blocks s) x" "next_of M x = next_of (cq_blocks s) x" for x by (simp_all add: M_def)
  have el: "element M (g_blk ?g (n div 32)) n = element (cq_blocks s) (g_blk ?g (n div 32)) n"
    if "n \<noteq> i" "own (g_blk ?g (n div 32)) = Active p (n div 32)" for n
  proof -
    have "n mod 32 \<noteq> i mod 32 \<or> g_blk ?g ?b \<noteq> g_blk ?g (n div 32)"
      using that act by (metis owner.inject(2) mult_div_mod_eq)
    then show ?thesis unfolding M_def a b by (intro element_put) (auto simp: i_def)
  qed
  have others: "unread p (cq_cpc s c') \<inter> {i} = {}" if "c' \<noteq> c" for c'
    using claims_okD(5) [OF D(3) that] un(2) unread_pending [OF claims_okD(4) [OF D(3), of c']] by blast
  have "producer_ok ?s items own ?g p"
  proof (rule producer_okI)
    show "claims_ok p (producers ?s p) ?g (cq_cpc ?s)"
      by (rule claims_same [OF D(3)]) (use pend dq in \<open>auto simp: s'\<close>)
    show "blocks_ok p (producers ?s p) ?g own (cq_blocks ?s) (cq_cpc ?s)"
    proof -
      have "victim p (cq_cpc ?s c') = victim p (cq_cpc s c')" for c' using pend(2) by (simp add: s')
      then show ?thesis using D(4) unfolding blocks_ok_def by (simp add: s' none cnt)
    qed
    show "contents_ok p (producers ?s p) ?g (cq_blocks ?s) (cq_cpc ?s) (items p)"
    proof (rule contents_frame [OF D(6,2,4,3)])
      show "unread p (cq_cpc ?s c') \<subseteq> unread p (cq_cpc s c')" for c' using pend(3) by (auto simp: s')
      fix n assume u: "unat (headIndex ?P) \<le> n \<or> (\<exists>c. n \<in> unread p (cq_cpc ?s c))" and o: "own (g_blk ?g (n div 32)) = Active p (n div 32)"
      have "n \<noteq> i" using u head others pend(3) by (auto simp: s' split: if_splits)
      then show "element (cq_blocks ?s) (g_blk ?g (n div 32)) n = element (cq_blocks s) (g_blk ?g (n div 32)) n" using el o by (simp add: s')
    qed (simp_all add: s')
    show "prod_ok (producers ?s p) ?g own (cq_blocks ?s) p (cq_ppc ?s p)"
      unfolding s'
    proof (simp, rule prod_ok_frame [OF D(7)])
      show "M x = cq_blocks s x \<and> own x = own x" if "x \<in> set (g_held ?g) \<or> own x = Held p" for x
        using that D(4) free by (auto simp: blocks_ok_def)
      fix n assume n: "unat (tailIndex ?P) \<le> n" "n div 32 < nb ?P"
      then show "element M (g_blk ?g (n div 32)) n = element (cq_blocks s) (g_blk ?g (n div 32)) n"
        using el [of n] tail_block_live(1) [OF D(4,3,2) near(1) nblk_tail(1) [OF n]] nblk_tail(2) [OF n] last by auto
    qed (simp_all add: cnt)
  qed (use D in \<open>simp_all add: s' held_counters_def cnt\<close>)
  moreover have "pool_ok ?s own" using inv by (simp add: queue_inv_def pool_ok_def s' none)
  ultimately have "queue_inv ?s items own (g(p := ?g))" using t free unfolding s'
    by (intro queue_inv_act [OF inv]) (auto simp: c p_def pc_def d'_def mine_def)
  then show "queue_inv ?s items own g" by simp
qed

lemma next_block_ok:
  assumes ix: "index_ok P g N" and P: "P = dq_P s d" and t: "taken_ok P d" and k: "knows P g d"
    and d: "unat (dq_firstIndex d) < unat (dq_index d)" "unat (dq_index d) \<le> last_index d" "last_index d < 2 ^ 62"
      "unat (dq_index d) = last_index d \<or> unat (dq_index d) = 32 * b + 32" "dq_indexIndex d = slot P g (dq_header d) b"
  shows "dq_ok P g p (next_block s d)" "pending p (next_block s d) = (if dq_producer d = p then {unat (dq_index d) ..< last_index d} else {})"
    "victim p (next_block s d) = {}" "unread p (next_block s d) = pending p (next_block s d)"
proof -
  have l: "unat (dq_firstIndex d + dq_actualCount d) = last_index d" using d(3) by (subst unat_plus) (simp_all add: last_index_def)
  have stop: "dq_index d = dq_firstIndex d + dq_actualCount d \<longleftrightarrow> unat (dq_index d) = last_index d" by (simp add: word_unat_eq_iff l)
  obtain j where j: "j < 62" "bih_capacity (ip_headers P ! dq_header d) = 2 ^ j"
    by (rule header_okD [OF ix, of "dq_header d"]) (use k in \<open>auto simp: knows_def\<close>)
  have "(dq_indexIndex d + 1) AND (bih_capacity (dq_H s d) - 1) = slot P g (dq_header d) (b + 1)"
    using ring_Suc [of j "g_off g (dq_header d)" b 1] j by (simp add: d(5) slot_def dq_H_def P [symmetric])
  moreover have "unat (dq_index d) div 32 = b + 1" if "unat (dq_index d) \<noteq> last_index d" using d(4) that by simp
  ultimately show "dq_ok P g p (next_block s d)"
    using t k d(1,2) by (simp add: next_block_def stop taken_ok_def knows_def last_index_def)
  show "pending p (next_block s d) = (if dq_producer d = p then {unat (dq_index d) ..< last_index d} else {})"
    "victim p (next_block s d) = {}" "unread p (next_block s d) = pending p (next_block s d)"
    using stop by (auto simp: next_block_def last_index_def)
qed

lemma block_of_part:
  assumes "in_block P g d" "dq_index d = dq_endIndex d"
  shows "unat (dq_blockStartIndex d) div 32 = ended_block d" "unat (dq_blockStartIndex d) < unat (dq_index d)"
    "unat (dq_index d) \<le> 32 * ended_block d + 32" "32 * ended_block d \<le> unat (dq_blockStartIndex d)"
    "unat (dq_index d) = last_index d \<or> unat (dq_index d) = 32 * ended_block d + 32" "unat (dq_index d) \<le> last_index d"
proof -
  let ?b = "unat (dq_blockStartIndex d) div 32"
  have e: "unat (dq_index d) = min (32 * ?b + 32) (last_index d)" and l: "unat (dq_blockStartIndex d) < last_index d"
    using assms by (simp_all add: in_block_def Let_def)
  show lt: "unat (dq_blockStartIndex d) < unat (dq_index d)" using e l by simp
  have "unat (dq_index d) \<le> 32 * Suc ?b" using e by simp
  then have "32 * ?b \<le> unat (dq_index d) - 1" "unat (dq_index d) - 1 < 32 * Suc ?b"
    using lt times_div_less_eq_dividend [of 32 "unat (dq_blockStartIndex d)"] by linarith+
  then show b: "?b = ended_block d" unfolding ended_block_def by (intro div_nat_eqI [symmetric]) simp_all
  show "unat (dq_index d) \<le> 32 * ended_block d + 32" "32 * ended_block d \<le> unat (dq_blockStartIndex d)"
    "unat (dq_index d) = last_index d \<or> unat (dq_index d) = 32 * ended_block d + 32" "unat (dq_index d) \<le> last_index d"
    using e unfolding b [symmetric] by auto
qed

lemma marked:
  assumes B: "M a = Some B" and n: "counter M a + n \<le> 32" "n = unat (e - b)" "mx = None \<Longrightarrow> n = 1"
  defines "f \<equiv> (case mx of None \<Rightarrow> set_empty | Some _ \<Rightarrow> set_many_empty (e - b))"
  shows "f B = Some (B\<lparr>elementsCompletelyDequeued := elementsCompletelyDequeued B + of_nat n\<rparr>, counter M a + n = 32)"
    "unat (elementsCompletelyDequeued B + of_nat n) = counter M a + n"
proof -
  let ?k = "elementsCompletelyDequeued B"
  have k: "unat ?k = counter M a" using B by (simp add: counter_def)
  have w: "e - b = of_nat n" using n(2) by simp
  show u: "unat (?k + of_nat n) = counter M a + n" using n(1) k by (subst unat_plus) simp_all
  show "f B = Some (B\<lparr>elementsCompletelyDequeued := ?k + of_nat n\<rparr>, counter M a + n = 32)"
  proof (cases mx)
    case None
    then have "n = 1" using n(3) by simp
    then show ?thesis using n(1) k u None by (auto simp: f_def set_empty_def BLOCK_SIZE_def word_less_nat_alt word_unat_eq_iff Let_def)
  next
    case (Some m)
    then show ?thesis using n(1) k u by (auto simp: f_def w set_many_empty_def BLOCK_SIZE_def word_le_nat_alt word_unat_eq_iff Let_def)
  qed
qed

lemma set_empty_step:
  assumes inv: "queue_inv s items own g" and c: "cq_cpc s c = SetEmpty d"
    and t: "tickets_ok (dequeue_step c (cq_cpc s c) s)"
  defines "p \<equiv> dq_producer d"
  shows "queue_inv (dequeue_step c (cq_cpc s c) s) items own
      (g(p := (g p)\<lparr>g_fin := g_fin (g p) \<union> {unat (dq_blockStartIndex d) ..< unat (dq_index d)}\<rparr>))"
    "unread q (cq_cpc (dequeue_step c (cq_cpc s c) s) c) = unread q (cq_cpc s c)"
proof -
  let ?P = "producers s p" let ?s = "dequeue_step c (cq_cpc s c) s" let ?g = "g p" let ?b = "ended_block d"
  let ?i = "unat (dq_blockStartIndex d)" let ?e = "unat (dq_index d)"
  have "producer_ok s items own ?g p" using inv by (simp add: queue_inv_def)
  note D = producer_okD [OF this]
  note near = queue_inv_near [OF inv, of p]
  have ok: "taken_ok ?P d" "knows ?P ?g d" "in_block ?P ?g d" "dq_index d = dq_endIndex d"
    using claims_okD(4) [OF D(3), of c] by (simp_all add: c p_def)
  note part = block_of_part [OF ok(3,4)]
  have a: "dq_block d = g_blk ?g ?b" and slot: "dq_indexIndex d = slot ?P ?g (dq_header d) ?b" and first: "unat (dq_firstIndex d) \<le> ?i"
    using ok(3) part(1) by (simp_all add: in_block_def Let_def)
  have last: "last_index d \<le> unat (headIndex ?P)" "last_index d < 2 ^ 62" using ok(1) near by (auto simp: taken_ok_def)
  have pend: "pending p (cq_cpc s c) = {?i ..< last_index d}" by (simp add: c p_def)
  then have new: "{?i ..< ?e} \<inter> g_fin ?g = {}" "?i \<notin> g_fin ?g"
    using claims_okD(3) [OF D(3), of c] part(2,6) by auto
  have "?i < unat (tailIndex ?P)" using last(1) near(1) part(2,6) by linarith
  note lb = live_block [OF D(2,4) new(2) this, unfolded part(1)]
  obtain B where B: "cq_blocks s (g_blk ?g ?b) = Some B" using lb(8) by auto
  let ?F = "g_fin ?g \<union> {?i ..< ?e}"
  have sub: "{?i ..< ?e} \<subseteq> {32 * ?b ..< 32 * ?b + 32}" using part(3,4) by auto
  have split: "?F \<inter> {32 * ?b ..< 32 * ?b + 32} = (g_fin ?g \<inter> {32 * ?b ..< 32 * ?b + 32}) \<union> {?i ..< ?e}" using sub by blast
  have card: "card (?F \<inter> {32 * ?b ..< 32 * ?b + 32}) = counter (cq_blocks s) (g_blk ?g ?b) + (?e - ?i)"
    unfolding split lb(9) using new(1) by (subst card_Un_disjoint) auto
  have "card (?F \<inter> {32 * ?b ..< 32 * ?b + 32}) \<le> card {32 * ?b ..< 32 * ?b + 32}" by (intro card_mono) auto
  then have le: "counter (cq_blocks s) (g_blk ?g ?b) + (?e - ?i) \<le> 32" using card by simp
  have full: "full ?F ?b \<longleftrightarrow> counter (cq_blocks s) (g_blk ?g ?b) + (?e - ?i) = 32"
  proof -
    have "full ?F ?b \<longleftrightarrow> ?F \<inter> {32 * ?b ..< 32 * ?b + 32} = {32 * ?b ..< 32 * ?b + 32}" by (auto simp: full_def)
    also have "\<dots> \<longleftrightarrow> card (?F \<inter> {32 * ?b ..< 32 * ?b + 32}) = 32"
      using card_subset_eq [of "{32 * ?b ..< 32 * ?b + 32}" "?F \<inter> {32 * ?b ..< 32 * ?b + 32}"] by auto
    finally show ?thesis by (simp only: card)
  qed
  have one: "?e - ?i = 1" if "dq_max d = None"
    using that ok(1) part(2,6) first by (auto simp: taken_ok_def last_index_def)
  have n: "?e - ?i = unat (dq_endIndex d - dq_blockStartIndex d)" using part(2) by (simp add: ok(4) unat_sub_if')
  note m = marked [where M = "cq_blocks s" and mx = "dq_max d", OF B le n one]
  define B' where "B' = B\<lparr>elementsCompletelyDequeued := elementsCompletelyDequeued B + of_nat (?e - ?i)\<rparr>"
  define M where "M = (cq_blocks s)(g_blk ?g ?b \<mapsto> B')"
  define pc where "pc = (if full ?F ?b then Unlink d else next_block s d)"
  have s': "?s = s\<lparr>cq_blocks := M, cq_cpc := (cq_cpc s)(c := pc)\<rparr>"
    using m(1) by (simp add: c mark_empty_def a B Let_def goto_simps M_def B'_def pc_def full)
  define g' where "g' = ?g\<lparr>g_fin := ?F\<rparr>"
  have act: "own (g_blk ?g ?b) = Active p ?b" by (rule lb(7))
  have free: "M x = cq_blocks s x" if "own x \<noteq> Active p ?b" for x using that act by (auto simp: M_def)
  have none: "M x = None \<longleftrightarrow> cq_blocks s x = None" for x using B by (simp add: M_def)
  have el: "element M x n = element (cq_blocks s) x n" "next_of M x = next_of (cq_blocks s) x" for x n
    using B by (simp_all add: M_def B'_def element_def next_of_def)
  have ix: "index_ok ?P g' (nb ?P + inserted (cq_ppc s p) g')"
    using index_ok_frame [OF D(1), of ?P g'] by (cases "cq_ppc s p") (simp_all add: g'_def)
  have dqP: "dq_P s d = ?P" by (simp add: dq_P_def p_def)
  have k': "knows ?P g' d" "dq_indexIndex d = slot ?P g' (dq_header d) ?b" "dq_block d = g_blk g' ?b"
    using ok(2) slot a by (simp_all add: g'_def knows_def slot_def)
  have fi: "unat (dq_firstIndex d) < ?e" using first part(2) by simp
  note nxt = next_block_ok [OF ix dqP [symmetric] ok(1) k'(1) fi part(6) last(2) part(5) k'(2)]
  have pc_pend: "pending q pc = (if p = q then {?e ..< last_index d} else {})" "unread q pc = unread q (cq_cpc s c)" for q
    using nxt(2,4) [of q] by (auto simp: pc_def p_def c)
  then show "unread q (cq_cpc ?s c) = unread q (cq_cpc s c)" by (simp add: s')
  have pc_vic: "victim q pc = (if p = q \<and> full ?F ?b then {?b} else {})" for q using nxt(3) [of q] by (auto simp: pc_def p_def)
  have vic: "?b \<notin> victim p (cq_cpc s c')" for c'
  proof
    assume "?b \<in> victim p (cq_cpc s c')"
    then have "full (g_fin ?g) ?b" using claims_okD(4) [OF D(3), of c'] by (cases "cq_cpc s c'") (auto simp: at_end_def Let_def split: if_splits)
    moreover have "?i \<in> {?i ..< ?e}" using part(2) by simp
    ultimately show False using new(2) sub unfolding full_def by blast
  qed
  have dq: "dq_ok ?P g' p (cq_cpc ?s c')" for c'
  proof (cases "c' = c")
    case True
    have "at_end ?P g' d" if "full ?F ?b" using that k' fi part(5,6) by (simp add: at_end_def Let_def g'_def)
    then show ?thesis using nxt(1) [of p] ok(1) k'(1) lb(2) True by (auto simp: s' pc_def g'_def)
  next
    case False
    then show ?thesis using dq_ok_mono [OF claims_okD(4) [OF D(3), of c'], of ?P g'] by (simp add: s' g'_def)
  qed
  have own_pend: "pending p (cq_cpc s c') \<inter> {?i ..< ?e} = {}" if "c' \<noteq> c" for c'
  proof -
    have "{?i ..< ?e} \<subseteq> pending p (cq_cpc s c)" unfolding pend using part(6) by auto
    then show ?thesis using claims_okD(5) [OF D(3) that] by blast
  qed
  have sp: "pending p (cq_cpc ?s c') \<subseteq> pending p (cq_cpc s c')" for c' using pc_pend(1) [of p] pend part(2) by (auto simp: s')
  have "producer_ok ?s items own g' p"
  proof (rule producer_okI)
    show "index_ok (producers ?s p) g' (nb (producers ?s p) + inserted (cq_ppc ?s p) g')" using ix by (simp add: s')
    show "values_ok (producers ?s p) g' (dirty (cq_ppc ?s p))" unfolding s' by simp (rule values_ok_frame [OF D(2)], simp_all add: g'_def)
    show "claims_ok p (producers ?s p) g' (cq_cpc ?s)"
    proof (rule claims_okI)
      show "g_fin g' \<subseteq> {..<unat (headIndex (producers ?s p))}" using claims_okD(1) [OF D(3)] part(6) last(1) by (auto simp: s' g'_def)
      show "{..<unat (headIndex (producers ?s p))} \<subseteq> g_fin g' \<union> (\<Union>c. pending p (cq_cpc ?s c))"
      proof
        fix n assume "n \<in> {..<unat (headIndex (producers ?s p))}"
        then consider "n \<in> g_fin ?g" | c' where "n \<in> pending p (cq_cpc s c')" using claims_okD(2) [OF D(3)] by (auto simp: s')
        then show "n \<in> g_fin g' \<union> (\<Union>c. pending p (cq_cpc ?s c))"
        proof cases
          case (2 c')
          then have "n \<in> {?i ..< ?e} \<or> n \<in> pending p (cq_cpc ?s c')" using pend pc_pend(1) [of p] by (cases "c' = c") (auto simp: s')
          then show ?thesis unfolding g'_def by auto
        qed (simp add: g'_def)
      qed
      show "pending p (cq_cpc ?s c') \<subseteq> {..<unat (headIndex (producers ?s p))} - g_fin g'" for c'
      proof (cases "c' = c")
        case True
        have "{?e ..< last_index d} \<subseteq> {?i ..< last_index d}" using part(2) by auto
        then have "{?e ..< last_index d} \<subseteq> {..<unat (headIndex ?P)} - g_fin ?g" using claims_okD(3) [OF D(3), of c] unfolding pend by blast
        then show ?thesis using True pc_pend(1) [of p] by (auto simp: s' g'_def)
      next
        case False
        then show ?thesis using claims_okD(3) [OF D(3), of c'] own_pend [OF False] by (auto simp: s' g'_def)
      qed
      show "pending p (cq_cpc ?s c') \<inter> pending p (cq_cpc ?s c'') = {}" if "c' \<noteq> c''" for c' c''
        using claims_okD(5) [OF D(3) that] sp [of c'] sp [of c''] by blast
      show "victim p (cq_cpc ?s c') \<inter> victim p (cq_cpc ?s c'') = {}" if "c' \<noteq> c''" for c' c''
        using claims_okD(6) [OF D(3) that] vic [of c'] vic [of c''] pc_vic [of p] that by (auto simp: s' split: if_splits)
    qed (use dq in \<open>simp add: s'\<close>)
    show "blocks_ok p (producers ?s p) g' own (cq_blocks ?s) (cq_cpc ?s)"
      unfolding blocks_ok_def
    proof (intro conjI allI ballI impI)
      fix x assume x: "x < nb (producers ?s p)" "x \<notin> g_freed g'"
      then have x': "x < nb ?P" "x \<notin> g_freed ?g" by (simp_all add: s' g'_def)
      then have o: "own (g_blk ?g x) = Active p x" using D(4) by (simp add: blocks_ok_def)
      then show "own (g_blk g' x) = Active p x" by (simp add: g'_def)
      show "cq_blocks ?s (g_blk g' x) \<noteq> None" using D(4) x' none by (simp add: blocks_ok_def s' g'_def)
      have disj: "?F \<inter> {32 * x ..< 32 * x + 32} = g_fin ?g \<inter> {32 * x ..< 32 * x + 32}" if "x \<noteq> ?b"
      proof -
        have "{?i ..< ?e} \<inter> {32 * x ..< 32 * x + 32} = {}" using sub that by fastforce
        then show ?thesis by blast
      qed
      show "counter (cq_blocks ?s) (g_blk g' x) = card (g_fin g' \<inter> {32 * x ..< 32 * x + 32})"
      proof (cases "x = ?b")
        case True
        then show ?thesis using card m(2) by (simp add: s' g'_def M_def B'_def counter_def)
      next
        case False
        then have "g_blk ?g x \<noteq> g_blk ?g ?b" using o act by auto
        then show ?thesis using D(4) x' disj [OF False] by (simp add: s' g'_def M_def counter_def blocks_ok_def)
      qed
      show "\<exists>c. x \<in> victim p (cq_cpc ?s c)" if f: "full (g_fin g') x"
      proof (cases "x = ?b")
        case True
        then show ?thesis using f pc_vic [of p] by (intro exI [of _ c]) (simp add: s' g'_def)
      next
        case False
        then have "full (g_fin ?g) x" using f disj by (auto simp: full_def g'_def)
        then obtain c' where c': "x \<in> victim p (cq_cpc s c')" using D(4) x' by (auto simp: blocks_ok_def)
        then have "c' \<noteq> c" by (auto simp: c)
        then show ?thesis using c' by (intro exI [of _ c']) (simp add: s')
      qed
    qed (use D(4) none in \<open>auto simp: blocks_ok_def s' g'_def full_def\<close>)
    show "held_counters g' (cq_blocks ?s)"
      using D(4,5) act free by (auto simp: held_counters_def s' g'_def blocks_ok_def counter_def)
    show "contents_ok p (producers ?s p) g' (cq_blocks ?s) (cq_cpc ?s) (items p)"
      by (rule contents_frame [OF D(6,2,4,3)]) (use pc_pend(2) [of p] in \<open>auto simp: s' g'_def el\<close>)
    show "prod_ok (producers ?s p) g' own (cq_blocks ?s) p (cq_ppc ?s p)"
      unfolding s' by (simp, rule prod_ok_frame [OF D(7)]) (use free act D(4) in \<open>auto simp: g'_def el blocks_ok_def\<close>)
  qed
  moreover have "pool_ok ?s own" using inv by (simp add: queue_inv_def pool_ok_def s' none)
  ultimately have "queue_inv ?s items own (g(p := g'))" using t free pc_pend pc_vic unfolding s'
    by (intro queue_inv_act [OF inv]) (auto simp: c p_def mine_def pc_def next_block_def)
  then show "queue_inv ?s items own (g(p := ?g\<lparr>g_fin := ?F\<rparr>))" by (simp add: g'_def)
qed

text \<open>Blocks in the window of the current header have different entries.\<close>

lemma ent_inj:
  assumes ix: "index_ok P g N" and b: "g_low g \<le> b" "b < g_keyed g" "g_low g \<le> b'" "b' < g_keyed g" and e: "g_ent g b = g_ent g b'"
  shows "b = b'"
proof -
  obtain h where h: "blockIndex P = Some h" using ix b by (cases "blockIndex P") (auto simp: index_ok_def)
  then have c: "h < length (ip_headers P)" "g_hi g h = g_keyed g" "distinct (bih_index (ip_headers P ! h))"
    "g_keyed g \<le> g_low g + unat (bih_capacity (ip_headers P ! h))"
    using ix by (auto simp: index_ok_def current_ok_def Let_def)
  obtain j where j: "j < 62" "bih_capacity (ip_headers P ! h) = 2 ^ j"
    "\<And>b. unat (slot P g h b) < length (bih_index (ip_headers P ! h))" by (rule header_okD [OF ix c(1)]) blast
  have "bih_index (ip_headers P ! h) ! unat (slot P g h b) = bih_index (ip_headers P ! h) ! unat (slot P g h b')"
    using header_entry [OF ix c(1)] b c(2) e by simp
  then have "slot P g h b = slot P g h b'" using j(3) c(3) by (simp add: nth_eq_iff_index_eq word_unat_eq_iff)
  then show ?thesis using ring_inj [of j "g_off g h" b b'] j(1,2) b c(4) by (simp add: slot_def unat_2p)
qed

lemma ent_range: "index_ok P g N \<Longrightarrow> g_low g \<le> b \<Longrightarrow> b < g_keyed g \<Longrightarrow> g_ent g b < length (ip_entries P)"
  by (simp add: index_ok_def)

lemma unlink_step:
  assumes inv: "queue_inv s items own g" and c: "cq_cpc s c = Unlink d"
    and t: "tickets_ok (dequeue_step c (cq_cpc s c) s)"
  defines "p \<equiv> dq_producer d"
  shows "queue_inv (dequeue_step c (cq_cpc s c) s) items own (g(p := (g p)\<lparr>g_unlinked := insert (ended_block d) (g_unlinked (g p))\<rparr>))"
    "unread q (cq_cpc (dequeue_step c (cq_cpc s c) s) c) = unread q (cq_cpc s c)"
proof -
  let ?P = "producers s p" let ?s = "dequeue_step c (cq_cpc s c) s" let ?g = "g p" let ?b = "ended_block d"
  have "producer_ok s items own ?g p" using inv by (simp add: queue_inv_def)
  note D = producer_okD [OF this]
  note near = queue_inv_near [OF inv, of p]
  have ok: "taken_ok ?P d" "knows ?P ?g d" "at_end ?P ?g d" "?b \<notin> g_unlinked ?g"
    using claims_okD(4) [OF D(3), of c] by (simp_all add: c p_def)
  have e: "dq_indexIndex d = slot ?P ?g (dq_header d) ?b" "full (g_fin ?g) ?b" "unat (dq_index d) \<le> last_index d" "unat (dq_firstIndex d) < unat (dq_index d)"
    using ok(3) by (simp_all add: at_end_def Let_def)
  have lt: "?b < nb ?P" using e(3,4) ok(1) near(1) by (auto simp: ended_block_def taken_ok_def intro!: nblk_div)
  have low: "g_low ?g \<le> ?b" and keyed: "?b < g_keyed ?g" using D(2) ok(4) lt by (auto simp: values_ok_def not_less)
  have h: "dq_header d < length (ip_headers ?P)" "?b < g_hi ?g (dq_header d)"
    using ok(2) e(3) div_le_mono [of "unat (dq_index d) - 1" "last_index d - 1" 32] by (auto simp: knows_def ended_block_def)
  have entry: "dq_entry s d = g_ent ?g ?b" using header_entry [OF D(1) h(1) low h(2)] by (simp add: dq_entry_def dq_H_def dq_P_def e(1) p_def)
  define P' where "P' = set_entry (g_ent ?g ?b) (\<lambda>E. E\<lparr>bie_value := None\<rparr>) ?P"
  define g' where "g' = ?g\<lparr>g_unlinked := insert ?b (g_unlinked ?g)\<rparr>"
  have s': "?s = s\<lparr>producers := (producers s)(p := P'), cq_cpc := (cq_cpc s)(c := FreeBlock d)\<rparr>"
    unfolding c dequeue_step.simps entry by (simp add: goto_simps P'_def p_def)
  have P': "tailIndex P' = tailIndex ?P" "headIndex P' = headIndex ?P" "tailBlock P' = tailBlock ?P" "blockIndex P' = blockIndex ?P"
    "ip_headers P' = ip_headers ?P" "nextBlockIndexCapacity P' = nextBlockIndexCapacity ?P" "length (ip_entries P') = length (ip_entries ?P)"
    by (simp_all add: P'_def set_entry_def)
  have keys: "bie_key (ip_entries P' ! x) = bie_key (ip_entries ?P ! x)" if "x < length (ip_entries ?P)" for x
    using that by (cases "x = g_ent ?g ?b") (simp_all add: P'_def set_entry_def)
  have val: "bie_value (ip_entries P' ! g_ent ?g x) = (if x = ?b then None else bie_value (ip_entries ?P ! g_ent ?g x))"
    if "g_low ?g \<le> x" "x < g_keyed ?g" for x
    using ent_inj [OF D(1) that low keyed] ent_range [OF D(1) that] ent_range [OF D(1) low keyed]
    by (auto simp: P'_def set_entry_def nth_list_update)
  show "unread q (cq_cpc ?s c) = unread q (cq_cpc s c)" unfolding s' by (simp add: c)
  have vic: "?b \<notin> victim p (cq_cpc s c')" if "c' \<noteq> c" for c' using claims_okD(6) [OF D(3) that] by (simp add: c p_def)
  have "producer_ok ?s items own g' p"
  proof (rule producer_okI)
    show "index_ok (producers ?s p) g' (nb (producers ?s p) + inserted (cq_ppc ?s p) g')"
    proof -
      have "inserted (cq_ppc s p) g' = inserted (cq_ppc s p) ?g" by (cases "cq_ppc s p") (simp_all add: g'_def)
      then show ?thesis unfolding s' by (simp add: P') (rule index_ok_frame [OF D(1)], simp_all add: P' keys g'_def)
    qed
    show "values_ok (producers ?s p) g' (dirty (cq_ppc ?s p))"
    proof -
      have "bie_value (ip_entries P' ! g_ent ?g (nb ?P + j)) = bie_value (ip_entries ?P ! g_ent ?g (nb ?P + j))" if "nb ?P + j < g_keyed ?g" for j
        using val [of "nb ?P + j"] that lt low by simp
      then show ?thesis using D(2) lt keyed val unfolding s' values_ok_def by (auto simp: P' g'_def)
    qed
    show "claims_ok p (producers ?s p) g' (cq_cpc ?s)"
    proof (rule claims_same [OF D(3)])
      show "pending p (cq_cpc ?s c') = pending p (cq_cpc s c') \<and> victim p (cq_cpc ?s c') = victim p (cq_cpc s c')" for c'
        unfolding s' by (simp add: c)
      show "dq_ok (producers ?s p) g' p (cq_cpc ?s c')" if "dq_ok ?P ?g p (cq_cpc s c')" for c'
      proof (cases "c' = c")
        case True
        have "?b \<notin> g_freed ?g" using D(4) ok(4) by (auto simp: blocks_ok_def)
        then show ?thesis using True ok unfolding s'
          by (simp add: p_def taken_ok_def knows_def at_end_def Let_def g'_def slot_def P')
      next
        case False
        then show ?thesis using dq_ok_mono [OF that, of P' g'] vic [OF False] unfolding s' by (auto simp: P' g'_def)
      qed
    qed (simp_all add: s' P' g'_def)
    show "blocks_ok p (producers ?s p) g' own (cq_blocks ?s) (cq_cpc ?s)"
    proof -
      have "victim p (cq_cpc ?s c') = victim p (cq_cpc s c')" for c' unfolding s' by (simp add: c)
      moreover have "cq_blocks ?s = cq_blocks s" "tailIndex (producers ?s p) = tailIndex ?P" by (simp_all add: s' P')
      ultimately show ?thesis using D(4) e(2) unfolding blocks_ok_def by (auto simp: g'_def)
    qed
    show "held_counters g' (cq_blocks ?s)" using D(5) by (simp add: s' g'_def held_counters_def)
    show "contents_ok p (producers ?s p) g' (cq_blocks ?s) (cq_cpc ?s) (items p)"
      unfolding s' by (rule contents_frame [OF D(6,2,4,3)]) (auto simp: P' g'_def c)
    show "prod_ok (producers ?s p) g' own (cq_blocks ?s) p (cq_ppc ?s p)"
      unfolding s' by (simp, rule prod_ok_frame [OF D(7)]) (auto simp: g'_def P')
  qed
  moreover have "pool_ok ?s own" using inv by (simp add: queue_inv_def pool_ok_def s')
  ultimately have "queue_inv ?s items own (g(p := g'))" using t unfolding s'
    by (intro queue_inv_act [OF inv]) (auto simp: c p_def)
  then show "queue_inv ?s items own (g(p := ?g\<lparr>g_unlinked := insert ?b (g_unlinked ?g)\<rparr>))" by (simp add: g'_def)
qed

text \<open>A block that leaves a producer: its memory is freed or goes to the free list.\<close>

definition released :: "'a CQ \<Rightarrow> nat \<Rightarrow> (nat \<Rightarrow> owner) \<Rightarrow> nat \<Rightarrow> owner" where
  "released s a own = own(a := if cq_blocks (add_block_to_free_list a s) a = None then Unused else Free)"

lemma add_block_pool:
  assumes "pool_ok s own" "own a \<noteq> Unused" "own a \<noteq> Free"
  shows "pool_ok (add_block_to_free_list a s) (released s a own)"
proof -
  have "cq_blocks s a \<noteq> None" using assms by (auto simp: pool_ok_def)
  then show ?thesis using assms by (auto simp: pool_ok_def released_def add_block_to_free_list_def split: option.splits)
qed

lemma add_block_blocks: "x \<noteq> a \<Longrightarrow> cq_blocks (add_block_to_free_list a s) x = cq_blocks s x"
  by (simp add: add_block_to_free_list_def)

lemma free_block_step:
  assumes inv: "queue_inv s items own g" and c: "cq_cpc s c = FreeBlock d"
    and t: "tickets_ok (dequeue_step c (cq_cpc s c) s)"
  defines "p \<equiv> dq_producer d"
  shows "queue_inv (dequeue_step c (cq_cpc s c) s) items (released s (dq_block d) own)
      (g(p := (g p)\<lparr>g_freed := insert (ended_block d) (g_freed (g p))\<rparr>))"
    "unread q (cq_cpc (dequeue_step c (cq_cpc s c) s) c) = unread q (cq_cpc s c)"
proof -
  let ?P = "producers s p" let ?s = "dequeue_step c (cq_cpc s c) s" let ?g = "g p" let ?b = "ended_block d"
  let ?own = "released s (dq_block d) own"
  have "producer_ok s items own ?g p" using inv by (simp add: queue_inv_def)
  note D = producer_okD [OF this]
  note near = queue_inv_near [OF inv, of p]
  have ok: "taken_ok ?P d" "knows ?P ?g d" "at_end ?P ?g d" "?b \<in> g_unlinked ?g" "?b \<notin> g_freed ?g"
    using claims_okD(4) [OF D(3), of c] by (simp_all add: c p_def)
  have e: "dq_indexIndex d = slot ?P ?g (dq_header d) ?b" "full (g_fin ?g) ?b" "unat (dq_index d) \<le> last_index d" "unat (dq_firstIndex d) < unat (dq_index d)"
    "unat (dq_index d) = last_index d \<or> unat (dq_index d) = 32 * ?b + 32" and a: "dq_block d = g_blk ?g ?b"
    using ok(3) by (simp_all add: at_end_def Let_def)
  have last: "last_index d < 2 ^ 62" using ok(1) near by (auto simp: taken_ok_def)
  have lt: "?b < nb ?P" using e(3,4) ok(1) near(1) by (auto simp: ended_block_def taken_ok_def intro!: nblk_div)
  have act: "own (g_blk ?g ?b) = Active p ?b" using D(4) lt ok(5) by (simp add: blocks_ok_def)
  have dqP: "dq_P s d = ?P" by (simp add: dq_P_def p_def)
  note nxt = next_block_ok [OF D(1) dqP [symmetric] ok(1,2) e(4,3) last e(5,1)]
  define g' where "g' = ?g\<lparr>g_freed := insert ?b (g_freed ?g)\<rparr>"
  define M where "M = cq_blocks (add_block_to_free_list (dq_block d) s)"
  have s': "?s = (add_block_to_free_list (dq_block d) s)\<lparr>cq_cpc := (cq_cpc s)(c := next_block s d)\<rparr>"
    unfolding c dequeue_step.simps by (simp add: goto_simps)
  have sel: "producers ?s = producers s" "cq_ppc ?s = cq_ppc s" "cq_blocks ?s = M" "cq_cpc ?s = (cq_cpc s)(c := next_block s d)"
    unfolding s' by (simp_all add: M_def)
  have M: "M x = cq_blocks s x" "?own x = own x" if "own x \<noteq> Active p ?b" for x
  proof -
    have "x \<noteq> dq_block d" using that act a by auto
    then show "M x = cq_blocks s x" "?own x = own x" by (simp_all add: M_def released_def add_block_blocks)
  qed
  have pend: "pending q (next_block s d) = pending q (cq_cpc s c)" "unread q (next_block s d) = unread q (cq_cpc s c)"
     "victim q (next_block s d) = {}" for q using nxt(2-4) [of q] by (simp_all add: c p_def)
  then show "unread q (cq_cpc ?s c) = unread q (cq_cpc s c)" by (simp add: sel)
  have vic: "?b \<notin> victim p (cq_cpc s c')" if "c' \<noteq> c" for c' using claims_okD(6) [OF D(3) that] by (simp add: c p_def)
  have "producer_ok ?s items ?own g' p"
  proof (rule producer_okI, unfold sel)
    show "index_ok ?P g' (nb ?P + inserted (cq_ppc s p) g')"
    proof -
      have "inserted (cq_ppc s p) g' = inserted (cq_ppc s p) ?g" by (cases "cq_ppc s p") (simp_all add: g'_def)
      then show ?thesis by simp (rule index_ok_frame [OF D(1)], simp_all add: g'_def)
    qed
    show "values_ok ?P g' (dirty (cq_ppc s p))" by (rule values_ok_frame [OF D(2)]) (simp_all add: g'_def)
    have dq: "dq_ok ?P g' p (((cq_cpc s)(c := next_block s d)) c')" for c'
    proof (cases "c' = c")
      case True
      then show ?thesis using dq_ok_mono [OF nxt(1) [of p], of ?P g'] nxt(3) [of p] by (simp add: g'_def)
    next
      case False
      then show ?thesis using dq_ok_mono [OF claims_okD(4) [OF D(3), of c'], of ?P g'] vic [OF False] by (auto simp: g'_def)
    qed
    show "claims_ok p ?P g' ((cq_cpc s)(c := next_block s d))"
    proof (rule claims_okI)
      show "victim p (((cq_cpc s)(c := next_block s d)) c') \<inter> victim p (((cq_cpc s)(c := next_block s d)) c'') = {}" if "c' \<noteq> c''" for c' c''
        using claims_okD(6) [OF D(3) that] pend(3) [of p] by simp
      have same: "pending p (((cq_cpc s)(c := next_block s d)) c') = pending p (cq_cpc s c')" for c' using pend(1) by simp
      show "{..<unat (headIndex ?P)} \<subseteq> g_fin g' \<union> (\<Union>c'. pending p (((cq_cpc s)(c := next_block s d)) c'))"
        unfolding same using claims_okD(2) [OF D(3)] by (simp add: g'_def)
      show "pending p (((cq_cpc s)(c := next_block s d)) c') \<subseteq> {..<unat (headIndex ?P)} - g_fin g'" for c'
        unfolding same using claims_okD(3) [OF D(3)] by (simp add: g'_def)
      show "pending p (((cq_cpc s)(c := next_block s d)) c') \<inter> pending p (((cq_cpc s)(c := next_block s d)) c'') = {}" if "c' \<noteq> c''" for c' c''
        unfolding same using claims_okD(5) [OF D(3) that] .
    qed (use claims_okD(1) [OF D(3)] dq in \<open>simp_all add: g'_def\<close>)
    show "blocks_ok p ?P g' ?own M ((cq_cpc s)(c := next_block s d))"
      unfolding blocks_ok_def
    proof (intro conjI allI ballI impI)
      fix x assume x: "x < nb ?P" "x \<notin> g_freed g'"
      then have o: "own (g_blk ?g x) = Active p x" "x \<noteq> ?b" using D(4) by (simp_all add: blocks_ok_def g'_def)
      have m: "M (g_blk ?g x) = cq_blocks s (g_blk ?g x)" "?own (g_blk ?g x) = Active p x" using M [of "g_blk ?g x"] o by simp_all
      then show "?own (g_blk g' x) = Active p x" by (simp add: g'_def)
      show "M (g_blk g' x) \<noteq> None" "counter M (g_blk g' x) = card (g_fin g' \<inter> {32 * x ..< 32 * x + 32})"
        using m(1) x D(4) by (simp_all add: g'_def blocks_ok_def counter_def)
      show "\<exists>c'. x \<in> victim p (((cq_cpc s)(c := next_block s d)) c')" if f: "full (g_fin g') x"
      proof -
        obtain c' where c': "x \<in> victim p (cq_cpc s c')" using D(4) x f by (auto simp: blocks_ok_def g'_def)
        then have "c' \<noteq> c" using o(2) by (auto simp: c p_def split: if_splits)
        then show ?thesis using c' by (intro exI [of _ c']) simp
      qed
    qed (use D(4) M ok(4) in \<open>auto simp: blocks_ok_def g'_def\<close>)
    show "held_counters g' M" using D(4,5) M by (auto simp: held_counters_def g'_def blocks_ok_def counter_def)
    show "contents_ok p ?P g' M ((cq_cpc s)(c := next_block s d)) (items p)"
    proof (rule contents_frame [OF D(6,2,4,3)])
      show "unread p (((cq_cpc s)(c := next_block s d)) c') \<subseteq> unread p (cq_cpc s c')" for c' using pend(2) [of p] by simp
      fix i assume i: "i \<notin> g_fin ?g" "own (g_blk ?g (i div 32)) = Active p (i div 32)"
      have "i \<in> {32 * (i div 32) ..< 32 * (i div 32) + 32}" by auto
      then have "\<not> full (g_fin ?g) (i div 32)" using i(1) unfolding full_def by blast
      then have "i div 32 \<noteq> ?b" using e(2) by auto
      then show "element M (g_blk ?g (i div 32)) i = element (cq_blocks s) (g_blk ?g (i div 32)) i"
        using M(1) [of "g_blk ?g (i div 32)"] i(2) by (simp add: element_def)
    qed (simp_all add: g'_def)
    have tb: "M (g_blk ?g (nb ?P - 1)) = cq_blocks s (g_blk ?g (nb ?P - 1))" if "unat (tailIndex ?P) mod 32 \<noteq> 0"
    proof (rule M(1))
      have "nb ?P - 1 \<noteq> ?b" using tail_block_live(6) [OF D(4,3,2) near(1) that] ok(4) by auto
      then show "own (g_blk ?g (nb ?P - 1)) \<noteq> Active p ?b" using tail_block_live(1) [OF D(4,3,2) near(1) that] by simp
    qed
    show "prod_ok ?P g' ?own M p (cq_ppc s p)"
    proof (rule prod_ok_frame [OF D(7)])
      fix i assume i: "unat (tailIndex ?P) \<le> i" "i div 32 < nb ?P"
      show "element M (g_blk ?g (i div 32)) i = element (cq_blocks s) (g_blk ?g (i div 32)) i"
        using tb [OF nblk_tail(1) [OF i]] nblk_tail(2) [OF i] by (simp add: element_def)
    qed (use M D(4) tb in \<open>auto simp: g'_def next_of_def blocks_ok_def\<close>)
  qed
  moreover have "pool_ok ?s ?own"
    using add_block_pool [of s own "dq_block d"] inv act a by (simp add: queue_inv_def s' pool_ok_def)
  ultimately have "queue_inv ?s items ?own (g(p := g'))"
  proof (intro queue_inv_act [OF inv t])
    fix q assume q: "q \<noteq> p"
    show "cq_blocks ?s x = cq_blocks s x \<and> ?own x = own x" if "mine own q x" for x
      using M [of x] that q by (auto simp: sel(3) mine_def)
    have none: "victim q (cq_cpc s c) = {}" "dq_ok (producers s q) (g q) q (next_block s d)" using q by (simp_all add: c p_def next_block_def)
    show "pending q (cq_cpc ?s c') = pending q (cq_cpc s c') \<and> unread q (cq_cpc ?s c') = unread q (cq_cpc s c') \<and>
        victim q (cq_cpc ?s c') = victim q (cq_cpc s c') \<and>
        (dq_ok (producers s q) (g q) q (cq_cpc s c') \<longrightarrow> dq_ok (producers s q) (g q) q (cq_cpc ?s c'))" for c'
      unfolding sel(4) using none pend [of q] by simp
  qed (simp_all only: sel same_store_refl simp_thms)
  then show "queue_inv ?s items ?own (g(p := ?g\<lparr>g_freed := insert ?b (g_freed ?g)\<rparr>))" by (simp add: g'_def)
qed

end
