(* ===== verification/ConcurrentQueue_Requests.thy ===== *)
theory ConcurrentQueue_Requests
  imports ConcurrentQueue_Dequeue
begin

unbundle bit_operations_syntax

text \<open>
  Steps of a producer: the start of a request, the check against the head, the search for an entry
  and the ways to get a block.
\<close>

section \<open>Steps of a producer\<close>

text \<open>Steps that change neither the index nor the published blocks.\<close>

lemma step_frame:
  assumes ok: "producer_ok s items own g p" and near: "unat (headIndex (producers s p)) \<le> unat (tailIndex (producers s p))"
    and P: "tailIndex (producers s' p) = tailIndex (producers s p)" "headIndex (producers s' p) = headIndex (producers s p)"
      "nextBlockIndexCapacity (producers s' p) = nextBlockIndexCapacity (producers s p)" "blockIndex (producers s' p) = blockIndex (producers s p)"
      "ip_headers (producers s' p) = ip_headers (producers s p)" "ip_entries (producers s' p) = ip_entries (producers s p)"
      "cq_cpc s' = cq_cpc s"
    and pc: "inserted (cq_ppc s' p) g = inserted (cq_ppc s p) g" "dirty (cq_ppc s p) \<longrightarrow> dirty (cq_ppc s' p)"
    and M: "\<And>a. a \<in> set (g_held g) \<or> (\<exists>b. own a = Active p b) \<Longrightarrow> own' a = own a \<and> (cq_blocks s' a = None \<longleftrightarrow> cq_blocks s a = None) \<and>
        counter (cq_blocks s') a = counter (cq_blocks s) a"
    and el: "\<And>i. i < unat (tailIndex (producers s p)) \<Longrightarrow> own (g_blk g (i div 32)) = Active p (i div 32) \<Longrightarrow>
        element (cq_blocks s') (g_blk g (i div 32)) i = element (cq_blocks s) (g_blk g (i div 32)) i"
    and new: "prod_ok (producers s' p) g own' (cq_blocks s') p (cq_ppc s' p)"
  shows "producer_ok s' items own' g p"
proof -
  note D = producer_okD [OF ok]
  show ?thesis
  proof (rule producer_okI)
    show "index_ok (producers s' p) g (nb (producers s' p) + inserted (cq_ppc s' p) g)"
      unfolding P(1) pc(1) by (rule index_ok_frame [OF D(1)]) (simp_all add: P)
    show "values_ok (producers s' p) g (dirty (cq_ppc s' p))" using D(2) pc(2) by (auto simp: values_ok_def P)
    show "claims_ok p (producers s' p) g (cq_cpc s')"
      unfolding P(7) by (rule claims_same [OF D(3)]) (simp_all add: P(2) dq_ok_cong [OF P(2,5)])
    show "blocks_ok p (producers s' p) g own' (cq_blocks s') (cq_cpc s')"
      unfolding blocks_ok_def P(1,7)
    proof (intro conjI allI ballI impI)
      fix b assume b: "b < nb (producers s p)" "b \<notin> g_freed g"
      then have o: "own (g_blk g b) = Active p b" using D(4) by (simp add: blocks_ok_def)
      then show "own' (g_blk g b) = Active p b" "cq_blocks s' (g_blk g b) \<noteq> None"
        "counter (cq_blocks s') (g_blk g b) = card (g_fin g \<inter> {32 * b ..< 32 * b + 32})"
        using M [of "g_blk g b"] b D(4) by (auto simp: blocks_ok_def)
      show "\<exists>c. b \<in> victim p (cq_cpc s c)" if "full (g_fin g) b" using b that D(4) by (simp add: blocks_ok_def)
    next
      fix a assume a: "a \<in> set (g_held g)"
      show "own' a = Held p" "cq_blocks s' a \<noteq> None" using M [of a] a D(4) by (auto simp: blocks_ok_def)
    qed (use D(4) in \<open>simp_all add: blocks_ok_def\<close>)
    show "held_counters g (cq_blocks s')" using D(5) M by (simp add: held_counters_def)
    show "contents_ok p (producers s' p) g (cq_blocks s') (cq_cpc s') (items p)"
      by (rule contents_frame [OF D(6,2,4,3)]) (use el in \<open>simp_all add: P\<close>)
  qed (rule new)
qed

lemma queue_inv_producer:
  assumes inv: "queue_inv s items own g" and t: "tickets_ok s'" and pool: "pool_ok s' own'" and own: "own_step p s s'"
    and items: "\<And>q. q \<noteq> p \<Longrightarrow> items' q = items q"
    and M: "\<And>q a. q \<noteq> p \<Longrightarrow> mine own q a \<Longrightarrow> cq_blocks s' a = cq_blocks s a \<and> own' a = own a"
    and act: "producer_ok s' items' own' gp p"
  shows "queue_inv s' items' own' (g(p := gp))"
  by (rule queue_inv_act [OF inv t pool _ M _ act]) (use own_step_others [OF own] items in simp_all)

lemma base_before: "m < 2 ^ 63 \<Longrightarrow> base_of (of_nat m - 1) = of_nat (32 * nblk m) - 32"
proof (cases m)
  case 0
  have "(- 1 :: u64) AND NOT 31 = - 32" by simp
  then show ?thesis using 0 by (simp add: base_of_def BLOCK_SIZE_def nblk_def)
next
  case (Suc n)
  assume "m < 2 ^ 63"
  then have "base_of (of_nat n) = of_nat (32 * (n div 32))" using Suc by (intro slot_base_nat(2)) simp
  moreover have "nblk (Suc n) = n div 32 + 1"
  proof -
    have "Suc n + 31 = n + 32 * 1" by simp
    then show ?thesis unfolding nblk_def by (simp only: div_mult_self2 zero_neq_numeral simp_thms)
  qed
  ultimately show ?thesis by (simp add: Suc)
qed

lemma nblk_mono: "m \<le> n \<Longrightarrow> nblk m \<le> nblk n"
  by (simp add: nblk_def div_le_mono)

lemma nblk_ge: "n \<le> 32 * nblk n"
proof -
  have "n + 31 = 32 * nblk n + (n + 31) mod 32" unfolding nblk_def by simp
  moreover have "(n + 31) mod 32 < 32" by simp
  ultimately show ?thesis by linarith
qed

lemma nblk_le: "n < 2 ^ 63 \<Longrightarrow> nblk n \<le> 2 ^ 58"
  by (simp add: nblk_def)

lemma nblk_Suc_diff: "0 < n \<Longrightarrow> nblk n - 1 = (n - 1) div 32"
proof -
  assume "0 < n"
  then have "n + 31 = (n - 1) + 32 * 1" by simp
  then have "(n + 31) div 32 = (n - 1) div 32 + 1" by simp
  then show ?thesis by (simp add: nblk_def)
qed

lemma stop_index_unat:
  assumes "unat cur < 2 ^ 62" "unat new < 2 ^ 63"
  shows "unat (stop_index cur new) = min (32 * (unat cur div 32) + 32) (unat new)"
proof -
  have "32 * (unat cur div 32) \<le> unat cur" by simp
  then have b: "32 * (unat cur div 32) + 32 < 2 ^ 63" using assms by simp
  have e: "unat (base_of cur + BLOCK_SIZE) = 32 * (unat cur div 32) + 32"
    using b by (subst unat_plus) (simp_all add: slot_base_unat(2) BLOCK_SIZE_def)
  show ?thesis using circular_less_than_small [of new "base_of cur + BLOCK_SIZE"] assms(2) b
    by (auto simp: stop_index_def Let_def e)
qed

lemma newTail_unat:
  assumes "bk_startTailIndex k = tailIndex P" "length (bk_items k) < 2 ^ 62" "unat (tailIndex P) < 2 ^ 62"
  shows "unat (newTailIndex k) = unat (tailIndex P) + length (bk_items k)"
  unfolding newTailIndex_def assms(1) using assms(2,3) by (subst unat_plus) simp_all

section \<open>Batches\<close>

lemma bulk_ok_cong:
  assumes "bulk_ok P g M k" "tailIndex P' = tailIndex P" "bk_startBlock k' = bk_startBlock k"
    "bk_firstAllocatedBlock k' = bk_firstAllocatedBlock k" "bk_endBlock k' = bk_endBlock k"
  shows "bulk_ok P' g M k'"
  using assms by (simp add: bulk_ok_def tail_block_ok_def)

lemma bulk_fill_ok:
  assumes k: "bulk_ok P g M k" "bk_left k = bk_items k" "fresh_start P (Bulk k)" and r: "unat (tailIndex P) < 2 ^ 62" "g_rev g = 0"
    and K: "nb P + length (g_held g) = goal P (Bulk k)" and P: "P = producers s p"
  shows "prod_ok (producers (bulk_fill p k s) p) g own M p (cq_ppc (bulk_fill p k s) p)"
    "dirty (cq_ppc (bulk_fill p k s) p) = False" "inserted (cq_ppc (bulk_fill p k s) p) g = length (g_held g)"
proof -
  let ?t = "unat (tailIndex P)" let ?n = "length (bk_items k)"
  have st: "bk_startTailIndex k = tailIndex P" and n: "?n < 2 ^ 62" using k(3) by simp_all
  have first: "bk_firstAllocatedBlock k = first_held g" and sb: "tail_block_ok P g (bk_startBlock k)" using k(1) by (simp_all add: bulk_ok_def)
  have slot0: "slot_of (tailIndex P) = 0 \<longleftrightarrow> ?t mod 32 = 0" using slot_base_unat(1) [of "tailIndex P"] by (simp add: unat_eq_0 [symmetric])
  have more: "nb P < nblk (?t + ?n)" if "bk_items k \<noteq> []" "?t mod 32 = 0"
    using nblk_div [of ?t "?t + ?n"] that by (simp add: nblk_alt [of ?t])
  have guard: "slot_of (bk_startTailIndex k) \<noteq> 0 \<or> bk_firstAllocatedBlock k \<noteq> None \<or> bk_items k = []"
    using more K by (cases "?t mod 32 = 0"; cases "bk_items k = []") (auto simp: st slot0 first first_held_def goal_def)
  define t' where "t' = (if slot_of (bk_startTailIndex k) = 0 \<and> bk_firstAllocatedBlock k \<noteq> None then bk_firstAllocatedBlock k else bk_startBlock k)"
  define k' where "k' = k\<lparr>bk_currentTailIndex := bk_startTailIndex k, bk_stop := stop_index (bk_startTailIndex k) (newTailIndex k)\<rparr>"
  have s': "producers (bulk_fill p k s) p = P\<lparr>tailBlock := t'\<rparr>" "cq_ppc (bulk_fill p k s) p = WriteElement (Bulk k')"
    using guard by (auto simp: bulk_fill_def goto_simps P t'_def k'_def)
  have stop: "unat (bk_stop k') = min (32 * (?t div 32) + 32) (?t + ?n)"
    using stop_index_unat [of "tailIndex P" "newTailIndex k"] newTail_unat [OF st n r(1)] r(1) n by (simp add: k'_def st)
  have bulk: "bulk_ok (P\<lparr>tailBlock := t'\<rparr>) g M k'" by (rule bulk_ok_cong [OF k(1)]) (simp_all add: k'_def)
  have at: "block_at (P\<lparr>tailBlock := t'\<rparr>) g = block_at P g" by (simp add: fun_eq_iff block_at_def)
  have goal: "goal (P\<lparr>tailBlock := t'\<rparr>) (Bulk k') = goal P (Bulk k)" by (simp add: goal_def k'_def)
  have empty: "t' = bk_startBlock k" if "bk_items k = []"
    using that K by (auto simp: t'_def first first_held_def goal_def)
  have "t' = Some (block_at P g (?t div 32))" if ne: "bk_items k \<noteq> []"
  proof (cases "?t mod 32 = 0")
    case True
    then have "g_held g \<noteq> []" "nb P = ?t div 32" using more ne K by (auto simp: goal_def nblk_alt [of ?t])
    then show ?thesis using True by (simp add: t'_def st slot0 first first_held_def block_at_def hd_conv_nth)
  next
    case False
    then show ?thesis using sb by (simp add: t'_def st slot0 tail_block_ok_def block_at_def nblk_alt)
  qed
  moreover have "?t div 32 < goal P (Bulk k)" if "bk_items k \<noteq> []" using that by (simp add: goal_def nblk_div)
  moreover have kf: "bk_items k' = bk_items k" "bk_currentTailIndex k' = tailIndex P" "bk_left k' = bk_items k" "bk_startBlock k' = bk_startBlock k"
    by (simp_all add: k'_def st k(2))
  moreover have "unat (tailIndex P) \<le> unat (bk_stop k')" using stop times_div_less_eq_dividend [of 32 ?t] mult_div_mod_eq [of 32 ?t] mod_less_divisor [of 32 ?t] by linarith
  ultimately have "filling (P\<lparr>tailBlock := t'\<rparr>) g M (Bulk k')"
    unfolding filling_def goal at using bulk K r empty stop
    by (cases "bk_items k = []") (auto simp: written_def Let_def intro!: exI [of _ "?t div 32"])
  then show "prod_ok (producers (bulk_fill p k s) p) g own M p (cq_ppc (bulk_fill p k s) p)" by (simp add: s')
  show "dirty (cq_ppc (bulk_fill p k s) p) = False" "inserted (cq_ppc (bulk_fill p k s) p) g = length (g_held g)" using r by (simp_all add: s')
qed

lemma bulk_allocate_ok:
  assumes k: "bulk_ok P g M k" "bk_left k = bk_items k" "fresh_start P (Bulk k)" and r: "unat (tailIndex P) < 2 ^ 62" "g_rev g = 0"
    and K: "nb P + length (g_held g) \<le> goal P (Bulk k)" and P: "P = producers s p" and tb: "tailBlock P = last_held g (bk_startBlock k)"
    and cur: "bk_currentTailIndex k = of_nat (32 * (nb P + length (g_held g))) - 32"
    and diff: "bk_blockBaseDiff k = of_nat (32 * (goal P (Bulk k) - nb P - length (g_held g)))"
  shows "prod_ok (producers (bulk_allocate p k s) p) g own M p (cq_ppc (bulk_allocate p k s) p)"
    "dirty (cq_ppc (bulk_allocate p k s) p) = False" "inserted (cq_ppc (bulk_allocate p k s) p) g = length (g_held g)"
proof -
  let ?K = "goal P (Bulk k)" let ?m = "nb P + length (g_held g)"
  have "unat (tailIndex P) + length (bk_items k) < 2 ^ 63" using k(3) r(1) by simp
  then have "?K \<le> 2 ^ 58" unfolding goal_def by (intro nblk_le) simp
  then have "32 * (?K - nb P - length (g_held g)) < 2 ^ 64" by simp
  then have d: "unat (bk_blockBaseDiff k) = 32 * (?K - nb P - length (g_held g))" unfolding diff by (rule unat_small)
  show "prod_ok (producers (bulk_allocate p k s) p) g own M p (cq_ppc (bulk_allocate p k s) p)"
    "dirty (cq_ppc (bulk_allocate p k s) p) = False" "inserted (cq_ppc (bulk_allocate p k s) p) g = length (g_held g)"
  proof -
    consider "0 < bk_blockBaseDiff k" "?m < ?K" | "\<not> 0 < bk_blockBaseDiff k" "?m = ?K"
      using d K by (cases "?m < ?K") (auto simp: word_less_nat_alt)
    then have "prod_ok (producers (bulk_allocate p k s) p) g own M p (cq_ppc (bulk_allocate p k s) p) \<and>
      dirty (cq_ppc (bulk_allocate p k s) p) = False \<and> inserted (cq_ppc (bulk_allocate p k s) p) g = length (g_held g)"
    proof cases
      case 1
      define k' where "k' = k\<lparr>bk_blockBaseDiff := bk_blockBaseDiff k - BLOCK_SIZE, bk_currentTailIndex := bk_currentTailIndex k + BLOCK_SIZE\<rparr>"
      have s': "producers (bulk_allocate p k s) p = P" "cq_ppc (bulk_allocate p k s) p = LoadHead (Bulk k')"
        using 1(1) by (simp_all add: bulk_allocate_def goto_simps P k'_def)
      have "32 * (?K - nb P - length (g_held g)) = 32 * (?K - nb P - length (g_held g) - 1) + 32" using 1(2) by simp
      then have "bk_blockBaseDiff k = of_nat (32 * (?K - nb P - length (g_held g) - 1) + 32)" unfolding diff by (simp only:)
      then have "bk_blockBaseDiff k' = of_nat (32 * (?K - nb P - length (g_held g) - 1))" by (simp add: k'_def BLOCK_SIZE_def)
      moreover have "goal P (Bulk k') = ?K" by (simp add: goal_def k'_def)
      moreover have "bulk_ok P g M k'" by (rule bulk_ok_cong [OF k(1)]) (simp_all add: k'_def)
      ultimately have "allocating P g M (Bulk k')"
        using 1(2) r(2) k(2) tb cur by (simp add: allocating_def current_index_def) (simp add: k'_def BLOCK_SIZE_def)
      then show ?thesis using r(2) by (simp add: s')
    next
      case 2
      then have e: "bulk_allocate p k s = bulk_fill p k s" by (simp add: bulk_allocate_def)
      show ?thesis unfolding e using bulk_fill_ok [OF k r 2(2) P] by simp
    qed
    then show "prod_ok (producers (bulk_allocate p k s) p) g own M p (cq_ppc (bulk_allocate p k s) p)"
    "dirty (cq_ppc (bulk_allocate p k s) p) = False" "inserted (cq_ppc (bulk_allocate p k s) p) g = length (g_held g)" by simp_all
  qed
qed

lemma allocating_cong:
  assumes "allocating P g M r" and "\<And>a. a \<in> set (g_held g) \<Longrightarrow> next_of M' a = next_of M a"
    and "unat (tailIndex P) mod 32 \<noteq> 0 \<Longrightarrow> next_of M' (g_blk g (nb P - 1)) = next_of M (g_blk g (nb P - 1))"
  shows "allocating P g M' r"
  using assms by (cases r) (auto simp: allocating_def bulk_ok_def chain_ok_def)

lemma give_up_ok:
  assumes al: "allocating P g M r" and st: "fresh_start P r" and r: "unat (tailIndex P) < 2 ^ 62"
    and b: "g_held g \<noteq> [] \<Longrightarrow> blockIndex P \<noteq> None"
  shows "prod_ok P g own M p (cq_ppc (give_up p r s) p)" "dirty (cq_ppc (give_up p r s) p) = False"
    "inserted (cq_ppc (give_up p r s) p) g = length (g_held g)"
proof -
  have "prod_ok P g own M p (cq_ppc (give_up p r s) p) \<and> dirty (cq_ppc (give_up p r s) p) = False \<and>
    inserted (cq_ppc (give_up p r s) p) g = length (g_held g)"
  proof (cases r)
    case (One x)
    then show ?thesis using al by (simp add: give_up_def goto_simps allocating_def tail_block_ok_def)
  next
    case (Bulk k)
    let ?k = "k\<lparr>bk_currentTailIndex := base_of (bk_startTailIndex k - 1)\<rparr>"
    have k: "bulk_ok P g M k" "g_rev g = 0" using al by (simp_all add: Bulk allocating_def)
    have "bulk_ok P g M ?k" by (rule bulk_ok_cong [OF k(1)]) simp_all
    moreover have "base_of (bk_startTailIndex k - 1) = of_nat (32 * nb P) - 32"
      using base_before [of "unat (tailIndex P)"] r st by (simp add: Bulk)
    moreover have "bk_firstAllocatedBlock k = (if 0 < length (g_held g) then Some (g_held g ! 0) else None)"
      using k(1) by (simp add: bulk_ok_def first_held_def hd_conv_nth)
    ultimately show ?thesis using k(2) b by (simp add: Bulk give_up_def goto_simps BLOCK_SIZE_def)
  qed
  then show "prod_ok P g own M p (cq_ppc (give_up p r s) p)" "dirty (cq_ppc (give_up p r s) p) = False"
    "inserted (cq_ppc (give_up p r s) p) g = length (g_held g)" by simp_all
qed

lemma held_has_index: "index_ok P g N \<Longrightarrow> values_ok P g d \<Longrightarrow> g_held g \<noteq> [] \<Longrightarrow> blockIndex P \<noteq> None"
  by (cases "blockIndex P") (auto simp: index_ok_def values_ok_def)

lemma inserted_allocating: "allocating P g M r \<Longrightarrow> inserted (LoadHead r) g = length (g_held g)"
  by (simp add: allocating_def)

lemma allocating_bound:
  assumes "allocating P g M r" "fresh_start P r" "unat (tailIndex P) < 2 ^ 62"
  shows "nb P + length (g_held g) < 2 ^ 58"
proof -
  have "unat (tailIndex P) + length (request_items r) < 2 ^ 63" using assms(2,3) by (cases r) simp_all
  then have "goal P r \<le> 2 ^ 58" unfolding goal_def by (intro nblk_le) simp
  then show ?thesis using assms(1) by (simp add: allocating_def)
qed

text \<open>The shape of a step of \<open>p\<close> that leaves index, memory of others and the published blocks alone.\<close>

lemma local_step:
  assumes inv: "queue_inv s items own g" and own: "own_step p s s'" and t: "tickets_ok s'" and pool: "pool_ok s' own'"
    and P: "tailIndex (producers s' p) = tailIndex (producers s p)"
      "nextBlockIndexCapacity (producers s' p) = nextBlockIndexCapacity (producers s p)" "blockIndex (producers s' p) = blockIndex (producers s p)"
      "ip_headers (producers s' p) = ip_headers (producers s p)" "ip_entries (producers s' p) = ip_entries (producers s p)"
    and pc: "inserted (cq_ppc s' p) (g p) = inserted (cq_ppc s p) (g p)" "dirty (cq_ppc s p) \<longrightarrow> dirty (cq_ppc s' p)"
    and M: "\<And>a. a \<in> set (g_held (g p)) \<or> (\<exists>b. own a = Active p b) \<Longrightarrow> own' a = own a \<and> (cq_blocks s' a = None \<longleftrightarrow> cq_blocks s a = None) \<and>
        counter (cq_blocks s') a = counter (cq_blocks s) a"
    and other: "\<And>a. own a = Unused \<or> own a = Free \<or> own a = Held p \<or> (\<exists>b. own a = Active p b) \<or> cq_blocks s' a = cq_blocks s a \<and> own' a = own a"
    and el: "\<And>i. i < unat (tailIndex (producers s p)) \<Longrightarrow> own (g_blk (g p) (i div 32)) = Active p (i div 32) \<Longrightarrow>
        element (cq_blocks s') (g_blk (g p) (i div 32)) i = element (cq_blocks s) (g_blk (g p) (i div 32)) i"
    and new: "prod_ok (producers s' p) (g p) own' (cq_blocks s') p (cq_ppc s' p)"
  shows "queue_inv s' items own' g"
proof -
  note o = own_step_others [OF own]
  have ok: "producer_ok s items own (g p) p" using inv by (simp add: queue_inv_def)
  have "headIndex (producers s' p) = headIndex (producers s p)" using o(5) [of p] by (simp add: same_counters_def)
  then have act: "producer_ok s' items own' (g p) p"
    by (intro step_frame [OF ok queue_inv_near(1) [OF inv] P(1) _ P(2-5) o(1) pc _ _ new]) (use M el in simp_all)
  have "queue_inv s' items own' (g(p := g p))"
  proof (rule queue_inv_producer [OF inv t pool own _ _ act])
    show "cq_blocks s' a = cq_blocks s a \<and> own' a = own a" if "q \<noteq> p" "mine own q a" for q a
      using other [of a] that by (auto simp: mine_def)
  qed simp
  then show ?thesis by simp
qed

text \<open>Steps that change only where the thread is, and perhaps \<^verbatim>\<open>tailBlock\<close>.\<close>

lemma goto_step:
  assumes inv: "queue_inv s items own g" and own: "own_step p s s'" and t: "tickets_ok s'"
    and P: "tailIndex (producers s' p) = tailIndex (producers s p)"
      "nextBlockIndexCapacity (producers s' p) = nextBlockIndexCapacity (producers s p)" "blockIndex (producers s' p) = blockIndex (producers s p)"
      "ip_headers (producers s' p) = ip_headers (producers s p)" "ip_entries (producers s' p) = ip_entries (producers s p)"
      "cq_blocks s' = cq_blocks s" "freeList s' = freeList s" "initialBlockPoolIndex s' = initialBlockPoolIndex s"
    and pc: "inserted (cq_ppc s' p) (g p) = inserted (cq_ppc s p) (g p)" "dirty (cq_ppc s p) \<longrightarrow> dirty (cq_ppc s' p)"
    and new: "prod_ok (producers s' p) (g p) own (cq_blocks s) p (cq_ppc s' p)"
  shows "queue_inv s' items own g"
  by (rule local_step [OF inv own t _ P(1-5) pc])
    (use inv P new own_step_others(4) [OF own] in \<open>auto simp: queue_inv_def pool_ok_def\<close>)

lemma bulk_fill_core:
  "ip_entries (producers (bulk_fill p k s) p) = ip_entries (producers s p)" "ip_headers (producers (bulk_fill p k s) p) = ip_headers (producers s p)"
  "blockIndex (producers (bulk_fill p k s) p) = blockIndex (producers s p)"
  "nextBlockIndexCapacity (producers (bulk_fill p k s) p) = nextBlockIndexCapacity (producers s p)"
  "cq_blocks (bulk_fill p k s) = cq_blocks s" "freeList (bulk_fill p k s) = freeList s"
  "initialBlockPoolIndex (bulk_fill p k s) = initialBlockPoolIndex s"
  by (simp_all add: bulk_fill_def goto_simps)

lemma bulk_allocate_core [simp]:
  "ip_entries (producers (bulk_allocate p k s) p) = ip_entries (producers s p)" "ip_headers (producers (bulk_allocate p k s) p) = ip_headers (producers s p)"
  "blockIndex (producers (bulk_allocate p k s) p) = blockIndex (producers s p)"
  "nextBlockIndexCapacity (producers (bulk_allocate p k s) p) = nextBlockIndexCapacity (producers s p)"
  "cq_blocks (bulk_allocate p k s) = cq_blocks s" "freeList (bulk_allocate p k s) = freeList s"
  "initialBlockPoolIndex (bulk_allocate p k s) = initialBlockPoolIndex s"
  by (simp_all add: bulk_allocate_def bulk_fill_core goto_simps)

lemma give_up_core [simp]:
  "cq_blocks (give_up p r s) = cq_blocks s" "freeList (give_up p r s) = freeList s"
  "initialBlockPoolIndex (give_up p r s) = initialBlockPoolIndex s"
  by (cases r; simp add: give_up_def goto_simps)+

lemma queue_invD:
  assumes "queue_inv s items own g"
  shows "producer_ok s items own (g p) p" "pool_ok s own" "started (producers s p) (cq_ppc s p)"
  using assms by (simp_all add: queue_inv_def tickets_ok_def)

lemma enqueue_begin_inv:
  assumes inv: "queue_inv s items own g" and pc: "cq_ppc s p = PReady r" and t: "tickets_ok (enqueue_begin p x s)"
  shows "queue_inv (enqueue_begin p x s) items own g"
proof -
  let ?P = "producers s p"
  note D = producer_okD [OF queue_invD(1) [OF inv, of p]]
  have i: "g_held (g p) = []" "g_rev (g p) = 0" "tail_block_ok ?P (g p) (tailBlock ?P)" using D(7) by (simp_all add: pc)
  have slot0: "slot_of (tailIndex ?P) = 0 \<longleftrightarrow> unat (tailIndex ?P) mod 32 = 0"
    using slot_base_unat(1) [of "tailIndex ?P"] by (simp add: unat_eq_0 [symmetric])
  show ?thesis
  proof (rule goto_step [OF inv begin_own(1) t])
    show "prod_ok (producers (enqueue_begin p x s) p) (g p) own (cq_blocks s) p (cq_ppc (enqueue_begin p x s) p)"
    proof (cases "unat (tailIndex ?P) mod 32 = 0")
      case True
      then have "nb ?P < goal ?P (One x)" "32 * nb ?P = unat (tailIndex ?P)"
        using nblk_div [of "unat (tailIndex ?P)" "unat (tailIndex ?P) + 1"] by (auto simp: goal_def nblk_alt [of "unat (tailIndex ?P)"])
      moreover from this(2) have "tailIndex ?P = of_nat (32 * nb ?P)" by simp
      ultimately show ?thesis using True i
        by (simp add: enqueue_begin_def slot0 goto_simps allocating_def current_index_def)
    next
      case False
      have "nblk (Suc (unat (tailIndex ?P))) = Suc (unat (tailIndex ?P) div 32)"
        using nblk_Suc_diff [of "Suc (unat (tailIndex ?P))"] nblk_div [of "unat (tailIndex ?P)" "Suc (unat (tailIndex ?P))"] by simp
      then show ?thesis using False i
        by (simp add: enqueue_begin_def slot0 goto_simps filling_def goal_def tail_block_ok_def block_at_def nblk_alt [of "unat (tailIndex ?P)"])
    qed
  qed (auto simp: enqueue_begin_def goto_simps pc)
qed

lemma enqueue_bulk_begin_inv:
  assumes inv: "queue_inv s items own g" and pc: "cq_ppc s p = PReady r" and n: "length xs < 2 ^ 62" and t: "tickets_ok (enqueue_bulk_begin p xs s)"
  shows "queue_inv (enqueue_bulk_begin p xs s) items own g"
proof -
  let ?P = "producers s p" let ?t = "unat (tailIndex ?P)"
  note D = producer_okD [OF queue_invD(1) [OF inv, of p]]
  note near = queue_inv_near [OF inv, of p]
  have i: "g_held (g p) = []" "g_rev (g p) = 0" "tail_block_ok ?P (g p) (tailBlock ?P)" using D(7) by (simp_all add: pc)
  define k where "k = \<lparr>bk_items = xs, bk_startTailIndex = tailIndex ?P, bk_startBlock = tailBlock ?P, bk_firstAllocatedBlock = None,
    bk_endBlock = tailBlock ?P, bk_blockBaseDiff = base_of (tailIndex ?P + of_nat (length xs) - 1) - base_of (tailIndex ?P - 1),
    bk_currentTailIndex = base_of (tailIndex ?P - 1), bk_stop = 0, bk_left = xs\<rparr>"
  have s': "enqueue_bulk_begin p xs s = bulk_allocate p k s" by (simp add: enqueue_bulk_begin_def k_def Let_def)
  have b1: "base_of (tailIndex ?P - 1) = of_nat (32 * nb ?P) - 32" using base_before [of ?t] near(2) by simp
  have b2: "base_of (tailIndex ?P + of_nat (length xs) - 1) = of_nat (32 * nblk (?t + length xs)) - 32"
    using base_before [of "?t + length xs"] near(2) n by simp
  have goal: "goal ?P (Bulk k) = nblk (?t + length xs)" by (simp add: goal_def k_def)
  have le: "nb ?P \<le> nblk (?t + length xs)" by (rule nblk_mono) simp
  have "bulk_ok ?P (g p) (cq_blocks s) k" using i by (simp add: bulk_ok_def k_def first_held_def last_held_def chain_ok_def)
  moreover have "nb ?P + length (g_held (g p)) \<le> goal ?P (Bulk k)" using le i(1) by (simp add: goal)
  moreover have "bk_blockBaseDiff k = of_nat (32 * (goal ?P (Bulk k) - nb ?P - length (g_held (g p))))"
  proof -
    have "bk_blockBaseDiff k = of_nat (32 * nblk (?t + length xs)) - of_nat (32 * nb ?P)" using b1 b2 by (simp add: k_def)
    also have "\<dots> = of_nat (32 * nblk (?t + length xs) - 32 * nb ?P)" using le by (intro of_nat_diff [symmetric]) simp
    finally show ?thesis by (simp add: goal i(1) flip: right_diff_distrib')
  qed
  moreover have "bk_left k = bk_items k" "fresh_start ?P (Bulk k)" "tailBlock ?P = last_held (g p) (bk_startBlock k)"
    "bk_currentTailIndex k = of_nat (32 * (nb ?P + length (g_held (g p)))) - 32"
    using i n b1 by (simp_all add: k_def last_held_def)
  ultimately have "prod_ok (producers (bulk_allocate p k s) p) (g p) own (cq_blocks s) p (cq_ppc (bulk_allocate p k s) p) \<and>
    dirty (cq_ppc (bulk_allocate p k s) p) = False \<and> inserted (cq_ppc (bulk_allocate p k s) p) (g p) = length (g_held (g p))"
    using bulk_allocate_ok [of ?P "g p" "cq_blocks s" k s p] near(2) i(2) by simp
  then show ?thesis using t begin_own(2) [of p s xs] i unfolding s'
    by (intro goto_step [OF inv, where p = p]) (simp_all add: pc)
qed

lemma fresh_of: "queue_inv s items own g \<Longrightarrow> request_of (cq_ppc s p) = Some r \<Longrightarrow> fresh_start (producers s p) r"
  using queue_invD(3) [of s items own g p] by (simp add: started_def)

lemma own_goto [simp]: "own_step p s (s\<lparr>cq_ppc := (cq_ppc s)(p := pc)\<rparr>)"
  using own_step_intros(2) [OF own_step_intros(1), of p s pc] by (simp add: goto_p_def)

lemma give_up_step:
  assumes inv: "queue_inv s items own g" and r: "request_of (cq_ppc s p) = Some r"
    and al: "allocating (producers s p) (g p) (cq_blocks s) r" and t: "tickets_ok (give_up p r s)"
    and pc: "inserted (cq_ppc s p) (g p) = length (g_held (g p))" "\<not> dirty (cq_ppc s p)"
  shows "queue_inv (give_up p r s) items own g"
proof -
  note D = producer_okD [OF queue_invD(1) [OF inv, of p]]
  note gu = give_up_ok [OF al fresh_of [OF inv r] queue_inv_near(2) [OF inv] held_has_index [OF D(1,2)]]
  show ?thesis
    by (rule goto_step [OF inv _ t, where p = p]) (use gu pc in \<open>simp_all add: own_step_parts own_step_intros(1)\<close>)
qed

lemma load_head_inv:
  assumes inv: "queue_inv s items own g" and pc: "cq_ppc s p = LoadHead r" and t: "tickets_ok (load_head p r s)"
  shows "queue_inv (load_head p r s) items own g"
proof -
  let ?P = "producers s p" let ?m = "nb ?P + length (g_held (g p))"
  note D = producer_okD [OF queue_invD(1) [OF inv, of p]]
  note near = queue_inv_near [OF inv, of p]
  have al: "allocating ?P (g p) (cq_blocks s) r" using D(7) by (simp add: pc)
  have ins: "inserted (cq_ppc s p) (g p) = length (g_held (g p))" using al by (simp add: pc allocating_def)
  have m: "?m < 2 ^ 58" by (rule allocating_bound [OF al fresh_of [OF inv]]) (use near pc in simp_all)
  then have "32 * ?m < 2 ^ 64" by simp
  then have cur: "unat (current_index ?P r) = 32 * ?m" using al unfolding allocating_def by (metis unat_small)
  have "unat (headIndex ?P) \<le> 32 * ?m" using near(1) nblk_ge [of "unat (tailIndex ?P)"] by simp
  then have no_fault: "\<not> circular_less_than (current_index ?P r) (headIndex ?P)"
    using circular_less_than_small [of "current_index ?P r" "headIndex ?P"] m near cur by simp
  have e: "load_head p r s = give_up p r s \<or> load_head p r s = goto_p p (Insert r) s"
    using no_fault by (auto simp: load_head_def Let_def)
  show ?thesis
  proof (cases "load_head p r s = give_up p r s")
    case True
    then show ?thesis using give_up_step [OF inv _ al _ ins] t pc by simp
  next
    case False
    then have e: "load_head p r s = goto_p p (Insert r) s" using e by blast
    show ?thesis using t unfolding e
      by (intro goto_step [OF inv, where p = p]) (use al in \<open>simp_all add: own_step_intros pc goto_simps\<close>)
  qed
qed

lemma ring_wrap: "j < 64 \<Longrightarrow> ring off (2 ^ j) (b + 2 ^ j) = ring off (2 ^ j) b"
  by (simp add: word_unat_eq_iff ring_unat add.assoc [symmetric])

text \<open>The slot that the next block gets.\<close>

lemma next_slot_ok:
  assumes ix: "index_ok P g N" and h: "blockIndex P = Some h"
  shows "next_slot P = Some (h, slot P g h N, bih_index (ip_headers P ! h) ! unat (slot P g h N))"
proof -
  have c: "h < length (ip_headers P)" "bih_tail (ip_headers P ! h) = ring (g_off g h - 1) (bih_capacity (ip_headers P ! h)) N"
    using ix h by (auto simp: index_ok_def current_ok_def Let_def)
  obtain j where j: "j < 62" "bih_capacity (ip_headers P ! h) = 2 ^ j" by (rule header_okD [OF ix c(1)]) blast
  have "(ring (g_off g h - 1) (2 ^ j) N + 1) AND (2 ^ j - 1) = ring (g_off g h - 1) (2 ^ j) (N + 1)"
    using ring_Suc [of j "g_off g h - 1" N 1] j(1) by simp
  also have "\<dots> = slot P g h N" by (simp add: slot_def j(2) ring_def algebra_simps)
  finally show ?thesis using h by (simp add: next_slot_def Let_def c(2) j(2))
qed

lemma low_le_nb:
  assumes "values_ok P g d"
  shows "g_low g \<le> nb P"
proof (rule ccontr)
  assume "\<not> g_low g \<le> nb P"
  then have "nb P \<in> g_unlinked g" using assms by (simp add: values_ok_def)
  then show False using assms by (auto simp: values_ok_def)
qed

lemma insert_inv:
  assumes inv: "queue_inv s items own g" and pc: "cq_ppc s p = Insert r" and t: "tickets_ok (insert_entry p r s)"
  shows "queue_inv (insert_entry p r s) items own g"
proof (cases "blockIndex (producers s p)")
  case None
  note D = producer_okD [OF queue_invD(1) [OF inv, of p]]
  have e: "insert_entry p r s = give_up p r s" using None by (simp add: insert_entry_def next_slot_def)
  show ?thesis using t D(7) unfolding e
    by (intro give_up_step [OF inv]) (simp_all add: pc allocating_def)
next
  case (Some h)
  let ?P = "producers s p" let ?g = "g p" let ?m = "nb ?P + length (g_held ?g)"
  let ?H = "ip_headers ?P ! h" let ?cap = "unat (bih_capacity ?H)"
  note D = producer_okD [OF queue_invD(1) [OF inv, of p]]
  have al: "allocating ?P ?g (cq_blocks s) r" using D(7) by (simp add: pc)
  then have rev: "g_rev ?g = 0" by (simp add: allocating_def)
  then have ix: "index_ok ?P ?g ?m" using D(1) by (simp add: pc)
  have v: "values_ok ?P ?g False" using D(2) by (simp add: pc)
  let ?t = "slot ?P ?g h ?m" let ?e = "bih_index ?H ! unat ?t"
  have c: "h < length (ip_headers ?P)" "g_hi ?g h = g_keyed ?g" "g_keyed ?g \<le> g_low ?g + ?cap"
    "\<forall>b. g_keyed ?g \<le> b \<and> b < g_low ?g + ?cap \<longrightarrow> bie_key (ip_entries ?P ! (bih_index ?H ! unat (slot ?P ?g h b))) = INVALID_BLOCK_BASE"
    using ix Some by (auto simp: index_ok_def current_ok_def Let_def)
  have m: "?m \<le> g_keyed ?g" "g_low ?g \<le> ?m" using v low_le_nb [OF v] by (simp_all add: values_ok_def)
  have old: "slot_free (ip_entries ?P ! ?e)" if "?m < g_keyed ?g"
    using header_entry [OF ix c(1) m(2)] that c(2) v by (simp add: slot_free_def values_ok_def)
  have fresh: "slot_free (ip_entries ?P ! ?e)" if "?m = g_keyed ?g" "g_keyed ?g < g_low ?g + ?cap"
    using c(4) that by (simp add: slot_free_def)
  have reuse: "g_low ?g \<in> g_unlinked ?g" if f: "slot_free (ip_entries ?P ! ?e)" and full: "?m = g_keyed ?g" "\<not> g_keyed ?g < g_low ?g + ?cap"
  proof -
    obtain j where j: "5 \<le> j" "j < 62" "bih_capacity ?H = 2 ^ j" by (rule header_okD [OF ix c(1)]) blast
    have cap: "?cap = 2 ^ j" using j by (simp add: unat_2p)
    then have w: "?m = g_low ?g + 2 ^ j" using full c(3) by simp
    then have "?t = slot ?P ?g h (g_low ?g)" using ring_wrap [of j "g_off ?g h" "g_low ?g"] j(2) by (simp add: slot_def j(3))
    moreover have lk: "g_low ?g < g_keyed ?g" using w full(1) by simp
    ultimately have e: "?e = g_ent ?g (g_low ?g)" using header_entry [OF ix c(1), of "g_low ?g"] c(2) by simp
    have key: "bie_key (ip_entries ?P ! ?e) = of_nat (32 * g_low ?g)" using ix lk unfolding e by (simp add: index_ok_def)
    have "32 * g_low ?g < 2 ^ 63" using ix lk by (simp add: index_ok_def)
    then have none: "bie_value (ip_entries ?P ! g_ent ?g (g_low ?g)) = None"
      using f key_not_invalid key by (simp add: slot_free_def flip: e) 
    show ?thesis
    proof (cases "g_low ?g < nb ?P")
      case True
      then show ?thesis using none v by (auto simp: values_ok_def split: if_splits)
    next
      case False
      then have "g_low ?g = nb ?P" using low_le_nb [OF v] by simp
      moreover have "0 < length (g_held ?g)" using w calculation by (cases "g_held ?g") auto
      ultimately have "bie_value (ip_entries ?P ! g_ent ?g (g_low ?g)) = Some (g_held ?g ! 0)"
        using v lk rev by (auto simp: values_ok_def dest: spec [of _ 0])
      then show ?thesis using none by simp
    qed
  qed
  have e: "insert_entry p r s = (if slot_free (ip_entries ?P ! ?e) then goto_p p (StoreKey r ?e ?t) s else goto_p p (NewIndex r) s)"
    by (simp add: insert_entry_def next_slot_ok [OF ix Some])
  show ?thesis
  proof (cases "slot_free (ip_entries ?P ! ?e)")
    case True
    then have e: "insert_entry p r s = goto_p p (StoreKey r ?e ?t) s" by (simp add: e)
    show ?thesis using t unfolding e
      by (intro goto_step [OF inv, where p = p])
        (use al rev Some reuse [OF True] in \<open>auto simp: own_step_intros pc goto_simps\<close>)
  next
    case False
    then have e: "insert_entry p r s = goto_p p (NewIndex r) s" by (simp add: e)
    have "?m = g_keyed ?g" "g_keyed ?g = g_low ?g + ?cap" using old fresh False m(1) c(3) by (auto simp: le_less)
    then show ?thesis using t unfolding e
      by (intro goto_step [OF inv, where p = p])
        (use al rev Some in \<open>auto simp: own_step_intros pc goto_simps\<close>)
  qed
qed

text \<open>A thread that gets hold of a block.\<close>

lemma acquire_step:
  assumes inv: "queue_inv s items own g" and own: "own_step p s s'" and t: "tickets_ok s'" and pool: "pool_ok s' (own(a := Held p))"
    and a: "own a = Unused \<or> own a = Free" "cq_blocks s' a \<noteq> None" "\<And>x. x \<noteq> a \<Longrightarrow> cq_blocks s' x = cq_blocks s x"
    and P: "producers s' p = producers s p" "cq_ppc s' p = ResetBlock r e a"
    and pc: "allocating (producers s p) (g p) (cq_blocks s) r" "inserting (producers s p) (g p) e"
      "inserted (cq_ppc s p) (g p) = length (g_held (g p)) + 1"
  shows "queue_inv s' items (own(a := Held p)) g"
proof -
  note D = producer_okD [OF queue_invD(1) [OF inv, of p]]
  note near = queue_inv_near(1) [OF inv, of p]
  have ne: "x \<noteq> a" if "x \<in> set (g_held (g p)) \<or> (\<exists>b. own x = Active p b)" for x using that a(1) D(4) by (auto simp: blocks_ok_def)
  have same: "cq_blocks s' x = cq_blocks s x" if "x \<in> set (g_held (g p)) \<or> (\<exists>b. own x = Active p b)" for x using a(3) ne [OF that] by blast
  show ?thesis
  proof (rule local_step [OF inv own t pool])
    show "(own(a := Held p)) x = own x \<and> (cq_blocks s' x = None \<longleftrightarrow> cq_blocks s x = None) \<and> counter (cq_blocks s') x = counter (cq_blocks s) x"
      if "x \<in> set (g_held (g p)) \<or> (\<exists>b. own x = Active p b)" for x
      using ne [OF that] same [OF that] by (simp add: counter_def)
    show "own x = Unused \<or> own x = Free \<or> own x = Held p \<or> (\<exists>b. own x = Active p b) \<or>
        cq_blocks s' x = cq_blocks s x \<and> (own(a := Held p)) x = own x" for x
      using a(1,3) by (cases "x = a") auto
    show "element (cq_blocks s') (g_blk (g p) (i div 32)) i = element (cq_blocks s) (g_blk (g p) (i div 32)) i"
      if "own (g_blk (g p) (i div 32)) = Active p (i div 32)" for i using same that by (auto simp: element_def)
    have "allocating (producers s p) (g p) (cq_blocks s') r"
      by (rule allocating_cong [OF pc(1)]) (use same tail_block_live(1) [OF D(4,3,2) near] in \<open>auto simp: next_of_def\<close>)
    moreover have "a \<notin> set (g_held (g p))" using ne by blast
    ultimately show "prod_ok (producers s' p) (g p) (own(a := Held p)) (cq_blocks s') p (cq_ppc s' p)"
      using a(2) pc(2) by (simp add: P)
  qed (use P pc(3) in simp_all)
qed

lemma pool_take_inv:
  assumes inv: "queue_inv s items own g" and pc: "cq_ppc s p = PoolTake r e" and t: "tickets_ok (pool_take p r e s)"
  shows "\<exists>own. queue_inv (pool_take p r e s) items own g"
proof -
  note D = producer_okD [OF queue_invD(1) [OF inv, of p]]
  note pool = queue_invD(2) [OF inv]
  have w: "unat (initialBlockPoolIndex s) < 2 ^ 62" using inv by (simp add: queue_inv_def tickets_ok_def within_range_def)
  then have i: "unat (initialBlockPoolIndex s + 1) = unat (initialBlockPoolIndex s) + 1" by (subst unat_plus) simp_all
  have al: "allocating (producers s p) (g p) (cq_blocks s) r" "inserting (producers s p) (g p) e" using D(7) by (simp_all add: pc)
  have own: "own_step p s (pool_take p r e s)" by (auto simp: pool_take_def Let_def intro!: own_step_intros)
  show ?thesis
  proof (cases "initialBlockPoolIndex s < initialBlockPoolSize s")
    case True
    let ?a = "unat (initialBlockPoolIndex s)"
    have a: "own ?a = Unused" "cq_blocks s ?a \<noteq> None" using pool True by (simp_all add: pool_ok_def word_less_nat_alt)
    have "queue_inv (pool_take p r e s) items (own(?a := Held p)) g"
    proof (rule acquire_step [OF inv own t])
      show "pool_ok (pool_take p r e s) (own(?a := Held p))"
        using pool a by (auto simp: pool_take_def Let_def goto_simps pool_ok_def i)
    qed (use True a al pc in \<open>simp_all add: pool_take_def Let_def goto_simps\<close>)
    then show ?thesis by blast
  next
    case False
    have "queue_inv (pool_take p r e s) items own g"
    proof (rule local_step [OF inv own t])
      show "pool_ok (pool_take p r e s) own" using pool False by (auto simp: pool_take_def Let_def goto_simps pool_ok_def i word_less_nat_alt)
    qed (use al False in \<open>simp_all add: pc pool_take_def Let_def goto_simps\<close>)
    then show ?thesis by blast
  qed
qed

lemma free_get_inv:
  assumes inv: "queue_inv s items own g" and pc: "cq_ppc s p = FreeGet r e" and t: "tickets_ok (free_get ok n p r e s)"
  shows "\<exists>own. queue_inv (free_get ok n p r e s) items own g"
proof -
  note D = producer_okD [OF queue_invD(1) [OF inv, of p]]
  note pool = queue_invD(2) [OF inv]
  have al: "allocating (producers s p) (g p) (cq_blocks s) r" "inserting (producers s p) (g p) e" using D(7) by (simp_all add: pc)
  have own: "own_step p s (free_get ok n p r e s)" by (auto simp: free_get_def intro!: own_step_intros)
  show ?thesis
  proof (cases "ok \<and> n < length (freeList s)")
    case True
    let ?a = "freeList s ! n"
    have a: "own ?a = Free" "cq_blocks s ?a \<noteq> None" using pool True by (simp_all add: pool_ok_def)
    have split: "freeList s = take n (freeList s) @ ?a # drop (Suc n) (freeList s)" using True by (simp add: id_take_nth_drop)
    have "distinct (take n (freeList s) @ ?a # drop (Suc n) (freeList s))" using pool split by (simp add: pool_ok_def)
    then have d: "distinct (take n (freeList s) @ drop (Suc n) (freeList s))" "?a \<notin> set (take n (freeList s) @ drop (Suc n) (freeList s))" by auto
    have sub: "set (take n (freeList s) @ drop (Suc n) (freeList s)) \<subseteq> set (freeList s)" by (auto dest: in_set_takeD in_set_dropD)
    have "queue_inv (free_get ok n p r e s) items (own(?a := Held p)) g"
    proof (rule acquire_step [OF inv own t])
      show "pool_ok (free_get ok n p r e s) (own(?a := Held p))"
        using pool a d sub True unfolding pool_ok_def by (auto simp: free_get_def goto_simps)
    qed (use True a al pc in \<open>simp_all add: free_get_def goto_simps\<close>)
    then show ?thesis by blast
  next
    case False
    then have e: "free_get ok n p r e s = goto_p p (Create r e) s" by (auto simp: free_get_def)
    have "queue_inv (free_get ok n p r e s) items own g" using t own unfolding e
      by (intro goto_step [OF inv, where p = p]) (use al in \<open>simp_all add: pc goto_simps\<close>)
    then show ?thesis by blast
  qed
qed

lemma create_inv:
  assumes inv: "queue_inv s items own g" and pc: "cq_ppc s p = Create r e" and t: "tickets_ok (create_block ok n p r e s)"
  shows "\<exists>own. queue_inv (create_block ok n p r e s) items own g"
proof -
  note D = producer_okD [OF queue_invD(1) [OF inv, of p]]
  note pool = queue_invD(2) [OF inv]
  have al: "allocating (producers s p) (g p) (cq_blocks s) r" "inserting (producers s p) (g p) e" using D(7) by (simp_all add: pc)
  have own: "own_step p s (create_block ok n p r e s)" by (auto simp: create_block_def intro!: own_step_intros)
  show ?thesis
  proof (cases "ok \<and> cq_blocks s n = None")
    case True
    then have a: "own n = Unused" using pool by (simp add: pool_ok_def)
    have "queue_inv (create_block ok n p r e s) items (own(n := Held p)) g"
    proof (rule acquire_step [OF inv own t])
      show "pool_ok (create_block ok n p r e s) (own(n := Held p))"
        using pool a True unfolding pool_ok_def by (auto simp: create_block_def goto_simps)
    qed (use True a al pc in \<open>simp_all add: create_block_def goto_simps\<close>)
    then show ?thesis by blast
  next
    case False
    then have e: "create_block ok n p r e s = goto_p p (Rewind r e) s" by (auto simp: create_block_def)
    have "queue_inv (create_block ok n p r e s) items own g" using t own unfolding e
      by (intro goto_step [OF inv, where p = p]) (use al in \<open>simp_all add: pc goto_simps\<close>)
    then show ?thesis by blast
  qed
qed

lemma pool_load_inv:
  assumes inv: "queue_inv s items own g" and pc: "cq_ppc s p = PoolLoad r e" and t: "tickets_ok (pool_load p r e s)"
  shows "queue_inv (pool_load p r e s) items own g"
proof -
  note D = producer_okD [OF queue_invD(1) [OF inv, of p]]
  show ?thesis using t D(7) unfolding pool_load_def
    by (intro goto_step [OF inv, where p = p]) (auto simp: pc goto_simps own_step_def same_counters_def)
qed

lemma reset_block_inv:
  assumes inv: "queue_inv s items own g" and pc: "cq_ppc s p = ResetBlock r e a" and t: "tickets_ok (reset_block p r e a s)"
  shows "queue_inv (reset_block p r e a s) items own g"
proof -
  note D = producer_okD [OF queue_invD(1) [OF inv, of p]]
  note near = queue_inv_near(1) [OF inv, of p]
  have al: "allocating (producers s p) (g p) (cq_blocks s) r" "inserting (producers s p) (g p) e"
    "own a = Held p" "a \<notin> set (g_held (g p))" "cq_blocks s a \<noteq> None" using D(7) by (simp_all add: pc)
  define f where "f = (\<lambda>B :: 'a Block. case r of One x \<Rightarrow> reset_empty B | Bulk k \<Rightarrow> (reset_empty B)\<lparr>blk_next := None\<rparr>)"
  have s': "reset_block p r e a s = goto_p p (StoreValue r e a) (with_block a f s)"
    using al(5) by (auto simp: reset_block_def f_def)
  let ?M = "(cq_blocks s)(a := map_option f (cq_blocks s a))"
  have same: "?M x = cq_blocks s x" if "x \<in> set (g_held (g p)) \<or> (\<exists>b. own x = Active p b)" for x using that al(3,4) by auto
  show ?thesis unfolding s'
  proof (rule local_step [OF inv _ t [unfolded s']])
    show "own_step p s (goto_p p (StoreValue r e a) (with_block a f s))" by (intro own_step_intros)
    show "pool_ok (goto_p p (StoreValue r e a) (with_block a f s)) own"
      using queue_invD(2) [OF inv] by (auto simp: pool_ok_def goto_simps)
    have "allocating (producers s p) (g p) ?M r"
      by (rule allocating_cong [OF al(1)]) (use same tail_block_live(1) [OF D(4,3,2) near] in \<open>auto simp: next_of_def\<close>)
    moreover have "counter ?M a = 0" "\<forall>k. r = Bulk k \<longrightarrow> next_of ?M a = None"
      using al(5) by (auto simp: counter_def next_of_def f_def reset_empty_def split: request.splits)
    ultimately show "prod_ok (producers (goto_p p (StoreValue r e a) (with_block a f s)) p) (g p) own
        (cq_blocks (goto_p p (StoreValue r e a) (with_block a f s))) p (cq_ppc (goto_p p (StoreValue r e a) (with_block a f s)) p)"
      using al by (simp add: goto_simps)
  qed (use al same in \<open>auto simp: goto_simps pc counter_def element_def\<close>)
qed

end
