(* ===== verification/ConcurrentQueue_Index.thy ===== *)
theory ConcurrentQueue_Index
  imports ConcurrentQueue_Requests
begin

unbundle bit_operations_syntax

text \<open>
  Steps of a producer on its block index: a new key, the tail of the ring, undoing both, and a new
  index of twice the size.
\<close>

lemma dq_ok_index:
  assumes ok: "dq_ok P g p pc" and near: "unat (headIndex P) \<le> unat (tailIndex P)" and P: "headIndex P' = headIndex P"
    and h: "length (ip_headers P) \<le> length (ip_headers P')"
      "\<And>h. h < length (ip_headers P) \<Longrightarrow> bih_capacity (ip_headers P' ! h) = bih_capacity (ip_headers P ! h) \<and> g_off g' h = g_off g h \<and> g_hi g h \<le> g_hi g' h"
    and g: "\<And>b. b < nb P \<Longrightarrow> g_blk g' b = g_blk g b" "g_fin g' = g_fin g" "g_unlinked g' = g_unlinked g" "g_freed g' = g_freed g"
  shows "dq_ok P' g' p pc"
proof -
  have sl: "slot P' g' h b = slot P g h b" if "h < length (ip_headers P)" for h b using h(2) [OF that] by (simp add: slot_def)
  have kn: "knows P' g' d" if "knows P g d" for d :: "'a dq" using that h(1) h(2) [of "dq_header d"] by (auto simp: knows_def)
  have hd: "dq_header d < length (ip_headers P)" if "knows P g d" for d :: "'a dq" using that by (simp add: knows_def)
  have tk: "taken_ok P' d = taken_ok P d" for d :: "'a dq" by (simp add: taken_ok_def P)
  have ib: "in_block P' g' d" if "in_block P g d" "knows P g d" "taken_ok P d" for d :: "'a dq"
  proof -
    have "unat (dq_blockStartIndex d) div 32 < nb P"
      using that(1,3) near by (intro nblk_div) (auto simp: in_block_def taken_ok_def Let_def)
    then show ?thesis using that g(1) sl [OF hd [OF that(2)]] by (simp add: in_block_def Let_def)
  qed
  have ae: "at_end P' g' d" if "at_end P g d" "knows P g d" "taken_ok P d" for d :: "'a dq"
  proof -
    have "ended_block d < nb P"
      using that(1,3) near unfolding ended_block_def by (intro nblk_div) (auto simp: at_end_def taken_ok_def Let_def)
    then show ?thesis using that g(1,2) sl [OF hd [OF that(2)]] by (simp add: at_end_def Let_def)
  qed
  show ?thesis
  proof (cases pc)
    case (LoadKey d t)
    show ?thesis
    proof (cases "dq_producer d = p")
      case True
      then obtain B where B: "unat (dq_firstIndex d) div 32 \<le> B" "B < g_hi g (dq_header d)" "t = slot P g (dq_header d) B"
        and k: "knows P g d" "taken_ok P d" "dq_index d = dq_firstIndex d" using ok LoadKey by auto
      have "B < g_hi g' (dq_header d)" using B(2) h(2) [OF hd [OF k(1)]] by simp
      then show ?thesis using LoadKey True B kn k tk sl [OF hd [OF k(1)]] by auto
    qed (simp add: LoadKey)
  next
    case (LoadBlock d)
    show ?thesis using ok sl [OF hd] by (auto simp: LoadBlock tk kn)
  qed (use ok in \<open>auto simp: tk kn ib ae g\<close>)
qed

text \<open>A step of \<open>p\<close> on its index.\<close>

lemma index_step:
  assumes inv: "queue_inv s items own g" and own: "own_step p s s'" and t: "tickets_ok s'"
    and s: "cq_blocks s' = cq_blocks s" "freeList s' = freeList s" "initialBlockPoolIndex s' = initialBlockPoolIndex s"
      "tailIndex (producers s' p) = tailIndex (producers s p)"
    and h: "length (ip_headers (producers s p)) \<le> length (ip_headers (producers s' p))"
      "\<And>h. h < length (ip_headers (producers s p)) \<Longrightarrow> bih_capacity (ip_headers (producers s' p) ! h) = bih_capacity (ip_headers (producers s p) ! h) \<and>
         g_off g' h = g_off (g p) h \<and> g_hi (g p) h \<le> g_hi g' h"
    and g: "g_blk g' = g_blk (g p)" "g_fin g' = g_fin (g p)" "g_unlinked g' = g_unlinked (g p)" "g_freed g' = g_freed (g p)" "g_held g' = g_held (g p)"
    and ix: "index_ok (producers s' p) g' (nb (producers s p) + inserted (cq_ppc s' p) g')"
    and v: "values_ok (producers s' p) g' (dirty (cq_ppc s' p))"
    and new: "prod_ok (producers s' p) g' own (cq_blocks s) p (cq_ppc s' p)"
  shows "queue_inv s' items own (g(p := g'))"
proof -
  note D = producer_okD [OF queue_invD(1) [OF inv, of p]]
  note near = queue_inv_near(1) [OF inv, of p]
  note o = own_step_others [OF own]
  have head: "headIndex (producers s' p) = headIndex (producers s p)" using o(5) [of p] by (simp add: same_counters_def)
  have "producer_ok s' items own g' p"
  proof (rule producer_okI)
    show "index_ok (producers s' p) g' (nb (producers s' p) + inserted (cq_ppc s' p) g')" using ix by (simp add: s)
    show "claims_ok p (producers s' p) g' (cq_cpc s')" unfolding o(1)
      by (rule claims_same [OF D(3)]) (use dq_ok_index [OF _ near head h] g in \<open>simp_all add: head\<close>)
    show "blocks_ok p (producers s' p) g' own (cq_blocks s') (cq_cpc s')" unfolding o(1) using D(4) by (simp add: blocks_ok_def s g)
    show "held_counters g' (cq_blocks s')" using D(5) by (simp add: held_counters_def s g)
    show "contents_ok p (producers s' p) g' (cq_blocks s') (cq_cpc s') (items p)" unfolding o(1) using D(6) by (simp add: contents_ok_def s g head)
  qed (use v new s in simp_all)
  then show ?thesis
    by (intro queue_inv_producer [OF inv t _ own]) (use inv s o(4) in \<open>simp_all add: queue_inv_def pool_ok_def\<close>)
qed

lemma set_header_core [simp]:
  "tailIndex (set_header h f P) = tailIndex P" "blockIndex (set_header h f P) = blockIndex P" "ip_entries (set_header h f P) = ip_entries P"
  "nextBlockIndexCapacity (set_header h f P) = nextBlockIndexCapacity P" "tailBlock (set_header h f P) = tailBlock P"
  "length (ip_headers (set_header h f P)) = length (ip_headers P)"
  by (simp_all add: set_header_def)

lemma set_header_nth:
  "h < length (ip_headers P) \<Longrightarrow> ip_headers (set_header h f P) ! x = (if x = h then f (ip_headers P ! h) else ip_headers P ! x)"
  by (simp add: set_header_def nth_list_update)

text \<open>Moving the tail of the current header to \<open>N'\<close> blocks.\<close>

lemma index_ok_tail:
  assumes ix: "index_ok P g N" and h: "blockIndex P = Some h" and N: "N' \<le> g_keyed g"
    and t: "t = ring (g_off g h - 1) (bih_capacity (ip_headers P ! h)) N'"
  shows "index_ok (set_header h (\<lambda>H. H\<lparr>bih_tail := t\<rparr>) P) g N'"
proof -
  let ?P = "set_header h (\<lambda>H. H\<lparr>bih_tail := t\<rparr>) P"
  have c: "current_ok P g N h" using ix h by (simp add: index_ok_def)
  then have hl': "h < length (ip_headers P)" by (auto simp: current_ok_def Let_def)
  note nth = set_header_nth [of h P "\<lambda>H. H\<lparr>bih_tail := t\<rparr>"]
  note nth = nth [OF hl']
  have sl: "slot ?P g = slot P g" by (simp add: fun_eq_iff slot_def nth)
  have "current_ok ?P g N' h" using c N by (simp add: current_ok_def Let_def sl nth t [symmetric])
  moreover have "header_ok ?P g x = header_ok P g x" for x by (simp add: header_ok_def Let_def sl nth)
  ultimately show ?thesis using ix h by (simp add: index_ok_def nth)
qed

lemma values_ok_tail: "values_ok P g d \<Longrightarrow> values_ok (set_header h f P) g d"
  by (simp add: values_ok_def)

lemma slot_tail: "h < length (ip_headers P) \<Longrightarrow> slot (set_header h (\<lambda>H. H\<lparr>bih_tail := t\<rparr>) P) g = slot P g"
  by (simp add: fun_eq_iff slot_def set_header_nth)

lemma allocating_core:
  assumes "allocating P g M r" "tailIndex P' = tailIndex P" "tailBlock P' = tailBlock P"
    "g_held g' = g_held g" "g_rev g' = g_rev g" "g_blk g' = g_blk g"
  shows "allocating P' g' M r"
proof -
  have "goal P' r = goal P r" "current_index P' r = current_index P r" for r :: "'a request" using assms(2) by (cases r; simp add: goal_def current_index_def)+
  moreover have "bulk_ok P' g' M k = bulk_ok P g M k" "last_held g' = last_held g" for k
    using assms(2-6) by (simp_all add: bulk_ok_def tail_block_ok_def chain_ok_def first_held_def last_held_def fun_eq_iff)
  ultimately show ?thesis using assms by (simp add: allocating_def cong: request.case_cong)
qed

lemma ring_pred: "ring (off - 1) cap (Suc N) = ring off cap N"
  by (simp add: ring_def algebra_simps)

lemma store_tail_inv:
  assumes inv: "queue_inv s items own g" and pc: "cq_ppc s p = StoreIndexTail r e u"
    and t: "tickets_ok (enqueue_step ok n p (cq_ppc s p) s)"
  shows "queue_inv (enqueue_step ok n p (cq_ppc s p) s) items own g"
proof -
  let ?P = "producers s p" let ?g = "g p" let ?m = "nb ?P + length (g_held ?g)"
  note D = producer_okD [OF queue_invD(1) [OF inv, of p]]
  have al: "allocating ?P ?g (cq_blocks s) r" "inserting ?P ?g e" "u = slot ?P ?g (the (blockIndex ?P)) ?m" using D(7) by (simp_all add: pc)
  obtain h where h: "blockIndex ?P = Some h" "?m < g_keyed ?g" using al(2) by (auto simp: inserting_def)
  have hl: "h < length (ip_headers ?P)" using D(1) h by (auto simp: index_ok_def current_ok_def Let_def)
  define P' where "P' = set_header h (\<lambda>H. H\<lparr>bih_tail := u\<rparr>) ?P"
  have s': "enqueue_step ok n p (cq_ppc s p) s = goto_p p (PoolLoad r e) (with_producer p (\<lambda>_. P') s)"
    by (simp add: pc P'_def goto_simps h(1))
  have P': "tailIndex P' = tailIndex ?P" "tailBlock P' = tailBlock ?P" "blockIndex P' = blockIndex ?P" by (simp_all add: P'_def)
  have ix: "index_ok P' ?g (Suc ?m)"
    unfolding P'_def by (rule index_ok_tail [OF D(1) h(1)]) (use h(2) al(3) in \<open>simp_all add: h(1) slot_def ring_pred\<close>)
  have "queue_inv (enqueue_step ok n p (cq_ppc s p) s) items own (g(p := ?g))"
  proof (rule index_step [OF inv _ t])
    show "own_step p s (enqueue_step ok n p (cq_ppc s p) s)" by (rule enqueue_step_own)
    show "index_ok (producers (enqueue_step ok n p (cq_ppc s p) s) p) ?g
        (nb ?P + inserted (cq_ppc (enqueue_step ok n p (cq_ppc s p) s) p) ?g)" using ix unfolding s' by (simp add: goto_simps)
    show "values_ok (producers (enqueue_step ok n p (cq_ppc s p) s) p) ?g (dirty (cq_ppc (enqueue_step ok n p (cq_ppc s p) s) p))"
      using D(2) unfolding s' by (simp add: goto_simps P'_def values_ok_tail pc)
    show "prod_ok (producers (enqueue_step ok n p (cq_ppc s p) s) p) ?g own (cq_blocks s) p (cq_ppc (enqueue_step ok n p (cq_ppc s p) s) p)"
      using allocating_core [OF al(1), of P' ?g] al(2) P' unfolding s' by (simp add: goto_simps inserting_def)
  qed (use hl in \<open>simp_all add: s' goto_simps P', simp_all add: P'_def set_header_nth\<close>)
  then show ?thesis by simp
qed

lemma rewind_ok:
  assumes ix: "index_ok P g (Suc N)" and h: "blockIndex P = Some h"
  shows "index_ok (rewind_block_index_tail P) g N"
    "rewind_block_index_tail P = set_header h (\<lambda>H. H\<lparr>bih_tail := ring (g_off g h - 1) (bih_capacity (ip_headers P ! h)) N\<rparr>) P"
proof -
  have c: "h < length (ip_headers P)" "bih_tail (ip_headers P ! h) = ring (g_off g h - 1) (bih_capacity (ip_headers P ! h)) (Suc N)"
    "Suc N \<le> g_keyed g" using ix h by (auto simp: index_ok_def current_ok_def Let_def)
  obtain j where j: "j < 62" "bih_capacity (ip_headers P ! h) = 2 ^ j" by (rule header_okD [OF ix c(1)]) blast
  have "(ring (g_off g h - 1) (2 ^ j) (Suc N) - 1) AND (2 ^ j - 1) = ring (g_off g h - 1) (2 ^ j) N"
    using and_mask_add [of j "g_off g h - 1 + of_nat (Suc N)" "- 1"] j(1) by (simp add: ring_def algebra_simps)
  then show e: "rewind_block_index_tail P = set_header h (\<lambda>H. H\<lparr>bih_tail := ring (g_off g h - 1) (bih_capacity (ip_headers P ! h)) N\<rparr>) P"
    using h c(1,2) j(2) by (simp add: rewind_block_index_tail_def set_header_def)
  show "index_ok (rewind_block_index_tail P) g N" unfolding e by (rule index_ok_tail [OF ix h]) (use c(3) in simp_all)
qed

lemma rewind_inv:
  assumes inv: "queue_inv s items own g" and pc: "cq_ppc s p = Rewind r e"
    and t: "tickets_ok (enqueue_step ok n p (cq_ppc s p) s)"
  shows "queue_inv (enqueue_step ok n p (cq_ppc s p) s) items own g"
proof -
  let ?P = "producers s p" let ?g = "g p" let ?m = "nb ?P + length (g_held ?g)"
  note D = producer_okD [OF queue_invD(1) [OF inv, of p]]
  have al: "allocating ?P ?g (cq_blocks s) r" "inserting ?P ?g e" using D(7) by (simp_all add: pc)
  obtain h where h: "blockIndex ?P = Some h" using al(2) by (auto simp: inserting_def)
  have hl: "h < length (ip_headers ?P)" using D(1) h by (auto simp: index_ok_def current_ok_def Let_def)
  have ix: "index_ok ?P ?g (Suc ?m)" using D(1) by (simp add: pc)
  note rw = rewind_ok [OF ix h]
  define P' where "P' = rewind_block_index_tail ?P"
  have s': "enqueue_step ok n p (cq_ppc s p) s = goto_p p (ClearValue r e) (with_producer p (\<lambda>_. P') s)" by (simp add: pc P'_def goto_simps)
  have P': "tailIndex P' = tailIndex ?P" "tailBlock P' = tailBlock ?P" "blockIndex P' = blockIndex ?P" by (simp_all add: P'_def rw(2))
  have rev: "g_rev ?g = 0" using al(1) by (simp add: allocating_def)
  have "queue_inv (enqueue_step ok n p (cq_ppc s p) s) items own (g(p := ?g))"
  proof (rule index_step [OF inv _ t])
    show "own_step p s (enqueue_step ok n p (cq_ppc s p) s)" by (rule enqueue_step_own)
    show "index_ok (producers (enqueue_step ok n p (cq_ppc s p) s) p) ?g
        (nb ?P + inserted (cq_ppc (enqueue_step ok n p (cq_ppc s p) s) p) ?g)" using rw(1) rev unfolding s' by (simp add: goto_simps P'_def)
    show "values_ok (producers (enqueue_step ok n p (cq_ppc s p) s) p) ?g (dirty (cq_ppc (enqueue_step ok n p (cq_ppc s p) s) p))"
      using D(2) unfolding s' by (simp add: goto_simps P'_def rw(2) values_ok_tail pc)
    show "prod_ok (producers (enqueue_step ok n p (cq_ppc s p) s) p) ?g own (cq_blocks s) p (cq_ppc (enqueue_step ok n p (cq_ppc s p) s) p)"
      using allocating_core [OF al(1), of P' ?g] al(2) P' unfolding s' by (simp add: goto_simps inserting_def)
  qed (use hl in \<open>simp_all add: s' goto_simps P', simp_all add: P'_def rw(2) set_header_nth\<close>)
  then show ?thesis by simp
qed

lemma set_entry_core [simp]:
  "tailIndex (set_entry e f P) = tailIndex P" "blockIndex (set_entry e f P) = blockIndex P" "ip_headers (set_entry e f P) = ip_headers P"
  "nextBlockIndexCapacity (set_entry e f P) = nextBlockIndexCapacity P" "tailBlock (set_entry e f P) = tailBlock P"
  "length (ip_entries (set_entry e f P)) = length (ip_entries P)" "headIndex (set_entry e f P) = headIndex P"
  by (simp_all add: set_entry_def)

lemma set_entry_nth:
  "e < length (ip_entries P) \<Longrightarrow> ip_entries (set_entry e f P) ! x = (if x = e then f (ip_entries P ! e) else ip_entries P ! x)"
  by (simp add: set_entry_def nth_list_update)

text \<open>Writing the value of the entry of block \<open>b\<close>.\<close>

lemma index_ok_value:
  assumes "index_ok P g N"
  shows "index_ok (set_entry e (\<lambda>E. E\<lparr>bie_value := v\<rparr>) P) g N"
proof (rule index_ok_frame [OF assms])
  show "bie_key (ip_entries (set_entry e (\<lambda>E. E\<lparr>bie_value := v\<rparr>) P) ! x) = bie_key (ip_entries P ! x)" if "x < length (ip_entries P)" for x
    using that by (cases "x = e") (simp_all add: set_entry_def)
qed simp_all

lemma entry_value:
  assumes ix: "index_ok P g N" and b: "g_low g \<le> b" "b < g_keyed g" "g_low g \<le> x" "x < g_keyed g"
  shows "bie_value (ip_entries (set_entry (g_ent g b) (\<lambda>E. E\<lparr>bie_value := v\<rparr>) P) ! g_ent g x) =
    (if x = b then v else bie_value (ip_entries P ! g_ent g x))"
  using ent_inj [OF ix b(3,4,1,2)] ent_range [OF ix b(1,2)] by (auto simp: set_entry_nth)

lemma clear_value_inv:
  assumes inv: "queue_inv s items own g" and pc: "cq_ppc s p = ClearValue r e"
    and t: "tickets_ok (enqueue_step ok n p (cq_ppc s p) s)"
  shows "queue_inv (enqueue_step ok n p (cq_ppc s p) s) items own g"
proof -
  let ?P = "producers s p" let ?g = "g p" let ?m = "nb ?P + length (g_held ?g)" let ?s = "enqueue_step ok n p (cq_ppc s p) s"
  note D = producer_okD [OF queue_invD(1) [OF inv, of p]]
  have al: "allocating ?P ?g (cq_blocks s) r" "inserting ?P ?g e" using D(7) by (simp_all add: pc)
  have m: "?m < g_keyed ?g" "e = g_ent ?g ?m" "blockIndex ?P \<noteq> None" using al(2) by (auto simp: inserting_def)
  have low: "g_low ?g \<le> ?m" using low_le_nb [OF D(2)] by simp
  have rev: "g_rev ?g = 0" using al(1) by (simp add: allocating_def)
  define P' where "P' = set_entry e (\<lambda>E. E\<lparr>bie_value := None\<rparr>) ?P"
  have P': "tailIndex P' = tailIndex ?P" "tailBlock P' = tailBlock ?P" "blockIndex P' = blockIndex ?P" "ip_headers P' = ip_headers ?P" by (simp_all add: P'_def)
  have s': "producers ?s p = P'" "cq_blocks ?s = cq_blocks s" "freeList ?s = freeList s" "initialBlockPoolIndex ?s = initialBlockPoolIndex s"
    by (simp_all add: pc P'_def goto_simps)
  have gu: "prod_ok P' ?g own (cq_blocks s) p (cq_ppc ?s p)" "dirty (cq_ppc ?s p) = False" "inserted (cq_ppc ?s p) ?g = length (g_held ?g)"
    using give_up_ok [of P' ?g "cq_blocks s" r, OF allocating_core [OF al(1)]] fresh_of [OF inv, of p r] queue_inv_near(2) [OF inv, of p] m(3)
    by (simp_all add: P' pc fresh_start_cong [of P' ?P])
  have vals: "bie_value (ip_entries P' ! g_ent ?g x) = (if x = ?m then None else bie_value (ip_entries ?P ! g_ent ?g x))"
    if "g_low ?g \<le> x" "x < g_keyed ?g" for x
    using entry_value [OF D(1) low m(1) that] by (simp add: P'_def m(2))
  have "queue_inv ?s items own (g(p := ?g))"
  proof (rule index_step [OF inv enqueue_step_own t])
    show "index_ok (producers ?s p) ?g (nb ?P + inserted (cq_ppc ?s p) ?g)"
      using index_ok_value [OF D(1), of e None] rev unfolding s'(1) gu(3) by (simp add: P'_def pc)
    show "values_ok (producers ?s p) ?g (dirty (cq_ppc ?s p))"
      unfolding s'(1) gu(2) using D(2) low_le_nb [OF D(2)] vals by (auto simp: values_ok_def P' pc)
    show "prod_ok (producers ?s p) ?g own (cq_blocks s) p (cq_ppc ?s p)" using gu(1) by (simp only: s'(1))
  qed (simp_all only: s' P' simp_thms le_refl order_refl)
  then show ?thesis by simp
qed

lemma current_okD:
  assumes "index_ok P g N" "blockIndex P = Some h"
  shows "Suc h = length (ip_headers P)" "h < length (ip_headers P)" "g_hi g h = g_keyed g" "distinct (bih_index (ip_headers P ! h))"
    "nextBlockIndexCapacity P = 2 * bih_capacity (ip_headers P ! h)" "g_keyed g \<le> g_low g + unat (bih_capacity (ip_headers P ! h))"
    "g_low g \<le> g_keyed g" "unat (bih_capacity (ip_headers P ! h)) \<le> 2 * g_keyed g + 32" "N \<le> g_keyed g"
    "bih_tail (ip_headers P ! h) = ring (g_off g h - 1) (bih_capacity (ip_headers P ! h)) N"
    "\<And>b. g_keyed g \<le> b \<Longrightarrow> b < g_low g + unat (bih_capacity (ip_headers P ! h)) \<Longrightarrow>
       bie_key (ip_entries P ! (bih_index (ip_headers P ! h) ! unat (slot P g h b))) = INVALID_BLOCK_BASE"
    "\<And>h'. h' < h \<Longrightarrow> 0 < g_hi g h' \<and> bih_tail (ip_headers P ! h') = ring (g_off g h' - 1) (bih_capacity (ip_headers P ! h')) (g_hi g h')"
  using assms by (auto simp: index_ok_def current_ok_def Let_def)

text \<open>Two blocks less than one turn apart have different entries.\<close>

lemma slot_apart:
  assumes ix: "index_ok P g N" and h: "blockIndex P = Some h"
    and b: "b < b' + unat (bih_capacity (ip_headers P ! h))" "b' < b + unat (bih_capacity (ip_headers P ! h))" "b \<noteq> b'"
  shows "bih_index (ip_headers P ! h) ! unat (slot P g h b) \<noteq> bih_index (ip_headers P ! h) ! unat (slot P g h b')"
proof -
  note c = current_okD [OF ix h]
  obtain j where j: "j < 62" "bih_capacity (ip_headers P ! h) = 2 ^ j" "\<And>b. unat (slot P g h b) < length (bih_index (ip_headers P ! h))"
    by (rule header_okD [OF ix c(2)]) blast
  have "slot P g h b \<noteq> slot P g h b'"
    using ring_inj [of j "g_off g h" b b'] b j(1,2) by (auto simp: slot_def unat_2p)
  then show ?thesis using c(4) j(3) by (simp add: nth_eq_iff_index_eq word_unat_eq_iff)
qed

definition keyed_ghost :: "nat \<Rightarrow> nat \<Rightarrow> nat \<Rightarrow> nat \<Rightarrow> ghost \<Rightarrow> ghost" where
  "keyed_ghost h cap m e g = g\<lparr>g_ent := (g_ent g)(m := e), g_keyed := Suc m,
     g_low := if m = g_low g + cap then Suc (g_low g) else g_low g, g_hi := (g_hi g)(h := Suc m)\<rparr>"

lemma keyed_ghost_core [simp]:
  "g_blk (keyed_ghost h cap m e g) = g_blk g" "g_fin (keyed_ghost h cap m e g) = g_fin g" "g_unlinked (keyed_ghost h cap m e g) = g_unlinked g"
  "g_freed (keyed_ghost h cap m e g) = g_freed g" "g_held (keyed_ghost h cap m e g) = g_held g" "g_rev (keyed_ghost h cap m e g) = g_rev g"
  "g_off (keyed_ghost h cap m e g) = g_off g" "g_keyed (keyed_ghost h cap m e g) = Suc m" "slot P (keyed_ghost h cap m e g) = slot P g"
  "g_ent (keyed_ghost h cap m e g) = (g_ent g)(m := e)" "g_hi (keyed_ghost h cap m e g) = (g_hi g)(h := Suc m)"
  "g_low (keyed_ghost h cap m e g) = (if m = g_low g + cap then Suc (g_low g) else g_low g)"
  by (simp_all add: keyed_ghost_def slot_def fun_eq_iff)

lemma index_ok_key:
  assumes ix: "index_ok P g m" and h: "blockIndex P = Some h" and m: "m = g_keyed g" "m < 2 ^ 58" and k: "k = of_nat (32 * m)"
  defines "H \<equiv> ip_headers P ! h"
  defines "e \<equiv> bih_index H ! unat (slot P g h m)"
  shows "index_ok (set_entry e (\<lambda>E. E\<lparr>bie_key := k\<rparr>) P) (keyed_ghost h (unat (bih_capacity H)) m e g) m"
    (is "index_ok ?P ?g m")
proof -
  let ?cap = "unat (bih_capacity H)"
  note c = current_okD [OF ix h, folded H_def]
  obtain j where j: "j < 62" "bih_capacity H = 2 ^ j" "length (bih_index H) = 2 ^ j"
    "\<And>e. e \<in> set (bih_index H) \<Longrightarrow> e < length (ip_entries P)" "\<And>b. unat (slot P g h b) < length (bih_index H)"
    unfolding H_def by (rule header_okD [OF ix c(2)]) blast
  have e: "e < length (ip_entries P)" unfolding e_def using j(4,5) by simp
  have cap: "0 < ?cap" using j(1,2) by (simp add: unat_2p)
  have low: "g_low g \<le> g_low ?g" "g_low ?g \<le> Suc m" "Suc m \<le> g_low ?g + ?cap" using c(6,7) m(1) by simp_all
  have apart: "bih_index H ! unat (slot P g h b) \<noteq> e" if "b \<noteq> m" "b < m + ?cap" "m < b + ?cap" for b
    unfolding e_def H_def using slot_apart [OF ix h] that by (simp add: H_def)
  have old: "bih_index H ! unat (slot P g h b) = g_ent g b \<and> g_ent g b \<noteq> e" if "g_low ?g \<le> b" "b < m" for b
    using header_entry [OF ix c(2), of b] apart [of b] that low c(3) m(1) by (simp add: H_def)
  have keys: "bie_key (ip_entries ?P ! x) = (if x = e then k else bie_key (ip_entries P ! x))" for x using e by (simp add: set_entry_nth)
  have sl: "slot ?P g = slot P g" by (intro ext slot_cong) simp
  have cur: "current_ok ?P ?g m h" unfolding current_ok_def Let_def
  proof (intro conjI allI impI)
    fix b assume b: "g_keyed ?g \<le> b \<and> b < g_low ?g + unat (bih_capacity (ip_headers ?P ! h))"
    then have lt: "b < g_low g + ?cap" "m < b" using c(6) m(1) by (auto simp: H_def split: if_splits)
    then have ne: "bih_index H ! unat (slot P g h b) \<noteq> e" using apart c(7) m(1) by simp
    have "bie_key (ip_entries P ! (bih_index H ! unat (slot P g h b))) = INVALID_BLOCK_BASE" using lt m(1) by (intro c(11)) simp_all
    then show "bie_key (ip_entries ?P ! (bih_index (ip_headers ?P ! h) ! unat (slot ?P ?g h b))) = INVALID_BLOCK_BASE"
      using ne by (simp add: keys sl flip: H_def)
  qed (use c low m in \<open>simp_all add: H_def\<close>)
  have hd: "header_ok ?P ?g x" if x: "x < length (ip_headers P)" for x
  proof -
    have ok: "header_ok P g x" using ix x by (simp add: index_ok_def)
    have "bih_index (ip_headers P ! x) ! unat (slot P g x b) = g_ent ?g b" if b: "g_low ?g \<le> b" "b < g_hi ?g x" for b
    proof (cases "b = m")
      case True
      then have "x = h" using b(2) ok m(1) by (cases "x = h") (auto simp: header_ok_def Let_def)
      then show ?thesis using True by (simp add: e_def H_def)
    next
      case False
      then have "b < g_hi g x" using b(2) c(3) m(1) by (cases "x = h") auto
      then show ?thesis using ok b(1) low(1) False by (simp add: header_ok_def Let_def)
    qed
    then show ?thesis using ok m(1) by (auto simp: header_ok_def Let_def sl)
  qed
  have "g_ent ?g b < length (ip_entries P) \<and> bie_key (ip_entries ?P ! g_ent ?g b) = of_nat (32 * b)" if "g_low ?g \<le> b" "b < Suc m" for b
  proof (cases "b = m")
    case False
    then show ?thesis using old [of b] that ix low(1) m(1) by (simp add: index_ok_def keys)
  qed (use keys [of e] e k in simp)
  then show ?thesis using cur hd c(12) h m(2) by (simp add: index_ok_def)
qed

lemma store_key_inv:
  assumes inv: "queue_inv s items own g" and pc: "cq_ppc s p = StoreKey r e t"
    and t: "tickets_ok (enqueue_step ok n p (cq_ppc s p) s)"
  shows "\<exists>g. queue_inv (enqueue_step ok n p (cq_ppc s p) s) items own g"
proof -
  let ?P = "producers s p" let ?g = "g p" let ?m = "nb ?P + length (g_held ?g)" let ?s = "enqueue_step ok n p (cq_ppc s p) s"
  note D = producer_okD [OF queue_invD(1) [OF inv, of p]]
  obtain h where al: "allocating ?P ?g (cq_blocks s) r" and h: "blockIndex ?P = Some h" and te: "t = slot ?P ?g h ?m" "e = bih_index (ip_headers ?P ! h) ! unat t"
    and reuse: "?m = g_keyed ?g \<Longrightarrow> g_keyed ?g < g_low ?g + unat (bih_capacity (ip_headers ?P ! h)) \<or> g_low ?g \<in> g_unlinked ?g"
    using D(7) by (auto simp: pc)
  have rev: "g_rev ?g = 0" and cur: "current_index ?P r = of_nat (32 * ?m)" using al by (simp_all add: allocating_def)
  have ix: "index_ok ?P ?g ?m" using D(1) by (simp add: pc rev)
  have v: "values_ok ?P ?g False" using D(2) by (simp add: pc)
  note c = current_okD [OF ix h]
  define P' where "P' = set_entry e (\<lambda>E. E\<lparr>bie_key := of_nat (32 * ?m)\<rparr>) ?P"
  have P': "tailIndex P' = tailIndex ?P" "tailBlock P' = tailBlock ?P" "blockIndex P' = blockIndex ?P" "ip_headers P' = ip_headers ?P" by (simp_all add: P'_def)
  have s': "?s = goto_p p (StoreIndexTail r e t) (with_producer p (\<lambda>_. P') s)" using cur by (simp add: pc P'_def goto_simps)
  show ?thesis
  proof (cases "?m < g_keyed ?g")
    case True
    have low: "g_low ?g \<le> ?m" using low_le_nb [OF v] by simp
    have e: "e = g_ent ?g ?m" using header_entry [OF ix c(2) low] c(3) True te by simp
    then have "bie_key (ip_entries ?P ! e) = of_nat (32 * ?m)" using ix low True by (simp add: index_ok_def)
    then have "(\<lambda>E. E\<lparr>bie_key := of_nat (32 * ?m)\<rparr>) (ip_entries ?P ! e) = ip_entries ?P ! e" by simp
    then have "P' = ?P" by (simp only: P'_def set_entry_def list_update_id) simp
    then have "queue_inv ?s items own g" using t unfolding s'
      by (intro goto_step [OF inv, where p = p]) (use al True e h te rev in \<open>simp_all add: own_step_def same_counters_def pc goto_simps inserting_def\<close>)
    then show ?thesis by blast
  next
    case False
    then have m: "?m = g_keyed ?g" using c(9) by simp
    have bound: "?m < 2 ^ 58" by (rule allocating_bound [OF al fresh_of [OF inv]]) (use queue_inv_near [OF inv, of p] pc in simp_all)
    define g' where "g' = keyed_ghost h (unat (bih_capacity (ip_headers ?P ! h))) ?m e ?g"
    have ix': "index_ok P' g' ?m" using index_ok_key [OF ix h m bound refl] te by (simp add: P'_def g'_def)
    have "queue_inv ?s items own (g(p := g'))"
    proof (rule index_step [OF inv enqueue_step_own t])
      show "index_ok (producers ?s p) g' (nb ?P + inserted (cq_ppc ?s p) g')" using ix' rev unfolding s' by (simp add: goto_simps g'_def)
      have "bie_value (ip_entries P' ! x) = bie_value (ip_entries ?P ! x)" for x by (cases "x = e"; cases "e < length (ip_entries ?P)") (simp_all add: P'_def set_entry_def list_update_beyond)
      moreover have "g_low g' \<in> {g_low ?g, Suc (g_low ?g)}" "g_low ?g \<le> g_low g'" by (simp_all add: g'_def)
      moreover have "b \<in> g_unlinked ?g" if "b < g_low g'" for b
        using that v reuse [OF m] c(6) m by (cases "b < g_low ?g") (auto simp: values_ok_def g'_def less_Suc_eq split: if_splits)
      ultimately show "values_ok (producers ?s p) g' (dirty (cq_ppc ?s p))"
        using v m unfolding s' by (auto simp: goto_simps values_ok_def P' g'_def)
      show "prod_ok (producers ?s p) g' own (cq_blocks s) p (cq_ppc ?s p)"
        using allocating_core [OF al, of P' g'] te h unfolding s' by (simp add: goto_simps inserting_def P' g'_def slot_cong [OF P'(4)])
    qed (use c(3) m in \<open>auto simp: s' goto_simps P' g'_def\<close>)
    then show ?thesis by blast
  qed
qed

definition grown_ghost :: "nat \<Rightarrow> ghost \<Rightarrow> ghost" where
  "grown_ghost h g = g\<lparr>g_hi := (g_hi g)(Suc h := g_keyed g), g_off := (g_off g)(Suc h := - of_nat (g_low g))\<rparr>"

lemma grown_ghost_core [simp]:
  "g_blk (grown_ghost h g) = g_blk g" "g_fin (grown_ghost h g) = g_fin g" "g_unlinked (grown_ghost h g) = g_unlinked g"
  "g_freed (grown_ghost h g) = g_freed g" "g_held (grown_ghost h g) = g_held g" "g_rev (grown_ghost h g) = g_rev g"
  "g_off (grown_ghost h g) = (g_off g)(Suc h := - of_nat (g_low g))" "g_keyed (grown_ghost h g) = g_keyed g"
  "g_ent (grown_ghost h g) = g_ent g" "g_hi (grown_ghost h g) = (g_hi g)(Suc h := g_keyed g)" "g_low (grown_ghost h g) = g_low g"
  by (simp_all add: grown_ghost_def)

text \<open>In a new ring the block \<open>low\<close> is at the start.\<close>

lemma ring_fresh: "j < 64 \<Longrightarrow> low \<le> b \<Longrightarrow> b < low + 2 ^ j \<Longrightarrow> unat (ring (- of_nat low) (2 ^ j) b) = b - low"
proof -
  assume a: "j < 64" "low \<le> b" "b < low + 2 ^ j"
  have "(2 :: nat) ^ j < 2 ^ 64" using a(1) by (intro power_strict_increasing) simp_all
  then have lt: "b - low < 2 ^ 64" using a by simp
  have "- of_nat low + of_nat b = (of_nat (b - low) :: u64)" using a(2) by (simp add: of_nat_diff)
  then show ?thesis using a lt by (simp only: ring_def and_mask_unat unat_small) simp
qed

lemma mask_half: "((2 :: u64) ^ j - 1) AND (2 * 2 ^ j - 1) = 2 ^ j - 1"
proof -
  have "(mask j :: u64) AND mask (Suc j) = mask j" by (simp add: bit_eq_iff bit_simps) auto
  then show ?thesis by (simp add: mask_eq_exp_minus_1)
qed

lemma new_block_index_grow:
  assumes ix: "index_ok P g m" and h: "blockIndex P = Some h" and m: "m = g_keyed g" "g_keyed g = g_low g + unat (bih_capacity (ip_headers P ! h))"
    and P': "P' = new_block_index junk P"
  defines "cap \<equiv> unat (bih_capacity (ip_headers P ! h))"
  defines "H' \<equiv> \<lparr>bih_capacity = 2 * bih_capacity (ip_headers P ! h), bih_tail = bih_capacity (ip_headers P ! h) - 1,
    bih_index = map (\<lambda>i. g_ent g (g_low g + i)) [0 ..< cap] @ [length (ip_entries P) ..< length (ip_entries P) + cap], bih_prev = Some h\<rparr>"
  shows "ip_headers P' = ip_headers P @ [H']" "blockIndex P' = Some (Suc h)" "nextBlockIndexCapacity P' = 2 * (2 * bih_capacity (ip_headers P ! h))"
    "ip_entries P' = ip_entries P @ replicate cap \<lparr>bie_key = INVALID_BLOCK_BASE, bie_value = junk\<rparr>"
    "tailIndex P' = tailIndex P" "tailBlock P' = tailBlock P" "headIndex P' = headIndex P"
proof -
  note c = current_okD [OF ix h]
  obtain j where j: "j < 62" "bih_capacity (ip_headers P ! h) = 2 ^ j" by (rule header_okD [OF ix c(2)]) blast
  have cap: "cap = 2 ^ j" using j by (simp add: cap_def unat_2p)
  have old: "bih_index (ip_headers P ! h) ! unat ((bih_tail (ip_headers P ! h) + 1 + of_nat i) AND (bih_capacity (ip_headers P ! h) - 1)) = g_ent g (g_low g + i)"
    if "i < cap" for i
  proof -
    have "(bih_tail (ip_headers P ! h) + 1 + of_nat i) AND (bih_capacity (ip_headers P ! h) - 1) = ring (g_off g h - 1) (2 ^ j) (m + (1 + i))"
      using ring_Suc [of j "g_off g h - 1" m "1 + i"] j(1) by (simp add: c(10) j(2) add.assoc)
    also have "\<dots> = ring (g_off g h) (2 ^ j) (g_low g + i + 2 ^ j)"
      using m(2) unfolding m(1) by (simp add: ring_def cap [unfolded cap_def] j(2) algebra_simps unat_2p [OF less_trans [OF j(1)]])
    also have "\<dots> = slot P g h (g_low g + i)" using ring_wrap [of j "g_off g h" "g_low g + i"] j(1) by (simp add: slot_def j(2))
    finally show ?thesis using header_entry [OF ix c(2), of "g_low g + i"] that c(3) m(2) by (simp add: cap_def)
  qed
  note mask_half [of j]
  moreover have "map (\<lambda>i. bih_index (ip_headers P ! h) ! unat ((bih_tail (ip_headers P ! h) + 1 + of_nat i) AND (bih_capacity (ip_headers P ! h) - 1))) [0 ..< cap] =
      map (\<lambda>i. g_ent g (g_low g + i)) [0 ..< cap]" using old by (intro map_cong) simp_all
  ultimately show "ip_headers P' = ip_headers P @ [H']"
    unfolding P' new_block_index_def Let_def h by (simp add: H'_def c(5) j(2) flip: cap_def [unfolded j(2)])
  show "blockIndex P' = Some (Suc h)" "nextBlockIndexCapacity P' = 2 * (2 * bih_capacity (ip_headers P ! h))"
    "ip_entries P' = ip_entries P @ replicate cap \<lparr>bie_key = INVALID_BLOCK_BASE, bie_value = junk\<rparr>"
    "tailIndex P' = tailIndex P" "tailBlock P' = tailBlock P" "headIndex P' = headIndex P"
    by (simp_all add: P' new_block_index_def Let_def h c(1) [symmetric] c(5) cap_def push_bit_eq_mult)
qed

lemma index_ok_grow:
  assumes ix: "index_ok P g m" and h: "blockIndex P = Some h" and m: "m = g_keyed g" "g_keyed g = g_low g + unat (bih_capacity (ip_headers P ! h))"
    and P': "P' = new_block_index junk P"
  shows "index_ok P' (grown_ghost h g) m" "0 < unat (bih_capacity (ip_headers P ! h))"
    "unat (bih_capacity (ip_headers P' ! Suc h)) = 2 * unat (bih_capacity (ip_headers P ! h))"
proof -
  let ?g = "grown_ghost h g"
  note c = current_okD [OF ix h]
  obtain j where j: "5 \<le> j" "j < 62" "bih_capacity (ip_headers P ! h) = 2 ^ j" by (rule header_okD [OF ix c(2)]) blast
  define cap :: nat where "cap = 2 ^ j"
  have ucap: "unat (bih_capacity (ip_headers P ! h)) = cap" using j by (simp add: cap_def unat_2p)
  note N = new_block_index_grow [OF ix h m P', unfolded ucap, unfolded j(3)]
  define H' where "H' = \<lparr>bih_capacity = 2 * 2 ^ j :: u64, bih_tail = 2 ^ j - 1,
    bih_index = map (\<lambda>i. g_ent g (g_low g + i)) [0 ..< cap] @ [length (ip_entries P) ..< length (ip_entries P) + cap], bih_prev = Some h\<rparr>"
  note hs = N(1) [folded H'_def]
  have nthn: "ip_headers P' ! Suc h = H'" using hs c(1) by (simp add: nth_append)
  have ntho: "ip_headers P' ! x = ip_headers P ! x" if "x \<le> h" for x using that hs c(2) by (simp add: nth_append)
  have small: "cap \<le> 2 ^ 58" using ix m ucap by (simp add: index_ok_def)
  then have j58: "j \<le> 58" unfolding cap_def by (rule power_le_imp_le_exp [rotated]) simp
  have cap2: "unat (2 * 2 ^ j :: u64) = 2 * cap" using unat_2p [of "Suc j"] j58 by (simp add: cap_def)
  have len: "length (bih_index H') = 2 * cap" by (simp add: H'_def)
  have sln: "unat (slot P' ?g (Suc h) b) = b - g_low g" if "g_low g \<le> b" "b < g_low g + 2 * cap" for b
    using ring_fresh [of "Suc j" "g_low g" b] that j58 by (simp add: slot_def nthn) (simp add: H'_def cap_def)
  have slo: "slot P' ?g x = slot P g x" if "x \<le> h" for x using that by (simp add: slot_def ntho fun_eq_iff)
  have ents: "ip_entries P' ! e = (if e < length (ip_entries P) then ip_entries P ! e else \<lparr>bie_key = INVALID_BLOCK_BASE, bie_value = junk\<rparr>)"
    if "e < length (ip_entries P) + cap" for e using that by (simp add: N(4) nth_append)
  have keyed: "g_ent g b < length (ip_entries P)" "bie_key (ip_entries P ! g_ent g b) = of_nat (32 * b)" if "g_low g \<le> b" "b < g_keyed g" for b
    using ix that by (simp_all add: index_ok_def)
  have entl: "g_ent g (g_low g + i) < length (ip_entries P)" if "i < cap" for i using keyed(1) [of "g_low g + i"] that m(2) ucap by simp
  have dist: "distinct (bih_index H')"
  proof -
    have "inj_on (\<lambda>i. g_ent g (g_low g + i)) {0 ..< cap}"
    proof (rule inj_onI)
      fix x y assume "x \<in> {0 ..< cap}" "y \<in> {0 ..< cap}" "g_ent g (g_low g + x) = g_ent g (g_low g + y)"
      then show "x = y" using ent_inj [OF ix, of "g_low g + x" "g_low g + y"] m(2) ucap by simp
    qed
    then show ?thesis using entl by (auto simp: H'_def distinct_map) (metis not_le)
  qed
  have cur: "current_ok P' ?g m (Suc h)" unfolding current_ok_def Let_def nthn
  proof (intro conjI allI impI)
    show "bih_tail H' = ring (g_off ?g (Suc h) - 1) (bih_capacity H') m"
    proof -
      have e: "- of_nat (g_low g) - 1 + of_nat m = (2 ^ j - 1 :: u64)" using m ucap by (simp add: cap_def)
      have "ring (- of_nat (g_low g) - 1) (2 * 2 ^ j) m = 2 ^ j - 1" unfolding ring_def e by (rule mask_half)
      then show ?thesis by (simp add: H'_def)
    qed
    fix b assume b: "g_keyed ?g \<le> b \<and> b < g_low ?g + unat (bih_capacity H')"
    then have "unat (slot P' ?g (Suc h) b) = b - g_low g" "cap \<le> b - g_low g" "b - g_low g < 2 * cap" using sln m(2) ucap cap2 by (auto simp: H'_def)
    then obtain i where i: "b - g_low g = cap + i" "i < cap" "unat (slot P' ?g (Suc h) b) = cap + i" by (metis add_less_cancel_left le_Suc_ex mult_2)
    then have "bih_index H' ! unat (slot P' ?g (Suc h) b) = length (ip_entries P) + i" by (simp add: H'_def nth_append)
    then show "bie_key (ip_entries P' ! (bih_index H' ! unat (slot P' ?g (Suc h) b))) = INVALID_BLOCK_BASE"
      using ents i(2) by simp
  qed (use hs c m dist N(3) cap2 ucap in \<open>simp_all add: H'_def\<close>)
  have "header_ok P' ?g x" if "x < length (ip_headers P')" for x
  proof (cases "x \<le> h")
    case True
    then have "header_ok P g x" using ix c(2) by (simp add: index_ok_def)
    then show ?thesis using True N(4) by (auto simp: header_ok_def Let_def ntho slo)
  next
    case False
    then have x: "x = Suc h" using that hs c(1) by simp
    have "bih_index H' ! unat (slot P' ?g (Suc h) b) = g_ent g b" if "g_low g \<le> b" "b < g_keyed g" for b
      using sln [of b] that m(2) ucap less_diff_conv2 [of "g_low g" b cap] by (simp add: H'_def nth_append add.commute)
    moreover have "\<forall>e \<in> set (bih_index H'). e < length (ip_entries P')" using entl by (auto simp: H'_def N(4) intro: trans_less_add1)
    moreover have "bih_capacity H' = 2 ^ Suc j" "length (bih_index H') = 2 ^ Suc j" using len by (simp_all add: H'_def cap_def)
    ultimately show ?thesis using j58 j(1) unfolding header_ok_def Let_def x nthn by (intro conjI exI [of _ "Suc j"]) simp_all
  qed
  moreover have "g_ent g b < length (ip_entries P') \<and> bie_key (ip_entries P' ! g_ent g b) = of_nat (32 * b)" if "g_low g \<le> b" "b < g_keyed g" for b
    using keyed [OF that] by (simp add: N(4) nth_append)
  moreover have "0 < g_hi ?g x \<and> bih_tail (ip_headers P' ! x) = ring (g_off ?g x - 1) (bih_capacity (ip_headers P' ! x)) (g_hi ?g x)" if "x < Suc h" for x
    using c(3,10,12) m that ucap by (cases "x = h") (auto simp: ntho cap_def)
  ultimately show "index_ok P' (grown_ghost h g) m" using cur ix by (simp add: index_ok_def N(2))
  show "0 < unat (bih_capacity (ip_headers P ! h))" unfolding ucap by (simp add: cap_def)
  show "unat (bih_capacity (ip_headers P' ! Suc h)) = 2 * unat (bih_capacity (ip_headers P ! h))" unfolding ucap nthn using cap2 by (simp add: H'_def)
qed

lemma new_index_inv:
  assumes inv: "queue_inv s items own g" and pc: "cq_ppc s p = NewIndex r"
    and t: "tickets_ok (enqueue_step ok n p (cq_ppc s p) s)"
  shows "\<exists>g. queue_inv (enqueue_step ok n p (cq_ppc s p) s) items own g"
proof -
  let ?P = "producers s p" let ?g = "g p" let ?m = "nb ?P + length (g_held ?g)" let ?s = "enqueue_step ok n p (cq_ppc s p) s"
  note D = producer_okD [OF queue_invD(1) [OF inv, of p]]
  obtain h where al: "allocating ?P ?g (cq_blocks s) r" and h: "blockIndex ?P = Some h" and m: "?m = g_keyed ?g"
    "g_keyed ?g = g_low ?g + unat (bih_capacity (ip_headers ?P ! h))" using D(7) by (auto simp: pc)
  have rev: "g_rev ?g = 0" using al by (simp add: allocating_def)
  show ?thesis
  proof (cases ok)
    case False
    then have e: "?s = give_up p r s" by (simp add: pc insert_in_new_index_def)
    have "queue_inv ?s items own g" using t al rev unfolding e by (intro give_up_step [OF inv]) (simp_all add: pc)
    then show ?thesis by blast
  next
    case True
    have ix: "index_ok ?P ?g ?m" using D(1) by (simp add: pc rev)
    define P' where "P' = new_block_index (Some n) ?P"
    let ?g' = "grown_ghost h ?g" let ?h = "Suc h" let ?H = "ip_headers P' ! Suc h"
    note N = new_block_index_grow [OF ix h m P'_def]
    note G = index_ok_grow [OF ix h m P'_def]
    note ix' = G(1)
    note c = current_okD [OF ix' N(2)] current_okD(1,2) [OF ix h]
    let ?t = "slot P' ?g' ?h ?m" let ?e = "bih_index ?H ! unat ?t"
    have less: "g_keyed ?g < g_low ?g + unat (bih_capacity ?H)" using G(2,3) m(2) by simp
    have "bie_key (ip_entries P' ! ?e) = INVALID_BLOCK_BASE" using c(11) [of ?m] less m(1) by simp
    then have s': "?s = goto_p p (StoreKey r ?e ?t) (with_producer p (\<lambda>_. P') s)"
      using True next_slot_ok [OF ix' N(2)] by (simp add: pc insert_in_new_index_def Let_def flip: P'_def)
    have "queue_inv ?s items own (g(p := ?g'))"
    proof (rule index_step [OF inv enqueue_step_own t])
      show "index_ok (producers ?s p) ?g' (nb ?P + inserted (cq_ppc ?s p) ?g')" using ix' rev unfolding s' by (simp add: goto_simps)
      have "ip_entries P' ! g_ent ?g b = ip_entries ?P ! g_ent ?g b" if "g_low ?g \<le> b" "b < g_keyed ?g" for b
        using ent_range [OF ix that] by (simp add: N(4) nth_append)
      then show "values_ok (producers ?s p) ?g' (dirty (cq_ppc ?s p))"
        using D(2) low_le_nb [OF D(2)] unfolding s' by (auto simp: goto_simps values_ok_def N(5) pc)
      show "prod_ok (producers ?s p) ?g' own (cq_blocks s) p (cq_ppc ?s p)"
        using allocating_core [OF al, of P' ?g'] less N(2,5,6) unfolding s' by (simp add: goto_simps)
      show "bih_capacity (ip_headers (producers ?s p) ! x) = bih_capacity (ip_headers ?P ! x) \<and> g_off ?g' x = g_off ?g x \<and> g_hi ?g x \<le> g_hi ?g' x"
        if "x < length (ip_headers ?P)" for x using that c(13) unfolding s' by (simp add: goto_simps N(1) nth_append)
    qed (simp_all add: s' goto_simps N)
    then show ?thesis by blast
  qed
qed

end
