(* ===== verification/ConcurrentQueue_Blocks.thy ===== *)
theory ConcurrentQueue_Blocks
  imports ConcurrentQueue_Index
begin

unbundle bit_operations_syntax

text \<open>
  Steps of a producer on its blocks: a new block enters the index and the chain of a batch, and
  elements are stored in slots that no consumer sees yet.
\<close>

text \<open>Steps that only change links between blocks.\<close>

definition relinked :: "(nat \<Rightarrow> 'a Block option) \<Rightarrow> (nat \<Rightarrow> 'a Block option) \<Rightarrow> bool" where
  "relinked M M' \<longleftrightarrow> (\<forall>a. (M' a = None \<longleftrightarrow> M a = None) \<and> counter M' a = counter M a \<and> (\<forall>i. element M' a i = element M a i))"

lemma relinkedD:
  assumes "relinked M M'"
  shows "M' a = None \<longleftrightarrow> M a = None" "counter M' a = counter M a" "element M' a i = element M a i"
  using assms by (simp_all add: relinked_def)

definition linked :: "nat option \<Rightarrow> nat \<Rightarrow> (nat \<Rightarrow> 'a Block option) \<Rightarrow> nat \<Rightarrow> 'a Block option" where
  "linked l a M = (case l of None \<Rightarrow> M | Some x \<Rightarrow> M(x := map_option (\<lambda>B. B\<lparr>blk_next := Some a\<rparr>) (M x)))"

lemma linked_relinked: "relinked M (linked l a M)"
  by (cases l) (auto simp: relinked_def linked_def counter_def element_def split: option.split)

lemma linked_next: "next_of (linked l a M) x = (if l = Some x \<and> M x \<noteq> None then Some a else next_of M x)"
  by (cases l) (auto simp: linked_def next_of_def)

lemma linked_other: "l \<noteq> Some x \<Longrightarrow> linked l a M x = M x"
  by (cases l) (auto simp: linked_def)

lemma cq_blocks_link_block: "cq_blocks (link_block l a s) = linked l a (cq_blocks s)"
  by (cases l) (simp_all add: link_block_def linked_def goto_simps)

lemma hold_step:
  assumes inv: "queue_inv s items own g" and own: "own_step p s s'" and t: "tickets_ok s'"
    and s: "freeList s' = freeList s" "initialBlockPoolIndex s' = initialBlockPoolIndex s"
    and P: "tailIndex (producers s' p) = tailIndex (producers s p)" "blockIndex (producers s' p) = blockIndex (producers s p)"
      "nextBlockIndexCapacity (producers s' p) = nextBlockIndexCapacity (producers s p)" "ip_headers (producers s' p) = ip_headers (producers s p)"
      "ip_entries (producers s' p) = ip_entries (set_entry e (\<lambda>E. E\<lparr>bie_value := Some a\<rparr>) (producers s p))"
    and pc: "inserting (producers s p) (g p) e" "own a = Held p" "a \<notin> set (g_held (g p))" "cq_blocks s a \<noteq> None" "counter (cq_blocks s) a = 0"
      "g_rev (g p) = 0" "inserted (cq_ppc s p) (g p) = length (g_held (g p)) + 1"
    and M: "relinked (cq_blocks s) (cq_blocks s')" "\<And>x. cq_blocks s' x \<noteq> cq_blocks s x \<Longrightarrow> own x = Held p \<or> (\<exists>b. own x = Active p b)"
    and g': "g' = (g p)\<lparr>g_held := g_held (g p) @ [a]\<rparr>"
    and new: "prod_ok (producers s' p) g' own (cq_blocks s') p (cq_ppc s' p)" "dirty (cq_ppc s' p) = False"
      "inserted (cq_ppc s' p) g' = length (g_held g')"
  shows "queue_inv s' items own (g(p := g'))"
proof -
  let ?P = "producers s p" let ?P' = "producers s' p" let ?g = "g p" let ?m = "nb ?P + length (g_held ?g)"
  note D = producer_okD [OF queue_invD(1) [OF inv, of p]]
  note near = queue_inv_near(1) [OF inv, of p]
  note o = own_step_others [OF own]
  have head: "headIndex ?P' = headIndex ?P" using o(5) [of p] by (simp add: same_counters_def)
  have m: "?m < g_keyed ?g" "e = g_ent ?g ?m" using pc(1) by (auto simp: inserting_def)
  have low: "g_low ?g \<le> ?m" using low_le_nb [OF D(2)] by simp
  have vals: "bie_value (ip_entries ?P' ! g_ent ?g x) = (if x = ?m then Some a else bie_value (ip_entries ?P ! g_ent ?g x))"
    if "g_low ?g \<le> x" "x < g_keyed ?g" for x
    using entry_value [OF D(1) low m(1) that] by (simp add: P(5) m(2))
  have v: "values_ok ?P ?g True" using D(2) by (auto simp: values_ok_def)
  have "producer_ok s' items own g' p"
  proof (rule producer_okI, unfold new(2,3) P(1))
    show "index_ok ?P' g' (nb ?P + length (g_held g'))"
    proof -
      have "length (g_held g') = length (g_held ?g) + 1" by (simp add: g')
      then have "index_ok (set_entry e (\<lambda>E. E\<lparr>bie_value := Some a\<rparr>) ?P) ?g (nb ?P + length (g_held g'))"
        using index_ok_value [OF D(1), of e "Some a"] pc(7) by simp
      then show ?thesis by (rule index_ok_frame) (simp_all add: P g')
    qed
    show "values_ok ?P' g' False" unfolding values_ok_def P(1)
    proof (intro conjI allI impI)
      fix j assume j: "nb ?P + j < g_keyed g' \<and> \<not> (False \<and> j = length (g_held g'))"
      then have "bie_value (ip_entries ?P' ! g_ent ?g (nb ?P + j)) =
          (if j = length (g_held ?g) then Some a else bie_value (ip_entries ?P ! g_ent ?g (nb ?P + j)))"
        using low_le_nb [OF D(2)] by (subst vals) (simp_all add: g')
      then show "bie_value (ip_entries ?P' ! g_ent g' (nb ?P + j)) =
          (if g_rev g' \<le> j \<and> j < length (g_held g') then Some (g_held g' ! j) else None)"
        using v j pc(6) by (auto simp: values_ok_def g' nth_append less_Suc_eq)
    next
      fix b assume b: "g_low g' \<le> b \<and> b < nb ?P"
      then show "bie_value (ip_entries ?P' ! g_ent g' b) = (if b \<in> g_unlinked g' then None else Some (g_blk g' b))"
        using vals [of b] v m(1) by (simp add: g' values_ok_def)
    qed (use v m in \<open>auto simp: values_ok_def g'\<close>)
    show "claims_ok p ?P' g' (cq_cpc s')" unfolding o(1)
      by (rule claims_same [OF D(3)]) (use dq_ok_index [OF _ near head, where g' = g' and g = ?g and p = p] in \<open>simp_all add: head P g'\<close>)
    show "blocks_ok p ?P' g' own (cq_blocks s') (cq_cpc s')" unfolding o(1)
      using D(4) pc(2-4) by (simp add: blocks_ok_def P g' relinkedD [OF M(1)])
    show "held_counters g' (cq_blocks s')" using D(5) pc(5) by (simp add: held_counters_def g' relinkedD [OF M(1)])
    show "contents_ok p ?P' g' (cq_blocks s') (cq_cpc s') (items p)" unfolding o(1)
      using D(6) by (simp add: contents_ok_def g' P head relinkedD [OF M(1)])
  qed (rule new(1))
  moreover have "pool_ok s' own" using queue_invD(2) [OF inv] by (simp add: pool_ok_def s o(4) relinkedD [OF M(1)])
  moreover have "cq_blocks s' x = cq_blocks s x" if "q \<noteq> p" "mine own q x" for q x using M(2) [of x] that by (cases "cq_blocks s' x = cq_blocks s x") (auto simp: mine_def)
  ultimately show ?thesis by (intro queue_inv_producer [OF inv t _ own]) simp_all
qed

text \<open>The chain of the new blocks when one more is linked.\<close>

lemma chain_grows:
  assumes c: "chain_ok g M" and d: "distinct (g_held g)" "a \<notin> set (g_held g)" "next_of M a = None"
    and l: "g_held g \<noteq> [] \<Longrightarrow> l = Some (last (g_held g)) \<and> M (last (g_held g)) \<noteq> None" "l \<noteq> Some a"
      "\<And>x. x \<in> set (g_held g) \<Longrightarrow> l = Some x \<Longrightarrow> x = last (g_held g)"
  shows "chain_ok (g\<lparr>g_held := g_held g @ [a]\<rparr>) (linked l a M)"
  unfolding chain_ok_def
proof (intro allI impI)
  let ?h = "g_held g" let ?g = "g\<lparr>g_held := g_held g @ [a]\<rparr>"
  fix j assume "j < length (g_held ?g)"
  then consider "j = length ?h" | "Suc j = length ?h" | "Suc j < length ?h" by fastforce
  then show "next_of (linked l a M) (g_held ?g ! j) = (if Suc j < length (g_held ?g) then Some (g_held ?g ! Suc j) else None)"
  proof cases
    case 1
    then show ?thesis using d l by (simp add: linked_next)
  next
    case 2
    then have "?h \<noteq> []" by auto
    moreover from this have "?h ! j = last ?h" by (simp add: last_conv_nth flip: 2)
    ultimately show ?thesis using l(1) 2 by (simp add: linked_next nth_append)
  next
    case 3
    then have "?h ! j \<noteq> last ?h" using d(1) by (cases "?h = []") (auto simp: last_conv_nth nth_eq_iff_index_eq)
    then have "l \<noteq> Some (?h ! j)" using l(3) [of "?h ! j"] 3 by (metis Suc_lessD nth_mem)
    then show ?thesis using c 3 by (simp add: linked_next nth_append chain_ok_def)
  qed
qed

lemma store_value_inv:
  assumes inv: "queue_inv s items own g" and pc: "cq_ppc s p = StoreValue r e a"
    and t: "tickets_ok (enqueue_step ok n p (cq_ppc s p) s)"
  shows "\<exists>g. queue_inv (enqueue_step ok n p (cq_ppc s p) s) items own g"
proof -
  let ?P = "producers s p" let ?g = "g p" let ?m = "nb ?P + length (g_held ?g)" let ?s = "enqueue_step ok n p (cq_ppc s p) s"
  let ?t = "unat (tailIndex ?P)"
  note D = producer_okD [OF queue_invD(1) [OF inv, of p]]
  note near = queue_inv_near [OF inv, of p]
  have al: "allocating ?P ?g (cq_blocks s) r" and ins: "inserting ?P ?g e" and a: "own a = Held p" "a \<notin> set (g_held ?g)" "cq_blocks s a \<noteq> None"
    "counter (cq_blocks s) a = 0" "\<And>k. r = Bulk k \<Longrightarrow> next_of (cq_blocks s) a = None" using D(7) by (simp_all add: pc)
  have rev: "g_rev ?g = 0" and goal: "?m < goal ?P r" using al by (simp_all add: allocating_def)
  note tl = tail_block_live [OF D(4,3,2) near(1)]
  have slot0: "slot_of (tailIndex ?P) = 0 \<longleftrightarrow> ?t mod 32 = 0" using slot_base_unat(1) [of "tailIndex ?P"] by (simp add: unat_eq_0 [symmetric])
  define P1 where "P1 = set_entry e (\<lambda>E. E\<lparr>bie_value := Some a\<rparr>) ?P"
  define g' where "g' = ?g\<lparr>g_held := g_held ?g @ [a]\<rparr>"
  have P1: "tailIndex P1 = tailIndex ?P" "tailBlock P1 = tailBlock ?P" "blockIndex P1 = blockIndex ?P" "ip_headers P1 = ip_headers ?P"
    "nextBlockIndexCapacity P1 = nextBlockIndexCapacity ?P" by (simp_all add: P1_def)
  have "queue_inv ?s items own (g(p := g'))"
  proof (cases r)
    case (One x)
    define s1 where "s1 = goto_p p (WriteElement r) (with_producer p (\<lambda>_. P1\<lparr>tailBlock := Some a\<rparr>) s)"
    have s': "?s = s1" unfolding s1_def
      by (simp add: pc One store_value_def Let_def goto_simps P1_def)
    have z: "g_held ?g = []" "?t mod 32 = 0" using al by (simp_all add: allocating_def One)
    then have n: "nb ?P = ?t div 32" by (simp add: nblk_alt)
    have goal1: "goal ?P (One x) = Suc (nb ?P)"
    proof -
      have "Suc ?t mod 32 \<noteq> 0" "Suc ?t div 32 = ?t div 32" using z(2) by (simp_all add: mod_Suc div_Suc)
      then show ?thesis by (simp add: goal_def n nblk_alt [of "Suc ?t"])
    qed
    show ?thesis unfolding s'
    proof (rule hold_step [OF inv enqueue_step_own [of p s ok n "cq_ppc s p", unfolded s'] t [unfolded s']])
      show "prod_ok (producers s1 p) g' own (cq_blocks s1) p (cq_ppc s1 p)"
        using rev z n goal1 unfolding s1_def One by (simp add: goto_simps filling_def g'_def goal_def P1 block_at_def)
      show "relinked (cq_blocks s) (cq_blocks s1)" by (simp add: s1_def goto_simps relinked_def)
    qed (use rev a ins in \<open>simp_all add: s1_def goto_simps pc g'_def P1, simp_all add: P1_def\<close>)
  next
    case (Bulk k)
    have k: "bulk_ok ?P ?g (cq_blocks s) k" "bk_left k = bk_items k" "tailBlock ?P = last_held ?g (bk_startBlock k)"
      "bk_blockBaseDiff k = of_nat (32 * (goal ?P r - nb ?P - length (g_held ?g) - 1))" "bk_currentTailIndex k = of_nat (32 * ?m)"
      using al by (simp_all add: allocating_def Bulk current_index_def)
    have st: "bk_startTailIndex k = tailIndex ?P" "length (bk_items k) < 2 ^ 62" using fresh_of [OF inv, of p r] by (simp_all add: pc Bulk)
    have k1: "bk_firstAllocatedBlock k = first_held ?g" "tail_block_ok ?P ?g (bk_startBlock k)" "chain_ok ?g (cq_blocks s)"
      "?t mod 32 \<noteq> 0 \<Longrightarrow> g_held ?g \<noteq> [] \<Longrightarrow> next_of (cq_blocks s) (g_blk ?g (nb ?P - 1)) = Some (hd (g_held ?g))"
      using k(1) by (simp_all add: bulk_ok_def)
    define l where "l = (if ?t mod 32 \<noteq> 0 \<or> g_held ?g \<noteq> [] then last_held ?g (bk_startBlock k) else None)"
    have held: "own x = Held p" "cq_blocks s x \<noteq> None" if "x \<in> set (g_held ?g)" for x using that D(4) by (auto simp: blocks_ok_def)
    have l: "g_held ?g \<noteq> [] \<Longrightarrow> l = Some (last (g_held ?g)) \<and> cq_blocks s (last (g_held ?g)) \<noteq> None"
      "g_held ?g = [] \<Longrightarrow> ?t mod 32 \<noteq> 0 \<Longrightarrow> l = Some (g_blk ?g (nb ?P - 1)) \<and> cq_blocks s (g_blk ?g (nb ?P - 1)) \<noteq> None"
      "g_held ?g = [] \<Longrightarrow> ?t mod 32 = 0 \<Longrightarrow> l = None"
      using held(2) [of "last (g_held ?g)"] k1(2) tl(2) by (auto simp: l_def last_held_def tail_block_ok_def)
    have lm: "own x = Held p \<and> x \<in> set (g_held ?g) \<or> own x = Active p (nb ?P - 1)" if "l = Some x" for x
      using l that held(1) tl(1) by (cases "g_held ?g = []"; cases "?t mod 32 = 0") auto
    define k' where "k' = k\<lparr>bk_endBlock := Some a, bk_firstAllocatedBlock := if bk_firstAllocatedBlock k = None then Some a else bk_firstAllocatedBlock k\<rparr>"
    define s1 where "s1 = with_producer p (\<lambda>_. P1\<lparr>tailBlock := Some a\<rparr>) (s\<lparr>cq_blocks := linked l a (cq_blocks s)\<rparr>)"
    have guard: "slot_of (bk_startTailIndex k) \<noteq> 0 \<or> bk_firstAllocatedBlock k \<noteq> None \<longleftrightarrow> ?t mod 32 \<noteq> 0 \<or> g_held ?g \<noteq> []"
      by (simp add: st slot0 k1(1) first_held_def)
    have s': "?s = bulk_allocate p k' s1"
    proof (cases "?t mod 32 \<noteq> 0 \<or> g_held ?g \<noteq> []")
      case True
      then obtain x where x: "l = Some x" "cq_blocks s x \<noteq> None" using l by (cases "g_held ?g = []") auto
      then have "tailBlock ?P = Some x" using True by (simp add: l_def k(3))
      then show ?thesis using guard True x
        by (simp add: pc Bulk store_value_def Let_def goto_simps link_block_def linked_def s1_def P1_def k'_def set_entry_def)
    next
      case False
      then show ?thesis using guard l(3) by (simp add: pc Bulk store_value_def Let_def goto_simps linked_def s1_def P1_def k'_def)
    qed
    have ne: "l \<noteq> Some a" using lm [of a] a by auto
    have chain: "chain_ok g' (linked l a (cq_blocks s))" unfolding g'_def
    proof (rule chain_grows [OF k1(3)])
      show "x = last (g_held ?g)" if "x \<in> set (g_held ?g)" "l = Some x" for x using l(1) that by (cases "g_held ?g") auto
    qed (use D(4) a(2,5) Bulk ne l(1) in \<open>auto simp: blocks_ok_def\<close>)
    have "next_of (linked l a (cq_blocks s)) (g_blk ?g (nb ?P - 1)) = Some (hd (g_held g'))" if "?t mod 32 \<noteq> 0"
    proof (cases "g_held ?g = []")
      case True
      then show ?thesis using l(2) that by (simp add: linked_next g'_def)
    next
      case False
      then have "l \<noteq> Some (g_blk ?g (nb ?P - 1))" using l(1) tl(1) [OF that] held(1) [of "last (g_held ?g)"] by auto
      then show ?thesis using k1(4) that False by (simp add: linked_next g'_def)
    qed
    then have bulk: "bulk_ok (producers s1 p) g' (linked l a (cq_blocks s)) k'"
      using k1(1,2) chain by (simp add: bulk_ok_def s1_def goto_simps P1 tail_block_ok_def k'_def g'_def first_held_def last_held_def)
    have gl: "goal (producers s1 p) (Bulk k') = goal ?P r" by (simp add: goal_def s1_def goto_simps P1 Bulk k'_def)
    have ba: "prod_ok (producers (bulk_allocate p k' s1) p) g' own (linked l a (cq_blocks s)) p (cq_ppc (bulk_allocate p k' s1) p)"
      "dirty (cq_ppc (bulk_allocate p k' s1) p) = False" "inserted (cq_ppc (bulk_allocate p k' s1) p) g' = length (g_held g')"
      using bulk_allocate_ok [OF bulk, where s = s1 and p = p, unfolded gl] k(2,4,5) st near(2) rev goal
      by (simp_all add: k'_def g'_def s1_def goto_simps P1 last_held_def algebra_simps)
    have s1: "cq_blocks s1 = linked l a (cq_blocks s)" by (simp add: s1_def goto_simps)
    have core: "tailIndex (producers (bulk_allocate p k' s1) p) = tailIndex P1" 
      by (simp add: bulk_allocate_def bulk_fill_def goto_simps s1_def)
    show ?thesis unfolding s'
    proof (rule hold_step [OF inv enqueue_step_own [of p s ok n "cq_ppc s p", unfolded s'] t [unfolded s']])
      show "own x = Held p \<or> (\<exists>b. own x = Active p b)" if "cq_blocks (bulk_allocate p k' s1) x \<noteq> cq_blocks s x" for x
        using that lm [of x] linked_other [of l x a "cq_blocks s"] by (cases "l = Some x") (auto simp: s1)
    qed (use rev a ins ba linked_relinked [of "cq_blocks s" l a] in \<open>simp_all add: s1 pc g'_def core, simp_all add: s1_def P1_def goto_simps\<close>)
  qed
  then show ?thesis by blast
qed

text \<open>The blocks that a request fills are there, and differ.\<close>

lemma block_live:
  assumes ok: "producer_ok s items own g p" and near: "unat (headIndex (producers s p)) \<le> unat (tailIndex (producers s p))"
    and B: "unat (tailIndex (producers s p)) div 32 \<le> B" "B < nb (producers s p) + length (g_held g)"
  shows "cq_blocks s (block_at (producers s p) g B) \<noteq> None"
    "own (block_at (producers s p) g B) = (if B < nb (producers s p) then Active p B else Held p)"
    "B < nb (producers s p) \<Longrightarrow> B = nb (producers s p) - 1 \<and> unat (tailIndex (producers s p)) mod 32 \<noteq> 0"
proof -
  let ?P = "producers s p"
  note D = producer_okD [OF ok]
  show old: "B = nb ?P - 1 \<and> unat (tailIndex ?P) mod 32 \<noteq> 0" if "B < nb ?P" using that B(1) by (auto simp: nblk_alt split: if_splits)
  show "cq_blocks s (block_at ?P g B) \<noteq> None" "own (block_at ?P g B) = (if B < nb ?P then Active p B else Held p)"
    using old tail_block_live [OF D(4,3,2) near] D(4) B(2) nth_mem [of "B - nb ?P" "g_held g"]
    by (auto simp: block_at_def blocks_ok_def)
qed

lemma block_at_inj:
  assumes ok: "producer_ok s items own g p" and near: "unat (headIndex (producers s p)) \<le> unat (tailIndex (producers s p))"
    and B: "unat (tailIndex (producers s p)) div 32 \<le> B" "B < nb (producers s p) + length (g_held g)"
      "unat (tailIndex (producers s p)) div 32 \<le> B'" "B' < nb (producers s p) + length (g_held g)"
    and e: "block_at (producers s p) g B = block_at (producers s p) g B'"
  shows "B = B'"
proof -
  let ?P = "producers s p"
  have "(if B < nb ?P then Active p B else Held p) = (if B' < nb ?P then Active p B' else Held p)"
    using block_live(2) [OF ok near B(1,2)] block_live(2) [OF ok near B(3,4)] e by simp
  then consider "B = B'" | "\<not> B < nb ?P" "\<not> B' < nb ?P" by (auto split: if_splits)
  then show ?thesis
  proof cases
    case 2
    then have "g_held g ! (B - nb ?P) = g_held g ! (B' - nb ?P)" using e by (simp add: block_at_def)
    moreover have "distinct (g_held g)" using producer_okD(4) [OF ok] by (simp add: blocks_ok_def)
    moreover have "B - nb ?P < length (g_held g)" "B' - nb ?P < length (g_held g)" using 2 B(2,4) by simp_all
    ultimately have "B - nb ?P = B' - nb ?P" by (simp add: nth_eq_iff_index_eq)
    then show ?thesis using 2 by simp
  qed
qed

text \<open>Storing an element in a slot that is not published.\<close>

definition stored :: "nat \<Rightarrow> u64 \<Rightarrow> 'a \<Rightarrow> (nat \<Rightarrow> 'a Block option) \<Rightarrow> nat \<Rightarrow> 'a Block option" where
  "stored a w x M = M(a := map_option (put_el w (Some x)) (M a))"

lemma stored_core:
  "stored a w x M y = None \<longleftrightarrow> M y = None" "counter (stored a w x M) y = counter M y" "next_of (stored a w x M) y = next_of M y"
  "y \<noteq> a \<Longrightarrow> stored a w x M y = M y"
  by (cases "M a"; auto simp: stored_def counter_def next_of_def put_el_def split: option.split)+

lemma element_stored:
  "element (stored a w x M) y i = (if y = a \<and> M a \<noteq> None \<and> i mod 32 = unat w mod 32 then Some x else element M y i)"
  by (cases "M a") (auto simp: stored_def element_def put_el_def slot_base_unat)

lemma same_slot: "i div 32 = j div 32 \<Longrightarrow> i mod 32 = j mod 32 \<Longrightarrow> i = j" for i j :: nat
  by (metis mult_div_mod_eq)

lemma stored_step:
  assumes inv: "queue_inv s items own g" and t: "tickets_ok s'" and own: "own_step p s s'"
    and w: "unat (tailIndex (producers s p)) \<le> unat w" "unat w div 32 < nb (producers s p) + length (g_held (g p))"
      "a = block_at (producers s p) (g p) (unat w div 32)"
    and s: "cq_blocks s' = stored a w x (cq_blocks s)" "producers s' p = producers s p" "freeList s' = freeList s"
      "initialBlockPoolIndex s' = initialBlockPoolIndex s"
    and pc: "inserted (cq_ppc s' p) (g p) = inserted (cq_ppc s p) (g p)" "dirty (cq_ppc s p) \<longrightarrow> dirty (cq_ppc s' p)"
    and new: "prod_ok (producers s p) (g p) own (cq_blocks s') p (cq_ppc s' p)"
  shows "queue_inv s' items own g"
proof -
  let ?P = "producers s p"
  note ok = queue_invD(1) [OF inv, of p] and near = queue_inv_near(1) [OF inv, of p]
  have W: "unat (tailIndex ?P) div 32 \<le> unat w div 32" using w(1) by (rule div_le_mono)
  note live = block_live [OF ok near W w(2), folded w(3)]
  show ?thesis
  proof (rule local_step [OF inv own t])
    show "pool_ok s' own" using queue_invD(2) [OF inv] own_step_others(4) [OF own] by (simp add: pool_ok_def s stored_core)
    show "own y = Unused \<or> own y = Free \<or> own y = Held p \<or> (\<exists>b. own y = Active p b) \<or> cq_blocks s' y = cq_blocks s y \<and> own y = own y" for y
      using live(2) by (cases "y = a") (simp_all add: s stored_core)
    fix i assume i: "i < unat (tailIndex ?P)" "own (g_blk (g p) (i div 32)) = Active p (i div 32)"
    have "i mod 32 \<noteq> unat w mod 32" if "g_blk (g p) (i div 32) = a"
    proof -
      have "unat w div 32 = i div 32" using that i(2) live(2) by (simp split: if_splits)
      then show ?thesis using same_slot [of i "unat w"] i(1) w(1) by auto
    qed
    then show "element (cq_blocks s') (g_blk (g p) (i div 32)) i = element (cq_blocks s) (g_blk (g p) (i div 32)) i"
      by (auto simp: s element_stored)
  qed (use pc new in \<open>simp_all add: s stored_core\<close>)
qed

lemma written_stored:
  assumes inv: "queue_inv s items own g" and wr: "written (producers s p) (g p) (cq_blocks s) xs n"
    and w: "unat w = unat (tailIndex (producers s p)) + n" "unat w div 32 < nb (producers s p) + length (g_held (g p))"
    and x: "xs ! n = x"
  shows "written (producers s p) (g p) (stored (block_at (producers s p) (g p) (unat w div 32)) w x (cq_blocks s)) xs (Suc n)"
  unfolding written_def
proof (intro allI impI)
  let ?P = "producers s p" let ?a = "block_at ?P (g p) (unat w div 32)"
  note ok = queue_invD(1) [OF inv, of p] and near = queue_inv_near(1) [OF inv, of p]
  fix i assume "i < Suc n"
  then consider "i = n" | "i < n" by linarith
  then show "element (stored ?a w x (cq_blocks s)) (block_at ?P (g p) ((unat (tailIndex ?P) + i) div 32)) (unat (tailIndex ?P) + i) = Some (xs ! i)"
  proof cases
    case 1
    have "unat (tailIndex ?P) div 32 \<le> unat w div 32" using w(1) by (intro div_le_mono) simp
    then have "cq_blocks s ?a \<noteq> None" using w(2) by (rule block_live(1) [OF ok near])
    then show ?thesis using 1 x by (simp add: element_stored flip: w(1))
  next
    case 2
    let ?j = "unat (tailIndex ?P) + i"
    have "?j mod 32 \<noteq> unat w mod 32" if "block_at ?P (g p) (?j div 32) = ?a"
    proof -
      have "?j div 32 \<le> unat w div 32" using 2 w(1) by (intro div_le_mono) simp
      moreover have "unat (tailIndex ?P) div 32 \<le> ?j div 32" "unat (tailIndex ?P) div 32 \<le> unat w div 32"
        using w(1) by (auto intro: div_le_mono)
      ultimately have "?j div 32 = unat w div 32" using that w(2) by (intro block_at_inj [OF ok near, of "?j div 32" "unat w div 32"]) linarith+
      then show ?thesis using same_slot [of ?j "unat w"] 2 w(1) by auto
    qed
    then show ?thesis using wr 2 by (auto simp: element_stored written_def)
  qed
qed

lemma bulk_ok_stored: "bulk_ok P g M k \<Longrightarrow> bulk_ok P g (stored a w x M) k"
  by (simp add: bulk_ok_def chain_ok_def stored_core)

lemma write_one_inv:
  assumes inv: "queue_inv s items own g" and pc: "cq_ppc s p = WriteElement (One x)"
    and t: "tickets_ok (write_element p (One x) s)"
  shows "queue_inv (write_element p (One x) s) items own g"
proof -
  let ?P = "producers s p" let ?g = "g p" let ?t = "unat (tailIndex ?P)" let ?a = "block_at ?P ?g (?t div 32)"
  note ok = queue_invD(1) [OF inv, of p] and near = queue_inv_near(1) [OF inv, of p]
  note D = producer_okD [OF ok]
  have f: "g_rev ?g = 0" "nb ?P + length (g_held ?g) = nblk (Suc ?t)" "tailBlock ?P = Some ?a"
    using D(7) by (simp_all add: pc filling_def goal_def)
  have lt: "?t div 32 < nb ?P + length (g_held ?g)" unfolding f(2) by (rule nblk_div) simp
  have "cq_blocks s ?a \<noteq> None" using lt by (intro block_live(1) [OF ok near]) simp_all
  then obtain Bk where "cq_blocks s ?a = Some Bk" by blast
  then have s': "write_element p (One x) s = goto_p p (Publish (One x)) (s\<lparr>cq_blocks := stored ?a (tailIndex ?P) x (cq_blocks s)\<rparr>)"
    by (simp add: write_element_def f(3) goto_simps stored_def)
  have wr: "written ?P ?g (stored ?a (tailIndex ?P) x (cq_blocks s)) [x] (Suc 0)"
    by (rule written_stored [OF inv]) (use lt in \<open>simp_all add: written_def\<close>)
  have "nblk (Suc ?t) - 1 = ?t div 32" using nblk_Suc_diff [of "Suc ?t"] by simp
  then have new: "publishing ?P ?g (stored ?a (tailIndex ?P) x (cq_blocks s)) (One x)" using f wr by (simp add: publishing_def goal_def)
  show ?thesis
  proof (rule stored_step [OF inv t])
    show "own_step p s (write_element p (One x) s)" unfolding s' by (intro own_intros)
  qed (use lt new in \<open>simp_all add: s' goto_simps pc\<close>)
qed

lemma filling_bulkD:
  assumes "filling P g M (Bulk k)"
  shows "g_rev g = 0" "nb P + length (g_held g) = nblk (unat (tailIndex P) + length (bk_items k))" "bulk_ok P g M k"
    "unat (tailIndex P) \<le> unat (bk_currentTailIndex k)" "unat (bk_currentTailIndex k) \<le> unat (bk_stop k)"
    "bk_left k = drop (unat (bk_currentTailIndex k) - unat (tailIndex P)) (bk_items k)"
    "written P g M (bk_items k) (unat (bk_currentTailIndex k) - unat (tailIndex P))"
    "bk_items k = [] \<Longrightarrow> tailBlock P = bk_startBlock k \<and> unat (bk_stop k) = unat (tailIndex P)"
    "bk_items k \<noteq> [] \<Longrightarrow> \<exists>B. unat (tailIndex P) div 32 \<le> B \<and> B < nb P + length (g_held g) \<and> tailBlock P = Some (block_at P g B) \<and>
       32 * B \<le> unat (bk_currentTailIndex k) \<and> unat (bk_stop k) = min (32 * B + 32) (unat (tailIndex P) + length (bk_items k))"
  using assms by (simp_all add: filling_def goal_def Let_def)

lemma write_bulk_inv:
  assumes inv: "queue_inv s items own g" and pc: "cq_ppc s p = WriteElement (Bulk k)" and more: "bk_currentTailIndex k \<noteq> bk_stop k"
    and t: "tickets_ok (write_element p (Bulk k) s)"
  shows "queue_inv (write_element p (Bulk k) s) items own g"
proof -
  let ?P = "producers s p" let ?g = "g p" let ?t = "unat (tailIndex ?P)" let ?c = "unat (bk_currentTailIndex k)"
  note ok = queue_invD(1) [OF inv, of p] and near = queue_inv_near [OF inv, of p]
  have fill: "filling ?P ?g (cq_blocks s) (Bulk k)" using producer_okD(7) [OF ok] by (simp add: pc)
  note f = filling_bulkD [OF fill]
  have lt: "?c < unat (bk_stop k)" using f(5) more by (simp add: le_less word_unat_eq_iff)
  then have ne: "bk_items k \<noteq> []" using f(4,8) by auto
  from f(9) [OF ne] obtain B where B: "?t div 32 \<le> B" "B < nb ?P + length (g_held ?g)" "tailBlock ?P = Some (block_at ?P ?g B)"
    "32 * B \<le> ?c" "unat (bk_stop k) = min (32 * B + 32) (?t + length (bk_items k))" by blast
  have Bc: "?c div 32 = B" using B(4,5) lt by (intro div_nat_eqI) simp_all
  let ?n = "?c - ?t" let ?x = "bk_items k ! ?n" let ?a = "block_at ?P ?g B"
  have n: "?n < length (bk_items k)" using lt B(5) f(4) by linarith
  have left: "bk_left k = ?x # drop (Suc ?n) (bk_items k)" using f(6) n by (simp add: Cons_nth_drop_Suc)
  define k' where "k' = k\<lparr>bk_currentTailIndex := bk_currentTailIndex k + 1, bk_left := drop (Suc ?n) (bk_items k)\<rparr>"
  obtain Bk where Bk: "cq_blocks s ?a = Some Bk" using block_live(1) [OF ok near(1) B(1,2)] by blast
  have s': "write_element p (Bulk k) s = goto_p p (WriteElement (Bulk k')) (s\<lparr>cq_blocks := stored ?a (bk_currentTailIndex k) ?x (cq_blocks s)\<rparr>)"
    using more Bk by (simp add: write_element_def B(3) left goto_simps stored_def k'_def)
  have len: "length (bk_items k) < 2 ^ 62" using fresh_of [OF inv, of p "Bulk k"] by (simp add: pc)
  have c1: "unat (bk_currentTailIndex k + 1) = Suc ?c" using n len near(2) f(4) by (subst unat_plus) simp_all
  have sd: "Suc ?c - ?t = Suc ?n" using f(4) by simp
  have wr: "written ?P ?g (stored ?a (bk_currentTailIndex k) ?x (cq_blocks s)) (bk_items k) (Suc ?n)"
    unfolding Bc [symmetric] by (rule written_stored [OF inv f(7)]) (use f(4) B(2) Bc in simp_all)
  have bulk: "bulk_ok ?P ?g (stored ?a (bk_currentTailIndex k) ?x (cq_blocks s)) k'"
    by (rule bulk_ok_cong [OF bulk_ok_stored [OF f(3)]]) (simp_all add: k'_def)
  have "filling ?P ?g (stored ?a (bk_currentTailIndex k) ?x (cq_blocks s)) (Bulk k')"
    unfolding filling_def using f(1,2,4) ne B lt wr bulk c1 sd
    by (simp add: goal_def k'_def Let_def) (rule exI [of _ B], simp)
  then show ?thesis
    by (intro stored_step [OF inv t, where p = p]) (use f(4) B(2) Bc in \<open>simp_all add: s' goto_simps pc own_step_def same_counters_def\<close>)
qed

lemma circular_less_than_near:
  assumes "a < b + 2 ^ 63" "b < a + 2 ^ 63"
  shows "circular_less_than (of_nat a) (of_nat b) \<longleftrightarrow> a < b"
proof (cases "a < b")
  case True
  define d where "d = b - a"
  have d: "0 < d" "d < 2 ^ 63" "b = a + d" using True assms by (auto simp: d_def)
  have "of_nat a - of_nat b = - (of_nat d :: u64)" by (simp add: d(3))
  moreover have "unat (- (of_nat d :: u64)) = 2 ^ 64 - d"
    using d(1,2) unat_sub_if' [of 0 "of_nat d :: u64"] by simp
  ultimately show ?thesis using True d by (simp add: circular_less_than_def word_less_nat_alt push_bit_of_1)
next
  case False
  then obtain d where d: "a = b + d" by (metis le_Suc_ex not_less)
  then have "of_nat a - of_nat b = (of_nat d :: u64)" "d < 2 ^ 63" using assms(1) by simp_all
  then show ?thesis using d by (simp add: circular_less_than_def word_less_nat_alt push_bit_of_1)
qed

lemma stop_index_far:
  assumes "unat cur \<le> unat new" "unat new < 2 ^ 63"
  shows "unat (stop_index cur new) = min (32 * (unat cur div 32) + 32) (unat new)"
proof -
  have "32 * (unat cur div 32) \<le> unat cur" by simp
  then have b: "32 * (unat cur div 32) + 32 \<le> unat new + 32" using assms by simp
  have e: "unat (base_of cur + BLOCK_SIZE) = 32 * (unat cur div 32) + 32"
    using b assms(2) by (subst unat_plus) (simp_all add: slot_base_unat(2) BLOCK_SIZE_def)
  have "circular_less_than new (base_of cur + BLOCK_SIZE) \<longleftrightarrow> unat new < unat (base_of cur + BLOCK_SIZE)"
    using circular_less_than_near [of "unat new" "unat (base_of cur + BLOCK_SIZE)", unfolded of_nat_unat ucast_id, unfolded e] b assms(2)
    unfolding e by simp
  then show ?thesis by (auto simp: stop_index_def Let_def e)
qed

text \<open>Which block ends the batch, and which one follows a block.\<close>

lemma end_block:
  assumes k: "bulk_ok P g M k" and m: "bk_items k \<noteq> []" and n: "nb P + length (g_held g) = nblk (unat (tailIndex P) + length (bk_items k))"
  shows "bk_endBlock k = Some (block_at P g (nb P + length (g_held g) - 1))"
proof (cases "g_held g = []")
  case True
  have t: "unat (tailIndex P) mod 32 \<noteq> 0"
  proof
    assume "unat (tailIndex P) mod 32 = 0"
    then have "nb P = unat (tailIndex P) div 32" by (simp add: nblk_alt)
    moreover have "unat (tailIndex P) div 32 < nblk (unat (tailIndex P) + length (bk_items k))" using m by (intro nblk_div) simp
    ultimately show False using n True by simp
  qed
  then have "0 < nb P" by (simp add: nblk_alt)
  then show ?thesis using k True t by (simp add: bulk_ok_def last_held_def tail_block_ok_def block_at_def)
next
  case False
  then have "\<not> nb P + length (g_held g) - 1 < nb P" "nb P + length (g_held g) - 1 - nb P = length (g_held g) - 1" by (cases "g_held g"; simp)+
  then show ?thesis using k False by (simp add: bulk_ok_def last_held_def block_at_def last_conv_nth)
qed

lemma next_at:
  assumes k: "bulk_ok P g M k" and B: "unat (tailIndex P) div 32 \<le> B" "Suc B < nb P + length (g_held g)"
  shows "next_of M (block_at P g B) = Some (block_at P g (Suc B))"
proof (cases "B < nb P")
  case True
  then have "B = nb P - 1" "unat (tailIndex P) mod 32 \<noteq> 0" using B(1) by (auto simp: nblk_alt split: if_splits)
  moreover from this have "g_held g \<noteq> []" "\<not> Suc B < nb P" "Suc B - nb P = 0" using B(2) True by auto
  ultimately show ?thesis using k True by (simp add: bulk_ok_def block_at_def hd_conv_nth)
next
  case False
  then have "B - nb P < length (g_held g)" "Suc (B - nb P) < length (g_held g)" "Suc B - nb P = Suc (B - nb P)" using B(2) by simp_all
  then show ?thesis using k False by (simp add: bulk_ok_def chain_ok_def block_at_def)
qed

lemma write_next_inv:
  assumes inv: "queue_inv s items own g" and pc: "cq_ppc s p = WriteElement (Bulk k)" and full_block: "bk_currentTailIndex k = bk_stop k"
    and t: "tickets_ok (write_element p (Bulk k) s)"
  shows "queue_inv (write_element p (Bulk k) s) items own g"
proof -
  let ?P = "producers s p" let ?g = "g p" let ?t = "unat (tailIndex ?P)" let ?c = "unat (bk_currentTailIndex k)"
  let ?N = "nb ?P + length (g_held ?g)" let ?m = "?t + length (bk_items k)"
  note ok = queue_invD(1) [OF inv, of p] and near = queue_inv_near [OF inv, of p]
  have fill: "filling ?P ?g (cq_blocks s) (Bulk k)" using producer_okD(7) [OF ok] by (simp add: pc)
  note f = filling_bulkD [OF fill]
  have st: "bk_startTailIndex k = tailIndex ?P" "length (bk_items k) < 2 ^ 62" using fresh_of [OF inv, of p "Bulk k"] by (simp_all add: pc)
  note new = newTail_unat [OF st near(2)]
  have publish: ?thesis if e: "tailBlock ?P = bk_endBlock k" "?c = ?m" and b: "?m mod 32 \<noteq> 0 \<Longrightarrow> tailBlock ?P = Some (block_at ?P ?g (?N - 1))"
  proof -
    have "bk_currentTailIndex k = newTailIndex k" using e(2) new by (simp add: word_unat_eq_iff)
    then have s': "write_element p (Bulk k) s = goto_p p (Publish (Bulk k)) s" using e(1) by (simp add: write_element_def full_block)
    have "publishing ?P ?g (cq_blocks s) (Bulk k)" using f(1,2,7) e(2) b by (simp add: publishing_def goal_def)
    then show ?thesis using t unfolding s'
      by (intro goto_step [OF inv, where p = p]) (simp_all add: own_step_intros pc goto_simps)
  qed
  show ?thesis
  proof (cases "bk_items k = []")
    case True
    then have "g_held ?g = []" using f(2) by simp
    then have "bk_endBlock k = bk_startBlock k" "?t mod 32 \<noteq> 0 \<longrightarrow> bk_startBlock k = Some (g_blk ?g (nb ?P - 1))"
      using f(3) by (simp_all add: bulk_ok_def last_held_def tail_block_ok_def)
    moreover have "0 < nb ?P" if "?t mod 32 \<noteq> 0" using that by (simp add: nblk_alt)
    ultimately show ?thesis using f(8) [OF True] \<open>g_held ?g = []\<close> True full_block by (intro publish) (auto simp: block_at_def)
  next
    case False
    from f(9) [OF False] obtain B where B: "?t div 32 \<le> B" "B < ?N" "tailBlock ?P = Some (block_at ?P ?g B)"
      "32 * B \<le> ?c" "unat (bk_stop k) = min (32 * B + 32) ?m" by blast
    note en = end_block [OF f(3) False f(2)]
    show ?thesis
    proof (cases "B = ?N - 1")
      case True
      have "?m \<le> 32 * ?N" unfolding f(2) by (rule nblk_ge)
      then have "?c = ?m" using B(2,5) True full_block by simp
      then show ?thesis using en B(3) True by (intro publish) simp_all
    next
      case F: False
      then have B1: "Suc B < ?N" using B(2) by simp
      have "block_at ?P ?g B \<noteq> block_at ?P ?g (?N - 1)"
      proof
        assume "block_at ?P ?g B = block_at ?P ?g (?N - 1)"
        moreover have "?t div 32 \<le> ?N - 1" "?N - 1 < ?N" using B(1,2) by linarith+
        ultimately show False using block_at_inj [OF ok near(1) B(1,2), of "?N - 1"] F by blast
      qed
      then have ne: "tailBlock ?P \<noteq> bk_endBlock k" using en B(3) by simp
      obtain Bk where Bk: "cq_blocks s (block_at ?P ?g B) = Some Bk" using block_live(1) [OF ok near(1) B(1,2)] by blast
      have nx: "blk_next Bk = Some (block_at ?P ?g (Suc B))" using next_at [OF f(3) B(1) B1] Bk by (simp add: next_of_def)
      define k' where "k' = k\<lparr>bk_stop := stop_index (bk_currentTailIndex k) (newTailIndex k)\<rparr>"
      define s1 where "s1 = goto_p p (WriteElement (Bulk k')) (with_producer p (\<lambda>P. P\<lparr>tailBlock := Some (block_at ?P ?g (Suc B))\<rparr>) s)"
      have s': "write_element p (Bulk k) s = s1"
        using ne Bk nx full_block B(3) by (simp add: write_element_def s1_def k'_def)
      have m: "32 * B + 32 < ?m"
      proof -
        have "Suc B \<le> nblk ?m - 1" "0 < ?m" using B1 False f(2) by auto
        then have "Suc B \<le> (?m - 1) div 32" by (simp only: nblk_Suc_diff)
        then have "Suc B * 32 \<le> ?m - 1" by (simp add: less_eq_div_iff_mult_less_eq)
        then show ?thesis using \<open>0 < ?m\<close> by simp
      qed
      have c: "?c = 32 * B + 32" using B(5) full_block m by simp
      have cs: "?c \<le> unat (newTailIndex k)" "unat (newTailIndex k) < 2 ^ 63" using m c near(2) st(2) new by simp_all
      have stop: "unat (bk_stop k') = min (32 * Suc B + 32) ?m" using stop_index_far [OF cs] c new by (simp add: k'_def)
      have "filling (?P\<lparr>tailBlock := Some (block_at ?P ?g (Suc B))\<rparr>) ?g (cq_blocks s) (Bulk k')"
      proof -
        have at: "block_at (?P\<lparr>tailBlock := Some (block_at ?P ?g (Suc B))\<rparr>) ?g = block_at ?P ?g" by (simp add: fun_eq_iff block_at_def)
        have "bulk_ok (?P\<lparr>tailBlock := Some (block_at ?P ?g (Suc B))\<rparr>) ?g (cq_blocks s) k'" by (rule bulk_ok_cong [OF f(3)]) (simp_all add: k'_def)
        moreover have "written (?P\<lparr>tailBlock := Some (block_at ?P ?g (Suc B))\<rparr>) ?g (cq_blocks s) (bk_items k) (?c - ?t)"
          using f(7) by (simp add: written_def at)
        moreover have "bk_currentTailIndex k' = bk_currentTailIndex k" "bk_left k' = bk_left k" "bk_items k' = bk_items k" by (simp_all add: k'_def)
        ultimately show ?thesis using f(1,2,4,6) stop c m False B(1) B1
          by (simp add: filling_def goal_def Let_def at) (rule exI [of _ "Suc B"], simp)
      qed
      then show ?thesis using t unfolding s'
        by (intro goto_step [OF inv, where p = p]) (use f(1) in \<open>simp_all add: s1_def own_step_def same_counters_def pc goto_simps\<close>)
    qed
  qed
qed

lemma write_element_inv:
  assumes inv: "queue_inv s items own g" and pc: "cq_ppc s p = WriteElement r" and t: "tickets_ok (write_element p r s)"
  shows "queue_inv (write_element p r s) items own g"
proof (cases r)
  case (One x)
  then show ?thesis using write_one_inv [OF inv] pc t by simp
next
  case (Bulk k)
  then show ?thesis using write_bulk_inv [OF inv] write_next_inv [OF inv] pc t by (cases "bk_currentTailIndex k = bk_stop k") simp_all
qed

end
