(* ===== verification/ConcurrentQueue_Enqueue.thy ===== *)
theory ConcurrentQueue_Enqueue
  imports ConcurrentQueue_Blocks
begin

unbundle bit_operations_syntax

text \<open>
  The last steps of a request: publishing its elements, or undoing it. Together every step of a
  producer keeps the invariant.
\<close>

lemma index_ok_publish:
  assumes ix: "index_ok P g N" and P: "blockIndex P' = blockIndex P" "ip_headers P' = ip_headers P" "ip_entries P' = ip_entries P"
      "nextBlockIndexCapacity P' = nextBlockIndexCapacity P" "blockIndex P = None \<Longrightarrow> tailIndex P' = 0"
    and g: "g_ent g' = g_ent g" "g_keyed g' = g_keyed g" "g_low g' = g_low g" "g_hi g' = g_hi g" "g_off g' = g_off g"
  shows "index_ok P' g' N"
proof -
  have sl: "slot P' g' = slot P g" by (simp add: fun_eq_iff slot_def P g)
  have "header_ok P' g' h = header_ok P g h" "current_ok P' g' N h = current_ok P g N h" for h
    by (simp_all add: header_ok_def current_ok_def sl P g)
  then show ?thesis using ix P(5) by (cases "blockIndex P") (simp_all add: index_ok_def P g)
qed

definition publish_owner :: "nat \<Rightarrow> nat \<Rightarrow> nat list \<Rightarrow> (nat \<Rightarrow> owner) \<Rightarrow> nat \<Rightarrow> owner" where
  "publish_owner p n held own a = (case map_of (zip held [n ..< n + length held]) a of None \<Rightarrow> own a | Some b \<Rightarrow> Active p b)"

lemma publish_owner:
  "a \<notin> set held \<Longrightarrow> publish_owner p n held own a = own a"
  "distinct held \<Longrightarrow> j < length held \<Longrightarrow> publish_owner p n held own (held ! j) = Active p (n + j)"
proof -
  show "publish_owner p n held own a = own a" if "a \<notin> set held"
    using that by (simp add: publish_owner_def map_of_zip_is_None [THEN iffD2] split: option.split)
  show "publish_owner p n held own (held ! j) = Active p (n + j)" if "distinct held" "j < length held"
    using map_of_zip_nth [of held "[n ..< n + length held]" j] that by (simp add: publish_owner_def)
qed

definition publish_ghost :: "ImplicitProducer \<Rightarrow> ghost \<Rightarrow> ghost" where
  "publish_ghost P g = g\<lparr>g_blk := block_at P g, g_held := []\<rparr>"

lemma publish_ghost_core [simp]:
  "g_fin (publish_ghost P g) = g_fin g" "g_unlinked (publish_ghost P g) = g_unlinked g"
  "g_freed (publish_ghost P g) = g_freed g" "g_held (publish_ghost P g) = []" "g_rev (publish_ghost P g) = g_rev g"
  "g_off (publish_ghost P g) = g_off g" "g_keyed (publish_ghost P g) = g_keyed g" "g_blk (publish_ghost P g) = block_at P g"
  "g_ent (publish_ghost P g) = g_ent g" "g_hi (publish_ghost P g) = g_hi g" "g_low (publish_ghost P g) = g_low g"
  by (simp_all add: publish_ghost_def)

lemma values_ok_publish:
  assumes v: "values_ok P g False" and rev: "g_rev g = 0" and P: "nb P' = nb P + length (g_held g)" "ip_entries P' = ip_entries P"
  shows "values_ok P' (publish_ghost P g) False"
  unfolding values_ok_def P
proof (intro conjI allI impI)
  fix b assume b: "g_low (publish_ghost P g) \<le> b \<and> b < nb P + length (g_held g)"
  show "bie_value (ip_entries P ! g_ent (publish_ghost P g) b) =
      (if b \<in> g_unlinked (publish_ghost P g) then None else Some (g_blk (publish_ghost P g) b))"
  proof (cases "b < nb P")
    case True
    then show ?thesis using v b by (simp add: values_ok_def block_at_def)
  next
    case False
    then obtain j where j: "b = nb P + j" by (metis le_Suc_ex not_less)
    then have "j < length (g_held g)" "b \<notin> g_unlinked g" using b False v by (auto simp: values_ok_def)
    then show ?thesis using v j rev False by (simp add: values_ok_def block_at_def)
  qed
next
  fix j assume j: "nb P + length (g_held g) + j < g_keyed (publish_ghost P g) \<and> \<not> (False \<and> j = length (g_held (publish_ghost P g)))"
  then have "bie_value (ip_entries P ! g_ent g (nb P + (length (g_held g) + j))) = None" using v rev unfolding values_ok_def by simp
  then show "bie_value (ip_entries P ! g_ent (publish_ghost P g) (nb P + length (g_held g) + j)) =
      (if g_rev (publish_ghost P g) \<le> j \<and> j < length (g_held (publish_ghost P g)) then Some (g_held (publish_ghost P g) ! j) else None)"
    by (simp add: add.assoc)
qed (use v in \<open>auto simp: values_ok_def\<close>)

lemma blocks_ok_publish:
  assumes bl: "blocks_ok p P g own M pcs" and hc: "held_counters g M" and cl: "claims_ok p P g pcs"
    and near: "unat (headIndex P) \<le> unat (tailIndex P)" and P: "nb P' = nb P + length (g_held g)"
  shows "blocks_ok p P' (publish_ghost P g) (publish_owner p (nb P) (g_held g) own) M pcs"
  unfolding blocks_ok_def P
proof (intro conjI allI ballI impI)
  let ?g = "publish_ghost P g" let ?own = "publish_owner p (nb P) (g_held g) own"
  have d: "distinct (g_held g)" and held: "\<And>a. a \<in> set (g_held g) \<Longrightarrow> own a = Held p \<and> M a \<noteq> None" using bl by (auto simp: blocks_ok_def)
  fix b assume b: "b < nb P + length (g_held g)" "b \<notin> g_freed ?g"
  have "?own (block_at P g b) = Active p b \<and> M (block_at P g b) \<noteq> None \<and>
      counter M (block_at P g b) = card (g_fin g \<inter> {32 * b ..< 32 * b + 32}) \<and> (full (g_fin g) b \<longrightarrow> (\<exists>c. b \<in> victim p (pcs c)))"
  proof (cases "b < nb P")
    case True
    then have o: "own (g_blk g b) = Active p b" using bl b by (simp add: blocks_ok_def)
    then have "g_blk g b \<notin> set (g_held g)" using held by auto
    then show ?thesis using True o b bl by (simp add: blocks_ok_def block_at_def publish_owner)
  next
    case False
    then obtain j where j: "b = nb P + j" "j < length (g_held g)" using b(1) by (metis add_less_cancel_left le_Suc_ex not_less)
    have "unat (headIndex P) \<le> 32 * nb P" using near nblk_ge [of "unat (tailIndex P)"] by simp
    then have "g_fin g \<inter> {32 * b ..< 32 * b + 32} = {}" using claims_okD(1) [OF cl] j(1) by fastforce
    moreover from this have "\<not> full (g_fin g) b" unfolding full_def by fastforce
    moreover have "block_at P g b = g_held g ! j" "g_held g ! j \<in> set (g_held g)" using j by (simp_all add: block_at_def)
    ultimately show ?thesis using publish_owner(2) [OF d j(2)] held hc j(1) by (simp add: held_counters_def)
  qed
  then show "?own (g_blk ?g b) = Active p b" "M (g_blk ?g b) \<noteq> None" "counter M (g_blk ?g b) = card (g_fin ?g \<inter> {32 * b ..< 32 * b + 32})"
    "full (g_fin ?g) b \<Longrightarrow> \<exists>c. b \<in> victim p (pcs c)" by simp_all
qed (use bl in \<open>auto simp: blocks_ok_def\<close>)

lemma contents_ok_publish:
  assumes c: "contents_ok p P g M pcs items" and w: "written P g M xs (length xs)"
    and P: "unat (tailIndex P') = unat (tailIndex P) + length xs" "headIndex P' = headIndex P"
  shows "contents_ok p P' (publish_ghost P g) M pcs (items @ xs)"
  unfolding contents_ok_def P
proof (intro conjI allI impI)
  have len: "length items = unat (tailIndex P)" using c by (simp add: contents_ok_def)
  then show "length (items @ xs) = unat (tailIndex P) + length xs" by simp
  fix i assume i: "i < unat (tailIndex P) + length xs" "unat (headIndex P) \<le> i \<or> (\<exists>c. i \<in> unread p (pcs c))"
  show "element M (g_blk (publish_ghost P g) (i div 32)) i = Some ((items @ xs) ! i)"
  proof (cases "i < unat (tailIndex P)")
    case True
    then have "element M (g_blk g (i div 32)) i = Some (items ! i)" using c i(2) unfolding contents_ok_def by blast
    then show ?thesis using True len nblk_div [OF True] by (simp add: block_at_def nth_append)
  next
    case False
    then obtain j where j: "i = unat (tailIndex P) + j" by (metis le_Suc_ex not_less)
    then show ?thesis using w i(1) len by (simp add: written_def nth_append)
  qed
qed

lemma publish_inv:
  assumes inv: "queue_inv s items own g" and pc: "cq_ppc s p = Publish r"
    and t: "tickets_ok (enqueue_step ok n p (cq_ppc s p) s)"
  shows "\<exists>own g. queue_inv (enqueue_step ok n p (cq_ppc s p) s) (items(p := items p @ request_items r)) own g"
proof -
  let ?P = "producers s p" let ?g = "g p" let ?t = "unat (tailIndex ?P)" let ?n = "length (request_items r)"
  note ok = queue_invD(1) [OF inv, of p] and near = queue_inv_near [OF inv, of p]
  note D = producer_okD [OF ok]
  have f: "g_rev ?g = 0" "nb ?P + length (g_held ?g) = nblk (?t + ?n)" "written ?P ?g (cq_blocks s) (request_items r) ?n"
    "(?t + ?n) mod 32 \<noteq> 0 \<Longrightarrow> tailBlock ?P = Some (block_at ?P ?g (nblk (?t + ?n) - 1))"
    using D(7) by (simp_all add: pc publishing_def goal_def)
  define P' where "P' = ?P\<lparr>tailIndex := case r of One x \<Rightarrow> 1 + tailIndex ?P | Bulk k \<Rightarrow> newTailIndex k\<rparr>"
  define s1 where "s1 = goto_p p (PReady (Some True)) (with_producer p (\<lambda>_. P') s)"
  have s': "enqueue_step ok n p (cq_ppc s p) s = s1" by (simp add: pc publish_def s1_def P'_def goto_simps)
  have T: "unat (tailIndex P') = ?t + ?n"
  proof (cases r)
    case (One x)
    then show ?thesis using near(2) unat_plus [of 1 "tailIndex ?P"] by (simp add: P'_def)
  next
    case (Bulk k)
    then show ?thesis using newTail_unat [of k ?P] fresh_of [OF inv, of p r] near(2) by (simp add: P'_def pc)
  qed
  have nb': "nb P' = nb ?P + length (g_held ?g)" using T f(2) by simp
  have P': "headIndex P' = headIndex ?P" "blockIndex P' = blockIndex ?P" "ip_headers P' = ip_headers ?P" "ip_entries P' = ip_entries ?P"
    "nextBlockIndexCapacity P' = nextBlockIndexCapacity ?P" "tailBlock P' = tailBlock ?P" by (simp_all add: P'_def)
  have sel: "producers s1 p = P'" "cq_blocks s1 = cq_blocks s" "cq_cpc s1 = cq_cpc s" "cq_ppc s1 p = PReady (Some True)"
    by (simp_all add: s1_def goto_simps)
  let ?g' = "publish_ghost ?P ?g" let ?own = "publish_owner p (nb ?P) (g_held ?g) own"
  have v: "values_ok ?P ?g False" using D(2) by (simp add: pc)
  have act: "producer_ok s1 (items(p := items p @ request_items r)) ?own ?g' p"
  proof (rule producer_okI, unfold sel)
    show "index_ok P' ?g' (nb P' + inserted (PReady (Some True)) ?g')"
    proof -
      have "index_ok P' ?g' (nb ?P + inserted (cq_ppc s p) ?g)"
      proof (rule index_ok_publish [OF D(1)])
        assume "blockIndex ?P = None"
        then have "nblk (?t + ?n) = 0" using D(1) v f(2) by (simp add: index_ok_def values_ok_def)
        then have "?t + ?n = 0" using nblk_ge [of "?t + ?n"] by simp
        then show "tailIndex P' = 0" using T by (simp add: unat_eq_0 [symmetric])
      qed (simp_all add: P')
      then show ?thesis using nb' f(1) by (simp add: pc)
    qed
    show "values_ok P' ?g' (dirty (PReady (Some True)))" using values_ok_publish [OF v f(1) nb' P'(4)] by simp
    show "claims_ok p P' ?g' (cq_cpc s)"
      by (rule claims_same [OF D(3)]) (use dq_ok_index [OF _ near(1) P'(1), where g' = ?g' and g = ?g and p = p] in \<open>simp_all add: P' block_at_def\<close>)
    show "blocks_ok p P' ?g' ?own (cq_blocks s) (cq_cpc s)" by (rule blocks_ok_publish [OF D(4,5,3) near(1) nb'])
    show "held_counters ?g' (cq_blocks s)" by (simp add: held_counters_def)
    show "contents_ok p P' ?g' (cq_blocks s) (cq_cpc s) ((items(p := items p @ request_items r)) p)"
      using contents_ok_publish [OF D(6) f(3) T P'(1)] by simp
    show "prod_ok P' ?g' ?own (cq_blocks s) p (PReady (Some True))"
      using f(1,2,4) T nb' P'(6) by (simp add: tail_block_ok_def)
  qed
  have held: "own a = Held p \<and> cq_blocks s a \<noteq> None" if "a \<in> set (g_held ?g)" for a using that D(4) by (simp add: blocks_ok_def)
  have other: "?own a = own a" if "own a \<noteq> Held p" for a using that held publish_owner(1) by metis
  have "pool_ok s1 ?own" using queue_invD(2) [OF inv] other unfolding pool_ok_def by (auto simp: s1_def goto_simps)
  then have "queue_inv s1 (items(p := items p @ request_items r)) ?own (g(p := ?g'))"
  proof (intro queue_inv_producer [OF inv t [unfolded s'] _ _ _ _ act])
    show "own_step p s s1" using enqueue_step_own [of p s ok n "cq_ppc s p"] by (simp only: s')
    show "cq_blocks s1 a = cq_blocks s a \<and> ?own a = own a" if "q \<noteq> p" "mine own q a" for q a
      using that other [of a] by (auto simp: sel mine_def)
  qed simp_all
  then show ?thesis unfolding s' by blast
qed

lemma revert_inv:
  assumes inv: "queue_inv s items own g" and pc: "cq_ppc s p = Revert k b"
    and t: "tickets_ok (enqueue_step ok n p (cq_ppc s p) s)"
  shows "\<exists>g. queue_inv (enqueue_step ok n p (cq_ppc s p) s) items own g"
proof -
  let ?P = "producers s p" let ?g = "g p" let ?r = "g_rev ?g" let ?b = "nb ?P + ?r"
  note ok = queue_invD(1) [OF inv, of p] and near = queue_inv_near [OF inv, of p]
  note D = producer_okD [OF ok]
  have f: "bulk_ok ?P ?g (cq_blocks s) k" "?r \<le> length (g_held ?g)"
    "b = (if ?r < length (g_held ?g) then Some (g_held ?g ! ?r) else None)"
    "bk_currentTailIndex k + BLOCK_SIZE = of_nat (32 * ?b)" "g_held ?g \<noteq> [] \<longrightarrow> blockIndex ?P \<noteq> None"
    using D(7) by (simp_all add: pc)
  show ?thesis
  proof (cases "?r < length (g_held ?g)")
    case False
    then have s': "enqueue_step ok n p (cq_ppc s p) s = goto_p p (Release k (bk_firstAllocatedBlock k)) s" using f(3) by (simp add: pc revert_entry_def)
    have "queue_inv (goto_p p (Release k (bk_firstAllocatedBlock k)) s) items own g" using t f False unfolding s'
      by (intro goto_step [OF inv, where p = p]) (simp_all add: own_step_intros pc goto_simps bulk_ok_def)
    then show ?thesis unfolding s' by blast
  next
    case True
    then obtain h where h: "blockIndex ?P = Some h" using f(5) by (cases "g_held ?g") auto
    let ?N = "nb ?P + (length (g_held ?g) - ?r)" let ?H = "ip_headers ?P ! h" let ?cur = "bk_currentTailIndex k + BLOCK_SIZE"
    have ix: "index_ok ?P ?g ?N" using D(1) by (simp add: pc)
    have v: "values_ok ?P ?g False" using D(2) by (simp add: pc)
    note c = current_okD [OF ix h]
    have low: "g_low ?g \<le> nb ?P" by (rule low_le_nb [OF v])
    have keyed: "nb ?P + length (g_held ?g) \<le> g_keyed ?g" using v by (simp add: values_ok_def)
    then have bk: "?b < g_keyed ?g" using True by simp
    have "g_keyed ?g \<le> 2 ^ 58" using ix by (simp add: index_ok_def)
    then have small: "32 * ?b < 2 ^ 63" using bk by simp
    have cur: "unat ?cur = 32 * ?b" unfolding f(4) using small by (intro unat_small) simp
    have val: "bie_value (ip_entries ?P ! g_ent ?g ?b) = Some (g_held ?g ! ?r)" using v bk True by (simp add: values_ok_def)
    have "Suc (?N - 1) = ?N" using True by simp
    then have tail: "bih_tail ?H = slot ?P ?g h (?N - 1)"
      using ring_pred [of "g_off ?g h" "bih_capacity ?H" "?N - 1"] c(10) unfolding slot_def by (simp only:)
    have L: "index_index ?cur (bih_tail ?H) (bie_key (ip_entries ?P ! (bih_index ?H ! unat (bih_tail ?H)))) (bih_capacity ?H) = slot ?P ?g h ?b"
      "index_assert ?P ?H (bie_key (ip_entries ?P ! (bih_index ?H ! unat (bih_tail ?H)))) (slot ?P ?g h ?b) ?cur"
      using lookup [OF ix c(2), of ?cur "?N - 1" "bih_tail ?H"] cur small low bk val keyed c(3) tail True by simp_all
    have e: "bih_index ?H ! unat (slot ?P ?g h ?b) = g_ent ?g ?b" using header_entry [OF ix c(2), of ?b] low bk c(3) by simp
    define P' where "P' = set_entry (g_ent ?g ?b) (\<lambda>E. E\<lparr>bie_value := None\<rparr>) ?P"
    define s1 where "s1 = goto_p p (RevertTail (k\<lparr>bk_currentTailIndex := ?cur\<rparr>) (g_held ?g ! ?r)) (with_producer p (\<lambda>_. P') s)"
    have s': "enqueue_step ok n p (cq_ppc s p) s = s1"
      using f(3) True L e by (simp add: pc revert_entry_def h Let_def s1_def P'_def goto_simps)
    have sel: "producers s1 p = P'" "cq_ppc s1 p = RevertTail (k\<lparr>bk_currentTailIndex := ?cur\<rparr>) (g_held ?g ! ?r)"
      "cq_blocks s1 = cq_blocks s" "freeList s1 = freeList s" "initialBlockPoolIndex s1 = initialBlockPoolIndex s" by (simp_all add: s1_def goto_simps)
    have P': "tailIndex P' = tailIndex ?P" "blockIndex P' = blockIndex ?P" "ip_headers P' = ip_headers ?P" by (simp_all add: P'_def)
    define g' where "g' = ?g\<lparr>g_rev := Suc ?r\<rparr>"
    have vals: "bie_value (ip_entries P' ! g_ent ?g x) = (if x = ?b then None else bie_value (ip_entries ?P ! g_ent ?g x))"
      if "g_low ?g \<le> x" "x < g_keyed ?g" for x
      using entry_value [OF ix _ bk that] low by (simp add: P'_def)
    have "queue_inv s1 items own (g(p := g'))"
    proof (rule index_step [OF inv _ t [unfolded s']])
      show "own_step p s s1" using enqueue_step_own [of p s ok n "cq_ppc s p"] by (simp only: s')
      have "index_ok P' g' ?N" unfolding P'_def by (rule index_ok_frame [OF index_ok_value [OF ix]]) (simp_all add: g'_def)
      then show "index_ok (producers s1 p) g' (nb ?P + inserted (cq_ppc s1 p) g')" unfolding sel by (simp add: g'_def)
      show "values_ok (producers s1 p) g' (dirty (cq_ppc s1 p))" unfolding sel values_ok_def P'
      proof (intro conjI allI impI)
        fix j assume j: "nb ?P + j < g_keyed g' \<and> \<not> (dirty (RevertTail (k\<lparr>bk_currentTailIndex := ?cur\<rparr>) (g_held ?g ! ?r)) \<and> j = length (g_held g'))"
        then have "bie_value (ip_entries P' ! g_ent ?g (nb ?P + j)) = (if j = ?r then None else bie_value (ip_entries ?P ! g_ent ?g (nb ?P + j)))"
          using low by (subst vals) (simp_all add: g'_def)
        then show "bie_value (ip_entries P' ! g_ent g' (nb ?P + j)) =
            (if g_rev g' \<le> j \<and> j < length (g_held g') then Some (g_held g' ! j) else None)"
          using v j by (auto simp: values_ok_def g'_def)
      next
        fix x assume x: "g_low g' \<le> x \<and> x < nb ?P"
        then show "bie_value (ip_entries P' ! g_ent g' x) = (if x \<in> g_unlinked g' then None else Some (g_blk g' x))"
          using vals [of x] v keyed by (simp add: g'_def values_ok_def)
      qed (use v in \<open>auto simp: values_ok_def g'_def\<close>)
      have "bulk_ok P' g' (cq_blocks s) (k\<lparr>bk_currentTailIndex := ?cur\<rparr>)"
        using f(1) by (simp add: bulk_ok_def P' g'_def tail_block_ok_def chain_ok_def first_held_def last_held_def)
      then show "prod_ok (producers s1 p) g' own (cq_blocks s) p (cq_ppc s1 p)"
        unfolding sel using True f(4) h by (simp add: P' g'_def)
    qed (simp_all add: sel P' g'_def)
    then show ?thesis unfolding s' by blast
  qed
qed

lemma revert_tail_inv:
  assumes inv: "queue_inv s items own g" and pc: "cq_ppc s p = RevertTail k b"
    and t: "tickets_ok (enqueue_step ok n p (cq_ppc s p) s)"
  shows "queue_inv (enqueue_step ok n p (cq_ppc s p) s) items own g"
proof -
  let ?P = "producers s p" let ?g = "g p" let ?r = "g_rev ?g" let ?l = "length (g_held ?g)"
  note ok = queue_invD(1) [OF inv, of p]
  note D = producer_okD [OF ok]
  have f: "bulk_ok ?P ?g (cq_blocks s) k" "0 < ?r" "?r \<le> ?l" "b = g_held ?g ! (?r - 1)" "bk_currentTailIndex k = of_nat (32 * (nb ?P + ?r - 1))"
    "blockIndex ?P \<noteq> None" using D(7) by (simp_all add: pc)
  obtain h where h: "blockIndex ?P = Some h" using f(6) by blast
  have "b \<in> set (g_held ?g)" using f(2-4) by simp
  then obtain Bk where Bk: "cq_blocks s b = Some Bk" using D(4) by (auto simp: blocks_ok_def)
  have "?r - 1 < ?l" "Suc (?r - 1) = ?r" using f(2,3) by simp_all
  then have nx: "blk_next Bk = (if ?r < ?l then Some (g_held ?g ! ?r) else None)"
    using f(1) Bk unfolding f(4) by (simp add: bulk_ok_def chain_ok_def next_of_def) (metis bind.bind_lunit)
  have "nb ?P + inserted (cq_ppc s p) ?g = Suc (nb ?P + (?l - ?r))" using f(2,3) by (simp add: pc)
  then have ix: "index_ok ?P ?g (Suc (nb ?P + (?l - ?r)))" using D(1) by simp
  note rw = rewind_ok [OF ix h]
  have hl: "h < length (ip_headers ?P)" using current_okD(2) [OF ix h] .
  define P' where "P' = rewind_block_index_tail ?P"
  define s1 where "s1 = goto_p p (Revert k (blk_next Bk)) (with_producer p (\<lambda>_. P') s)"
  have s': "enqueue_step ok n p (cq_ppc s p) s = s1" using Bk by (simp add: pc revert_tail_def s1_def P'_def goto_simps)
  have sel: "producers s1 p = P'" "cq_ppc s1 p = Revert k (blk_next Bk)"
    "cq_blocks s1 = cq_blocks s" "freeList s1 = freeList s" "initialBlockPoolIndex s1 = initialBlockPoolIndex s" by (simp_all add: s1_def goto_simps)
  have P': "tailIndex P' = tailIndex ?P" "blockIndex P' = blockIndex ?P" by (simp_all add: P'_def rw(2))
  have "queue_inv s1 items own (g(p := ?g))"
  proof (rule index_step [OF inv _ t [unfolded s']])
    show "own_step p s s1" using enqueue_step_own [of p s ok n "cq_ppc s p"] by (simp only: s')
    show "index_ok (producers s1 p) ?g (nb ?P + inserted (cq_ppc s1 p) ?g)" using rw(1) unfolding sel by (simp add: P'_def)
    show "values_ok (producers s1 p) ?g (dirty (cq_ppc s1 p))" using D(2) unfolding sel by (simp add: P'_def rw(2) values_ok_tail pc)
    have "bulk_ok P' ?g (cq_blocks s) k" by (rule bulk_ok_cong [OF f(1)]) (simp_all add: P')
    moreover have "bk_currentTailIndex k + BLOCK_SIZE = of_nat (32 * (nb ?P + ?r))"
    proof -
      have "32 * (nb ?P + ?r) = 32 * (nb ?P + ?r - 1) + 32" using f(2) by simp
      then show ?thesis unfolding f(5) by (simp only: of_nat_add) (simp add: BLOCK_SIZE_def)
    qed
    ultimately show "prod_ok (producers s1 p) ?g own (cq_blocks s) p (cq_ppc s1 p)" unfolding sel using f(3) nx h by (simp add: P')
  qed (use hl in \<open>simp_all add: sel P', simp_all add: P'_def rw(2) set_header_nth\<close>)
  then show ?thesis unfolding s' by simp
qed

lemma release_inv:
  assumes inv: "queue_inv s items own g" and pc: "cq_ppc s p = Release k b"
    and t: "tickets_ok (enqueue_step ok n p (cq_ppc s p) s)"
  shows "\<exists>own g. queue_inv (enqueue_step ok n p (cq_ppc s p) s) items own g"
proof -
  let ?P = "producers s p" let ?g = "g p"
  note near = queue_inv_near [OF inv, of p]
  note D = producer_okD [OF queue_invD(1) [OF inv, of p]]
  have f: "tail_block_ok ?P ?g (bk_startBlock k)" "chain_ok ?g (cq_blocks s)" "g_rev ?g = length (g_held ?g)" "b = first_held ?g"
    using D(7) by (simp_all add: pc)
  show ?thesis
  proof (cases "g_held ?g")
    case Nil
    then have s': "enqueue_step ok n p (cq_ppc s p) s = goto_p p (PReady (Some False)) (with_producer p (\<lambda>P. P\<lparr>tailBlock := bk_startBlock k\<rparr>) s)"
      using f(4) by (simp add: pc release_block_def first_held_def)
    have "queue_inv (enqueue_step ok n p (cq_ppc s p) s) items own g" using t unfolding s'
      by (intro goto_step [OF inv, where p = p]) (use f(1,3) Nil in \<open>simp_all add: own_step_def same_counters_def pc goto_simps tail_block_ok_def\<close>)
    then show ?thesis by blast
  next
    case (Cons a as)
    have dist: "distinct (a # as)" and held: "\<And>x. x \<in> set (a # as) \<Longrightarrow> own x = Held p \<and> cq_blocks s x \<noteq> None"
      using D(4) Cons by (auto simp: blocks_ok_def)
    obtain Bk where Bk: "cq_blocks s a = Some Bk" using held [of a] by auto
    have "blk_next Bk = next_of (cq_blocks s) (g_held ?g ! 0)" using Bk Cons by (simp add: next_of_def)
    then have nx: "blk_next Bk = (if as = [] then None else Some (hd as))" using f(2) Cons unfolding chain_ok_def by (auto simp: hd_conv_nth)
    define s0 where "s0 = add_block_to_free_list a s"
    define s1 where "s1 = goto_p p (Release k (blk_next Bk)) s0"
    have s': "enqueue_step ok n p (cq_ppc s p) s = s1" using f(4) Bk Cons by (simp add: pc release_block_def first_held_def s1_def s0_def)
    have sel: "producers s1 = producers s" "cq_blocks s1 = cq_blocks s0" "cq_cpc s1 = cq_cpc s" "cq_ppc s1 p = Release k (blk_next Bk)"
      by (simp_all add: s1_def s0_def goto_simps)
    have M: "cq_blocks s0 x = cq_blocks s x" "released s a own x = own x" if "x \<noteq> a" for x
      using that by (simp_all add: s0_def released_def add_block_blocks)
    define g' where "g' = ?g\<lparr>g_held := as, g_rev := length as\<rparr>"
    have active: "g_blk ?g x \<noteq> a" if "own (g_blk ?g x) = Active p y" for x y using that held [of a] by auto
    have act: "producer_ok s1 items (released s a own) g' p"
    proof (rule producer_okI, unfold sel)
      show "index_ok ?P g' (nb ?P + inserted (Release k (blk_next Bk)) g')"
      proof -
        have "index_ok ?P ?g (nb ?P)" using D(1) f(3) by (simp add: pc)
        then have "index_ok ?P g' (nb ?P)" by (rule index_ok_frame) (simp_all add: g'_def)
        then show ?thesis by (simp add: g'_def)
      qed
      show "values_ok ?P g' (dirty (Release k (blk_next Bk)))" using D(2) f(3) Cons by (auto simp: values_ok_def g'_def pc)
      show "claims_ok p ?P g' (cq_cpc s)"
        by (rule claims_same [OF D(3)]) (use dq_ok_index [OF _ near(1), where P' = ?P and g' = g' and g = ?g and p = p] in \<open>simp_all add: g'_def\<close>)
      show "blocks_ok p ?P g' (released s a own) (cq_blocks s0) (cq_cpc s)" unfolding blocks_ok_def
      proof (intro conjI allI ballI impI)
        fix x assume x: "x < nb ?P" "x \<notin> g_freed g'"
        then have o: "own (g_blk ?g x) = Active p x" using D(4) by (simp add: blocks_ok_def g'_def)
        have m: "cq_blocks s0 (g_blk ?g x) = cq_blocks s (g_blk ?g x)" "released s a own (g_blk ?g x) = Active p x"
          using M [OF active [OF o]] o by simp_all
        then show "released s a own (g_blk g' x) = Active p x" by (simp add: g'_def)
        show "cq_blocks s0 (g_blk g' x) \<noteq> None" "counter (cq_blocks s0) (g_blk g' x) = card (g_fin g' \<inter> {32 * x ..< 32 * x + 32})"
          using m(1) x D(4) by (simp_all add: g'_def blocks_ok_def counter_def)
        show "\<exists>c. x \<in> victim p (cq_cpc s c)" if "full (g_fin g') x" using that x D(4) by (simp add: g'_def blocks_ok_def)
      next
        fix x assume x: "x \<in> set (g_held g')"
        then have "x \<noteq> a" using dist by (auto simp: g'_def)
        then show "released s a own x = Held p" "cq_blocks s0 x \<noteq> None" using M [of x] held [of x] x by (simp_all add: g'_def)
      qed (use D(4) dist in \<open>auto simp: blocks_ok_def g'_def\<close>)
      have next0: "next_of (cq_blocks s0) x = next_of (cq_blocks s) x" "counter (cq_blocks s0) x = counter (cq_blocks s) x" if "x \<in> set as" for x
      proof -
        have "x \<noteq> a" using that dist by auto
        then show "next_of (cq_blocks s0) x = next_of (cq_blocks s) x" "counter (cq_blocks s0) x = counter (cq_blocks s) x"
          using M(1) by (simp_all add: next_of_def counter_def)
      qed
      show "held_counters g' (cq_blocks s0)" using D(5) Cons next0(2) by (simp add: held_counters_def g'_def)
      show "contents_ok p ?P g' (cq_blocks s0) (cq_cpc s) (items p)"
      proof (rule contents_frame [OF D(6,2,4,3)])
        fix i assume "own (g_blk ?g (i div 32)) = Active p (i div 32)"
        then show "element (cq_blocks s0) (g_blk ?g (i div 32)) i = element (cq_blocks s) (g_blk ?g (i div 32)) i"
          using M(1) [OF active] by (simp add: element_def)
      qed (simp_all add: g'_def)
      have "chain_ok g' (cq_blocks s0)" unfolding chain_ok_def
      proof (intro allI impI)
        fix j assume "j < length (g_held g')"
        then show "next_of (cq_blocks s0) (g_held g' ! j) = (if Suc j < length (g_held g') then Some (g_held g' ! Suc j) else None)"
          using f(2) Cons next0(1) [of "as ! j"] unfolding chain_ok_def by (auto simp: g'_def dest!: spec [of _ "Suc j"])
      qed
      then show "prod_ok ?P g' (released s a own) (cq_blocks s0) p (Release k (blk_next Bk))"
        using f(1) nx by (simp add: g'_def tail_block_ok_def first_held_def)
    qed
    have "pool_ok s1 (released s a own)"
      using add_block_pool [OF queue_invD(2) [OF inv], of a] held [of a] by (simp add: s1_def s0_def goto_simps pool_ok_def)
    then have "queue_inv s1 items (released s a own) (g(p := g'))"
    proof (intro queue_inv_producer [OF inv t [unfolded s'] _ _ _ _ act])
      show "own_step p s s1" using enqueue_step_own [of p s ok n "cq_ppc s p"] by (simp only: s')
      show "cq_blocks s1 x = cq_blocks s x \<and> released s a own x = own x" if "q \<noteq> p" "mine own q x" for q x
        using that M [of x] held [of a] by (cases "x = a") (auto simp: sel mine_def)
    qed simp_all
    then show ?thesis unfolding s' by blast
  qed
qed

text \<open>Every step of a producing thread keeps the invariant.\<close>

lemma publishes_items: "publishes (Publish r) = request_items r"
  by (cases r) simp_all

theorem produce_inv:
  assumes inv: "queue_inv s items own g" and t: "tickets_ok (enqueue_step ok n p (cq_ppc s p) s)"
  shows "\<exists>own g. queue_inv (enqueue_step ok n p (cq_ppc s p) s) (items(p := items p @ publishes (cq_ppc s p))) own g"
proof (cases "cq_ppc s p")
  case (Publish r)
  then show ?thesis using publish_inv [OF inv Publish t] by (simp only: publishes_items)
next
  case (PReady r)
  then show ?thesis using inv by (simp, blast)
next
  case PFault
  then show ?thesis using inv by (simp, blast)
next
  case (LoadHead r)
  then show ?thesis using load_head_inv [OF inv] t by (simp, blast)
next
  case (Insert r)
  then show ?thesis using insert_inv [OF inv] t by (simp, blast)
next
  case (NewIndex r)
  then show ?thesis using new_index_inv [OF inv _ t] by (simp, blast)
next
  case (StoreKey r e u)
  then show ?thesis using store_key_inv [OF inv _ t] by (simp, blast)
next
  case (StoreIndexTail r e u)
  then show ?thesis using store_tail_inv [OF inv _ t] by (simp, blast)
next
  case (PoolLoad r e)
  then show ?thesis using pool_load_inv [OF inv] t by (simp, blast)
next
  case (PoolTake r e)
  then show ?thesis using pool_take_inv [OF inv] t by (simp, blast)
next
  case (FreeGet r e)
  then show ?thesis using free_get_inv [OF inv] t by (simp, blast)
next
  case (Create r e)
  then show ?thesis using create_inv [OF inv] t by (simp, blast)
next
  case (Rewind r e)
  then show ?thesis using rewind_inv [OF inv _ t] by (simp, blast)
next
  case (ClearValue r e)
  then show ?thesis using clear_value_inv [OF inv _ t] by (simp, blast)
next
  case (ResetBlock r e a)
  then show ?thesis using reset_block_inv [OF inv] t by (simp, blast)
next
  case (StoreValue r e a)
  then show ?thesis using store_value_inv [OF inv _ t] by (simp, blast)
next
  case (WriteElement r)
  then show ?thesis using write_element_inv [OF inv] t by (simp, blast)
next
  case (Revert k b)
  then show ?thesis using revert_inv [OF inv _ t] by (simp, blast)
next
  case (RevertTail k b)
  then show ?thesis using revert_tail_inv [OF inv _ t] by (simp, blast)
next
  case (Release k b)
  then show ?thesis using release_inv [OF inv _ t] by simp
qed

end
