(* ===== verification/ConcurrentQueue_Runs.thy ===== *)
theory ConcurrentQueue_Runs
  imports ConcurrentQueue_Enqueue
begin

unbundle bit_operations_syntax

text \<open>
  Runs of the queue. The log of the moves says for each element which consumer moved it; what a
  consumer returns is a piece of what one producer published. All this holds in every state that
  the queue reaches.
\<close>

text \<open>The steps of a consumer that only read, or only touch the tickets.\<close>

fun reading :: "'a cpc \<Rightarrow> bool" where
  "reading (TakeHead p mx my a) = False"
| "reading (MoveElement d) = False"
| "reading (SetEmpty d) = False"
| "reading (Unlink d) = False"
| "reading (FreeBlock d) = False"
| "reading _ = True"

lemma queue_inv_goto:
  assumes inv: "queue_inv s items own g" and t: "tickets_ok (s\<lparr>producers := Ps, cq_cpc := (cq_cpc s)(c := pc)\<rparr>)"
    and P: "\<And>q. same_store (producers s q) (Ps q)"
    and pc: "\<And>q. pending q pc = pending q (cq_cpc s c)" "\<And>q. unread q pc = unread q (cq_cpc s c)" "\<And>q. victim q pc = victim q (cq_cpc s c)"
      "\<And>q. dq_ok (producers s q) (g q) q pc"
  shows "queue_inv (s\<lparr>producers := Ps, cq_cpc := (cq_cpc s)(c := pc)\<rparr>) items own g"
  by (rule queue_inv_quiet [OF inv t]) (use P pc in simp_all)

lemma reading_step:
  assumes inv: "queue_inv s items own g" and t: "tickets_ok (dequeue_step c (cq_cpc s c) s)" and r: "reading (cq_cpc s c)"
  shows "\<exists>Ps pc. dequeue_step c (cq_cpc s c) s = s\<lparr>producers := Ps, cq_cpc := (cq_cpc s)(c := pc)\<rparr> \<and> (\<forall>q. same_store (producers s q) (Ps q)) \<and>
    (\<forall>q. pending q pc = pending q (cq_cpc s c) \<and> unread q pc = unread q (cq_cpc s c) \<and> victim q pc = victim q (cq_cpc s c) \<and>
      dq_ok (producers s q) (g q) q pc)" (is "\<exists>Ps pc. ?Q Ps pc")
proof -
  note D = producer_okD [OF queue_invD(1) [OF inv]]
  note near = queue_inv_near(3) [OF inv]
  show ?thesis
  proof (cases "cq_cpc s c")
    case (LoadIndex d)
    let ?p = "dq_producer d"
    have "dq_ok (producers s ?p) (g ?p) ?p (LoadIndex d)" using claims_okD(4) [OF D(3), of ?p c] by (simp add: LoadIndex)
    then obtain h where h: "blockIndex (producers s ?p) = Some h" "dq_ok (producers s ?p) (g ?p) ?p (LoadIndexTail (d\<lparr>dq_header := h\<rparr>))"
      by (rule load_index_ok [OF D(1,2) near _ refl])
    have "?Q (producers s) (LoadIndexTail (d\<lparr>dq_header := h\<rparr>))" using h by (auto simp: LoadIndex dq_P_def goto_simps last_index_def)
    then show ?thesis by blast
  next
    case (LoadIndexTail d)
    let ?p = "dq_producer d"
    have "dq_ok (producers s ?p) (g ?p) ?p (LoadIndexTail d)" using claims_okD(4) [OF D(3), of ?p c] by (simp add: LoadIndexTail)
    then have "dq_ok (producers s ?p) (g ?p) ?p (LoadKey d (bih_tail (ip_headers (producers s ?p) ! dq_header d)))"
      by (intro load_index_tail_ok [OF D(1) _ near _ refl]) simp_all
    then have "?Q (producers s) (LoadKey d (bih_tail (dq_H s d)))" by (auto simp: LoadIndexTail dq_H_def dq_P_def goto_simps)
    then show ?thesis by blast
  next
    case (LoadKey d u)
    note k = load_key_ok [OF D(1,2,4,3) near LoadKey refl]
    define pc where "pc = LoadBlock (d\<lparr>dq_indexIndex := index_index (dq_firstIndex d) u (bie_key (ip_entries (producers s (dq_producer d)) !
      (bih_index (ip_headers (producers s (dq_producer d)) ! dq_header d) ! unat u))) (bih_capacity (ip_headers (producers s (dq_producer d)) ! dq_header d))\<rparr>)"
    have "?Q (producers s) pc" using k unfolding pc_def by (auto simp: LoadKey load_key_def dq_P_def dq_H_def goto_simps Let_def last_index_def)
    then show ?thesis by blast
  next
    case (LoadBlock d)
    note k = load_block_ok [OF D(1,2,4,3) near LoadBlock refl]
    let ?p = "dq_producer d"
    define pc where "pc = MoveElement (d\<lparr>dq_blockStartIndex := dq_index d, dq_endIndex := end_index d, dq_block := g_blk (g ?p) (unat (dq_index d) div 32)\<rparr>)"
    have "dequeue_step c (cq_cpc s c) s = s\<lparr>producers := producers s, cq_cpc := (cq_cpc s)(c := pc)\<rparr>"
      using k(1,2) by (simp add: LoadBlock load_block_def dq_entry_def dq_P_def dq_H_def goto_simps pc_def)
    moreover have "dq_ok (producers s q) (g q) q pc" for q
      using k(3) by (cases "q = ?p") (simp_all add: pc_def)
    moreover have "pending q pc = pending q (cq_cpc s c) \<and> unread q pc = unread q (cq_cpc s c) \<and> victim q pc = victim q (cq_cpc s c)" for q
      by (simp add: LoadBlock pc_def last_index_def)
    ultimately have "?Q (producers s) pc" by simp
    then show ?thesis by blast
  next
    case (CReady out)
    have "?Q (producers s) (CReady out)" by (simp add: CReady fun_upd_idem)
    then show ?thesis by blast
  next
    case CFault
    then show ?thesis using claims_okD(4) [OF D(3), of 0 c] by simp
  next
    case (LoadTail p mx)
    have "?Q (producers s) (LoadOvercommit p mx (tailIndex (producers s p)))" by (simp add: LoadTail goto_simps)
    then show ?thesis by blast
  next
    case (LoadOvercommit p mx tail)
    have "?Q (producers s) (LoadOptimistic p mx tail (dequeueOvercommit (producers s p)))" by (simp add: LoadOvercommit goto_simps)
    then show ?thesis by blast
  next
    case (LoadOptimistic p mx tail over)
    have "?Q (producers s) (case wanted mx tail over (dequeueOptimisticCount (producers s p)) of
         None \<Rightarrow> CReady [] | Some desired \<Rightarrow> TakeTickets p mx desired over)" by (simp add: LoadOptimistic goto_simps split: option.split)
    then show ?thesis by blast
  next
    case (TakeTickets p mx desired over)
    have "?Q ((producers s)(p := (producers s p)\<lparr>dequeueOptimisticCount := dequeueOptimisticCount (producers s p) + desired\<rparr>))
        (ReloadTail p mx desired over (dequeueOptimisticCount (producers s p)))" by (simp add: TakeTickets goto_simps same_store_def)
    then show ?thesis by blast
  next
    case (ReloadTail p mx desired over my)
    have "?Q (producers s) (case granted mx desired (tailIndex (producers s p)) over my of
         None \<Rightarrow> GiveBack p my desired
       | Some actual \<Rightarrow> if actual < desired then AddOvercommit p mx my desired actual else TakeHead p mx my actual)"
      by (simp add: ReloadTail goto_simps split: option.split)
    then show ?thesis by blast
  next
    case (AddOvercommit p mx my desired actual)
    have "?Q ((producers s)(p := (producers s p)\<lparr>dequeueOvercommit := dequeueOvercommit (producers s p) + (desired - actual)\<rparr>))
        (TakeHead p mx my actual)" by (simp add: AddOvercommit goto_simps same_store_def)
    then show ?thesis by blast
  next
    case (GiveBack p my desired)
    have "?Q ((producers s)(p := (producers s p)\<lparr>dequeueOvercommit := dequeueOvercommit (producers s p) + desired\<rparr>)) (CReady [])"
      by (simp add: GiveBack goto_simps same_store_def)
    then show ?thesis by blast
  qed (use r in simp_all)
qed

lemma reading_delivers: "reading pc \<Longrightarrow> delivers c pc s = []"
  by (cases pc) simp_all

theorem consume_inv:
  assumes inv: "queue_inv s items own g" and t: "tickets_ok (dequeue_step c (cq_cpc s c) s)"
  shows "\<exists>own g. queue_inv (dequeue_step c (cq_cpc s c) s) items own g"
proof (cases "reading (cq_cpc s c)")
  case True
  from reading_step [OF inv t True] obtain Ps pc where
    "dequeue_step c (cq_cpc s c) s = s\<lparr>producers := Ps, cq_cpc := (cq_cpc s)(c := pc)\<rparr>" "\<And>q. same_store (producers s q) (Ps q)"
    "\<And>q. pending q pc = pending q (cq_cpc s c) \<and> unread q pc = unread q (cq_cpc s c) \<and> victim q pc = victim q (cq_cpc s c) \<and>
      dq_ok (producers s q) (g q) q pc" by blast
  then show ?thesis using queue_inv_goto [OF inv, where Ps = Ps and c = c and pc = pc] t by auto
next
  case False
  then show ?thesis
    using take_head_step [OF inv _ t] move_element_step(1) [OF inv _ t] set_empty_step(1) [OF inv _ t] unlink_step(1) [OF inv _ t]
      free_block_step(1) [OF inv _ t]
    by (cases "cq_cpc s c") (simp_all only: reading.simps simp_thms, blast+)
qed

section \<open>The log of the moves\<close>

text \<open>
  \<open>hd p\<close> is the number of indices taken from producer \<open>p\<close>, \<open>un p c\<close> those that consumer \<open>c\<close> took and
  did not move yet.
\<close>

definition log_ok :: "(nat \<Rightarrow> nat) \<Rightarrow> (nat \<Rightarrow> nat \<Rightarrow> nat set) \<Rightarrow> (nat \<Rightarrow> 'a list) \<Rightarrow> (nat \<times> nat \<times> nat \<times> 'a) list \<Rightarrow> bool" where
  "log_ok head un pub L \<longleftrightarrow>
     (\<forall>(c, p, i, x) \<in> set L. i < head p \<and> i < length (pub p) \<and> x = pub p ! i \<and> (\<forall>j \<in> un p c. i < j) \<and> (\<forall>c'. i \<notin> un p c')) \<and>
     distinct (map (\<lambda>(c, p, i, x). (p, i)) L) \<and>
     (\<forall>p i. i < head p \<longrightarrow> (\<exists>c x. (c, p, i, x) \<in> set L) \<or> (\<exists>c. i \<in> un p c)) \<and>
     sorted_wrt (\<lambda>(c, p, i, x) (c', p', j, y). c = c' \<and> p = p' \<longrightarrow> i < j) L"

lemma log_okD:
  assumes "log_ok head un pub L" "(c, p, i, x) \<in> set L"
  shows "i < head p" "i < length (pub p)" "x = pub p ! i" "j \<in> un p c \<Longrightarrow> i < j" "i \<notin> un p c'"
  using assms unfolding log_ok_def by (auto dest!: bspec)

lemma log_ok_cover: "log_ok head un pub L \<Longrightarrow> i < head p \<Longrightarrow> (\<exists>c x. (c, p, i, x) \<in> set L) \<or> (\<exists>c. i \<in> un p c)"
  unfolding log_ok_def by (elim conjE) blast

lemma log_okI:
  assumes "\<And>c p i x. (c, p, i, x) \<in> set L \<Longrightarrow> i < head p \<and> i < length (pub p) \<and> x = pub p ! i \<and> (\<forall>j \<in> un p c. i < j) \<and> (\<forall>c'. i \<notin> un p c')"
    "distinct (map (\<lambda>(c, p, i, x). (p, i)) L)" "\<And>p i. i < head p \<Longrightarrow> (\<exists>c x. (c, p, i, x) \<in> set L) \<or> (\<exists>c. i \<in> un p c)"
    "sorted_wrt (\<lambda>(c, p, i, x) (c', p', j, y). c = c' \<and> p = p' \<longrightarrow> i < j) L"
  shows "log_ok head un pub L"
  unfolding log_ok_def using assms by (auto simp: case_prod_beta)

lemma log_ok_publish:
  assumes "log_ok head un pub L"
  shows "log_ok head un (pub(p := pub p @ xs)) L"
  using assms by (intro log_okI) (auto dest: log_okD simp: log_ok_def nth_append trans_less_add1)

lemma log_ok_take:
  assumes ok: "log_ok head un pub L" and none: "un p c = {}"
  shows "log_ok (head(p := head p + n)) (un(p := (un p)(c := {head p ..< head p + n}))) pub L"
proof (rule log_okI)
  fix c' q i x assume "(c', q, i, x) \<in> set L"
  note d = log_okD [OF ok this]
  show "i < (head(p := head p + n)) q \<and> i < length (pub q) \<and> x = pub q ! i \<and>
      (\<forall>j \<in> (un(p := (un p)(c := {head p ..< head p + n}))) q c'. i < j) \<and> (\<forall>c''. i \<notin> (un(p := (un p)(c := {head p ..< head p + n}))) q c'')"
    using d by (cases "q = p") (auto split: if_splits)
next
  fix q i assume i: "i < (head(p := head p + n)) q"
  show "(\<exists>c x. (c, q, i, x) \<in> set L) \<or> (\<exists>c'. i \<in> (un(p := (un p)(c := {head p ..< head p + n}))) q c')"
  proof (cases "q = p \<and> head p \<le> i")
    case True
    then show ?thesis using i by (auto intro!: exI [of _ c])
  next
    case False
    then have "i < head q" using i by (auto split: if_splits)
    from log_ok_cover [OF ok this] consider c' x where "(c', q, i, x) \<in> set L" | c' where "i \<in> un q c'" by blast
    then show ?thesis
    proof cases
      case 2
      then have "q \<noteq> p \<or> c' \<noteq> c" using none by auto
      then have "i \<in> (un(p := (un p)(c := {head p ..< head p + n}))) q c'" using 2 by auto
      then show ?thesis by blast
    qed blast
  qed
qed (use ok in \<open>simp_all add: log_ok_def\<close>)

lemma log_ok_deliver:
  assumes ok: "log_ok head un pub L" and i: "i \<in> un p c" "i < head p" "i < length (pub p)"
    and first: "\<And>j. j \<in> un p c \<Longrightarrow> i \<le> j" and other: "\<And>c'. c' \<noteq> c \<Longrightarrow> i \<notin> un p c'"
  shows "log_ok head (un(p := (un p)(c := un p c - {i}))) pub (L @ [(c, p, i, pub p ! i)])"
proof (rule log_okI)
  let ?un = "un(p := (un p)(c := un p c - {i}))"
  have sub: "?un q c' \<subseteq> un q c'" for q c' by auto
  fix c' q k x assume k: "(c', q, k, x) \<in> set (L @ [(c, p, i, pub p ! i)])"
  show "k < head q \<and> k < length (pub q) \<and> x = pub q ! k \<and> (\<forall>j \<in> ?un q c'. k < j) \<and> (\<forall>c''. k \<notin> ?un q c'')"
  proof (cases "(c', q, k, x) \<in> set L")
    case True
    show ?thesis using log_okD [OF ok True] sub by blast
  next
    case False
    then have "c' = c" "q = p" "k = i" "x = pub p ! i" using k by auto
    moreover have "i < j" if "j \<in> un p c - {i}" for j using first [of j] that by auto
    moreover have "i \<notin> ?un p c''" for c'' using other [of c''] by (cases "c'' = c") auto
    ultimately show ?thesis using i by auto
  qed
next
  show "distinct (map (\<lambda>(c, p, i, x). (p, i)) (L @ [(c, p, i, pub p ! i)]))"
    using ok log_okD(5) [OF ok _, of _ p i _ c] i(1) by (auto simp: log_ok_def)
next
  fix q k assume "k < head q"
  from log_ok_cover [OF ok this] consider c' x where "(c', q, k, x) \<in> set L" | c' where "k \<in> un q c'" by blast
  then show "(\<exists>c' x. (c', q, k, x) \<in> set (L @ [(c, p, i, pub p ! i)])) \<or> (\<exists>c'. k \<in> (un(p := (un p)(c := un p c - {i}))) q c')"
  proof cases
    case 2
    then have "q = p \<and> k = i \<or> k \<in> (un(p := (un p)(c := un p c - {i}))) q c'" using other [of c'] by (cases "c' = c") auto
    then show ?thesis by (metis in_set_conv_decomp)
  qed auto
next
  show "sorted_wrt (\<lambda>(c, p, i, x) (c', p', j, y). c = c' \<and> p = p' \<longrightarrow> i < j) (L @ [(c, p, i, pub p ! i)])"
    using ok log_okD(4) [OF ok _ i(1)] by (auto simp: log_ok_def sorted_wrt_append)
qed

section \<open>Results\<close>

text \<open>What a consumer moved out so far is a contiguous piece of what the producer published.\<close>

definition piece :: "'a list \<Rightarrow> nat \<Rightarrow> nat \<Rightarrow> 'a list \<Rightarrow> bool" where
  "piece xs i j out \<longleftrightarrow> i \<le> j \<and> j \<le> length xs \<and> out = drop i (take j xs)"

lemma piece_publish: "piece xs i j out \<Longrightarrow> piece (xs @ ys) i j out"
  by (auto simp: piece_def)

lemma piece_more: "piece xs i j out \<Longrightarrow> j < length xs \<Longrightarrow> piece xs i (Suc j) (out @ [xs ! j])"
  by (auto simp: piece_def take_Suc_conv_app_nth)

lemma piece_none: "i \<le> length xs \<Longrightarrow> piece xs i i []"
  by (simp add: piece_def)

fun result_ok :: "(nat \<Rightarrow> 'a list) \<Rightarrow> 'a cpc \<Rightarrow> bool" where
  "result_ok pub (CReady out) \<longleftrightarrow> (\<exists>p i j. piece (pub p) i j out)"
| "result_ok pub (LoadIndex d) \<longleftrightarrow> piece (pub (dq_producer d)) (unat (dq_firstIndex d)) (unat (dq_index d)) (dq_out d)"
| "result_ok pub (LoadIndexTail d) \<longleftrightarrow> piece (pub (dq_producer d)) (unat (dq_firstIndex d)) (unat (dq_index d)) (dq_out d)"
| "result_ok pub (LoadKey d t) \<longleftrightarrow> piece (pub (dq_producer d)) (unat (dq_firstIndex d)) (unat (dq_index d)) (dq_out d)"
| "result_ok pub (LoadBlock d) \<longleftrightarrow> piece (pub (dq_producer d)) (unat (dq_firstIndex d)) (unat (dq_index d)) (dq_out d)"
| "result_ok pub (MoveElement d) \<longleftrightarrow> piece (pub (dq_producer d)) (unat (dq_firstIndex d)) (unat (dq_index d)) (dq_out d)"
| "result_ok pub (SetEmpty d) \<longleftrightarrow> piece (pub (dq_producer d)) (unat (dq_firstIndex d)) (unat (dq_index d)) (dq_out d)"
| "result_ok pub (Unlink d) \<longleftrightarrow> piece (pub (dq_producer d)) (unat (dq_firstIndex d)) (unat (dq_index d)) (dq_out d)"
| "result_ok pub (FreeBlock d) \<longleftrightarrow> piece (pub (dq_producer d)) (unat (dq_firstIndex d)) (unat (dq_index d)) (dq_out d)"
| "result_ok pub _ \<longleftrightarrow> True"

lemma result_ok_publish: "result_ok pub pc \<Longrightarrow> result_ok (pub(p := pub p @ xs)) pc"
  by (cases pc) (auto intro: piece_publish, metis fun_upd_apply piece_publish)

lemma piece_empty [simp]: "\<exists>p i j. piece (pub p) i j []" for pub :: "nat \<Rightarrow> 'a list"
  by (intro exI [of _ 0]) (simp add: piece_def)

lemma result_ok_next: "piece (pub (dq_producer d)) (unat (dq_firstIndex d)) (unat (dq_index d)) (dq_out d) \<Longrightarrow> result_ok pub (next_block s d)"
  by (auto simp: next_block_def)

lemma result_ok_consume:
  assumes inv: "queue_inv s items own g" and r: "result_ok items (cq_cpc s c)" and t: "tickets_ok (dequeue_step c (cq_cpc s c) s)"
  shows "result_ok items (cq_cpc (dequeue_step c (cq_cpc s c) s) c)"
proof (cases "cq_cpc s c")
  case (TakeHead p mx my a)
  have "unat (headIndex (producers s p)) \<le> length (items p)"
    using producer_okD(6) [OF queue_invD(1) [OF inv, of p]] queue_inv_near(1) [OF inv, of p] by (simp add: contents_ok_def)
  then show ?thesis by (simp add: TakeHead goto_simps Let_def piece_none)
next
  case (MoveElement d)
  let ?p = "dq_producer d" let ?i = "unat (dq_index d)"
  note m = move_element_step [OF inv MoveElement t]
  have "dq_ok (producers s ?p) (g ?p) ?p (MoveElement d)"
    using claims_okD(4) [OF producer_okD(3) [OF queue_invD(1) [OF inv, of ?p]], of c] by (simp add: MoveElement)
  then have "?i < last_index d" "last_index d \<le> unat (headIndex (producers s ?p))" by (auto simp: taken_ok_def in_block_def Let_def)
  then have i: "?i < length (items ?p)" "?i < 2 ^ 62"
    using producer_okD(6) [OF queue_invD(1) [OF inv, of ?p]] queue_inv_near(1,2) [OF inv, of ?p] by (simp_all add: contents_ok_def)
  then have u: "unat (dq_index d + 1) = Suc ?i" by (subst unat_plus) simp_all
  obtain x where x: "Option.bind (cq_blocks s (dq_block d)) (\<lambda>B. get_el B (dq_index d)) = Some x" "x = items ?p ! ?i"
    using m(2) by (auto simp: MoveElement split: option.splits)
  have "piece (items ?p) (unat (dq_firstIndex d)) (Suc ?i) (dq_out d @ [x])" using piece_more i(1) r by (simp add: MoveElement x(2))
  then show ?thesis using x(1) u by (auto simp: MoveElement move_element_def goto_simps Let_def)
next
  case (SetEmpty d)
  then show ?thesis using r result_ok_next [of items d]
    by (auto simp: mark_empty_def goto_simps Let_def split: option.split)
qed (use r result_ok_next in \<open>auto simp: load_key_def load_block_def goto_simps Let_def split: option.split\<close>)

section \<open>The initial state\<close>

definition initial_ghost :: ghost where
  "initial_ghost = \<lparr>g_ent = \<lambda>_. 0, g_blk = \<lambda>_. 0, g_keyed = 0, g_low = 0, g_hi = \<lambda>_. 0, g_off = \<lambda>_. 0,
     g_fin = {}, g_unlinked = {}, g_freed = {}, g_held = [], g_rev = 0\<rparr>"

lemma initial_index: "index_ok (new_ImplicitProducer ok junk) initial_ghost 0"
proof (cases ok)
  case True
  have c: "IMPLICIT_INITIAL_INDEX_SIZE = 2 ^ 5" by (simp add: IMPLICIT_INITIAL_INDEX_SIZE_def)
  have P: "blockIndex (new_ImplicitProducer ok junk) = Some 0" "nextBlockIndexCapacity (new_ImplicitProducer ok junk) = 64"
    "ip_headers (new_ImplicitProducer ok junk) = [\<lparr>bih_capacity = 2 ^ 5, bih_tail = 31, bih_index = [0 ..< 32], bih_prev = None\<rparr>]"
    "ip_entries (new_ImplicitProducer ok junk) = replicate 32 \<lparr>bie_key = INVALID_BLOCK_BASE, bie_value = junk\<rparr>"
    using True by (simp_all add: new_ImplicitProducer_def new_block_index_def Let_def IMPLICIT_INITIAL_INDEX_SIZE_def push_bit_of_1)
  have sl: "unat (slot (new_ImplicitProducer ok junk) initial_ghost 0 b) = b" if "b < 32" for b
    using ring_unat [of 5 0 b] that by (simp add: slot_def P initial_ghost_def)
  have tail: "ring (0 - 1) (2 ^ 5) 0 = 31" by (simp add: ring_def)
  have "header_ok (new_ImplicitProducer ok junk) initial_ghost 0"
    unfolding header_ok_def Let_def by (simp add: P initial_ghost_def) (rule exI [of _ 5], simp)
  moreover have "current_ok (new_ImplicitProducer ok junk) initial_ghost 0 0"
    unfolding current_ok_def Let_def using sl tail by (simp add: P) (simp add: initial_ghost_def)
  ultimately show ?thesis by (simp add: index_ok_def P) (simp add: initial_ghost_def)
next
  case False
  then show ?thesis by (simp add: index_ok_def new_ImplicitProducer_def initial_ghost_def Let_def)
qed

lemma initial_counters [simp]:
  "tailIndex (new_ImplicitProducer ok junk) = 0" "headIndex (new_ImplicitProducer ok junk) = 0"
  "dequeueOptimisticCount (new_ImplicitProducer ok junk) = 0" "dequeueOvercommit (new_ImplicitProducer ok junk) = 0"
  by (simp_all add: new_ImplicitProducer_def new_block_index_def Let_def)

lemma initial_inv:
  "queue_inv (new_ConcurrentQueue cap pool ok junk :: 'a CQ) (\<lambda>_. []) (\<lambda>_. Unused) (\<lambda>_. initial_ghost)"
proof -
  let ?s = "new_ConcurrentQueue cap pool ok junk :: 'a CQ"
  have sel: "producers ?s p = new_ImplicitProducer (ok p) junk" "cq_ppc ?s p = PReady None" "cq_cpc ?s c = CReady []" "freeList ?s = []"
    "initialBlockPoolIndex ?s = 0" "cq_blocks ?s = populate_initial_block_list (initialBlockPoolSize ?s)" for p c
    by (simp_all add: new_ConcurrentQueue_def Let_def)
  have "tickets_inv p (producers ?s p) (cq_cpc ?s) {} {} {}" for p by (simp add: tickets_inv_def sel tickets_def)
  then have "tickets_ok ?s" unfolding tickets_ok_def by (auto simp: within_range_def started_def sel)
  moreover have "pool_ok ?s (\<lambda>_. Unused)" by (simp add: pool_ok_def sel populate_initial_block_list_def)
  moreover have "producer_ok ?s (\<lambda>_. []) (\<lambda>_. Unused) initial_ghost p" for p
  proof (rule producer_okI)
    show "index_ok (producers ?s p) initial_ghost (nb (producers ?s p) + inserted (cq_ppc ?s p) initial_ghost)"
      using initial_index [of "ok p" junk] by (simp add: sel nblk_def) (simp add: initial_ghost_def)
  qed (simp_all add: sel values_ok_def claims_ok_def blocks_ok_def held_counters_def contents_ok_def nblk_def initial_ghost_def tail_block_ok_def)
  ultimately show ?thesis by (simp add: queue_inv_def)
qed

section \<open>Runs\<close>

definition heads :: "'a CQ \<Rightarrow> nat \<Rightarrow> nat" where
  "heads s p = unat (headIndex (producers s p))"

definition unreads :: "'a CQ \<Rightarrow> nat \<Rightarrow> nat \<Rightarrow> nat set" where
  "unreads s p c = unread p (cq_cpc s c)"

definition run_ok :: "'a CQ \<Rightarrow> 'a history \<Rightarrow> bool" where
  "run_ok s h \<longleftrightarrow> (\<exists>own g. queue_inv s (published h) own g) \<and> log_ok (heads s) (unreads s) (published h) (delivered h) \<and>
     (\<forall>c. result_ok (published h) (cq_cpc s c))"

lemma own_heads: "own_step p s s' \<Longrightarrow> heads s' = heads s \<and> unreads s' = unreads s"
  using own_step_others [of p s s'] by (simp add: heads_def unreads_def fun_eq_iff same_counters_def)

lemma consume_log:
  assumes inv: "queue_inv s items own g" and t: "tickets_ok (dequeue_step c (cq_cpc s c) s)" and ok: "log_ok (heads s) (unreads s) items L"
  shows "log_ok (heads (dequeue_step c (cq_cpc s c) s)) (unreads (dequeue_step c (cq_cpc s c) s)) items (L @ delivers c (cq_cpc s c) s)"
proof -
  let ?s = "dequeue_step c (cq_cpc s c) s"
  have other: "cq_cpc ?s c' = cq_cpc s c'" if "c' \<noteq> c" for c'
    using that by (cases "cq_cpc s c") (auto simp: load_key_def load_block_def move_element_def mark_empty_def goto_simps Let_def split: option.split)
  have same: ?thesis if "heads ?s = heads s" "\<And>q. unread q (cq_cpc ?s c) = unread q (cq_cpc s c)" "delivers c (cq_cpc s c) s = []"
  proof -
    have "unreads ?s q c' = unreads s q c'" for q c' using that(2) other [of c'] by (cases "c' = c") (simp_all add: unreads_def)
    then have "unreads ?s = unreads s" by blast
    then show ?thesis using that(1,3) ok by simp
  qed
  show ?thesis
  proof (cases "reading (cq_cpc s c)")
    case True
    from reading_step [OF inv t True] obtain Ps pc where
      e: "?s = s\<lparr>producers := Ps, cq_cpc := (cq_cpc s)(c := pc)\<rparr>" "\<And>q. same_store (producers s q) (Ps q)"
      "\<And>q. unread q pc = unread q (cq_cpc s c)" by blast
    show ?thesis
      by (rule same) (use e same_storeD(2) [OF e(2)] reading_delivers [OF True] in \<open>simp_all add: heads_def fun_eq_iff\<close>)
  next
    case False
    then consider p mx my a where "cq_cpc s c = TakeHead p mx my a" | d where "cq_cpc s c = MoveElement d"
      | d where "cq_cpc s c = SetEmpty d \<or> cq_cpc s c = Unlink d \<or> cq_cpc s c = FreeBlock d" by (cases "cq_cpc s c") auto
    then show ?thesis
    proof cases
      case (1 p mx my a)
      have "tickets_ok s" using inv by (simp add: queue_inv_def)
      then obtain F A S where "tickets_inv p (producers s p) (cq_cpc s) F A S" unfolding tickets_ok_def by blast
      from head_below_tail [OF this, of c] have "unat (headIndex (producers s p)) + unat a \<le> unat (tailIndex (producers s p))" by (simp add: 1)
      then have u: "unat (headIndex (producers s p) + a) = unat (headIndex (producers s p)) + unat a"
        using queue_inv_near(2) [OF inv, of p] by (intro unat_plus) simp
      have "heads ?s = (heads s)(p := heads s p + unat a)" using u by (simp add: fun_eq_iff heads_def 1 goto_simps Let_def)
      moreover have "unreads ?s = (unreads s)(p := (unreads s p)(c := {heads s p ..< heads s p + unat a}))"
        by (auto simp: fun_eq_iff unreads_def heads_def 1 goto_simps Let_def last_index_def)
      moreover have "unreads s p c = {}" by (simp add: unreads_def 1)
      ultimately show ?thesis using log_ok_take [OF ok, of p c "unat a"] by (simp add: 1)
    next
      case (2 d)
      let ?p = "dq_producer d" let ?i = "unat (dq_index d)"
      note m = move_element_step [OF inv 2 t]
      note cl = producer_okD(3,6) [OF queue_invD(1) [OF inv, of ?p]]
      have i: "?i \<in> unreads s ?p c" using m(4) by (simp add: unreads_def)
      have up: "unreads s ?p c' \<subseteq> pending ?p (cq_cpc s c')" for c' using unread_pending [OF claims_okD(4) [OF cl(1)]] by (simp add: unreads_def)
      then have hd: "?i < heads s ?p" using i claims_okD(3) [OF cl(1), of c] by (auto simp: heads_def)
      have "heads ?s = heads s"
        by (auto simp: fun_eq_iff heads_def 2 move_element_def goto_simps Let_def split: option.split)
      moreover have "unreads ?s = (unreads s)(?p := (unreads s ?p)(c := unreads s ?p c - {?i}))"
      proof (intro ext)
        fix q c'
        show "unreads ?s q c' = ((unreads s)(?p := (unreads s ?p)(c := unreads s ?p c - {?i}))) q c'"
        proof (cases "c' = c")
          case True
          have "unread q (cq_cpc ?s c) = {}" "unread q (cq_cpc s c) = {}" if "q \<noteq> ?p"
            using that by (auto simp: 2 move_element_def goto_simps Let_def split: option.split)
          then show ?thesis using m(3) True by (cases "q = ?p") (simp_all add: unreads_def)
        next
          case False
          then show ?thesis using other [of c'] by (simp add: unreads_def)
        qed
      qed
      moreover have "?i \<le> j" if "j \<in> unreads s ?p c" for j using that by (simp add: unreads_def 2)
      moreover have "?i \<notin> unreads s ?p c'" if "c' \<noteq> c" for c'
        using up [of c] up [of c'] i claims_okD(5) [OF cl(1) that] by blast
      moreover have "?i < length (items ?p)" using hd cl(2) queue_inv_near(1) [OF inv, of ?p] by (simp add: contents_ok_def heads_def)
      ultimately show ?thesis using log_ok_deliver [OF ok i hd] m(2) by simp
    next
      case (3 d)
      have "heads ?s = heads s" using 3
        by (auto simp: fun_eq_iff heads_def mark_empty_def goto_simps Let_def set_entry_def split: option.split)
      moreover have "unread q (cq_cpc ?s c) = unread q (cq_cpc s c)" for q
        using 3 set_empty_step(2) [OF inv _ t] unlink_step(2) [OF inv _ t] free_block_step(2) [OF inv _ t] by blast
      ultimately show ?thesis using 3 by (intro same) auto
    qed
  qed
qed

lemma call_dequeue_inv:
  assumes inv: "queue_inv s items own g" and c: "cq_cpc s c = CReady out" and t: "tickets_ok (goto_c c (LoadTail p mx) s)"
  shows "queue_inv (goto_c c (LoadTail p mx) s) items own g"
  using queue_inv_goto [OF inv, where Ps = "producers s" and c = c and pc = "LoadTail p mx"] t by (simp add: goto_simps c)

lemma run_step:
  assumes "cq_step sh th" and "run_ok (fst sh) (snd sh)" and "within_range (fst th)"
  shows "run_ok (fst th) (snd th)"
proof -
  obtain own g where inv: "queue_inv (fst sh) (published (snd sh)) own g" using assms(2) by (auto simp: run_ok_def)
  then have t: "tickets_ok (fst th)" using tickets_step [OF assms(1) _ assms(3)] by (simp add: queue_inv_def)
  have log: "log_ok (heads (fst sh)) (unreads (fst sh)) (published (snd sh)) (delivered (snd sh))"
    and res: "\<And>c. result_ok (published (snd sh)) (cq_cpc (fst sh) c)" using assms(2) by (auto simp: run_ok_def)
  from assms(1) show ?thesis
  proof cases
    case (call_enqueue s p r h x)
    have "queue_inv (enqueue_begin p x s) (published h) own g"
      using enqueue_begin_inv [of s "published h" own g p r x] inv t call_enqueue by simp
    then show ?thesis using log res own_heads [OF begin_own(1) [of p s x]] own_step_others(1) [OF begin_own(1) [of p s x]] call_enqueue
      unfolding run_ok_def by auto
  next
    case (call_enqueue_bulk s p r xs h)
    have "queue_inv (enqueue_bulk_begin p xs s) (published h) own g"
      using enqueue_bulk_begin_inv [of s "published h" own g p r xs] inv t call_enqueue_bulk by simp
    then show ?thesis using log res own_heads [OF begin_own(2) [of p s xs]] own_step_others(1) [OF begin_own(2) [of p s xs]] call_enqueue_bulk
      unfolding run_ok_def by auto
  next
    case (produce s h ok n p)
    note o = own_heads [OF enqueue_step_own [of p s ok n "cq_ppc s p"]] own_step_others(1) [OF enqueue_step_own [of p s ok n "cq_ppc s p"]]
    have "\<exists>own g. queue_inv (enqueue_step ok n p (cq_ppc s p) s) ((published h)(p := published h p @ publishes (cq_ppc s p))) own g"
      using produce_inv [of s "published h" own g ok n p] inv t produce by simp
    then show ?thesis using log_ok_publish [of _ _ _ "delivered h" p "publishes (cq_ppc s p)"] log res result_ok_publish [of "published h" _ p] o produce
      unfolding run_ok_def by auto
  next
    case (call_dequeue s c out mx h p)
    have "queue_inv (goto_c c (LoadTail p mx) s) (published h) own g"
      using call_dequeue_inv [of s "published h" own g c out p mx] inv t call_dequeue by simp
    moreover have "heads (goto_c c (LoadTail p mx) s) = heads s" "unreads (goto_c c (LoadTail p mx) s) = unreads s"
      using call_dequeue(3) by (auto simp: heads_def unreads_def goto_simps fun_eq_iff)
    ultimately show ?thesis using log res call_dequeue unfolding run_ok_def by (auto simp: goto_simps)
  next
    case (consume s h c)
    let ?s = "dequeue_step c (cq_cpc s c) s"
    have inv: "queue_inv s (published h) own g" and t: "tickets_ok ?s" using inv t consume by simp_all
    have "result_ok (published h) (cq_cpc ?s c')" for c'
    proof (cases "c' = c")
      case True
      then show ?thesis using result_ok_consume [OF inv _ t] res consume by simp
    next
      case False
      then have "cq_cpc ?s c' = cq_cpc s c'"
        by (cases "cq_cpc s c") (auto simp: load_key_def load_block_def move_element_def mark_empty_def goto_simps Let_def split: option.split)
      then show ?thesis using res [of c'] consume by simp
    qed
    then show ?thesis using consume_inv [OF inv t] consume_log [OF inv t] log consume unfolding run_ok_def by auto
  qed
qed

theorem queue_run:
  fixes sh :: "'a CQ \<times> 'a history"
  assumes "cq_run (new_ConcurrentQueue cap pool ok junk, no_history) sh"
  shows "run_ok (fst sh) (snd sh)"
  using assms
proof (induction "(new_ConcurrentQueue cap pool ok junk, no_history) :: 'a CQ \<times> 'a history" sh rule: cq_run.induct)
  case cq_refl
  let ?s = "new_ConcurrentQueue cap pool ok junk :: 'a CQ"
  have "heads ?s p = 0" "cq_cpc ?s c = CReady []" for p c by (simp_all add: heads_def new_ConcurrentQueue_def Let_def)
  then show ?case using initial_inv [of cap pool ok junk, where 'a = 'a] unfolding run_ok_def by (auto simp: no_history_def log_ok_def piece_def)
next
  case (cq_more t u)
  then show ?case using run_step by blast
qed

end
