(* ===== verification/ConcurrentQueue_Progress.thy ===== *)
theory ConcurrentQueue_Progress
  imports ConcurrentQueue_Runs
begin

text \<open>
  A dequeue while no other consumer is active: its steps come to an end, after a number of steps that
  is linear in the number of elements, and it returns the elements that are next in the queue.
\<close>

section \<open>A dequeue that runs alone\<close>

lemma cq_run_trans:
  assumes "cq_run b c" "cq_run a b"
  shows "cq_run a c"
  using assms by (induction rule: cq_run.induct) (auto intro: cq_run.intros)

fun job :: "'a cpc \<Rightarrow> 'a dq option" where
  "job (LoadIndex d) = Some d"
| "job (LoadIndexTail d) = Some d"
| "job (LoadKey d t) = Some d"
| "job (LoadBlock d) = Some d"
| "job (MoveElement d) = Some d"
| "job (SetEmpty d) = Some d"
| "job (Unlink d) = Some d"
| "job (FreeBlock d) = Some d"
| "job _ = None"

definition left :: "'a dq \<Rightarrow> nat" where
  "left d = last_index d - unat (dq_index d)"

fun work :: "'a cpc \<Rightarrow> nat" where
  "work (MoveElement d) = 8 * left d"
| "work (LoadBlock d) = 8 * left d + 1"
| "work (FreeBlock d) = 8 * left d + 2"
| "work (Unlink d) = 8 * left d + 3"
| "work (SetEmpty d) = 8 * left d + 4"
| "work (LoadKey d t) = 8 * left d + 5"
| "work (LoadIndexTail d) = 8 * left d + 6"
| "work (LoadIndex d) = 8 * left d + 7"
| "work _ = 0"

definition same_job :: "'a dq \<Rightarrow> 'a dq \<Rightarrow> bool" where
  "same_job d d' \<longleftrightarrow> dq_producer d' = dq_producer d \<and> dq_firstIndex d' = dq_firstIndex d \<and> dq_actualCount d' = dq_actualCount d"

text \<open>What a consumer returns when it moved all it took.\<close>

definition taken :: "(nat \<Rightarrow> 'a list) \<Rightarrow> 'a dq \<Rightarrow> 'a list" where
  "taken pub d = drop (unat (dq_firstIndex d)) (take (last_index d) (pub (dq_producer d)))"

lemma run_okD:
  assumes "run_ok s h"
  obtains own g where "queue_inv s (published h) own g" "log_ok (heads s) (unreads s) (published h) (delivered h)"
    "\<And>c. result_ok (published h) (cq_cpc s c)"
  using assms by (auto simp: run_ok_def)

definition progress :: "(nat \<Rightarrow> 'a list) \<Rightarrow> 'a dq \<Rightarrow> 'a cpc \<Rightarrow> 'a cpc \<Rightarrow> bool" where
  "progress pub d pc pc' \<longleftrightarrow> pc' = CReady (taken pub d) \<or> (\<exists>d'. job pc' = Some d' \<and> same_job d d' \<and> work pc' < work pc)"

lemma next_progress:
  assumes "piece (pub (dq_producer d)) (unat (dq_firstIndex d)) (unat (dq_index d)) (dq_out d)" "last_index d < 2 ^ 62"
    and w: "8 * left d + 1 < work pc"
  shows "progress pub d pc (next_block s d)"
proof (cases "dq_index d = dq_firstIndex d + dq_actualCount d")
  case True
  then have "unat (dq_index d) = last_index d" using assms(2) by (simp add: last_index_def unat_plus)
  then show ?thesis using assms(1) True by (simp add: next_block_def progress_def taken_def piece_def)
next
  case False
  then show ?thesis using w by (simp add: next_block_def progress_def same_job_def left_def last_index_def)
qed

lemma moving_progress:
  assumes ok: "run_ok s h" and d: "job (cq_cpc s c) = Some d" and safe: "cq_cpc (dequeue_step c (cq_cpc s c) s) c \<noteq> CFault"
  shows "progress (published h) d (cq_cpc s c) (cq_cpc (dequeue_step c (cq_cpc s c) s) c)"
proof -
  let ?p = "dq_producer d"
  obtain own g where inv: "queue_inv s (published h) own g" and res: "result_ok (published h) (cq_cpc s c)" using ok by (rule run_okD) blast
  note cl = producer_okD(3) [OF queue_invD(1) [OF inv, of ?p]]
  have dq: "dq_ok (producers s ?p) (g ?p) ?p (cq_cpc s c)" by (rule claims_okD(4) [OF cl])
  then have "taken_ok (producers s ?p) d" using d by (cases "cq_cpc s c") auto
  then have last: "last_index d < 2 ^ 62" using queue_inv_near(1,2) [OF inv, of ?p] by (auto simp: taken_ok_def)
  have out: "piece (published h ?p) (unat (dq_firstIndex d)) (unat (dq_index d)) (dq_out d)" using res d by (cases "cq_cpc s c") auto
  note nx = next_progress [where pub = "published h" and d = d, OF out last]
  show ?thesis
  proof (cases "cq_cpc s c")
    case (MoveElement d')
    then have e: "d' = d" using d by simp
    have i: "unat (dq_index d) < last_index d" using dq by (auto simp: MoveElement e in_block_def Let_def)
    then have "unat (dq_index d + 1) = Suc (unat (dq_index d))" using last by (subst unat_plus) simp_all
    then have w: "8 * left (d\<lparr>dq_index := dq_index d + 1, dq_out := xs\<rparr>) + 4 < 8 * left d" for xs using i by (simp add: left_def last_index_def)
    obtain x where "Option.bind (cq_blocks s (dq_block d)) (\<lambda>B. get_el B (dq_index d)) = Some x"
      using safe by (auto simp: MoveElement e move_element_def goto_simps split: option.splits)
    then show ?thesis using w [of "dq_out d @ [x]"]
      by (auto simp: MoveElement e move_element_def goto_simps Let_def progress_def same_job_def)
  next
    case (SetEmpty d')
    then show ?thesis using d safe nx [of "SetEmpty d" s]
      by (auto simp: mark_empty_def goto_simps Let_def progress_def same_job_def split: option.splits)
  next
    case (FreeBlock d')
    then show ?thesis using d nx [of "FreeBlock d" s] by (simp add: goto_simps)
  next
    case (LoadKey d' u)
    then show ?thesis using d safe
      by (cases "index_assert (dq_P s d) (dq_H s d) (bie_key (ip_entries (dq_P s d) ! (bih_index (dq_H s d) ! unat u)))
            (index_index (dq_firstIndex d) u (bie_key (ip_entries (dq_P s d) ! (bih_index (dq_H s d) ! unat u))) (bih_capacity (dq_H s d))) (dq_firstIndex d)")
        (auto simp: load_key_def goto_simps Let_def progress_def same_job_def left_def last_index_def)
  next
    case (LoadBlock d')
    have e: "d' = d" using d LoadBlock by simp
    note D = producer_okD [OF queue_invD(1) [OF inv, of ?p]]
    have "dq_index d \<noteq> end_index d" using load_block_ok(2) [OF D(1,2,4,3) queue_inv_near(3) [OF inv] LoadBlock [unfolded e] refl] .
    then show ?thesis using safe
      by (auto simp: LoadBlock e load_block_def goto_simps Let_def progress_def same_job_def left_def last_index_def split: option.splits)
  qed (use d safe in \<open>auto simp: goto_simps Let_def progress_def same_job_def left_def last_index_def split: option.splits\<close>)
qed

text \<open>One step of consumer \<open>c\<close>.\<close>

definition act :: "nat \<Rightarrow> 'a CQ \<Rightarrow> 'a CQ" where
  "act c s = dequeue_step c (cq_cpc s c) s"

lemma act_run: "run_ok s h \<Longrightarrow> within_range (act c s) \<Longrightarrow>
    run_ok (act c s) (h\<lparr>delivered := delivered h @ delivers c (cq_cpc s c) s\<rparr>)"
  using run_step [OF cq_step.consume [of s h c]] by (simp add: act_def)

lemma no_fault:
  assumes "run_ok s h"
  shows "cq_ppc s p \<noteq> PFault" "cq_cpc s c \<noteq> CFault"
proof -
  obtain own g where inv: "queue_inv s (published h) own g" using assms by (rule run_okD)
  note D = producer_okD [OF queue_invD(1) [OF inv, of p]]
  show "cq_ppc s p \<noteq> PFault" using D(7) by auto
  show "cq_cpc s c \<noteq> CFault" using claims_okD(4) [OF D(3), of c] by auto
qed

lemma run_ok_range: "run_ok s h \<Longrightarrow> within_range s"
  by (auto simp: run_ok_def queue_inv_def tickets_ok_def)

lemma job_moving: "job pc = Some d \<Longrightarrow> moving pc"
  by (cases pc) simp_all

lemma act_range: "run_ok s h \<Longrightarrow> job (cq_cpc s c) = Some d \<Longrightarrow> within_range (act c s)"
  using dequeue_step_moving [OF job_moving, of s c d] run_ok_range [of s h]
  by (simp add: act_def within_range_def moving_step_def same_counters_def)

text \<open>What a consumer that moves elements leaves alone.\<close>

definition still :: "nat \<Rightarrow> 'a CQ \<Rightarrow> 'a CQ \<Rightarrow> bool" where
  "still c s t \<longleftrightarrow> (\<forall>c'. c' \<noteq> c \<longrightarrow> cq_cpc t c' = cq_cpc s c') \<and> (\<forall>q. same_counters (producers s q) (producers t q))"

lemma still_act: "job (cq_cpc s c) = Some d \<Longrightarrow> still c s (act c s)"
  using dequeue_step_moving [OF job_moving, of s c d] by (simp add: act_def still_def moving_step_def)

lemma still_trans: "still c s t \<Longrightarrow> still c t u \<Longrightarrow> still c s u"
  by (simp add: still_def same_counters_def)

lemma finish:
  assumes "run_ok s h" "job (cq_cpc s c) = Some d"
  shows "\<exists>n \<le> work (cq_cpc s c) + 1. \<exists>h'. cq_cpc ((act c ^^ n) s) c = CReady (taken (published h) d) \<and>
    run_ok ((act c ^^ n) s) h' \<and> published h' = published h \<and> still c s ((act c ^^ n) s)"
  using assms
proof (induction "work (cq_cpc s c)" arbitrary: s h d rule: less_induct)
  case less
  note ok = act_run [OF less.prems(1) act_range [OF less.prems]]
  note st = still_act [OF less.prems(2)]
  have "progress (published h) d (cq_cpc s c) (cq_cpc (act c s) c)"
    using moving_progress [OF less.prems] no_fault(2) [OF ok, of c] by (simp add: act_def)
  then consider "cq_cpc (act c s) c = CReady (taken (published h) d)"
    | d' where "job (cq_cpc (act c s) c) = Some d'" "same_job d d'" "work (cq_cpc (act c s) c) < work (cq_cpc s c)" by (auto simp: progress_def)
  then show ?case
  proof cases
    case 1
    then show ?thesis using ok st by (intro exI [of _ 1]) auto
  next
    case (2 d')
    obtain n h' where n: "n \<le> work (cq_cpc (act c s) c) + 1" "cq_cpc ((act c ^^ n) (act c s)) c = CReady (taken (published h) d')"
      "run_ok ((act c ^^ n) (act c s)) h'" "published h' = published h" "still c (act c s) ((act c ^^ n) (act c s))"
      using less.hyps [OF 2(3) ok 2(1)] by auto
    have "taken (published h) d' = taken (published h) d" using 2(2) by (simp add: taken_def same_job_def last_index_def)
    moreover have "(act c ^^ Suc n) s = (act c ^^ n) (act c s)" by (simp add: funpow_swap1)
    ultimately show ?thesis using n 2(3) still_trans [OF st n(5)] by (intro exI [of _ "Suc n"]) auto
  qed
qed

text \<open>The counters while no dequeue is in progress.\<close>

lemma idle_counters:
  assumes ok: "run_ok s h" and idle: "\<And>c. \<exists>out. cq_cpc s c = CReady out"
  shows "unat (dequeueOptimisticCount (producers s p)) = unat (dequeueOvercommit (producers s p)) + unat (headIndex (producers s p))"
proof -
  have "tickets_ok s" using ok by (auto simp: run_ok_def queue_inv_def)
  then obtain F A S where t: "tickets_inv p (producers s p) (cq_cpc s) F A S" unfolding tickets_ok_def by blast
  note D = tickets_invD [OF t]
  have "tickets p (cq_cpc s c) = {}" for c using idle [of c] by (auto simp: tickets_def)
  then have "{..< unat (dequeueOptimisticCount (producers s p))} = A \<union> S" using D(1-3,6) by auto
  then have "card {..< unat (dequeueOptimisticCount (producers s p))} = card (A \<union> S)" by simp
  also have "\<dots> = card A + card S" using tickets_inv_finite [OF t] D(2,3) by (intro card_Un_disjoint) auto
  finally show ?thesis using D(4,5) by simp
qed

lemma run_counters:
  assumes ok: "run_ok s h"
  shows "unat (headIndex (producers s p)) \<le> unat (tailIndex (producers s p))" "length (published h p) = unat (tailIndex (producers s p))"
    "unat (tailIndex (producers s p)) < 2 ^ 62"
proof -
  obtain own g where inv: "queue_inv s (published h) own g" using ok by (rule run_okD)
  show "unat (headIndex (producers s p)) \<le> unat (tailIndex (producers s p))" "unat (tailIndex (producers s p)) < 2 ^ 62"
    using queue_inv_near [OF inv, of p] by simp_all
  show "length (published h p) = unat (tailIndex (producers s p))"
    using producer_okD(6) [OF queue_invD(1) [OF inv, of p]] by (simp add: contents_ok_def)
qed

lemma act_quiet:
  assumes "run_ok s h" "delivers c (cq_cpc s c) s = []" "act c s = t" "within_range t"
  shows "run_ok t h"
  using act_run [OF assms(1), of c] assms(2-4) by simp

text \<open>The state after a dequeue that took \<open>xs\<close> from \<open>p\<close>.\<close>

definition took :: "nat \<Rightarrow> nat \<Rightarrow> 'a list \<Rightarrow> 'a history \<Rightarrow> 'a CQ \<Rightarrow> 'a CQ \<Rightarrow> bool" where
  "took c p xs h s t \<longleftrightarrow> cq_cpc t c = CReady xs \<and> (\<forall>c'. c' \<noteq> c \<longrightarrow> cq_cpc t c' = cq_cpc s c') \<and>
     (\<exists>h'. run_ok t h' \<and> published h' = published h) \<and> (\<forall>q. q \<noteq> p \<longrightarrow> same_counters (producers s q) (producers t q)) \<and>
     unat (headIndex (producers t p)) = unat (headIndex (producers s p)) + length xs"

lemma alone:
  assumes ok: "run_ok s h" and idle: "\<And>c. \<exists>out. cq_cpc s c = CReady out" and mx: "mx \<noteq> Some 0"
    and room: "unat (dequeueOptimisticCount (producers s p)) + length (published h p) < 2 ^ 62"
  shows "\<exists>n \<le> 8 * length (take (at_most mx) (drop (heads s p) (published h p))) + 14.
    took c p (take (at_most mx) (drop (heads s p) (published h p))) h s ((act c ^^ n) (goto_c c (LoadTail p mx) s))"
proof -
  let ?P = "producers s p" let ?t = "tailIndex ?P" let ?o = "dequeueOptimisticCount ?P" let ?v = "dequeueOvercommit ?P"
  let ?xs = "take (at_most mx) (drop (heads s p) (published h p))"
  note rc = run_counters [OF ok, of p]
  have cnt: "unat ?o = unat ?v + heads s p" using idle_counters [OF ok idle, of p] by (simp add: heads_def)
  have hd: "heads s p \<le> unat ?t" using rc(1) by (simp add: heads_def)
  have rng: "within_range s" by (rule run_ok_range [OF ok])
  define st where "st P pc = s\<lparr>producers := (producers s)(p := P), cq_cpc := (cq_cpc s)(c := pc)\<rparr>" for P pc
  have st: "cq_cpc (st P pc) c = pc" "producers (st P pc) p = P" for P pc by (simp_all add: st_def)
  have rg: "within_range (st P pc)" if "tailIndex P = ?t" "unat (dequeueOptimisticCount P) < 2 ^ 62" for P pc
    using rng that by (simp add: st_def within_range_def)
  have s0: "goto_c c (LoadTail p mx) s = st ?P (LoadTail p mx)" by (simp add: st_def goto_simps)
  obtain out where out: "cq_cpc s c = CReady out" using idle by blast
  have r0: "run_ok (st ?P (LoadTail p mx)) h"
    using run_step [OF cq_step.call_dequeue [OF out mx, of h p]] ok rng s0 rg [of ?P "LoadTail p mx"] by (simp add: within_range_def)
  have a1: "act c (st ?P (LoadTail p mx)) = st ?P (LoadOvercommit p mx ?t)" by (simp add: act_def st goto_simps st_def)
  have a2: "act c (st ?P (LoadOvercommit p mx ?t)) = st ?P (LoadOptimistic p mx ?t ?v)" by (simp add: act_def st goto_simps st_def)
  have a3: "act c (st ?P (LoadOptimistic p mx ?t ?v)) =
      st ?P (case wanted mx ?t ?v ?o of None \<Rightarrow> CReady [] | Some d \<Rightarrow> TakeTickets p mx d ?v)" by (simp add: act_def st goto_simps st_def)
  have o: "unat ?o < 2 ^ 62" "unat ?v \<le> unat ?o" using room cnt by simp_all
  note w = wanted_exact [OF rc(3) o, of mx]
  show ?thesis
  proof (cases "wanted mx ?t ?v ?o")
    case None
    then have "unat ?t = heads s p" using w(1) cnt hd by simp
    then have "?xs = []" using rc(2) by simp
    moreover have "took c p [] h s ((act c ^^ 3) (goto_c c (LoadTail p mx) s))"
    proof -
      have a3: "act c (st ?P (LoadOptimistic p mx ?t ?v)) = st ?P (CReady [])" using a3 None by simp
      note go = act_quiet [where c = c, OF _ _ _ rg]
      have "run_ok (st ?P (LoadOvercommit p mx ?t)) h" by (rule go [OF r0 _ a1]) (use o in \<open>simp_all add: st\<close>)
      then have "run_ok (st ?P (LoadOptimistic p mx ?t ?v)) h" by (rule go [OF _ _ a2]) (use o in \<open>simp_all add: st\<close>)
      then have "run_ok (st ?P (CReady [])) h" by (rule go [OF _ _ a3]) (use o in \<open>simp_all add: st\<close>)
      then have "took c p [] h s (st ?P (CReady []))" by (auto simp: took_def st same_counters_def) (auto simp: st_def)
      then show ?thesis unfolding s0 by (simp add: numeral_3_eq_3 a1 a2 a3)
    qed
    ultimately show ?thesis by (intro exI [of _ 3] conjI) (simp, simp only:)
  next
    case (Some d)
    have d: "unat d = min (unat ?t - heads s p) (at_most mx)" "heads s p < unat ?t" using w Some cnt by auto
    have d1: "mx = None \<Longrightarrow> d = 1" using Some by (auto simp: wanted_def split: if_splits)
    have pos: "0 < unat d" using d mx by (cases mx) (auto simp: at_most_def unat_gt_0)
    define P1 where "P1 = ?P\<lparr>dequeueOptimisticCount := ?o + d\<rparr>"
    define P2 where "P2 = P1\<lparr>headIndex := headIndex ?P + d\<rparr>"
    define j :: "'a dq" where "j = \<lparr>dq_producer = p, dq_max = mx, dq_firstIndex = headIndex ?P, dq_actualCount = d, dq_header = 0,
             dq_indexIndex = 0, dq_blockStartIndex = headIndex ?P, dq_index = headIndex ?P, dq_endIndex = 0, dq_block = 0, dq_out = []\<rparr>"
    have od: "unat (?o + d) < 2 ^ 62" using room d rc(2) by (subst unat_plus) simp_all
    have g: "granted mx d ?t ?v ?o = Some d"
    proof -
      note ge = granted_exact [OF rc(3) o d1, of mx]
      obtain a where a: "granted mx d ?t ?v ?o = Some a" using ge(1) cnt d(2) by (cases "granted mx d ?t ?v ?o") auto
      then have "unat a = unat d" using ge(2) cnt d by simp
      then show ?thesis using a by (simp add: word_unat_eq_iff)
    qed
    have a4: "act c (st ?P (TakeTickets p mx d ?v)) = st P1 (ReloadTail p mx d ?v ?o)" by (simp add: act_def st goto_simps) (simp add: st_def P1_def)
    have a5: "act c (st P1 (ReloadTail p mx d ?v ?o)) = st P1 (TakeHead p mx ?o d)" using g by (simp add: act_def st goto_simps P1_def) (simp add: st_def)
    have a6: "act c (st P1 (TakeHead p mx ?o d)) = st P2 (LoadIndex j)" by (simp add: act_def st goto_simps Let_def) (simp add: st_def P1_def P2_def j_def)
    have P: "tailIndex P1 = ?t" "tailIndex P2 = ?t" "dequeueOptimisticCount P1 = ?o + d" "dequeueOptimisticCount P2 = ?o + d"
      by (simp_all add: P1_def P2_def)
    have a3: "act c (st ?P (LoadOptimistic p mx ?t ?v)) = st ?P (TakeTickets p mx d ?v)" using a3 Some by simp
    note go = act_quiet [where c = c, OF _ _ _ rg]
    have "run_ok (st ?P (LoadOvercommit p mx ?t)) h" by (rule go [OF r0 _ a1]) (use o in \<open>simp_all add: st\<close>)
    then have "run_ok (st ?P (LoadOptimistic p mx ?t ?v)) h" by (rule go [OF _ _ a2]) (use o in \<open>simp_all add: st\<close>)
    then have "run_ok (st ?P (TakeTickets p mx d ?v)) h" by (rule go [OF _ _ a3]) (use o in \<open>simp_all add: st\<close>)
    then have "run_ok (st P1 (ReloadTail p mx d ?v ?o)) h" by (rule go [OF _ _ a4]) (use od P in \<open>simp_all add: st\<close>)
    then have "run_ok (st P1 (TakeHead p mx ?o d)) h" by (rule go [OF _ _ a5]) (use od P in \<open>simp_all add: st\<close>)
    then have "run_ok (st P2 (LoadIndex j)) h" by (rule go [OF _ _ a6]) (use od P in \<open>simp_all add: st\<close>)
    from finish [OF this, of c j] obtain n h' where n: "n \<le> 8 * left j + 7 + 1" "cq_cpc ((act c ^^ n) (st P2 (LoadIndex j))) c = CReady (taken (published h) j)"
      "run_ok ((act c ^^ n) (st P2 (LoadIndex j))) h'" "published h' = published h" "still c (st P2 (LoadIndex j)) ((act c ^^ n) (st P2 (LoadIndex j)))"
      by (auto simp: st)
    have len: "length ?xs = unat d" using d rc(2) by simp
    have "taken (published h) j = take (unat d) (drop (heads s p) (published h p))"
      by (simp add: taken_def j_def last_index_def heads_def drop_take)
    also have "\<dots> = ?xs" using d(1) rc(2) by (metis (no_types, lifting) length_drop min.commute min_def nat_le_linear take_all)
    finally have t: "taken (published h) j = ?xs" .
    have "left j = unat d" by (simp add: left_def last_index_def j_def)
    moreover have "(act c ^^ (n + 6)) (goto_c c (LoadTail p mx) s) = (act c ^^ n) (st P2 (LoadIndex j))"
      unfolding s0 funpow_add comp_def by (simp add: eval_nat_numeral a1 a2 a3 a4 a5 a6)
    moreover have "took c p ?xs h s ((act c ^^ n) (st P2 (LoadIndex j)))"
    proof -
      have "unat (headIndex ?P + d) = unat (headIndex ?P) + unat d" using d rc(3) hd by (intro unat_plus) (simp add: heads_def)
      then show ?thesis using n t len unfolding took_def
        by (auto simp: still_def same_counters_def st) (auto simp: st_def P2_def P1_def)
    qed
    ultimately show ?thesis using n(1) len by (intro exI [of _ "n + 6"]) simp
  qed
qed

end
