(* ===== verification/ConcurrentQueue_Refine.thy ===== *)
theory ConcurrentQueue_Refine
  imports ConcurrentQueue_Progress MultiQueue
begin

text \<open>
  The lock-free queue refines one queue per producer: each step of a run is an operation of \<open>multi_queue\<close>,
  with effect when it stores the new tail or takes indices from the head. Schedules make runs executable.
\<close>

section \<open>Refinement of one queue per producer\<close>

definition waiting :: "'a CQ \<times> 'a history \<Rightarrow> nat \<Rightarrow> 'a list" where
  "waiting x p = drop (heads (fst x) p) (published (snd x) p)"

text \<open>A step takes effect when it stores the new tail, or when it takes indices from the head.\<close>

definition consume_event :: "'a cpc \<Rightarrow> 'a mq_event" where
  "consume_event pc = (case pc of TakeHead p mx my a \<Rightarrow> Take p (unat a) | _ \<Rightarrow> Take 0 0)"

inductive cq_does :: "'a CQ \<times> 'a history \<Rightarrow> 'a mq_event \<Rightarrow> 'a CQ \<times> 'a history \<Rightarrow> bool" where
  does_enqueue: "cq_ppc s p = PReady r \<Longrightarrow> cq_does (s, h) (Put p []) (enqueue_begin p x s, h)"
| does_enqueue_bulk: "cq_ppc s p = PReady r \<Longrightarrow> length xs < 2 ^ 62 \<Longrightarrow> cq_does (s, h) (Put p []) (enqueue_bulk_begin p xs s, h)"
| does_produce: "cq_does (s, h) (Put p (publishes (cq_ppc s p)))
     (enqueue_step ok n p (cq_ppc s p) s, h\<lparr>published := (published h)(p := published h p @ publishes (cq_ppc s p))\<rparr>)"
| does_dequeue: "cq_cpc s c = CReady out \<Longrightarrow> mx \<noteq> Some 0 \<Longrightarrow> cq_does (s, h) (Take p 0) (goto_c c (LoadTail p mx) s, h)"
| does_consume: "cq_does (s, h) (consume_event (cq_cpc s c))
     (dequeue_step c (cq_cpc s c) s, h\<lparr>delivered := delivered h @ delivers c (cq_cpc s c) s\<rparr>)"

lemma cq_does_step: "cq_step x y \<longleftrightarrow> (\<exists>e. cq_does x e y)"
proof
  show "\<exists>e. cq_does x e y" if "cq_step x y" using that by cases (metis cq_does.intros)+
  show "cq_step x y" if "\<exists>e. cq_does x e y" using that by (elim exE cq_does.cases) (metis cq_step.intros)+
qed

lemma dequeue_heads:
  assumes "\<And>p mx my a. pc \<noteq> TakeHead p mx my a"
  shows "heads (dequeue_step c pc s) = heads s"
  using assms by (cases pc)
    (auto simp: fun_eq_iff heads_def load_key_def load_block_def move_element_def mark_empty_def goto_simps Let_def set_entry_def split: option.split)

lemma take_head_heads:
  assumes ok: "run_ok s h" and c: "cq_cpc s c = TakeHead p mx my a"
  shows "heads (dequeue_step c (cq_cpc s c) s) = (heads s)(p := heads s p + unat a)" "heads s p + unat a \<le> length (published h p)"
proof -
  have "tickets_ok s" using ok by (auto simp: run_ok_def queue_inv_def)
  then obtain F A S where "tickets_inv p (producers s p) (cq_cpc s) F A S" unfolding tickets_ok_def by blast
  from head_below_tail [OF this, of c]
  have le: "unat (headIndex (producers s p)) + unat a \<le> unat (tailIndex (producers s p))" by (simp add: c)
  then show "heads s p + unat a \<le> length (published h p)" using run_counters(2) [OF ok, of p] by (simp add: heads_def)
  have "unat (headIndex (producers s p) + a) = unat (headIndex (producers s p)) + unat a"
    using le run_counters(3) [OF ok, of p] by (intro unat_plus) simp
  then show "heads (dequeue_step c (cq_cpc s c) s) = (heads s)(p := heads s p + unat a)"
    by (simp add: fun_eq_iff heads_def c goto_simps Let_def)
qed

lemma does_event:
  assumes "cq_does x e y" and ok: "run_ok (fst x) (snd x)"
  shows "mq_apply e (waiting x) = Some (waiting y)"
  using assms(1)
proof cases
  case (does_enqueue s p r h v)
  then show ?thesis using own_heads [OF begin_own(1) [of p s v]] by (simp add: waiting_def fun_eq_iff)
next
  case (does_enqueue_bulk s p r xs h)
  then show ?thesis using own_heads [OF begin_own(2) [of p s xs]] by (simp add: waiting_def fun_eq_iff)
next
  case (does_produce s h p ok n)
  have "heads s p \<le> length (published h p)" using run_counters(1,2) [OF ok, of p] does_produce by (simp add: heads_def)
  then show ?thesis using own_heads [OF enqueue_step_own [of p s _ n "cq_ppc s p"]] does_produce by (simp add: waiting_def fun_eq_iff)
next
  case (does_dequeue s c out mx h p)
  then show ?thesis by (simp add: waiting_def heads_def goto_simps fun_eq_iff)
next
  case (does_consume s h c)
  have ok: "run_ok s h" using ok does_consume by simp
  show ?thesis
  proof (cases "\<exists>p mx my a. cq_cpc s c = TakeHead p mx my a")
    case True
    then obtain p mx my a where pc: "cq_cpc s c = TakeHead p mx my a" by blast
    show ?thesis using take_head_heads [OF ok pc]
      by (simp add: does_consume consume_event_def pc waiting_def fun_eq_iff add.commute)
  next
    case False
    then have "consume_event (cq_cpc s c) = Take 0 0" by (cases "cq_cpc s c") (simp_all add: consume_event_def)
    moreover have "heads (dequeue_step c (cq_cpc s c) s) = heads s" using False by (intro dequeue_heads) blast
    ultimately show ?thesis by (simp add: does_consume waiting_def fun_eq_iff)
  qed
qed

interpretation lock_free: multi_queue "\<lambda>x. run_ok (fst x) (snd x)" "\<lambda>x y. cq_step x y \<and> within_range (fst y)" waiting
proof unfold_locales
  fix x y :: "'a CQ \<times> 'a history"
  assume ok: "run_ok (fst x) (snd x)" and st: "cq_step x y \<and> within_range (fst y)"
  show "run_ok (fst y) (snd y)" by (rule run_step [OF conjunct1 [OF st] ok conjunct2 [OF st]])
  obtain e where "cq_does x e y" using st cq_does_step by blast
  then show "\<exists>e. mq_apply e (waiting x) = Some (waiting y)" using does_event [OF _ ok] by blast
qed

lemma cq_run_steps: "cq_run x y \<Longrightarrow> (\<lambda>x y. cq_step x y \<and> within_range (fst y))\<^sup>*\<^sup>* x y"
  by (induction rule: cq_run.induct) (auto intro: rtranclp.rtrancl_into_rtrancl)

section \<open>Schedules\<close>

text \<open>A schedule is a list of moves; the guards say when a move is possible and stays in range.\<close>

datatype 'a move = Enqueue nat 'a | EnqueueBulk nat "'a list" | Produce bool nat nat | Dequeue nat nat "u64 option" | Consume nat

fun moved :: "'a move \<Rightarrow> 'a CQ \<times> 'a history \<Rightarrow> 'a CQ \<times> 'a history" where
  "moved (Enqueue p x) (s, h) = (enqueue_begin p x s, h)"
| "moved (EnqueueBulk p xs) (s, h) = (enqueue_bulk_begin p xs s, h)"
| "moved (Produce ok n p) (s, h) =
     (enqueue_step ok n p (cq_ppc s p) s, h\<lparr>published := (published h)(p := published h p @ publishes (cq_ppc s p))\<rparr>)"
| "moved (Dequeue c p mx) (s, h) = (goto_c c (LoadTail p mx) s, h)"
| "moved (Consume c) (s, h) = (dequeue_step c (cq_cpc s c) s, h\<lparr>delivered := delivered h @ delivers c (cq_cpc s c) s\<rparr>)"

fun can_move :: "'a move \<Rightarrow> 'a CQ \<times> 'a history \<Rightarrow> bool" where
  "can_move (Enqueue p x) (s, h) \<longleftrightarrow> (case cq_ppc s p of PReady r \<Rightarrow> True | _ \<Rightarrow> False)"
| "can_move (EnqueueBulk p xs) (s, h) \<longleftrightarrow> (case cq_ppc s p of PReady r \<Rightarrow> int (length xs) < 2 ^ 62 | _ \<Rightarrow> False)"
| "can_move (Produce ok n p) (s, h) \<longleftrightarrow> True"
| "can_move (Dequeue c p mx) (s, h) \<longleftrightarrow> (case cq_cpc s c of CReady out \<Rightarrow> mx \<noteq> Some 0 | _ \<Rightarrow> False)"
| "can_move (Consume c) (s, h) \<longleftrightarrow> True"

fun in_range :: "'a move \<Rightarrow> 'a CQ \<times> 'a history \<Rightarrow> bool" where
  "in_range (Produce ok n p) (s, h) \<longleftrightarrow> tailIndex (producers s p) < 2 ^ 62 \<and> initialBlockPoolIndex s < 2 ^ 62"
| "in_range (Consume c) (s, h) \<longleftrightarrow> (case cq_cpc s c of ReloadTail p mx d over my \<Rightarrow>
     dequeueOptimisticCount (producers s p) < 2 ^ 62 | _ \<Rightarrow> True)"
| "in_range _ (s, h) \<longleftrightarrow> True"

definition checked :: "'a move \<Rightarrow> 'a CQ \<times> 'a history \<Rightarrow> ('a CQ \<times> 'a history) option" where
  "checked m x = (if in_range m x then Some x else None)"

fun play :: "'a move list \<Rightarrow> 'a CQ \<times> 'a history \<Rightarrow> ('a CQ \<times> 'a history) option" where
  "play [] x = Some x"
| "play (m # ms) x = (if can_move m x then Option.bind (checked m (moved m x)) (play ms) else None)"

lemma word_range: "(x :: u64) < 2 ^ 62 \<longleftrightarrow> unat x < 2 ^ 62"
  by (simp add: word_less_nat_alt)

lemma consume_range:
  assumes "within_range s" "in_range (Consume c) (dequeue_step c (cq_cpc s c) s, h)"
  shows "within_range (dequeue_step c (cq_cpc s c) s)"
proof (cases "moving (cq_cpc s c)")
  case True
  then show ?thesis using dequeue_step_moving [OF True] assms(1) by (simp add: within_range_def moving_step_def same_counters_def)
next
  case False
  then show ?thesis using assms word_range
    by (cases "cq_cpc s c") (auto simp: within_range_def goto_simps Let_def)
qed

lemma own_range:
  assumes "own_step p s t" "within_range s" "unat (tailIndex (producers t p)) < 2 ^ 62" "unat (initialBlockPoolIndex t) < 2 ^ 62"
  shows "within_range t"
  using assms own_step_others [OF assms(1)] unfolding within_range_def same_counters_def by metis

lemma move_range:
  assumes "in_range m (moved m (s, h))" and "within_range s"
  shows "within_range (fst (moved m (s, h)))"
proof (cases m)
  case (Enqueue p v)
  show ?thesis unfolding Enqueue moved.simps fst_conv by (rule own_range [OF begin_own(1) assms(2)]) (use assms(2) in \<open>simp_all add: within_range_def enqueue_begin_def goto_simps\<close>)
next
  case (EnqueueBulk p vs)
  show ?thesis unfolding EnqueueBulk moved.simps fst_conv by (rule own_range [OF begin_own(2) assms(2)]) (use assms(2) in \<open>simp_all add: within_range_def enqueue_bulk_begin_def Let_def goto_simps\<close>)
next
  case (Produce ok n p)
  show ?thesis unfolding Produce moved.simps fst_conv
    by (rule own_range [OF enqueue_step_own assms(2)]) (use assms(1) word_range in \<open>simp_all add: Produce\<close>)
next
  case (Dequeue c p mx)
  then show ?thesis using assms(2) by (simp add: within_range_def goto_simps)
next
  case (Consume c)
  then show ?thesis using assms consume_range [of s c h] by simp
qed

lemma move_step:
  assumes "can_move m (s, h)"
  shows "cq_step (s, h) (moved m (s, h))"
proof (cases m)
  case (Enqueue p v)
  then obtain r where "cq_ppc s p = PReady r" using assms by (auto split: ppc.splits)
  then show ?thesis unfolding Enqueue moved.simps by (rule cq_step.call_enqueue)
next
  case (EnqueueBulk p vs)
  then obtain r where "cq_ppc s p = PReady r" "int (length vs) < int (2 ^ 62)" using assms unfolding EnqueueBulk can_move.simps by (cases "cq_ppc s p") simp_all
  then have "cq_ppc s p = PReady r" "length vs < 2 ^ 62" by (simp_all only: of_nat_less_iff)
  then show ?thesis unfolding EnqueueBulk moved.simps by (rule cq_step.call_enqueue_bulk)
next
  case (Produce ok n p)
  show ?thesis unfolding Produce moved.simps by (rule cq_step.produce)
next
  case (Dequeue c p mx)
  then obtain out where "cq_cpc s c = CReady out" "mx \<noteq> Some 0" using assms by (auto split: cpc.splits)
  then show ?thesis unfolding Dequeue moved.simps by (rule cq_step.call_dequeue)
next
  case (Consume c)
  show ?thesis unfolding Consume moved.simps by (rule cq_step.consume)
qed

lemma play_run: "play ms x = Some y \<Longrightarrow> within_range (fst x) \<Longrightarrow> cq_run z x \<Longrightarrow> cq_run z y"
proof (induction ms arbitrary: x)
  case Nil
  then show ?case by simp
next
  case (Cons m ms)
  obtain s h where x: "x = (s, h)" by (cases x)
  have c: "can_move m (s, h)" "in_range m (moved m (s, h))" "play ms (moved m x) = Some y"
    using Cons.prems(1) by (auto simp: x checked_def split: if_splits)
  have w: "within_range (fst (moved m x))" using move_range [OF c(2)] Cons.prems(2) by (simp add: x)
  have "cq_run z (moved m x)" by (rule cq_more [OF Cons.prems(3) _ w]) (unfold x, rule move_step [OF c(1)])
  from Cons.IH [OF c(3) w this] show ?case .
qed

lemma play_new:
  assumes "play ms (new_ConcurrentQueue cap pool ok junk, no_history) = Some x"
  shows "cq_run (new_ConcurrentQueue cap pool ok junk, no_history) x"
  by (rule play_run [OF assms _ cq_refl]) (simp add: within_range_def new_ConcurrentQueue_def Let_def)

text \<open>A consumer that makes no move stays where it is.\<close>

fun idle_in :: "nat \<Rightarrow> 'a move \<Rightarrow> bool" where
  "idle_in c (Dequeue c' p mx) \<longleftrightarrow> c' \<noteq> c"
| "idle_in c (Consume c') \<longleftrightarrow> c' \<noteq> c"
| "idle_in c _ \<longleftrightarrow> True"

lemma moved_idle: "idle_in c m \<Longrightarrow> cq_cpc (fst (moved m (s, h))) c = cq_cpc s c"
proof (cases m)
  case (Consume c')
  assume "idle_in c m"
  then show ?thesis using Consume by (cases "cq_cpc s c'")
    (auto simp: load_key_def load_block_def move_element_def mark_empty_def goto_simps Let_def split: option.split)
qed (simp_all add: own_step_others(1) [OF begin_own(1)] own_step_others(1) [OF begin_own(2)] own_step_others(1) [OF enqueue_step_own] goto_simps)

lemma play_idle: "play ms x = Some y \<Longrightarrow> list_all (idle_in c) ms \<Longrightarrow> cq_cpc (fst y) c = cq_cpc (fst x) c"
proof (induction ms arbitrary: x)
  case (Cons m ms)
  obtain s h where x: "x = (s, h)" by (cases x)
  then have "play ms (moved m x) = Some y" "idle_in c m" using Cons.prems by (auto simp: checked_def split: if_splits)
  then show ?case using Cons.IH [of "moved m x"] Cons.prems(2) moved_idle [of c m s h] by (simp add: x)
qed simp

end
