(* ===== verification/ConcurrentQueue_Try.thy ===== *)
theory ConcurrentQueue_Try
  imports ConcurrentQueue_Refine
begin

text \<open>
  The calls of \<^verbatim>\<open>ConcurrentQueue\<close> that go over all producers: \<^verbatim>\<open>try_dequeue\<close>, which tries the producer that looks
  longest first, \<^verbatim>\<open>try_dequeue_non_interleaved\<close>, \<^verbatim>\<open>try_dequeue_bulk\<close> and \<^verbatim>\<open>size_approx\<close>. Each is a program
  counter above that of the dequeue which it calls.
\<close>

section \<open>The calls\<close>

text \<open>
  A list of producers is what is left of the loop from \<^verbatim>\<open>producerListTail\<close> along \<^verbatim>\<open>next_prod\<close>. \<open>TWait\<close> and
  \<open>BulkWait\<close> are inside a call of \<^verbatim>\<open>dequeue\<close> and \<^verbatim>\<open>dequeue_bulk\<close>; the first has what follows when nothing is found:
  a new loop (\<open>None\<close>) or the rest of the loop, without the producer \<open>best\<close>. \<open>BulkNext\<close> has
  \<^verbatim>\<open>max - count\<close> and the elements so far.
\<close>

datatype 'a tpc =
    TReturned "'a list"
  | ScanTail "nat list" u64 "nat option" u64
  | ScanHead nat "nat list" u64 "nat option" u64 u64
  | TWait "nat list option" "nat option"
  | RestNext "nat list" "nat option"
  | BulkNext "nat list" u64 "'a list"
  | BulkWait "nat list" u64 "'a list"
  | TFault

definition try_dequeue_begin :: "nat list \<Rightarrow> 'a tpc" where
  "try_dequeue_begin ps = ScanTail ps 0 None 0"

definition try_dequeue_non_interleaved_begin :: "nat list \<Rightarrow> 'a tpc" where
  "try_dequeue_non_interleaved_begin ps = RestNext ps None"

definition try_dequeue_bulk_begin :: "nat list \<Rightarrow> u64 \<Rightarrow> 'a tpc" where
  "try_dequeue_bulk_begin ps mx = BulkNext ps mx []"

text \<open>The head of the loop that scores producers, and what follows it.\<close>

definition scan_tail :: "nat \<Rightarrow> nat list \<Rightarrow> u64 \<Rightarrow> nat option \<Rightarrow> u64 \<Rightarrow> 'a CQ \<Rightarrow> 'a tpc \<times> 'a CQ" where
  "scan_tail c ps nonEmptyCount best bestSize s = (case ps of
       p # qs \<Rightarrow>
         if nonEmptyCount < 3 then (ScanHead p qs nonEmptyCount best bestSize (tailIndex (producers s p)), s)
         else (case best of Some b \<Rightarrow> (TWait None best, goto_c c (LoadTail b None) s) | None \<Rightarrow> (TFault, s))
     | [] \<Rightarrow>
         if nonEmptyCount > 0
         then (case best of Some b \<Rightarrow> (TWait None best, goto_c c (LoadTail b None) s) | None \<Rightarrow> (TFault, s))
         else (TReturned [], s))"

definition scan_head :: "nat \<Rightarrow> nat list \<Rightarrow> u64 \<Rightarrow> nat option \<Rightarrow> u64 \<Rightarrow> u64 \<Rightarrow> 'a CQ \<Rightarrow> 'a tpc" where
  "scan_head p qs nonEmptyCount best bestSize tail s =
     (let head = headIndex (producers s p); size = (if circular_less_than head tail then tail - head else 0)
      in if size > 0
         then ScanTail qs (nonEmptyCount + 1) (if size > bestSize then Some p else best) (if size > bestSize then size else bestSize)
         else ScanTail qs nonEmptyCount best bestSize)"

text \<open>
  One step of consumer \<open>c\<close>; \<open>ps\<close> is the list of producers when \<^verbatim>\<open>producerListTail\<close> is loaded again.
\<close>

fun try_step :: "nat list \<Rightarrow> nat \<Rightarrow> 'a tpc \<Rightarrow> 'a CQ \<Rightarrow> 'a tpc \<times> 'a CQ" where
  "try_step ps c (TReturned out) s = (TReturned out, s)"
| "try_step ps c TFault s = (TFault, s)"
| "try_step ps c (ScanTail qs n best bs) s = scan_tail c qs n best bs s"
| "try_step ps c (ScanHead p qs n best bs tail) s = (scan_head p qs n best bs tail s, s)"
| "try_step ps c (TWait rest best) s = (case cq_cpc s c of
     CReady [] \<Rightarrow> (RestNext (case rest of None \<Rightarrow> ps | Some qs \<Rightarrow> qs) best, s)
   | CReady (x # xs) \<Rightarrow> (TReturned (x # xs), s)
   | pc \<Rightarrow> (TWait rest best, dequeue_step c pc s))"
| "try_step ps c (RestNext [] best) s = (TReturned [], s)"
| "try_step ps c (RestNext (p # qs) best) s =
     (if best = Some p then (RestNext qs best, s) else (TWait (Some qs) best, goto_c c (LoadTail p None) s))"
| "try_step ps c (BulkNext [] m got) s = (TReturned got, s)"
| "try_step ps c (BulkNext (p # qs) m got) s = (BulkWait qs m got, goto_c c (LoadTail p (Some m)) s)"
| "try_step ps c (BulkWait qs m got) s = (case cq_cpc s c of
     CReady out \<Rightarrow>
       let left = m - of_nat (length out)
       in if left = 0 then (TReturned (got @ out), s) else (BulkNext qs left (got @ out), s)
   | pc \<Rightarrow> (BulkWait qs m got, dequeue_step c pc s))"

definition try_act :: "nat list \<Rightarrow> nat \<Rightarrow> 'a tpc \<times> 'a CQ \<Rightarrow> 'a tpc \<times> 'a CQ" where
  "try_act ps c x = try_step ps c (fst x) (snd x)"

definition queue_size_approx :: "nat list \<Rightarrow> 'a CQ \<Rightarrow> u64" where
  "queue_size_approx ps s = fold (\<lambda>p size. size + producer_size_approx (producers s p)) ps 0"

section \<open>Steps of the calls are steps of the queue\<close>

text \<open>What a call may ask for: never an empty batch, and a dequeue only when the last one returned.\<close>

fun try_ok :: "'a tpc \<Rightarrow> 'a cpc \<Rightarrow> bool" where
  "try_ok (BulkNext ps m got) pc \<longleftrightarrow> m \<noteq> 0 \<and> (\<exists>out. pc = CReady out)"
| "try_ok (BulkWait ps m got) pc \<longleftrightarrow> True"
| "try_ok (TWait rest best) pc \<longleftrightarrow> True"
| "try_ok (ScanTail ps n best bs) pc \<longleftrightarrow> (\<exists>out. pc = CReady out) \<and> (if best = None then n = 0 \<and> bs = 0 else 0 < bs)"
| "try_ok (ScanHead p ps n best bs tail) pc \<longleftrightarrow> (\<exists>out. pc = CReady out) \<and> (if best = None then n = 0 \<and> bs = 0 else 0 < bs)"
| "try_ok TFault pc \<longleftrightarrow> False"
| "try_ok _ pc \<longleftrightarrow> (\<exists>out. pc = CReady out)"

lemma try_step_queue:
  assumes "try_ok t (cq_cpc s c)"
  shows "cq_step (s, h) (snd (try_step ps c t s), h\<lparr>delivered := delivered h @ delivers c (cq_cpc s c) s\<rparr>) \<or>
    (\<exists>out. cq_cpc s c = CReady out) \<and> (snd (try_step ps c t s) = s \<or> cq_step (s, h) (snd (try_step ps c t s), h))"
  using assms cq_step.consume [of s h c]
  by (cases "(ps, c, t, s)" rule: try_step.cases)
    (auto simp: scan_tail_def Let_def intro: cq_step.call_dequeue split: cpc.splits list.splits option.splits)

lemma try_step_ok:
  assumes "try_ok t (cq_cpc s c)"
  shows "try_ok (fst (try_step ps c t s)) (cq_cpc (snd (try_step ps c t s)) c)"
  using assms by (cases "(ps, c, t, s)" rule: try_step.cases)
    (auto simp: scan_tail_def scan_head_def Let_def goto_simps word_gt_0 split: cpc.splits list.splits option.splits if_splits)

section \<open>A call that runs alone\<close>

text \<open>No dequeue is in progress, and there is room for the tickets of one call.\<close>

definition calm :: "nat list \<Rightarrow> 'a CQ \<Rightarrow> 'a history \<Rightarrow> bool" where
  "calm ps s h \<longleftrightarrow> run_ok s h \<and> (\<forall>c. \<exists>out. cq_cpc s c = CReady out) \<and>
     (\<forall>p \<in> set ps. unat (dequeueOptimisticCount (producers s p)) + length (published h p) < 2 ^ 62)"

lemma act_ready: "cq_cpc s c = CReady out \<Longrightarrow> act c s = s"
  by (simp add: act_def)

lemma wait_lift:
  assumes w: "\<And>s. (\<nexists>out. cq_cpc s c = CReady out) \<Longrightarrow> try_act ps c (w, s) = (w, act c s)"
    and "cq_cpc ((act c ^^ n) s) c = CReady out"
  shows "\<exists>k. (try_act ps c ^^ k) (w, s) = (w, (act c ^^ n) s)"
  using assms(2)
proof (induction n arbitrary: s)
  case 0
  show ?case by (rule exI [of _ 0]) simp
next
  case (Suc n)
  show ?case
  proof (cases "\<exists>out. cq_cpc s c = CReady out")
    case True
    then have "act c s = s" by (auto simp: act_ready)
    then have "(act c ^^ k) s = s" for k by (induction k) simp_all
    from this [of "Suc n"] show ?thesis by (intro exI [of _ 0]) (simp only: funpow_0)
  next
    case False
    have "cq_cpc ((act c ^^ n) (act c s)) c = CReady out" using Suc.prems by (simp add: funpow_swap1)
    from Suc.IH [OF this] obtain k where "(try_act ps c ^^ k) (w, act c s) = (w, (act c ^^ n) (act c s))" ..
    then show ?thesis using w [OF False] by (intro exI [of _ "Suc k"]) (simp add: funpow_swap1)
  qed
qed

lemma wait_steps:
  assumes "\<nexists>out. cq_cpc s c = CReady out"
  shows "try_act ps c (TWait rest best, s) = (TWait rest best, act c s)" "try_act ps c (BulkWait qs m got, s) = (BulkWait qs m got, act c s)"
  using assms by (auto simp: try_act_def act_def split: cpc.split)

lemma chain_steps:
  assumes "(f ^^ k) x = y" "(f ^^ n) y = z"
  shows "(f ^^ (n + k)) x = z"
  using assms by (simp add: funpow_add)

text \<open>The queues of all producers after one of them gave \<open>xs\<close>.\<close>

lemma took_waiting:
  assumes "took c p (take k (waiting (s, h) p)) h s t" and c: "calm (p # ps) s h" and "p \<notin> set ps"
  obtains h' where "calm ps t h'" "\<And>q. q \<noteq> p \<Longrightarrow> waiting (t, h') q = waiting (s, h) q" "cq_cpc t c = CReady (take k (waiting (s, h) p))"
proof -
  obtain h' where h': "run_ok t h'" "published h' = published h" using assms(1) by (auto simp: took_def)
  note t = assms(1) [unfolded took_def]
  have "calm ps t h'" unfolding calm_def
  proof (intro conjI allI ballI)
    show "run_ok t h'" by (rule h')
    show "\<exists>out. cq_cpc t c' = CReady out" for c' using t c by (cases "c' = c") (auto simp: calm_def)
    fix q assume "q \<in> set ps"
    then show "unat (dequeueOptimisticCount (producers t q)) + length (published h' q) < 2 ^ 62"
      using t c assms(3) h'(2) by (cases "q = p") (auto simp: calm_def same_counters_def)
  qed
  moreover have "waiting (t, h') q = waiting (s, h) q" if "q \<noteq> p" for q
    using t that h'(2) by (simp add: waiting_def heads_def same_counters_def)
  ultimately show thesis using that t by blast
qed

text \<open>One dequeue inside a call.\<close>

lemma dequeue_inside:
  assumes c: "calm (p # ps) s h" and mx: "mx \<noteq> Some 0" and "p \<notin> set ps"
    and w: "\<And>s. (\<nexists>out. cq_cpc s c = CReady out) \<Longrightarrow> try_act rs c (w, s) = (w, act c s)"
  obtains k t h' where "(try_act rs c ^^ k) (w, goto_c c (LoadTail p mx) s) = (w, t)" "calm ps t h'"
    "\<And>q. q \<noteq> p \<Longrightarrow> waiting (t, h') q = waiting (s, h) q" "cq_cpc t c = CReady (take (at_most mx) (waiting (s, h) p))"
proof -
  have "run_ok s h" "\<And>c. \<exists>out. cq_cpc s c = CReady out" "unat (dequeueOptimisticCount (producers s p)) + length (published h p) < 2 ^ 62"
    using c by (auto simp: calm_def)
  from alone [OF this(1,2) mx this(3), of c] obtain n where
    n: "took c p (take (at_most mx) (waiting (s, h) p)) h s ((act c ^^ n) (goto_c c (LoadTail p mx) s))" by (auto simp: waiting_def)
  from took_waiting [OF n c assms(3)] obtain h' where h': "calm ps ((act c ^^ n) (goto_c c (LoadTail p mx) s)) h'"
    "\<And>q. q \<noteq> p \<Longrightarrow> waiting ((act c ^^ n) (goto_c c (LoadTail p mx) s), h') q = waiting (s, h) q"
    "cq_cpc ((act c ^^ n) (goto_c c (LoadTail p mx) s)) c = CReady (take (at_most mx) (waiting (s, h) p))" by blast
  from wait_lift [OF w h'(3)] obtain k where "(try_act rs c ^^ k) (w, goto_c c (LoadTail p mx) s) = (w, (act c ^^ n) (goto_c c (LoadTail p mx) s))" by blast
  then show thesis using that h' by blast
qed

lemma bulk_alone:
  assumes "calm ps s h" "distinct ps" "m \<noteq> 0"
  shows "\<exists>n. fst ((try_act rs c ^^ n) (BulkNext ps m got, s)) = TReturned (got @ take (unat m) (concat (map (waiting (s, h)) ps)))"
  using assms
proof (induction ps arbitrary: s h m got)
  case Nil
  show ?case by (rule exI [of _ 1]) (simp add: try_act_def)
next
  case (Cons p ps)
  let ?xs = "take (unat m) (waiting (s, h) p)"
  have mx: "Some m \<noteq> Some 0" and pn: "p \<notin> set ps" and dist: "distinct ps" using Cons.prems(2,3) by simp_all
  have s1: "(try_act rs c ^^ 1) (BulkNext (p # ps) m got, s) = (BulkWait ps m got, goto_c c (LoadTail p (Some m)) s)" by (simp add: try_act_def)
  obtain k t h' where k: "(try_act rs c ^^ k) (BulkWait ps m got, goto_c c (LoadTail p (Some m)) s) = (BulkWait ps m got, t)" "calm ps t h'"
    "\<And>q. q \<noteq> p \<Longrightarrow> waiting (t, h') q = waiting (s, h) q" "cq_cpc t c = CReady ?xs"
    using dequeue_inside [OF Cons.prems(1) mx pn wait_steps(2), of c rs ps m got] unfolding at_most_def option.case by metis
  note s2 = chain_steps [OF s1 k(1)]
  have len: "length ?xs \<le> unat m" by simp
  have of: "(of_nat (length ?xs) :: u64) \<le> m" "unat (of_nat (length ?xs) :: u64) = length ?xs"
    using unat_small [of "length ?xs"] len unsigned_less [of m, where ?'a = nat] by (simp_all add: word_le_nat_alt)
  then have left: "unat (m - of_nat (length ?xs)) = unat m - length ?xs" by (simp add: unat_sub)
  have map: "map (waiting (t, h')) ps = map (waiting (s, h)) ps" using pn by (intro map_cong refl k(3)) auto
  show ?case
  proof (cases "m - of_nat (length ?xs) = 0")
    case True
    then have "length ?xs = unat m" using left len by simp
    then have "take (unat m) (concat (map (waiting (s, h)) (p # ps))) = ?xs" by simp
    moreover have "(try_act rs c ^^ 1) (BulkWait ps m got, t) = (TReturned (got @ ?xs), t)" using k(4) True by (simp add: try_act_def)
    note chain_steps [OF s2 this]
    ultimately show ?thesis by (metis fst_conv)
  next
    case False
    then have "unat (m - of_nat (length ?xs)) \<noteq> 0" by (metis unat_eq_zero)
    then have all: "?xs = waiting (s, h) p" using left by (simp add: min_def split: if_splits)
    have "(try_act rs c ^^ 1) (BulkWait ps m got, t) = (BulkNext ps (m - of_nat (length ?xs)) (got @ ?xs), t)"
      using k(4) False by (simp add: try_act_def Let_def)
    note s3 = chain_steps [OF s2 this]
    obtain n where n: "fst ((try_act rs c ^^ n) (BulkNext ps (m - of_nat (length ?xs)) (got @ ?xs), t)) =
        TReturned ((got @ ?xs) @ take (unat (m - of_nat (length ?xs))) (concat (map (waiting (t, h')) ps)))"
      using Cons.IH [OF k(2) dist False, of "got @ ?xs"] by blast
    have "take (unat m) (concat (map (waiting (s, h)) (p # ps))) = ?xs @ take (unat m - length ?xs) (concat (map (waiting (s, h)) ps))"
      by (metis all concat.simps(2) list.simps(9) take_append)
    then show ?thesis using chain_steps [OF s3 refl, of n] n left map by (metis append.assoc)
  qed
qed

text \<open>\<^verbatim>\<open>try_dequeue\<close>: the loop that scores producers ends with one that is not empty, if there is one.\<close>

definition scan_ok :: "nat list \<Rightarrow> 'a CQ \<times> 'a history \<Rightarrow> nat list \<Rightarrow> u64 \<Rightarrow> nat option \<Rightarrow> u64 \<Rightarrow> bool" where
  "scan_ok ps x qs n best bs \<longleftrightarrow> (case best of
       None \<Rightarrow> n = 0 \<and> bs = 0 \<and> (\<forall>p \<in> set ps - set qs. waiting x p = [])
     | Some b \<Rightarrow> 0 < n \<and> n \<le> 3 \<and> 0 < bs \<and> b \<in> set ps \<and> waiting x b \<noteq> [])"

lemma size_exact:
  assumes "run_ok s h"
  shows "unat (producer_size_approx (producers s p)) = length (waiting (s, h) p)"
proof -
  let ?P = "producers s p"
  note rc = run_counters [OF assms, of p]
  have "circular_less_than (of_nat (unat (headIndex ?P))) (of_nat (unat (tailIndex ?P))) \<longleftrightarrow> unat (headIndex ?P) < unat (tailIndex ?P)"
    using rc(1,3) by (intro circular_less_than_near) simp_all
  then have "circular_less_than (headIndex ?P) (tailIndex ?P) \<longleftrightarrow> unat (headIndex ?P) < unat (tailIndex ?P)" by simp
  then show ?thesis using rc by (auto simp: producer_size_approx_def Let_def waiting_def heads_def unat_sub word_le_nat_alt)
qed

lemma scan_head_ok:
  assumes "scan_ok ps (s, h) (p # qs) n best bs" "run_ok s h" "n < 3" "p \<in> set ps"
  obtains n' best' bs' where "scan_head p qs n best bs (tailIndex (producers s p)) s = ScanTail qs n' best' bs'" "scan_ok ps (s, h) qs n' best' bs'"
proof -
  let ?size = "producer_size_approx (producers s p)"
  have e: "scan_head p qs n best bs (tailIndex (producers s p)) s =
      (if 0 < ?size then ScanTail qs (n + 1) (if bs < ?size then Some p else best) (if bs < ?size then ?size else bs) else ScanTail qs n best bs)"
    by (simp add: scan_head_def producer_size_approx_def Let_def)
  have z: "0 < ?size \<longleftrightarrow> waiting (s, h) p \<noteq> []" using size_exact [OF assms(2), of p] by (simp add: word_less_nat_alt)
  have "unat n < 3" using assms(3) by (simp add: word_less_nat_alt)
  then have "unat (n + 1) = unat n + 1" by (subst unat_plus) simp_all
  with \<open>unat n < 3\<close> have n1: "0 < n + 1" "n + 1 \<le> 3" by (simp_all add: word_less_nat_alt word_le_nat_alt)
  show thesis
  proof (cases "0 < ?size")
    case True
    then have "scan_ok ps (s, h) qs (n + 1) (if bs < ?size then Some p else best) (if bs < ?size then ?size else bs)"
      using assms z n1 by (cases best) (auto simp: scan_ok_def)
    then show thesis using that e True by simp
  next
    case False
    then have "scan_ok ps (s, h) qs n best bs" using assms(1) z by (cases best) (auto simp: scan_ok_def)
    then show thesis using that e False by simp
  qed
qed

lemma scan_alone:
  assumes "run_ok s h" "set qs \<subseteq> set ps" "scan_ok ps (s, h) qs n best bs"
  shows "\<exists>k. (\<exists>b. (try_act rs c ^^ k) (ScanTail qs n best bs, s) = (TWait None (Some b), goto_c c (LoadTail b None) s) \<and> b \<in> set ps \<and> waiting (s, h) b \<noteq> []) \<or>
    (try_act rs c ^^ k) (ScanTail qs n best bs, s) = (TReturned [], s) \<and> (\<forall>p \<in> set ps. waiting (s, h) p = [])"
  using assms(2,3)
proof (induction qs arbitrary: n best bs)
  case Nil
  show ?case
    by (rule exI [of _ 1]) (use Nil in \<open>cases best; auto simp: try_act_def scan_tail_def scan_ok_def\<close>)
next
  case (Cons p qs)
  show ?case
  proof (cases "n < 3")
    case False
    then show ?thesis using Cons.prems(2)
      by (intro exI [of _ 1]) (cases best; auto simp: try_act_def scan_tail_def scan_ok_def)
  next
    case True
    from scan_head_ok [OF Cons.prems(2) assms(1) True] Cons.prems(1) obtain n' best' bs' where
      e: "scan_head p qs n best bs (tailIndex (producers s p)) s = ScanTail qs n' best' bs'" "scan_ok ps (s, h) qs n' best' bs'" by auto
    have "(try_act rs c ^^ 2) (ScanTail (p # qs) n best bs, s) = (ScanTail qs n' best' bs', s)"
      using True e(1) by (simp add: numeral_2_eq_2 try_act_def scan_tail_def)
    from chain_steps [OF this refl] Cons.IH [OF _ e(2)] Cons.prems(1) show ?thesis by (metis set_subset_Cons subset_trans)
  qed
qed

text \<open>With nothing else going on \<^verbatim>\<open>try_dequeue\<close> finds an element exactly when there is one.\<close>

lemma try_alone:
  assumes "calm ps s h" "distinct ps"
  shows "\<exists>n. if \<forall>p \<in> set ps. waiting (s, h) p = [] then fst ((try_act ps c ^^ n) (try_dequeue_begin ps, s)) = TReturned []
    else \<exists>b \<in> set ps. waiting (s, h) b \<noteq> [] \<and> fst ((try_act ps c ^^ n) (try_dequeue_begin ps, s)) = TReturned [hd (waiting (s, h) b)]"
proof -
  have ok: "run_ok s h" using assms(1) by (simp add: calm_def)
  have "scan_ok ps (s, h) ps 0 None 0" by (simp add: scan_ok_def)
  from scan_alone [OF ok _ this, of ps c] obtain k where
    "(\<exists>b. (try_act ps c ^^ k) (try_dequeue_begin ps, s) = (TWait None (Some b), goto_c c (LoadTail b None) s) \<and> b \<in> set ps \<and> waiting (s, h) b \<noteq> []) \<or>
    (try_act ps c ^^ k) (try_dequeue_begin ps, s) = (TReturned [], s) \<and> (\<forall>p \<in> set ps. waiting (s, h) p = [])"
    by (auto simp: try_dequeue_begin_def)
  then show ?thesis
  proof (elim disjE exE conjE)
    fix b assume s1: "(try_act ps c ^^ k) (try_dequeue_begin ps, s) = (TWait None (Some b), goto_c c (LoadTail b None) s)"
      and b: "b \<in> set ps" "waiting (s, h) b \<noteq> []"
    have "calm [b] s h" using assms(1) b(1) by (simp add: calm_def)
    from dequeue_inside [OF this _ _ wait_steps(1), of None c ps None "Some b"] obtain j t h' where
      j: "(try_act ps c ^^ j) (TWait None (Some b), goto_c c (LoadTail b None) s) = (TWait None (Some b), t)"
        "cq_cpc t c = CReady (take 1 (waiting (s, h) b))" unfolding at_most_def option.case by (metis empty_iff empty_set option.distinct(1))
    have "take 1 (waiting (s, h) b) = [hd (waiting (s, h) b)]" using b(2) by (cases "waiting (s, h) b") simp_all
    then have "(try_act ps c ^^ 1) (TWait None (Some b), t) = (TReturned [hd (waiting (s, h) b)], t)" using j(2) by (simp add: try_act_def)
    from chain_steps [OF chain_steps [OF s1 j(1)] this] show ?thesis using b by (metis fst_conv)
  qed (auto intro!: exI [of _ k])
qed

text \<open>\<^verbatim>\<open>size_approx\<close> is exact when nothing else goes on.\<close>

lemma queue_size_exact:
  assumes "run_ok s h" "sum_list (map (\<lambda>p. length (waiting (s, h) p)) ps) < 2 ^ 64"
  shows "unat (queue_size_approx ps s) = sum_list (map (\<lambda>p. length (waiting (s, h) p)) ps)"
proof -
  have f: "fold (\<lambda>p size. size + producer_size_approx (producers s p)) ps z = z + of_nat (sum_list (map (\<lambda>p. length (waiting (s, h) p)) ps))" for z
  proof (induction ps arbitrary: z)
    case (Cons p ps)
    have "producer_size_approx (producers s p) = of_nat (length (waiting (s, h) p))"
      using size_exact [OF assms(1), of p] by (metis of_nat_unat ucast_id)
    then show ?case using Cons.IH by simp
  qed simp
  show ?thesis unfolding queue_size_approx_def f using unat_small [OF assms(2)] by simp
qed

end
