(* ===== verification/ConcurrentQueue_Claims.thy ===== *)
theory ConcurrentQueue_Claims
  imports ConcurrentQueue_Try
begin

text \<open>
  The properties of the lock-free queue, over all runs from a new queue in which any number of
  producers and consumers interleave at each access to shared memory.
\<close>

section \<open>Lemmas\<close>

abbreviation queue_from :: "u64 \<Rightarrow> bool \<Rightarrow> (nat \<Rightarrow> bool) \<Rightarrow> nat option \<Rightarrow> 'a CQ \<times> 'a history \<Rightarrow> bool" where
  "queue_from cap pool ok junk \<equiv> cq_run (new_ConcurrentQueue cap pool ok junk, no_history)"

lemma queue_run_ok: "queue_from cap pool ok junk (s, h) \<Longrightarrow> run_ok s h"
  using queue_run [of cap pool ok junk "(s, h)"] by simp

text \<open>The block whose memory a consumer uses.\<close>

fun uses_block :: "'a cpc \<Rightarrow> 'a dq option" where
  "uses_block (MoveElement d) = Some d"
| "uses_block (SetEmpty d) = Some d"
| "uses_block (Unlink d) = Some d"
| "uses_block (FreeBlock d) = Some d"
| "uses_block _ = None"

lemma used_block:
  assumes inv: "queue_inv s items own g" and d: "uses_block (cq_cpc s c) = Some d"
  obtains b where "own (dq_block d) = Active (dq_producer d) b" "cq_blocks s (dq_block d) \<noteq> None"
    "cq_cpc s c = FreeBlock d \<Longrightarrow> b = ended_block d"
proof -
  let ?p = "dq_producer d" let ?P = "producers s ?p" let ?g = "g ?p"
  note D = producer_okD [OF queue_invD(1) [OF inv, of ?p]]
  note cl = claims_okD [OF D(3)]
  have le: "unat (headIndex ?P) \<le> unat (tailIndex ?P)" by (rule queue_inv_near [OF inv])
  have ok: "dq_ok ?P ?g ?p (cq_cpc s c)" by (rule cl(4))
  have "\<exists>b < nb ?P. b \<notin> g_freed ?g \<and> dq_block d = g_blk ?g b \<and> (cq_cpc s c = FreeBlock d \<longrightarrow> b = ended_block d)"
  proof (cases "cq_cpc s c = Unlink d \<or> cq_cpc s c = FreeBlock d")
    case True
    have "taken_ok ?P d" "at_end ?P ?g d" "ended_block d \<notin> g_freed ?g"
      using ok True D(4) by (auto simp: blocks_ok_def)
    moreover from this(1,2) have "ended_block d < nb ?P"
      using le by (auto simp: ended_block_def taken_ok_def at_end_def Let_def intro!: nblk_div)
    ultimately show ?thesis by (auto simp: at_end_def Let_def)
  next
    case False
    let ?i = "unat (dq_blockStartIndex d)"
    have pc: "cq_cpc s c = MoveElement d \<or> cq_cpc s c = SetEmpty d" using d False by (cases "cq_cpc s c") auto
    have "taken_ok ?P d" "in_block ?P ?g d" using ok pc by auto
    then have i: "?i < last_index d" "last_index d \<le> unat (headIndex ?P)" "dq_block d = g_blk ?g (?i div 32)"
      by (auto simp: in_block_def taken_ok_def Let_def)
    have "?i \<in> pending ?p (cq_cpc s c)" using pc i(1) by auto
    then have "?i \<notin> g_fin ?g" using cl(3) [of c] by blast
    from live_block(1,3) [OF D(2,4) this] i le show ?thesis using False by auto
  qed
  then show thesis using that D(4) by (auto simp: blocks_ok_def)
qed

lemma tail_in_ring:
  assumes ix: "index_ok P g N" and h: "h < length (ip_headers P)"
  shows "bih_tail (ip_headers P ! h) < bih_capacity (ip_headers P ! h)"
proof -
  obtain j where j: "j < 62" "bih_capacity (ip_headers P ! h) = 2 ^ j" using header_okD [OF ix h] by metis
  obtain k where k: "blockIndex P = Some k" using ix h by (cases "blockIndex P") (auto simp: index_ok_def)
  have "\<exists>off b. bih_tail (ip_headers P ! h) = ring off (2 ^ j) b"
    using current_okD(1,10) [OF ix k] current_okD(12) [OF ix k, of h] h j by (cases "h = k") auto
  then show ?thesis using ring_less [of j] j by (auto simp: word_less_nat_alt unat_2p)
qed

section \<open>A run\<close>

text \<open>
  A run of a queue with a pool of one block, for the examples below: a producer enqueues a batch of two elements, a
  consumer takes an index (\<open>demo_y\<close>), finds the block (\<open>demo_b\<close>), then moves the element out (\<open>demo_z\<close>).
\<close>

definition demo_queue :: "nat CQ \<times> nat history" where
  "demo_queue = (new_ConcurrentQueue 32 True (\<lambda>_. True) None, no_history)"

definition demo_put :: "nat move list" where
  "demo_put = EnqueueBulk 0 [7, 8] # replicate 13 (Produce True 0 0)"

definition demo_take :: "nat move list" where
  "demo_take = Dequeue 0 0 None # replicate 5 (Consume 0)"

definition demo_find :: "nat move list" where
  "demo_find = replicate 5 (Consume 0)"

definition demo_move :: "nat move list" where
  "demo_move = replicate 2 (Consume 0)"

definition demo_x :: "nat CQ \<times> nat history" where "demo_x = the (play demo_put demo_queue)"
definition demo_y :: "nat CQ \<times> nat history" where "demo_y = the (play demo_take demo_x)"
definition demo_b :: "nat CQ \<times> nat history" where "demo_b = the (play demo_find demo_y)"
definition demo_z :: "nat CQ \<times> nat history" where "demo_z = the (play demo_move demo_b)"

lemma demo_evaluated: "case play demo_put demo_queue of None \<Rightarrow> False
  | Some x \<Rightarrow> waiting x 0 = [7, 8] \<and> published (snd x) 0 = [7, 8] \<and> dequeueOptimisticCount (producers (fst x) 0) = 0 \<and>
     (case play demo_take x of None \<Rightarrow> False
      | Some y \<Rightarrow> cq_cpc (fst y) 0 = TakeHead 0 None 0 1 \<and>
          (case play demo_find y of None \<Rightarrow> False
           | Some b \<Rightarrow> map_option dq_block (uses_block (cq_cpc (fst b) 0)) = Some 0 \<and>
               (case play demo_move b of None \<Rightarrow> False
                | Some z \<Rightarrow> cq_cpc (fst z) 0 = CReady [7] \<and> delivered (snd z) = [(0, 0, 0, 7)] \<and>
                    length (ip_headers (producers (fst z) 0)) = 1)))"
  by code_simp

lemma demo_plays:
  "play demo_put demo_queue = Some demo_x" "play demo_take demo_x = Some demo_y" "play demo_find demo_y = Some demo_b"
  "play demo_move demo_b = Some demo_z"
  using demo_evaluated unfolding demo_x_def demo_y_def demo_b_def demo_z_def by (auto split: option.splits)

lemma demo_states:
  "waiting demo_x 0 = [7, 8]" "published (snd demo_x) 0 = [7, 8]" "dequeueOptimisticCount (producers (fst demo_x) 0) = 0"
  "cq_cpc (fst demo_y) 0 = TakeHead 0 None 0 1" "cq_cpc (fst demo_z) 0 = CReady [7]" "delivered (snd demo_z) = [(0, 0, 0, 7)]"
  "map_option dq_block (uses_block (cq_cpc (fst demo_b) 0)) = Some 0" "length (ip_headers (producers (fst demo_z) 0)) = 1"
  using demo_evaluated by (simp_all add: demo_plays)

abbreviation demo_from :: "nat CQ \<times> nat history \<Rightarrow> bool" where
  "demo_from \<equiv> queue_from 32 True (\<lambda>_. True) None"

lemma demo_runs: "demo_from demo_x" "demo_from demo_y" "demo_from demo_b" "demo_from demo_z"
proof -
  have step: "demo_from y" if "demo_from x" "play ms x = Some y" for x y ms
    using play_run [OF that(2) _ that(1)] run_ok_range queue_run [OF that(1)] by blast
  show x: "demo_from demo_x" by (rule play_new) (use demo_plays(1) in \<open>simp add: demo_queue_def\<close>)
  show y: "demo_from demo_y" by (rule step [OF x demo_plays(2)])
  show b: "demo_from demo_b" by (rule step [OF y demo_plays(3)])
  show "demo_from demo_z" by (rule step [OF b demo_plays(4)])
qed

lemma demo_idle: "\<exists>out. cq_cpc (fst demo_x) c = CReady out" "\<exists>out. cq_cpc (fst demo_z) c = CReady out"
proof -
  have i: "list_all (idle_in c) demo_put" by (simp add: demo_put_def list_all_iff)
  have new: "cq_cpc (fst demo_queue) c = CReady []" by (simp add: demo_queue_def new_ConcurrentQueue_def Let_def)
  show x: "\<exists>out. cq_cpc (fst demo_x) c = CReady out" using play_idle [OF demo_plays(1) i] new by simp
  show "\<exists>out. cq_cpc (fst demo_z) c = CReady out"
  proof (cases "c = 0")
    case False
    then have i: "list_all (idle_in c) demo_take" "list_all (idle_in c) demo_find" "list_all (idle_in c) demo_move"
      by (simp_all add: demo_take_def demo_find_def demo_move_def list_all_iff)
    show ?thesis using x play_idle [OF demo_plays(2) i(1)] play_idle [OF demo_plays(3) i(2)] play_idle [OF demo_plays(4) i(3)] by simp
  qed (simp add: demo_states)
qed

lemma demo_pairs: "demo_from (fst demo_x, snd demo_x)" "demo_from (fst demo_z, snd demo_z)" "demo_from (fst demo_b, snd demo_b)"
  using demo_runs by simp_all

section \<open>Safety\<close>

text \<open>
  C28. No run of the lock-free queue faults: no thread ever follows a null or dangling pointer, reads a slot
  that holds no element, or breaks an assertion of the code, whatever the interleaving, the outcomes of
  the allocations and the choices of the free list.
\<close>

theorem queue_no_fault:
  assumes "queue_from cap pool ok junk (s, h)"
  shows "cq_ppc s p \<noteq> PFault \<and> cq_cpc s c \<noteq> CFault"
  using no_fault [OF queue_run_ok [OF assms]] by blast

theorem queue_no_fault_witness: "cq_ppc (fst demo_z) 0 \<noteq> PFault \<and> cq_cpc (fst demo_z) 0 \<noteq> CFault"
  by (rule queue_no_fault [OF demo_pairs(2)])

text \<open>
  C29. Each element is delivered at most once and unchanged: the log of the moves has no index of a producer
  twice and the element it names is the one published there. When all consumers have returned, the
  delivered indices of a producer are exactly those below its head, so nothing is skipped, and the tickets
  are the head plus the overcommit.
\<close>

theorem queue_exactly_once:
  assumes "queue_from cap pool ok junk (s, h)"
  shows "distinct (map (\<lambda>(c, p, i, x). (p, i)) (delivered h)) \<and>
    (\<forall>c p i x. (c, p, i, x) \<in> set (delivered h) \<longrightarrow> i < length (published h p) \<and> x = published h p ! i) \<and>
    ((\<forall>c. \<exists>out. cq_cpc s c = CReady out) \<longrightarrow>
      {i. \<exists>c x. (c, p, i, x) \<in> set (delivered h)} = {..< unat (headIndex (producers s p))} \<and>
      unat (dequeueOptimisticCount (producers s p)) = unat (dequeueOvercommit (producers s p)) + unat (headIndex (producers s p)))"
proof (intro conjI impI allI)
  note ok = queue_run_ok [OF assms]
  show "distinct (map (\<lambda>(c, p, i, x). (p, i)) (delivered h))" using ok by (auto simp: run_ok_def log_ok_def)
  have log: "log_ok (heads s) (unreads s) (published h) (delivered h)" using ok by (simp add: run_ok_def)
  show "i < length (published h p)" "x = published h p ! i" if "(c, p, i, x) \<in> set (delivered h)" for c p i x
    using log_okD [OF log that] by simp_all
  assume "\<forall>c. \<exists>out. cq_cpc s c = CReady out"
  then have idle: "\<And>c. \<exists>out. cq_cpc s c = CReady out" by blast
  have "unreads s p c = {}" for c using idle [of c] by (auto simp: unreads_def)
  then show "{i. \<exists>c x. (c, p, i, x) \<in> set (delivered h)} = {..< unat (headIndex (producers s p))}"
    using log_okD(1) [OF log] log_ok_cover [OF log, of _ p] by (fastforce simp: heads_def)
  show "unat (dequeueOptimisticCount (producers s p)) = unat (dequeueOvercommit (producers s p)) + unat (headIndex (producers s p))"
    by (rule idle_counters [OF ok idle])
qed

theorem queue_exactly_once_witness: "{i. \<exists>c x. (c, 0, i, x) \<in> set (delivered (snd demo_z))} = {..< unat (headIndex (producers (fst demo_z) 0))}
    \<and> delivered (snd demo_z) = [(0, 0, 0, 7)]"
  using queue_exactly_once [OF demo_pairs(2), of 0] demo_idle(2) demo_states(6) by simp

text \<open>
  C30. The lock-free queue refines one first-in-first-out queue per producer: each step of a run appends what it
  publishes to the queue of its producer, or takes as many elements as it grants from the front of one,
  and leaves the other queues alone; it never takes more than there is.
\<close>

theorem queue_refines:
  assumes "queue_from cap pool ok junk x" and "cq_does x e y"
  shows "mq_apply e (waiting x) = Some (waiting y)"
  using does_event [OF assms(2)] queue_run [OF assms(1)] by simp

theorem queue_refines_witness: "mq_apply (Take 0 1) (waiting demo_y) = Some (waiting (moved (Consume 0) demo_y))"
proof -
  have "cq_does demo_y (Take 0 1) (moved (Consume 0) demo_y)"
    using does_consume [of "fst demo_y" "snd demo_y" 0] moved.simps(5) [of 0 "fst demo_y" "snd demo_y"] demo_states(4)
    by (simp add: consume_event_def del: moved.simps)
  then show ?thesis by (rule queue_refines [OF demo_runs(2)])
qed

text \<open>
  C31. A consumer gets the elements of a producer in the order in which they were published, over all its calls, and
  what a single call returns is a contiguous piece of what one producer published.
\<close>

theorem dequeue_in_order:
  assumes "queue_from cap pool ok junk (s, h)"
  shows "sorted_wrt (\<lambda>(c, p, i, x) (c', p', j, y). c = c' \<and> p = p' \<longrightarrow> i < j) (delivered h) \<and>
    (\<forall>c out. cq_cpc s c = CReady out \<longrightarrow> (\<exists>p i j. j \<le> length (published h p) \<and> out = drop i (take j (published h p))))"
proof (intro conjI allI impI)
  note ok = queue_run_ok [OF assms]
  show "sorted_wrt (\<lambda>(c, p, i, x) (c', p', j, y). c = c' \<and> p = p' \<longrightarrow> i < j) (delivered h)" using ok by (simp add: run_ok_def log_ok_def)
  fix c out assume "cq_cpc s c = CReady out"
  moreover have "result_ok (published h) (cq_cpc s c)" using ok by (simp add: run_ok_def)
  ultimately show "\<exists>p i j. j \<le> length (published h p) \<and> out = drop i (take j (published h p))" by (auto simp: piece_def)
qed

theorem dequeue_in_order_witness: "\<exists>p i j. j \<le> length (published (snd demo_z) p) \<and> [7] = drop i (take j (published (snd demo_z) p))"
  using dequeue_in_order [OF demo_pairs(2)] demo_states(5) by blast





text \<open>
  C34. The block index of a producer stays well typed: every header has a capacity that is a power of two and as many
  slots, its tail is one of them and each slot names an entry that exists; the current header is the last one, its
  slots are distinct and the next one will have twice its capacity.
\<close>

theorem index_well_typed:
  assumes "queue_from cap pool ok junk (s, h)"
  shows "(\<forall>H \<in> set (ip_headers (producers s p)). (\<exists>j. 5 \<le> j \<and> j < 62 \<and> bih_capacity H = 2 ^ j \<and> length (bih_index H) = 2 ^ j) \<and>
      bih_tail H < bih_capacity H \<and> (\<forall>e \<in> set (bih_index H). e < length (ip_entries (producers s p)))) \<and>
    (case blockIndex (producers s p) of None \<Rightarrow> ip_headers (producers s p) = []
     | Some k \<Rightarrow> Suc k = length (ip_headers (producers s p)) \<and> distinct (bih_index (ip_headers (producers s p) ! k)) \<and>
         nextBlockIndexCapacity (producers s p) = 2 * bih_capacity (ip_headers (producers s p) ! k))"
proof
  let ?P = "producers s p"
  obtain own g where inv: "queue_inv s (published h) own g" using queue_run_ok [OF assms] by (rule run_okD)
  note ix = producer_okD(1) [OF queue_invD(1) [OF inv, of p]]
  have "(\<exists>j. 5 \<le> j \<and> j < 62 \<and> bih_capacity (ip_headers ?P ! i) = 2 ^ j \<and> length (bih_index (ip_headers ?P ! i)) = 2 ^ j) \<and>
      bih_tail (ip_headers ?P ! i) < bih_capacity (ip_headers ?P ! i) \<and> (\<forall>e \<in> set (bih_index (ip_headers ?P ! i)). e < length (ip_entries ?P))"
    if "i < length (ip_headers ?P)" for i using tail_in_ring [OF ix that] by (rule_tac header_okD [OF ix that]) blast
  then show "\<forall>H \<in> set (ip_headers ?P). (\<exists>j. 5 \<le> j \<and> j < 62 \<and> bih_capacity H = 2 ^ j \<and> length (bih_index H) = 2 ^ j) \<and>
      bih_tail H < bih_capacity H \<and> (\<forall>e \<in> set (bih_index H). e < length (ip_entries ?P))" by (metis in_set_conv_nth)
  show "case blockIndex ?P of None \<Rightarrow> ip_headers ?P = []
     | Some k \<Rightarrow> Suc k = length (ip_headers ?P) \<and> distinct (bih_index (ip_headers ?P ! k)) \<and>
         nextBlockIndexCapacity ?P = 2 * bih_capacity (ip_headers ?P ! k)"
    using current_okD(1,4,5) [OF ix] ix by (auto simp: index_ok_def split: option.split)
qed

theorem index_well_typed_witness: "bih_tail (ip_headers (producers (fst demo_z) 0) ! 0) < bih_capacity (ip_headers (producers (fst demo_z) 0) ! 0)"
proof -
  have "ip_headers (producers (fst demo_z) 0) ! 0 \<in> set (ip_headers (producers (fst demo_z) 0))" using demo_states(8) by (intro nth_mem) simp
  then show ?thesis using index_well_typed [OF demo_pairs(2), of 0] by blast
qed

text \<open>
  C35. The calls that go over all producers, when nothing else goes on: \<^verbatim>\<open>try_dequeue\<close> returns nothing exactly when all
  producers are empty, and else the next element of one of them; \<^verbatim>\<open>try_dequeue_bulk\<close> returns as many elements as asked
  for, or all, producer after producer; and \<^verbatim>\<open>size_approx\<close> is the number of elements. All of them return.
\<close>

theorem try_calls_alone:
  assumes "queue_from cap pool ok junk (s, h)" and "\<And>c. \<exists>out. cq_cpc s c = CReady out" and "distinct ps"
    and "\<And>p. p \<in> set ps \<Longrightarrow> unat (dequeueOptimisticCount (producers s p)) + length (published h p) < 2 ^ 62"
    and "sum_list (map (\<lambda>p. length (waiting (s, h) p)) ps) < 2 ^ 64" and "mx \<noteq> 0"
  shows "(\<exists>n. if \<forall>p \<in> set ps. waiting (s, h) p = [] then fst ((try_act ps c ^^ n) (try_dequeue_begin ps, s)) = TReturned []
      else \<exists>b \<in> set ps. waiting (s, h) b \<noteq> [] \<and> fst ((try_act ps c ^^ n) (try_dequeue_begin ps, s)) = TReturned [hd (waiting (s, h) b)]) \<and>
    (\<exists>n. fst ((try_act ps c ^^ n) (try_dequeue_bulk_begin ps mx, s)) = TReturned (take (unat mx) (concat (map (waiting (s, h)) ps)))) \<and>
    unat (queue_size_approx ps s) = sum_list (map (\<lambda>p. length (waiting (s, h) p)) ps)"
proof -
  have ok: "run_ok s h" by (rule queue_run_ok [OF assms(1)])
  then have calm: "calm ps s h" using assms(2,4) by (simp add: calm_def)
  show ?thesis using try_alone [OF calm assms(3), of c] bulk_alone [OF calm assms(3,6), of ps c "[]"] queue_size_exact [OF ok assms(5)]
    by (simp add: try_dequeue_bulk_begin_def)
qed

theorem try_calls_alone_witness:
  "(\<exists>n. fst ((try_act [0] 0 ^^ n) (try_dequeue_begin [0], fst demo_x)) = TReturned [7]) \<and>
   (\<exists>n. fst ((try_act [0] 0 ^^ n) (try_dequeue_bulk_begin [0] 5, fst demo_x)) = TReturned [7, 8]) \<and>
   unat (queue_size_approx [0] (fst demo_x)) = 2"
  using try_calls_alone [OF demo_pairs(1) demo_idle(1), of "[0]" 5 0] by (simp add: demo_states)

end
