(* ===== verification/Spec2Isabelle.thy ===== *)
theory Spec2Isabelle
  imports OrderBook_Claims UserManager_Claims Repositories_Claims TcpServer Business_Props System_Claims
    Client_Props Logger ThreadPool BlockingQueue ConcurrentQueue_Claims
begin

text \<open>
  A verification of a stock exchange server in C++ and of its load-test client.

  \<^bold>\<open>The program.\<close> A client sends length-prefixed packets over TCP. \<^verbatim>\<open>TcpServer\<close> accepts connections
  and hands readable ones to a thread pool; \<^verbatim>\<open>MyEchoBusiness\<close> in \<^verbatim>\<open>main.cpp\<close> cuts the byte stream into
  packets and asks a \<^verbatim>\<open>Router\<close> for the handler. A handler for a trade freezes money or shares of the
  account in memory (\<^verbatim>\<open>UserManager\<close>) and queues the order for the log. The thread of \<^verbatim>\<open>WALManager\<close>
  writes the log and passes the events to the \<^verbatim>\<open>MatchingEngine\<close>, which has one \<^verbatim>\<open>OrderBookProcessor\<close>
  with its own thread and queue per stock. It matches orders in its \<^verbatim>\<open>OrderBook\<close> and passes trades and
  cancellations to the clearing thread, \<^verbatim>\<open>SettlementProcessor\<close>, which books them in MySQL and moves the
  frozen assets, and trades to \<^verbatim>\<open>MarketDataPublisher\<close>, which sends them to Redis.

  \<^bold>\<open>Theories and sources\<close> (under \<^verbatim>\<open>src/include\<close> and \<^verbatim>\<open>src/src\<close>).

  \<^item> \<open>Prelude\<close>: byte codecs, C strings, \<^verbatim>\<open>std::map\<close> and \<^verbatim>\<open>std::unordered_map\<close>, the locales
    \<open>fixed_codec\<close> and \<open>ordered_map\<close>. \<open>Text\<close>: numbers as text, \<^verbatim>\<open>stoi\<close> and relatives with their
    exceptions. \<open>Prog\<close>: stateful code that can throw, block or run into undefined behaviour.
  \<^item> \<open>Common\<close>: \<^verbatim>\<open>Common.hpp\<close>, \<^verbatim>\<open>EngineEvent.hpp\<close>. \<open>OrderBook\<close>: \<^verbatim>\<open>OrderBook.hpp\<close>; \<open>OrderBook_Spec\<close> the
    reference matcher on priority lists and the locales of one side of a book; \<open>OrderBook_Inv\<close> the
    invariant of a book; \<open>OrderBook_Props\<close> and \<open>OrderBook_Claims\<close> the properties.
  \<^item> \<open>Pools\<close>: \<^verbatim>\<open>DBPool\<close>, \<^verbatim>\<open>RedisPool\<close> with the locale \<open>connection_pool\<close>. \<open>Database\<close>: what the code uses
    of the MySQL client. \<open>Repositories\<close>: \<^verbatim>\<open>Repositories.h\<close> and the two implementations; \<open>documented_mysql\<close>
    in \<open>Repositories_Props\<close> states what MySQL promises, and a model on tables satisfies it.
  \<^item> \<open>TickerManager\<close>, \<open>OrderIdGenerator\<close>, \<open>UserManager\<close> (with \<open>_Props\<close> and \<open>_Claims\<close>): the headers of the
    same names; the locale \<open>account_store\<close>.
  \<^item> \<open>Protocol\<close>: the packed structs of \<^verbatim>\<open>Protocol.hpp\<close>. \<open>Sessions\<close>: \<^verbatim>\<open>Router.hpp\<close>, \<^verbatim>\<open>SessionManager.hpp\<close>.
    \<open>Timer\<close>, \<open>TcpServer\<close>: \<^verbatim>\<open>TimerManager.hpp\<close>, \<^verbatim>\<open>TcpServer.cpp\<close>.
  \<^item> \<open>SettlementProcessor\<close>, \<open>MarketDataPublisher\<close>, \<open>OrderBookProcessor\<close>, \<open>MatchingEngine\<close>, \<open>WALManager\<close>:
    one round of each thread loop and the operations that other threads call.
  \<^item> \<open>Handlers\<close>: \<^verbatim>\<open>Handler.hpp\<close>, all thirteen handlers on one record of the server's singletons.
    \<open>Business\<close>: \<^verbatim>\<open>main.cpp\<close>, with framing, dispatch, sending and the start-up; \<open>Business_Props\<close>.
  \<^item> \<open>Clearing\<close>, \<open>Batches\<close>: a book event and a batch conserve what orders claim (\<open>order_weight\<close>).
    \<open>System\<close>: the server as a transition system; \<open>System_Inv\<close>, \<open>System_Props\<close> its invariant;
    \<open>Ledger\<close> the locales \<open>ledger\<close> and \<open>wealth\<close>; \<open>System_Claims\<close> the properties of whole runs.
  \<^item> \<open>Client\<close>, \<open>Client_Props\<close>: \<^verbatim>\<open>client.cpp\<close>. \<open>Logger\<close>, \<open>ThreadPool\<close>: the headers of these names.
    \<open>Semaphore\<close>, \<open>BlockingQueue\<close>: \<^verbatim>\<open>lightweightsemaphore.h\<close> and \<^verbatim>\<open>blockingconcurrentqueue.h\<close>, with
    threads interleaved at each atomic operation.
  \<^item> \<open>ConcurrentQueue\<close>: the lock-free queue of \<^verbatim>\<open>concurrentqueue.h\<close>, whose threads are program counters that
    interleave at each access to shared memory. \<open>MultiQueue\<close>: what such a queue promises, as the locale
    \<open>multi_queue\<close>, one sequence per producer; both queues interpret it. The proof: \<open>_Tickets\<close> the counters
    by which consumers share the elements, \<open>_Ring\<close> and \<open>_Index\<close> the block index, \<open>_Inv\<close> the invariant with
    its ghost state, \<open>_Frames\<close> what steps leave alone, \<open>_Dequeue\<close>, \<open>_Requests\<close>, \<open>_Blocks\<close>, \<open>_Enqueue\<close>
    the steps of consumers and producers, \<open>_Runs\<close> whole runs, \<open>_Progress\<close> that a dequeue returns,
    \<open>_Refine\<close> the interpretation and schedules, \<open>_Try\<close> the calls that go over all producers, \<open>_Claims\<close> the
    properties.

  \<^bold>\<open>What is shown.\<close>

  \<^item> Runs of the server: frozen assets are exactly what live orders and pending records need (C1),
    money and shares are conserved up to deposits (C2), books stay well formed and each order is in
    one place (C3), by rule induction over \<open>sys_step\<close>; the outcome of a trade request (C38), the log (C39).
  \<^item> The book (C4 to C10): the invariant, equality with the reference matcher, conservation of
    quantity, limits, price-time priority, cancelling; queries are lemmas of \<open>OrderBook_Claims\<close>.
  \<^item> Accounts and database (C11 to C13, C15 to C19): freezing, names, loading, ids, repositories on
    documented MySQL and on a failing one. Committing, pools and queries of accounts are lemmas.
  \<^item> Network and client (C14, C20 to C25): framing does not depend on chunks, both programs agree on
    the protocol, publishing, timers and sessions.
  \<^item> The lock-free queue (C28 to C35), for any number of threads and every interleaving: no fault and no
    broken assertion, each element delivered exactly once, refinement of one sequence per producer,
    order, no block freed twice or used after it was freed, a dequeue returns, the block index stays
    well typed, and what the calls over all producers return when they run alone. That counters are
    compared correctly across a wrap-around is \<open>circular_less_than_near\<close>.
  \<^item> Other concurrency (C26, C27, C36, C37): no lost wake-up and no invented permit in the semaphore, the
    blocking queue, the logger and the thread pool.
  \<^item> What the code does not do, proved as stated: ids beyond 32 bits cannot be cancelled (C10), no
    shares are loaded (C13), failing deductions succeed (C17), live connections are never cleaned
    up (C22, C23), no request reaches a handler (C40).

  \<^bold>\<open>Conventions.\<close> Machine integers are words, so sums and products wrap as in the code; signed
  comparisons use \<open>sint\<close>. Orders are shared by pointer, so they live in a heap that maps addresses to
  orders. Outside input is an argument: clock readings, results of \<^verbatim>\<open>recv\<close>, \<^verbatim>\<open>send\<close>, \<^verbatim>\<open>epoll_wait\<close> and
  \<^verbatim>\<open>fwrite\<close>, MySQL, Redis, the JSON parser, random numbers, uninitialised memory. All functions are
  total: loops are structural recursions or have a measure; where a script of outside results ends
  while the code still waits, the result says so. There is no fuel.

  \<^bold>\<open>Assumptions.\<close> The queues between the threads of the server are the sequences of their elements.
  \<open>multi_queue\<close> promises the order of each producer only, so statements about order are about that
  sequence; the invariants of C1 to C3 hold whichever element a consumer gets next, as \<open>sys_step\<close> lets
  elements overtake each other. In \<open>sys_step\<close> a round of a thread is one step: a round works on data that
  only its thread writes, on queues, and on accounts under their locks. Runs require that a generated id
  is not in use; C15 says when that holds. Requests in \<open>sys_step\<close> take the routes that \<^verbatim>\<open>main\<close> registers, as
  intended; C40 says what happens with the router that is asked in fact. Runs of the lock-free queue are
  sequentially consistent and end before a counter reaches \<open>2\<^sup>62\<close>, which the library relies on too;
  allocations may fail at any point.

  \<^bold>\<open>Not modelled.\<close> \<^verbatim>\<open>json.hpp\<close> is a vendored library of which the server uses one call. Of
  \<^verbatim>\<open>concurrentqueue.h\<close>, explicit producers and tokens, which the server does not use, the table that finds the
  producer of a thread, the inside of the free list (its two operations are single steps, and any free
  block may be handed out), weak memory orders,
  destructors and constructors of elements that throw. The Python agent is outside of the C++ program.
  The Windows and Mach branches of the semaphore are not compiled on the target. The printed report of
  the client and the text of log messages at the call sites have no effect on the state. Mutexes are not
  modelled where a method holds one for its whole body.
\<close>

end
